(* ===== verification/Stack_Prelude.thy ===== *)
theory Stack_Prelude
  imports Main "HOL-Library.Word"
begin

text \<open>
  Shared vocabulary of the development: machine integers, Rust's \<open>Result\<close> as a sum type
  with the error on the left, saturating arithmetic, generic lemmas on lists and maps, and an
  interface for stateful components with an invariant.  Rust strings are in \<open>Rust_Str\<close>.
\<close>

named_theorems guest_simps \<open>equations of the guest ABI\<close>
named_theorems cache_simps \<open>equations of the keyset cache\<close>
named_theorems auth_simps \<open>equations of the token refresh engine\<close>

section \<open>Machine integers\<close>

type_synonym u8 = "8 word"
type_synonym u16 = "16 word"
type_synonym u32 = "32 word"
type_synonym u64 = "64 word"
type_synonym bytes = "8 word list"

text \<open>\<open>u64::saturating_add\<close> and \<open>u64::saturating_sub\<close>.\<close>

definition sat_add :: "u64 \<Rightarrow> u64 \<Rightarrow> u64" where
  "sat_add a b = (if unat a + unat b < 2 ^ 64 then a + b else 18446744073709551615)"

definition sat_sub :: "u64 \<Rightarrow> u64 \<Rightarrow> u64" where
  "sat_sub a b = (if a < b then 0 else a - b)"

lemma unat_sat_add: "unat (sat_add a b) = min (unat a + unat b) (2 ^ 64 - 1)"
proof (cases "unat a + unat b < 2 ^ 64")
  case True
  then have "unat (a + b) = unat a + unat b"
    by (simp add: unat_word_ariths)
  with True show ?thesis by (simp add: sat_add_def)
next
  case False
  then show ?thesis by (simp add: sat_add_def min_def)
qed

lemma unat_sat_sub: "unat (sat_sub a b) = unat a - unat b"
  by (simp add: sat_sub_def unat_sub_if_size word_less_nat_alt word_size)

section \<open>Results\<close>

type_synonym ('e, 'a) result = "'e + 'a"

definition and_then :: "('e, 'a) result \<Rightarrow> ('a \<Rightarrow> ('e, 'b) result) \<Rightarrow> ('e, 'b) result" where
  "and_then r f = (case r of Inl e \<Rightarrow> Inl e | Inr x \<Rightarrow> f x)"

definition ok_or :: "'a option \<Rightarrow> 'e \<Rightarrow> ('e, 'a) result" where
  "ok_or opt e = (case opt of None \<Rightarrow> Inl e | Some x \<Rightarrow> Inr x)"

definition is_ok :: "('e, 'a) result \<Rightarrow> bool" where
  "is_ok r = (case r of Inl _ \<Rightarrow> False | Inr _ \<Rightarrow> True)"

lemma and_then_simps [simp]:
  "and_then (Inl e) f = Inl e"
  "and_then (Inr x) f = f x"
  by (simp_all add: and_then_def)

lemma ok_or_simps [simp]:
  "ok_or None e = Inl e"
  "ok_or (Some x) e = Inr x"
  by (simp_all add: ok_or_def)

lemma is_ok_simps [simp]:
  "\<not> is_ok (Inl e)"
  "is_ok (Inr x)"
  by (simp_all add: is_ok_def)

lemma and_then_Inr_iff: "and_then r f = Inr y \<longleftrightarrow> (\<exists>x. r = Inr x \<and> f x = Inr y)"
  by (cases r) auto

lemma and_then_Inl_iff:
  "and_then r f = Inl e \<longleftrightarrow> r = Inl e \<or> (\<exists>x. r = Inr x \<and> f x = Inl e)"
  by (cases r) auto

lemma ok_or_Inr_iff: "ok_or opt e = Inr x \<longleftrightarrow> opt = Some x"
  by (cases opt) auto

lemma map_sum_Inr_iff: "map_sum f g r = Inr y \<longleftrightarrow> (\<exists>x. r = Inr x \<and> y = g x)"
  by (cases r) auto

lemma map_sum_Inl_iff: "map_sum f g r = Inl y \<longleftrightarrow> (\<exists>x. r = Inl x \<and> y = f x)"
  by (cases r) auto

text \<open>\<open>collect::<Result<Vec<_>, _>>()\<close>: the first error stops the iteration.\<close>

fun collect :: "('a \<Rightarrow> ('e, 'b) result) \<Rightarrow> 'a list \<Rightarrow> ('e, 'b list) result" where
  "collect f [] = Inr []"
| "collect f (x # xs) =
     (case f x of Inl e \<Rightarrow> Inl e
      | Inr y \<Rightarrow> (case collect f xs of Inl e \<Rightarrow> Inl e | Inr ys \<Rightarrow> Inr (y # ys)))"

lemma collect_cong [fundef_cong]:
  "xs = ys \<Longrightarrow> (\<And>x. x \<in> set ys \<Longrightarrow> f x = g x) \<Longrightarrow> collect f xs = collect g ys"
  by (induction ys arbitrary: xs) (auto split: sum.splits)

lemma collect_Inr_iff:
  "collect f xs = Inr ys \<longleftrightarrow> list_all2 (\<lambda>x y. f x = Inr y) xs ys"
proof (induction xs arbitrary: ys)
  case Nil
  then show ?case by auto
next
  case (Cons x xs)
  show ?case
  proof (cases "f x")
    case (Inl e)
    then show ?thesis by (auto simp: list_all2_Cons1)
  next
    case (Inr y)
    with Cons show ?thesis
      by (cases "collect f xs") (auto simp: list_all2_Cons1 simp flip: Cons.IH)
  qed
qed

lemma collect_all_ok: "(\<And>x. x \<in> set xs \<Longrightarrow> f x = Inr (g x)) \<Longrightarrow> collect f xs = Inr (map g xs)"
  by (induction xs) auto

lemma collect_map: "collect f (map g xs) = collect (\<lambda>x. f (g x)) xs"
  by (induction xs) (simp_all split: sum.split)

lemma collect_append:
  "collect h (a @ b) = and_then (collect h a) (\<lambda>ys. map_sum (\<lambda>e. e) (\<lambda>zs. ys @ zs) (collect h b))"
proof (induction a)
  case Nil
  show ?case by (cases "collect h b") simp_all
next
  case (Cons x a)
  then show ?case by (cases "h x"; cases "collect h a"; cases "collect h b") simp_all
qed

lemma collect_map_error: "map_sum g (\<lambda>ys. ys) (collect h xs) = collect (\<lambda>x. map_sum g (\<lambda>y. y) (h x)) xs"
proof (induction xs)
  case (Cons x xs)
  then show ?case by (cases "h x"; cases "collect h xs") (simp_all flip: Cons.IH)
qed simp

lemma collect_InlD: "collect f xs = Inl e \<Longrightarrow> \<exists>x \<in> set xs. f x = Inl e"
  by (induction xs) (auto split: sum.splits)

lemma collect_Inr_all_ok: "collect f xs = Inr ys \<Longrightarrow> x \<in> set xs \<Longrightarrow> is_ok (f x)"
  by (induction xs arbitrary: ys) (auto split: sum.splits)

lemma collect_length: "collect f xs = Inr ys \<Longrightarrow> length ys = length xs"
  by (metis collect_Inr_iff list_all2_lengthD)

section \<open>Association lists as hash maps\<close>

text \<open>
  A hash map whose size or iteration matters is an association list with distinct keys;
  the order of the list stands for the iteration order, which the code leaves open.
\<close>

definition al_put :: "'k \<Rightarrow> 'v \<Rightarrow> ('k \<times> 'v) list \<Rightarrow> ('k \<times> 'v) list" where
  "al_put k v xs = (k, v) # filter (\<lambda>e. fst e \<noteq> k) xs"

definition al_remove :: "'k \<Rightarrow> ('k \<times> 'v) list \<Rightarrow> ('k \<times> 'v) list" where
  "al_remove k xs = filter (\<lambda>e. fst e \<noteq> k) xs"

lemma map_of_filter_neq: "map_of (filter (\<lambda>e. fst e \<noteq> p) xs) = (map_of xs)(p := None)"
  by (induction xs) (auto simp: fun_eq_iff)

lemma map_of_al_put [simp]: "map_of (al_put k v xs) = (map_of xs)(k \<mapsto> v)"
  by (simp add: al_put_def map_of_filter_neq)

lemma map_of_al_remove [simp]: "map_of (al_remove k xs) = (map_of xs)(k := None)"
  by (simp add: al_remove_def map_of_filter_neq)

lemma keys_al_put [simp]: "fst ` set (al_put k v xs) = insert k (fst ` set xs)"
  by (auto simp: al_put_def)

lemma keys_al_remove [simp]: "fst ` set (al_remove k xs) = fst ` set xs - {k}"
  by (auto simp: al_remove_def)

lemma distinct_al_remove [simp]: "distinct (map fst xs) \<Longrightarrow> distinct (map fst (al_remove k xs))"
  by (simp add: al_remove_def distinct_map_filter)

lemma distinct_al_put [simp]: "distinct (map fst xs) \<Longrightarrow> distinct (map fst (al_put k v xs))"
  by (auto simp: al_put_def distinct_map_filter)

lemma length_al_remove: "distinct (map fst xs) \<Longrightarrow>
    length (al_remove k xs) = (if k \<in> fst ` set xs then length xs - 1 else length xs)"
proof (induction xs)
  case (Cons x xs)
  show ?case
  proof (cases "fst x = k")
    case True
    with Cons.prems have "\<forall>e \<in> set xs. fst e \<noteq> k" by (metis image_eqI distinct.simps(2) list.map(2) list.set_map)
    then have "filter (\<lambda>e. fst e \<noteq> k) xs = xs" by simp
    with True show ?thesis by (simp add: al_remove_def)
  next
    case False
    with Cons show ?thesis
      by (cases xs) (auto simp: al_remove_def)
  qed
qed (simp add: al_remove_def)

lemma length_al_put: "distinct (map fst xs) \<Longrightarrow>
    length (al_put k v xs) = (if k \<in> fst ` set xs then length xs else Suc (length xs))"
proof -
  assume d: "distinct (map fst xs)"
  have "xs \<noteq> []" if "k \<in> fst ` set xs" using that by auto
  then show ?thesis
    using length_al_remove [OF d, of k] by (auto simp: al_put_def al_remove_def)
qed

section \<open>The entry with the least key\<close>

text \<open>\<open>min_by_key\<close>: the first of the entries whose key is least.\<close>

fun min_by_key :: "('a \<Rightarrow> nat) \<Rightarrow> 'a list \<Rightarrow> 'a option" where
  "min_by_key key [] = None"
| "min_by_key key (x # xs) =
     (case min_by_key key xs of
        None \<Rightarrow> Some x
      | Some y \<Rightarrow> if key x \<le> key y then Some x else Some y)"

lemma min_by_key_Some: "xs \<noteq> [] \<Longrightarrow> \<exists>y. min_by_key key xs = Some y"
  by (cases xs) (auto split: option.split)

lemma min_by_key_least:
  "min_by_key key xs = Some y \<Longrightarrow> y \<in> set xs \<and> (\<forall>x \<in> set xs. key y \<le> key x)"
proof (induction xs arbitrary: y)
  case (Cons x xs)
  show ?case
  proof (cases "min_by_key key xs")
    case None
    then have "xs = []" using min_by_key_Some [of xs key] by (cases "xs = []") auto
    with Cons.prems show ?thesis by simp
  next
    case (Some z)
    with Cons.IH [OF Some] Cons.prems show ?thesis by (auto split: if_splits)
  qed
qed simp

section \<open>Components with an invariant\<close>

text \<open>
  A component is a state type, a set of start states and an operation per event; the laws
  its provider promises are that the invariant holds at the start and that every operation
  allowed by its guard keeps it. The client's fact, proved once here, is that the
  invariant holds after every sequence of allowed operations.
\<close>

fun run_ops :: "('op \<Rightarrow> 's \<Rightarrow> 's) \<Rightarrow> 'op list \<Rightarrow> 's \<Rightarrow> 's" where
  "run_ops step [] s = s"
| "run_ops step (x # xs) s = run_ops step xs (step x s)"

fun ops_ok :: "('op \<Rightarrow> 's \<Rightarrow> bool) \<Rightarrow> ('op \<Rightarrow> 's \<Rightarrow> 's) \<Rightarrow> 'op list \<Rightarrow> 's \<Rightarrow> bool" where
  "ops_ok guard step [] s = True"
| "ops_ok guard step (x # xs) s = (guard x s \<and> ops_ok guard step xs (step x s))"

locale component =
  fixes step :: "'op \<Rightarrow> 's \<Rightarrow> 's"
    and guard :: "'op \<Rightarrow> 's \<Rightarrow> bool"
    and invar :: "'s \<Rightarrow> bool"
  assumes step_invar: "invar s \<Longrightarrow> guard x s \<Longrightarrow> invar (step x s)"
begin

lemma run_invar: "invar s \<Longrightarrow> ops_ok guard step xs s \<Longrightarrow> invar (run_ops step xs s)"
  by (induction xs arbitrary: s) (auto intro: step_invar)

end

end
