(* ===== verification/Guest_Buffers.thy ===== *)
theory Guest_Buffers
  imports Stack_Prelude
begin

text \<open>
  The guest-owned buffer registry of \<open>packages/stack-guest-abi/src/buffers.rs\<close>: linear
  memory, the registry of sized buffers keyed by their start address, and the count of live
  empty buffers, with \<open>alloc\<close>, \<open>register\<close>, \<open>reclaim\<close>, \<open>dealloc\<close>,
  \<open>take\<close> and \<open>wipe_all\<close>. The allocator is an argument: an operation that allocates
  takes the address the allocator returned, and \<open>fresh_block\<close> states what the
  allocator promises of it. Pointers are wasm32 addresses.
\<close>

section \<open>Linear memory\<close>

type_synonym ptr = "32 word"
type_synonym memory = "32 word \<Rightarrow> 8 word"

definition in_block :: "ptr \<Rightarrow> nat \<Rightarrow> ptr \<Rightarrow> bool" where
  "in_block p n a = (unat (a - p) < n)"

definition read_range :: "memory \<Rightarrow> ptr \<Rightarrow> nat \<Rightarrow> bytes" where
  "read_range m p n = map (\<lambda>i. m (p + word_of_nat i)) [0..<n]"

definition write_range :: "memory \<Rightarrow> ptr \<Rightarrow> bytes \<Rightarrow> memory" where
  "write_range m p bs = (\<lambda>a. if in_block p (length bs) a then bs ! unat (a - p) else m a)"

definition zero_range :: "memory \<Rightarrow> ptr \<Rightarrow> nat \<Rightarrow> memory" where
  "zero_range m p n = (\<lambda>a. if in_block p n a then 0 else m a)"

definition blocks_disjoint :: "ptr \<Rightarrow> nat \<Rightarrow> ptr \<Rightarrow> nat \<Rightarrow> bool" where
  "blocks_disjoint p n q k \<longleftrightarrow> unat p + n \<le> unat q \<or> unat q + k \<le> unat p"

section \<open>The registry\<close>

text \<open>
  \<open>BUFFERS\<close> is an association list with distinct keys; its order stands for the hash
  map's iteration order. \<open>EMPTY_BUFFERS\<close> is a \<open>usize\<close> counter, 32 bits wide on
  wasm32. \<open>LAST\<close> is the slot of \<open>last_error.rs\<close>, which \<open>wipe_all\<close> empties.
\<close>

record recorded =
  rec_ptr :: ptr
  rec_len :: nat
  rec_status :: u32

record guest =
  mem :: memory
  BUFFERS :: "(ptr \<times> nat) list"
  EMPTY_BUFFERS :: "32 word"
  LAST :: "recorded option"

definition empty_ptr :: ptr where
  "empty_ptr = 1"

definition register :: "ptr \<Rightarrow> bytes \<Rightarrow> guest \<Rightarrow> ptr \<times> guest" where
  "register p buf s =
     (if buf = [] then (empty_ptr, s\<lparr>EMPTY_BUFFERS := EMPTY_BUFFERS s + 1\<rparr>)
      else (p, s\<lparr>mem := write_range (mem s) p buf,
                 BUFFERS := (p, length buf) # filter (\<lambda>e. fst e \<noteq> p) (BUFFERS s)\<rparr>))"

definition alloc :: "ptr option \<Rightarrow> nat \<Rightarrow> guest \<Rightarrow> ptr \<times> guest" where
  "alloc reserved len s =
     (case reserved of None \<Rightarrow> (0, s)
      | Some p \<Rightarrow> register p (replicate len 0) s)"

definition reclaim :: "ptr \<Rightarrow> nat \<Rightarrow> guest \<Rightarrow> bytes option \<times> guest" where
  "reclaim p len s =
     (if p = 0 then (None, s)
      else if len = 0 \<and> p = empty_ptr then
        (if EMPTY_BUFFERS s > 0
         then (Some [], s\<lparr>EMPTY_BUFFERS := EMPTY_BUFFERS s - 1\<rparr>)
         else (None, s))
      else (case map_of (BUFFERS s) p of
              None \<Rightarrow> (None, s)
            | Some real_len \<Rightarrow>
                if real_len \<noteq> len then (None, s)
                else (Some (read_range (mem s) p real_len),
                      s\<lparr>BUFFERS := filter (\<lambda>e. fst e \<noteq> p) (BUFFERS s)\<rparr>)))"

definition dealloc :: "ptr \<Rightarrow> nat \<Rightarrow> guest \<Rightarrow> guest" where
  "dealloc p len s =
     (case reclaim p len s of
        (None, s') \<Rightarrow> s'
      | (Some buf, s') \<Rightarrow> s'\<lparr>mem := zero_range (mem s') p (length buf)\<rparr>)"

definition take_buffer :: "ptr \<Rightarrow> nat \<Rightarrow> guest \<Rightarrow> bytes option \<times> guest" where
  "take_buffer p len s = (if p = 0 \<and> len = 0 then (Some [], s) else reclaim p len s)"

fun wipe_blocks :: "(ptr \<times> nat) list \<Rightarrow> memory \<Rightarrow> memory" where
  "wipe_blocks [] m = m"
| "wipe_blocks ((p, n) # live) m = wipe_blocks live (zero_range m p n)"

definition forget :: "guest \<Rightarrow> guest" where
  "forget s = s\<lparr>LAST := None\<rparr>"

definition wipe_all :: "guest \<Rightarrow> guest" where
  "wipe_all s =
     (let s = forget s; live = BUFFERS s; s = s\<lparr>BUFFERS := []\<rparr>;
          s = s\<lparr>mem := wipe_blocks live (mem s)\<rparr>
      in s\<lparr>EMPTY_BUFFERS := 0\<rparr>)"

section \<open>Facts on linear memory\<close>

lemma in_block_offset [simp]:
  assumes "n \<le> 2 ^ 32" and "i < n"
  shows "in_block p n (p + word_of_nat i)"
  using assms by (simp add: in_block_def unat_of_nat)

lemma read_write_range [simp]:
  assumes "length bs \<le> 2 ^ 32"
  shows "read_range (write_range m p bs) p (length bs) = bs"
  using assms
  by (intro nth_equalityI) (auto simp: read_range_def write_range_def in_block_def unat_of_nat)

lemma length_read_range [simp]: "length (read_range m p n) = n"
  by (simp add: read_range_def)

lemma read_zero_range [simp]:
  assumes "n \<le> 2 ^ 32"
  shows "read_range (zero_range m p n) p n = replicate n 0"
  using assms by (intro nth_equalityI) (auto simp: read_range_def zero_range_def)

lemma in_block_bounds:
  assumes "in_block p n a" and "unat p + n \<le> 2 ^ 32"
  shows "unat p \<le> unat a \<and> unat a < unat p + n"
proof (cases "p \<le> a")
  case True
  then have "unat (a - p) = unat a - unat p" by (simp add: unat_sub)
  with assms True show ?thesis by (auto simp: in_block_def word_le_nat_alt)
next
  case False
  then have "unat (a - p) = 2 ^ 32 + unat a - unat p"
    by (simp add: unat_sub_if_size word_size word_le_nat_alt)
  with assms show ?thesis
    using unsigned_less [of p] by (auto simp: in_block_def)
qed

lemma blocks_disjointD:
  assumes "blocks_disjoint p n q k" and "unat p + n \<le> 2 ^ 32" and "unat q + k \<le> 2 ^ 32"
  shows "\<not> (in_block p n a \<and> in_block q k a)"
  using assms in_block_bounds [of p n a] in_block_bounds [of q k a]
  by (auto simp: blocks_disjoint_def)

lemma blocks_disjoint_sym: "blocks_disjoint p n q k = blocks_disjoint q k p n"
  by (auto simp: blocks_disjoint_def)

lemma read_write_disjoint:
  assumes "blocks_disjoint p (length bs) q k"
    and "unat p + length bs \<le> 2 ^ 32" and "unat q + k \<le> 2 ^ 32"
  shows "read_range (write_range m p bs) q k = read_range m q k"
proof -
  have "\<not> in_block p (length bs) (q + word_of_nat i)" if "i < k" for i
    using blocks_disjointD [OF assms, of "q + word_of_nat i"] in_block_offset [of k i q] that assms(3)
    by auto
  then show ?thesis by (simp add: read_range_def write_range_def)
qed

lemma read_zero_disjoint:
  assumes "blocks_disjoint p n q k" and "unat p + n \<le> 2 ^ 32" and "unat q + k \<le> 2 ^ 32"
  shows "read_range (zero_range m p n) q k = read_range m q k"
proof -
  have "\<not> in_block p n (q + word_of_nat i)" if "i < k" for i
    using blocks_disjointD [OF assms, of "q + word_of_nat i"] in_block_offset [of k i q] that assms(3)
    by auto
  then show ?thesis by (simp add: read_range_def zero_range_def)
qed

lemma wipe_blocks_at:
  "wipe_blocks live m a = (if \<exists>e \<in> set live. in_block (fst e) (snd e) a then 0 else m a)"
  by (induction live m rule: wipe_blocks.induct) (auto simp: zero_range_def)

section \<open>The registry's invariant\<close>

definition block_ok :: "ptr \<times> nat \<Rightarrow> bool" where
  "block_ok e \<longleftrightarrow> fst e \<noteq> 0 \<and> snd e > 0 \<and> unat (fst e) + snd e \<le> 2 ^ 32"

definition registry_ok :: "guest \<Rightarrow> bool" where
  "registry_ok s \<longleftrightarrow>
     distinct (map fst (BUFFERS s)) \<and>
     (\<forall>e \<in> set (BUFFERS s). block_ok e) \<and>
     (\<forall>e \<in> set (BUFFERS s). \<forall>f \<in> set (BUFFERS s).
        fst e \<noteq> fst f \<longrightarrow> blocks_disjoint (fst e) (snd e) (fst f) (snd f))"

text \<open>What the allocator promises of a block of \<open>n\<close> bytes it hands out at \<open>p\<close>.\<close>

definition fresh_block :: "guest \<Rightarrow> ptr \<Rightarrow> nat \<Rightarrow> bool" where
  "fresh_block s p n \<longleftrightarrow>
     p \<noteq> 0 \<and> unat p + n \<le> 2 ^ 32 \<and>
     (\<forall>e \<in> set (BUFFERS s). blocks_disjoint p n (fst e) (snd e))"

lemma fresh_block_unregistered:
  assumes "registry_ok s" and "fresh_block s p n" and "n > 0"
  shows "p \<notin> fst ` set (BUFFERS s)"
proof
  assume "p \<in> fst ` set (BUFFERS s)"
  then obtain e where "e \<in> set (BUFFERS s)" and "fst e = p" by auto
  then have "blocks_disjoint p n p (snd e)" and "snd e > 0"
    using assms(1,2) by (auto simp: fresh_block_def registry_ok_def block_ok_def)
  with assms(3) show False by (simp add: blocks_disjoint_def)
qed

lemma registry_ok_filter:
  "registry_ok s \<Longrightarrow> registry_ok (s\<lparr>BUFFERS := filter P (BUFFERS s)\<rparr>)"
  by (auto simp: registry_ok_def distinct_map_filter)

lemma registry_ok_frame [simp]:
  "registry_ok (s\<lparr>mem := m\<rparr>) = registry_ok s"
  "registry_ok (s\<lparr>EMPTY_BUFFERS := c\<rparr>) = registry_ok s"
  "registry_ok (s\<lparr>LAST := l\<rparr>) = registry_ok s"
  by (simp_all add: registry_ok_def)

lemma registry_ok_Cons:
  assumes "registry_ok s" and "fresh_block s p n" and "n > 0"
  shows "registry_ok (s\<lparr>BUFFERS := (p, n) # filter (\<lambda>e. fst e \<noteq> p) (BUFFERS s)\<rparr>)"
proof -
  have "blocks_disjoint (fst e) (snd e) p n" if "e \<in> set (BUFFERS s)" for e
    using assms(2) that by (auto simp: fresh_block_def blocks_disjoint_sym [of "fst e"])
  then show ?thesis
    using assms fresh_block_unregistered [OF assms]
    unfolding registry_ok_def fresh_block_def block_ok_def
    by (auto simp: distinct_map_filter Ball_def)
qed

lemma register_ok:
  assumes "registry_ok s" and "buf \<noteq> [] \<Longrightarrow> fresh_block s p (length buf)"
  shows "registry_ok (snd (register p buf s))"
proof (cases "buf = []")
  case True
  with assms show ?thesis by (simp add: register_def)
next
  case False
  with assms have "registry_ok (s\<lparr>BUFFERS := (p, length buf) # filter (\<lambda>e. fst e \<noteq> p) (BUFFERS s)\<rparr>)"
    by (intro registry_ok_Cons) auto
  with False show ?thesis by (simp add: register_def registry_ok_def)
qed

lemma reclaim_ok: "registry_ok s \<Longrightarrow> registry_ok (snd (reclaim p len s))"
  by (auto simp: reclaim_def registry_ok_filter split: option.split)

lemma take_buffer_ok: "registry_ok s \<Longrightarrow> registry_ok (snd (take_buffer p len s))"
  by (auto simp: take_buffer_def reclaim_ok)

lemma dealloc_ok: "registry_ok s \<Longrightarrow> registry_ok (dealloc p len s)"
  using reclaim_ok [of s p len]
  by (auto simp: dealloc_def split: prod.split option.split)

lemma wipe_all_ok: "registry_ok (wipe_all s)"
  by (simp add: wipe_all_def registry_ok_def Let_def forget_def)

section \<open>The host's view and its refinement\<close>

text \<open>
  What the host holds: the bytes behind each sized pointer it was handed, and how many
  empty buffers are outstanding. The operations on this view are the contract; the
  registry with its linear memory implements them.
\<close>

record host_view =
  sized :: "ptr \<rightharpoonup> bytes"
  empties :: nat

definition view :: "guest \<Rightarrow> host_view" where
  "view s =
     \<lparr>sized = (\<lambda>p. map_option (read_range (mem s) p) (map_of (BUFFERS s) p)),
      empties = unat (EMPTY_BUFFERS s)\<rparr>"

definition spec_register :: "ptr \<Rightarrow> bytes \<Rightarrow> host_view \<Rightarrow> host_view" where
  "spec_register p buf v =
     (if buf = [] then v\<lparr>empties := empties v + 1\<rparr> else v\<lparr>sized := (sized v)(p \<mapsto> buf)\<rparr>)"

definition spec_take :: "ptr \<Rightarrow> nat \<Rightarrow> host_view \<Rightarrow> bytes option \<times> host_view" where
  "spec_take p len v =
     (if len = 0 \<and> p = 0 then (Some [], v)
      else if len = 0 \<and> p = empty_ptr then
        (if empties v > 0 then (Some [], v\<lparr>empties := empties v - 1\<rparr>) else (None, v))
      else (case sized v p of
              None \<Rightarrow> (None, v)
            | Some bs \<Rightarrow> if length bs = len then (Some bs, v\<lparr>sized := (sized v)(p := None)\<rparr>)
                         else (None, v)))"

definition spec_wipe :: "host_view" where
  "spec_wipe = \<lparr>sized = Map.empty, empties = 0\<rparr>"

lemma registry_okD:
  assumes "registry_ok s" and "map_of (BUFFERS s) p = Some n"
  shows "p \<noteq> 0 \<and> n > 0 \<and> unat p + n \<le> 2 ^ 32"
  using assms by (force simp: registry_ok_def block_ok_def dest: map_of_SomeD)

lemma registry_ok_disjointD:
  assumes "registry_ok s" and "map_of (BUFFERS s) p = Some n" and "map_of (BUFFERS s) q = Some k"
    and "p \<noteq> q"
  shows "blocks_disjoint p n q k"
  using assms by (force simp: registry_ok_def dest: map_of_SomeD)

lemma fresh_blockD:
  assumes "fresh_block s p n" and "map_of (BUFFERS s) q = Some k"
  shows "blocks_disjoint p n q k"
  using assms by (force simp: fresh_block_def dest: map_of_SomeD)

lemma view_register:
  assumes ok: "registry_ok s"
    and fresh: "buf \<noteq> [] \<Longrightarrow> fresh_block s p (length buf)"
    and room: "buf = [] \<Longrightarrow> unat (EMPTY_BUFFERS s) + 1 < 2 ^ 32"
  shows "view (snd (register p buf s)) = spec_register p buf (view s)"
proof (cases "buf = []")
  case True
  with room have "unat (EMPTY_BUFFERS s + 1) = unat (EMPTY_BUFFERS s) + 1"
    by (simp add: unat_word_ariths)
  with True show ?thesis by (simp add: register_def view_def spec_register_def)
next
  case False
  note fr = fresh [OF False]
  have "length buf \<le> 2 ^ 32" using fr by (simp add: fresh_block_def)
  then have self: "read_range (write_range (mem s) p buf) p (length buf) = buf" by simp
  have other: "read_range (write_range (mem s) p buf) q k = read_range (mem s) q k"
    if "map_of (BUFFERS s) q = Some k" for q k
    using fresh_blockD [OF fr that] registry_okD [OF ok that] fr
    by (intro read_write_disjoint) (auto simp: fresh_block_def)
  show ?thesis
    using False self other
    by (auto simp: register_def view_def spec_register_def fun_eq_iff map_of_filter_neq
        split: option.split intro!: option.map_cong0)
qed

lemma view_take:
  assumes ok: "registry_ok s"
  shows "fst (take_buffer p len s) = fst (spec_take p len (view s))
       \<and> view (snd (take_buffer p len s)) = snd (spec_take p len (view s))"
proof -
  have pos: "unat (EMPTY_BUFFERS s - 1) = unat (EMPTY_BUFFERS s) - 1" if "EMPTY_BUFFERS s > 0"
    using that by (simp add: unat_minus_one word_neq_0_conv)
  have gt: "(EMPTY_BUFFERS s > 0) = (unat (EMPTY_BUFFERS s) > 0)"
    by (simp add: word_less_nat_alt)
  have nul: "map_of (BUFFERS s) 0 = None"
    using registry_okD [OF ok] by (cases "map_of (BUFFERS s) 0") auto
  show ?thesis
    using pos gt nul
    by (auto simp: take_buffer_def reclaim_def spec_take_def view_def map_of_filter_neq
        fun_eq_iff empty_ptr_def split: option.split)
qed

lemma view_dealloc:
  assumes ok: "registry_ok s" and nn: "\<not> (p = 0 \<and> len = 0)"
  shows "view (dealloc p len s) = snd (spec_take p len (view s))"
proof -
  have t: "take_buffer p len s = reclaim p len s"
    using nn by (auto simp: take_buffer_def)
  have z: "map_option (read_range (zero_range (mem s) p n) q) (map_of (BUFFERS s) q)
         = map_option (read_range (mem s) q) (map_of (BUFFERS s) q)"
    if "map_of (BUFFERS s) p = Some n" "q \<noteq> p" for q n
    using registry_ok_disjointD [OF ok that(1), of q] registry_okD [OF ok that(1)]
      registry_okD [OF ok, of q] that(2)
    by (cases "map_of (BUFFERS s) q") (auto intro: read_zero_disjoint)
  have "view (dealloc p len s) = view (snd (reclaim p len s))"
    using z by (auto simp: dealloc_def reclaim_def view_def map_of_filter_neq fun_eq_iff
        zero_range_def [of _ _ 0] in_block_def split: option.split)
  then show ?thesis using view_take [OF ok, of p len] by (simp add: t)
qed

lemma view_wipe_all: "view (wipe_all s) = spec_wipe"
  by (simp add: view_def wipe_all_def spec_wipe_def Let_def forget_def)

section \<open>Sequences of host operations\<close>

text \<open>
  The host's actions on one instance, in any order: allocating and writing inputs, taking
  delivery of outputs, releasing and handing back buffers, and shutting the instance down.
  The guard is the allocator's promise for the operations that allocate, the width of the
  empty-buffer counter, and that the host writes inside a block it holds.
\<close>

datatype host_op =
    HAlloc "ptr option" nat
  | HRegister ptr bytes
  | HTake ptr nat
  | HDealloc ptr nat
  | HWrite ptr bytes
  | HWipeAll

fun host_step :: "host_op \<Rightarrow> guest \<Rightarrow> guest" where
  "host_step (HAlloc r n) s = snd (alloc r n s)"
| "host_step (HRegister p bs) s = snd (register p bs s)"
| "host_step (HTake p n) s = snd (take_buffer p n s)"
| "host_step (HDealloc p n) s = dealloc p n s"
| "host_step (HWrite p bs) s = s\<lparr>mem := write_range (mem s) p bs\<rparr>"
| "host_step HWipeAll s = wipe_all s"

fun host_guard :: "host_op \<Rightarrow> guest \<Rightarrow> bool" where
  "host_guard (HAlloc r n) s =
     (case r of None \<Rightarrow> True
      | Some p \<Rightarrow> if n = 0 then unat (EMPTY_BUFFERS s) + 1 < 2 ^ 32 else fresh_block s p n)"
| "host_guard (HRegister p bs) s =
     (if bs = [] then unat (EMPTY_BUFFERS s) + 1 < 2 ^ 32 else fresh_block s p (length bs))"
| "host_guard (HWrite p bs) s = (map_of (BUFFERS s) p = Some (length bs))"
| "host_guard _ s = True"

lemma alloc_cases:
  "alloc None n s = (0, s)"
  "alloc (Some p) n s = register p (replicate n 0) s"
  by (simp_all add: alloc_def)

lemma host_step_registry_ok:
  assumes "registry_ok s" and "host_guard x s"
  shows "registry_ok (host_step x s)"
proof (cases x)
  case (HAlloc r n)
  with assms show ?thesis
    by (cases r) (auto simp: alloc_cases intro!: register_ok split: if_splits)
qed (use assms in \<open>auto intro: register_ok take_buffer_ok dealloc_ok simp: wipe_all_ok split: if_splits\<close>)

interpretation registry: component host_step host_guard registry_ok
  by unfold_locales (rule host_step_registry_ok)

text \<open>An operation that leaves the buffer at \<open>p\<close> alone: it neither reclaims nor
  overwrites it, and does not shut the instance down.\<close>

fun spares :: "ptr \<Rightarrow> host_op \<Rightarrow> bool" where
  "spares p (HTake q n) = (q \<noteq> p)"
| "spares p (HDealloc q n) = (q \<noteq> p)"
| "spares p (HWrite q bs) = (q \<noteq> p)"
| "spares p HWipeAll = False"
| "spares p _ = True"

lemma view_write:
  assumes ok: "registry_ok s" and w: "map_of (BUFFERS s) p = Some (length bs)"
  shows "view (s\<lparr>mem := write_range (mem s) p bs\<rparr>) = (view s)\<lparr>sized := (sized (view s))(p \<mapsto> bs)\<rparr>"
proof -
  have "map_option (read_range (write_range (mem s) p bs) q) (map_of (BUFFERS s) q)
      = map_option (read_range (mem s) q) (map_of (BUFFERS s) q)" if "q \<noteq> p" for q
    using registry_ok_disjointD [OF ok w, of q] registry_okD [OF ok w] registry_okD [OF ok, of q] that
    by (cases "map_of (BUFFERS s) q") (auto intro: read_write_disjoint)
  then show ?thesis
    using w registry_okD [OF ok w] by (auto simp: view_def fun_eq_iff)
qed

lemma spec_take_other: "q \<noteq> p \<Longrightarrow> sized (snd (spec_take q n v)) p = sized v p"
  by (auto simp: spec_take_def split: option.split)

lemma spec_register_other: "q \<noteq> p \<Longrightarrow> sized (spec_register q bs v) p = sized v p"
  by (auto simp: spec_register_def)

lemma fresh_neq_live:
  assumes "registry_ok s" and "fresh_block s q n" and "n > 0" and "sized (view s) p = Some buf"
  shows "q \<noteq> p"
  using fresh_block_unregistered [OF assms(1-3)] assms(4)
  by (force simp: view_def dest: map_of_SomeD)

lemma register_spares:
  assumes ok: "registry_ok s" and live: "sized (view s) p = Some buf"
    and fr: "bs \<noteq> [] \<Longrightarrow> fresh_block s q (length bs)"
    and room: "bs = [] \<Longrightarrow> unat (EMPTY_BUFFERS s) + 1 < 2 ^ 32"
  shows "sized (view (snd (register q bs s))) p = Some buf"
proof -
  have "bs = [] \<or> q \<noteq> p"
    using fresh_neq_live [OF ok fr _ live] by auto
  then show ?thesis
    using live by (auto simp: view_register [OF ok fr room] spec_register_def)
qed

lemma host_step_spares:
  assumes ok: "registry_ok s" and g: "host_guard x s" and sp: "spares p x"
    and live: "sized (view s) p = Some buf"
  shows "sized (view (host_step x s)) p = Some buf"
proof (cases x)
  case (HAlloc r n)
  show ?thesis
  proof (cases r)
    case None
    with HAlloc live show ?thesis by (simp add: alloc_cases)
  next
    case (Some q)
    with HAlloc g show ?thesis
      using register_spares [OF ok live, of "replicate n 0" q]
      by (auto simp: alloc_cases split: if_splits)
  qed
next
  case (HRegister q bs)
  with g show ?thesis
    using register_spares [OF ok live, of bs q] by (auto split: if_splits)
next
  case (HTake q n)
  with sp live show ?thesis by (simp add: view_take [OF ok] spec_take_other)
next
  case (HDealloc q n)
  show ?thesis
  proof (cases "q = 0 \<and> n = 0")
    case True
    with HDealloc live show ?thesis by (simp add: dealloc_def reclaim_def)
  next
    case False
    with HDealloc sp live show ?thesis by (simp add: view_dealloc [OF ok False] spec_take_other)
  qed
next
  case (HWrite q bs)
  with g sp live show ?thesis by (simp add: view_write [OF ok])
next
  case HWipeAll
  with sp show ?thesis by simp
qed

lemma run_spares:
  assumes "registry_ok s" and "ops_ok host_guard host_step xs s" and "list_all (spares p) xs"
    and "sized (view s) p = Some buf"
  shows "sized (view (run_ops host_step xs s)) p = Some buf"
  using assms
proof (induction xs arbitrary: s)
  case (Cons x xs)
  then show ?case
    using host_step_registry_ok host_step_spares by simp
qed simp

section \<open>Properties\<close>

definition guest0 :: guest where
  "guest0 = \<lparr>mem = (\<lambda>_. 0), BUFFERS = [], EMPTY_BUFFERS = 0, LAST = None\<rparr>"

lemma guest0_ok [simp]: "registry_ok guest0"
  by (simp add: guest0_def registry_ok_def)

text \<open>
  C17. The registry over linear memory implements the host's view: registering, taking,
  releasing and wiping act on what the host holds exactly as the contract says, for every
  registry whose live blocks are non-null, inside memory and disjoint.
\<close>

theorem registry_refines_host_view:
  assumes "registry_ok s"
    and "buf \<noteq> [] \<Longrightarrow> fresh_block s q (length buf)"
    and "buf = [] \<Longrightarrow> unat (EMPTY_BUFFERS s) + 1 < 2 ^ 32"
    and "\<not> (p = 0 \<and> len = 0)"
  shows "view (snd (register q buf s)) = spec_register q buf (view s)
    \<and> (fst (take_buffer p len s), view (snd (take_buffer p len s))) = spec_take p len (view s)
    \<and> view (dealloc p len s) = snd (spec_take p len (view s))
    \<and> view (wipe_all s) = spec_wipe"
  using view_register [OF assms(1-3)] view_take [OF assms(1), of p len] view_dealloc [OF assms(1,4)]
    view_wipe_all [of s]
  by (simp add: prod_eq_iff)

theorem registry_refines_host_view_witness:
  "view (snd (register 16 [1, 2] guest0)) = spec_register 16 [1, 2] (view guest0)
    \<and> (fst (take_buffer 16 2 guest0), view (snd (take_buffer 16 2 guest0))) = spec_take 16 2 (view guest0)
    \<and> view (dealloc 16 2 guest0) = snd (spec_take 16 2 (view guest0))
    \<and> view (wipe_all guest0) = spec_wipe"
  by (rule registry_refines_host_view) (simp_all add: fresh_block_def guest0_def registry_ok_def)

text \<open>
  Whatever the host and the guest do in between, as long as they leave the buffer
  alone, a registered buffer is handed back byte for byte: no other allocation, output,
  write, release or refused reclaim disturbs it.
\<close>

theorem buffer_round_trip:
  assumes "registry_ok s" and "buf \<noteq> []" and "fresh_block s p (length buf)"
    and "ops_ok host_guard host_step ops (snd (register p buf s))"
    and "list_all (spares p) ops"
  shows "fst (take_buffer p (length buf) (run_ops host_step ops (snd (register p buf s)))) = Some buf"
proof -
  let ?s = "snd (register p buf s)" and ?t = "run_ops host_step ops (snd (register p buf s))"
  have ok: "registry_ok ?s" using assms(1,3) by (intro register_ok) auto
  have "view ?s = spec_register p buf (view s)" using assms by (intro view_register) auto
  then have "sized (view ?s) p = Some buf" using assms(2) by (simp add: spec_register_def)
  then have live: "sized (view ?t) p = Some buf" by (rule run_spares [OF ok assms(4,5)])
  have t: "registry_ok ?t" by (rule registry.run_invar [OF ok assms(4)])
  have "p \<noteq> 0" using assms(3) by (simp add: fresh_block_def)
  then show ?thesis
    using view_take [OF t, of p "length buf"] live assms(2) by (simp add: spec_take_def)
qed

text \<open>
  Releasing a live buffer with its true length zeroes every byte of the allocation and
  no other byte, and the pointer cannot be reclaimed again; releasing it with any other
  length changes nothing at all.
\<close>

theorem release_wipes_exactly:
  assumes "registry_ok s" and "map_of (BUFFERS s) p = Some n"
  shows "read_range (mem (dealloc p n s)) p n = replicate n 0
    \<and> (\<forall>a. \<not> in_block p n a \<longrightarrow> mem (dealloc p n s) a = mem s a)
    \<and> fst (take_buffer p n (dealloc p n s)) = None
    \<and> (\<forall>len. len \<noteq> n \<and> len > 0 \<longrightarrow> dealloc p len s = s)"
proof -
  have b: "p \<noteq> 0" "n > 0" "n \<le> 2 ^ 32" using registry_okD [OF assms] by auto
  have d: "dealloc p n s =
      s\<lparr>BUFFERS := filter (\<lambda>e. fst e \<noteq> p) (BUFFERS s), mem := zero_range (mem s) p n\<rparr>"
    using b assms(2) by (simp add: dealloc_def reclaim_def)
  have "fst (take_buffer p n (dealloc p n s)) = None"
    using b by (simp add: d take_buffer_def reclaim_def map_of_filter_neq)
  moreover have "read_range (mem (dealloc p n s)) p n = replicate n 0"
    using b by (simp add: d)
  moreover have "mem (dealloc p n s) a = mem s a" if "\<not> in_block p n a" for a
    using that by (simp add: d zero_range_def)
  moreover have "dealloc p len s = s" if "len \<noteq> n" "len > 0" for len
    using that b assms(2) by (simp add: dealloc_def reclaim_def)
  ultimately show ?thesis by blast
qed

text \<open>
  C27. Shutdown leaves nothing behind: after \<open>wipe_all\<close> no pointer the registry handed
  out is reclaimable, the error slot is empty, every byte of every live buffer is zero and
  no other byte has changed, in whatever order the hash map is walked.
\<close>

theorem shutdown_wipes_everything:
  assumes "registry_ok s"
  shows "BUFFERS (wipe_all s) = [] \<and> EMPTY_BUFFERS (wipe_all s) = 0 \<and> LAST (wipe_all s) = None
    \<and> (\<forall>e \<in> set (BUFFERS s). read_range (mem (wipe_all s)) (fst e) (snd e) = replicate (snd e) 0)
    \<and> (\<forall>a. (\<forall>e \<in> set (BUFFERS s). \<not> in_block (fst e) (snd e) a) \<longrightarrow> mem (wipe_all s) a = mem s a)
    \<and> (\<forall>live. set live = set (BUFFERS s) \<longrightarrow> wipe_blocks live (mem s) = mem (wipe_all s))"
proof -
  have m: "mem (wipe_all s) = wipe_blocks (BUFFERS s) (mem s)"
    by (simp add: wipe_all_def Let_def forget_def)
  have z: "read_range (mem (wipe_all s)) (fst e) (snd e) = replicate (snd e) 0"
    if "e \<in> set (BUFFERS s)" for e
  proof -
    have "snd e \<le> 2 ^ 32" using assms that by (auto simp: registry_ok_def block_ok_def)
    then show ?thesis
      using that in_block_offset [of "snd e" _ "fst e"]
      by (intro nth_equalityI) (auto simp: m read_range_def wipe_blocks_at)
  qed
  have "wipe_blocks live (mem s) = mem (wipe_all s)" if "set live = set (BUFFERS s)" for live
    using that by (simp add: m wipe_blocks_at fun_eq_iff)
  moreover have "mem (wipe_all s) a = mem s a"
    if "\<forall>e \<in> set (BUFFERS s). \<not> in_block (fst e) (snd e) a" for a
    using that by (simp add: m wipe_blocks_at)
  moreover have "BUFFERS (wipe_all s) = [] \<and> EMPTY_BUFFERS (wipe_all s) = 0 \<and> LAST (wipe_all s) = None"
    by (simp add: wipe_all_def Let_def forget_def)
  ultimately show ?thesis using z by blast
qed

text \<open>A guest with two buffers, an empty one and a recorded error, in memory full of threes.\<close>

definition busy_guest :: guest where
  "busy_guest =
     (snd (register 0 [] (snd (register 32 [5] (snd (register 16 [7, 9] (guest0\<lparr>mem := \<lambda>_. 3\<rparr>)))))))
       \<lparr>LAST := Some \<lparr>rec_ptr = 32, rec_len = 1, rec_status = 1\<rparr>\<rparr>"

lemma busy_guest_parts:
  "BUFFERS busy_guest = [(32, 1), (16, 2)]" "EMPTY_BUFFERS busy_guest = 1" "LAST busy_guest \<noteq> None"
  "mem busy_guest = write_range (write_range (\<lambda>_. 3) 16 [7, 9]) 32 [5]"
  by (simp_all add: busy_guest_def register_def guest0_def)

theorem shutdown_wipes_everything_witness:
  "BUFFERS busy_guest = [(32, 1), (16, 2)] \<and> EMPTY_BUFFERS busy_guest = 1 \<and> LAST busy_guest \<noteq> None
    \<and> read_range (mem busy_guest) 16 2 = [7, 9] \<and> read_range (mem busy_guest) 32 1 = [5] \<and> mem busy_guest 40 = 3
    \<and> BUFFERS (wipe_all busy_guest) = [] \<and> EMPTY_BUFFERS (wipe_all busy_guest) = 0 \<and> LAST (wipe_all busy_guest) = None
    \<and> read_range (mem (wipe_all busy_guest)) 16 2 = [0, 0] \<and> read_range (mem (wipe_all busy_guest)) 32 1 = [0]
    \<and> mem (wipe_all busy_guest) 40 = 3"
proof -
  have ok: "registry_ok busy_guest"
    by (auto simp: registry_ok_def busy_guest_parts block_ok_def blocks_disjoint_def)
  have before: "read_range (mem busy_guest) 16 2 = [7, 9]" "read_range (mem busy_guest) 32 1 = [5]" "mem busy_guest 40 = 3"
    by (simp_all add: busy_guest_parts(4) read_range_def write_range_def in_block_def upt_rec)
  have out: "\<forall>e \<in> set (BUFFERS busy_guest). \<not> in_block (fst e) (snd e) 40"
    by (simp add: busy_guest_parts in_block_def)
  note wiped = shutdown_wipes_everything [OF ok]
  have "read_range (mem (wipe_all busy_guest)) 16 2 = replicate 2 0" "read_range (mem (wipe_all busy_guest)) 32 1 = replicate 1 0"
    using wiped by (simp_all add: busy_guest_parts)
  moreover have "mem (wipe_all busy_guest) 40 = 3" using wiped out before(3) by metis
  moreover have "replicate 2 0 = [0, 0 :: 8 word]" by (simp add: numeral_2_eq_2)
  ultimately show ?thesis using wiped before busy_guest_parts(1-3) by simp
qed

end
