(* ===== verification/Guest_Status.thy ===== *)
theory Guest_Status
  imports Guest_Buffers
begin

text \<open>
  The status table of \<open>packages/stack-guest-abi/src/status.rs\<close> and the packed
  \<open>u64\<close> result of \<open>call.rs\<close>: an address in the high half with a length in the low
  half, or a zero high half with a status. The host's reading of a packed value is
  \<open>unpack\<close>.
\<close>

unbundle bit_operations_syntax

section \<open>The status table\<close>

definition STATUS_AUTH :: u32 where "STATUS_AUTH = 1"
definition STATUS_ENCODING :: u32 where "STATUS_ENCODING = 2"
definition STATUS_STATE :: u32 where "STATUS_STATE = 3"
definition STATUS_INTERNAL :: u32 where "STATUS_INTERNAL = 4"
definition STATUS_KMS_UNAUTHORIZED :: u32 where "STATUS_KMS_UNAUTHORIZED = 5"
definition STATUS_KMS_FORBIDDEN :: u32 where "STATUS_KMS_FORBIDDEN = 6"
definition STATUS_KMS_NOT_FOUND :: u32 where "STATUS_KMS_NOT_FOUND = 7"
definition STATUS_KMS_CONFLICT :: u32 where "STATUS_KMS_CONFLICT = 8"
definition STATUS_KMS_TRANSPORT :: u32 where "STATUS_KMS_TRANSPORT = 9"
definition STATUS_KMS_OTHER :: u32 where "STATUS_KMS_OTHER = 10"
definition STATUS_TERM :: u32 where "STATUS_TERM = 11"
definition STATUS_FOREIGN_KEYSET :: u32 where "STATUS_FOREIGN_KEYSET = 12"
definition STATUS_PROFILE_IO :: u32 where "STATUS_PROFILE_IO = 13"
definition STATUS_PROFILE_JSON :: u32 where "STATUS_PROFILE_JSON = 14"
definition STATUS_PROFILE_NOT_FOUND :: u32 where "STATUS_PROFILE_NOT_FOUND = 15"
definition STATUS_PROFILE_INVALID_FILENAME :: u32 where "STATUS_PROFILE_INVALID_FILENAME = 16"
definition STATUS_PROFILE_NO_CURRENT_WORKSPACE :: u32 where "STATUS_PROFILE_NO_CURRENT_WORKSPACE = 17"
definition STATUS_PROFILE_INVALID_WORKSPACE_ID :: u32 where "STATUS_PROFILE_INVALID_WORKSPACE_ID = 18"
definition STATUS_PROFILE_WORKSPACE_NOT_FOUND :: u32 where "STATUS_PROFILE_WORKSPACE_NOT_FOUND = 19"
definition STATUS_AUTH_INVALID_GRANT :: u32 where "STATUS_AUTH_INVALID_GRANT = 20"
definition STATUS_AUTH_INVALID_CLIENT :: u32 where "STATUS_AUTH_INVALID_CLIENT = 21"
definition STATUS_AUTH_USAGE_LIMIT :: u32 where "STATUS_AUTH_USAGE_LIMIT = 22"
definition STATUS_AUTH_NOT_AUTHENTICATED :: u32 where "STATUS_AUTH_NOT_AUTHENTICATED = 23"
definition STATUS_AUTH_TRANSPORT :: u32 where "STATUS_AUTH_TRANSPORT = 24"
definition STATUS_AUTH_CONFIG :: u32 where "STATUS_AUTH_CONFIG = 25"
definition STATUS_AUTH_OTHER :: u32 where "STATUS_AUTH_OTHER = 26"
definition STATUS_AUTH_REFRESH_REQUIRED :: u32 where "STATUS_AUTH_REFRESH_REQUIRED = 27"
definition STATUS_CONTEXT_MISMATCH :: u32 where "STATUS_CONTEXT_MISMATCH = 28"
definition LAST_STATUS :: u32 where "LAST_STATUS = STATUS_CONTEXT_MISMATCH"

lemmas status_defs =
  STATUS_AUTH_def
  STATUS_ENCODING_def
  STATUS_STATE_def
  STATUS_INTERNAL_def
  STATUS_KMS_UNAUTHORIZED_def
  STATUS_KMS_FORBIDDEN_def
  STATUS_KMS_NOT_FOUND_def
  STATUS_KMS_CONFLICT_def
  STATUS_KMS_TRANSPORT_def
  STATUS_KMS_OTHER_def
  STATUS_TERM_def
  STATUS_FOREIGN_KEYSET_def
  STATUS_PROFILE_IO_def
  STATUS_PROFILE_JSON_def
  STATUS_PROFILE_NOT_FOUND_def
  STATUS_PROFILE_INVALID_FILENAME_def
  STATUS_PROFILE_NO_CURRENT_WORKSPACE_def
  STATUS_PROFILE_INVALID_WORKSPACE_ID_def
  STATUS_PROFILE_WORKSPACE_NOT_FOUND_def
  STATUS_AUTH_INVALID_GRANT_def
  STATUS_AUTH_INVALID_CLIENT_def
  STATUS_AUTH_USAGE_LIMIT_def
  STATUS_AUTH_NOT_AUTHENTICATED_def
  STATUS_AUTH_TRANSPORT_def
  STATUS_AUTH_CONFIG_def
  STATUS_AUTH_OTHER_def
  STATUS_AUTH_REFRESH_REQUIRED_def
  STATUS_CONTEXT_MISMATCH_def
  LAST_STATUS_def

definition status_table :: "u32 list" where
  "status_table =
     [STATUS_AUTH,
      STATUS_ENCODING,
      STATUS_STATE,
      STATUS_INTERNAL,
      STATUS_KMS_UNAUTHORIZED,
      STATUS_KMS_FORBIDDEN,
      STATUS_KMS_NOT_FOUND,
      STATUS_KMS_CONFLICT,
      STATUS_KMS_TRANSPORT,
      STATUS_KMS_OTHER,
      STATUS_TERM,
      STATUS_FOREIGN_KEYSET,
      STATUS_PROFILE_IO,
      STATUS_PROFILE_JSON,
      STATUS_PROFILE_NOT_FOUND,
      STATUS_PROFILE_INVALID_FILENAME,
      STATUS_PROFILE_NO_CURRENT_WORKSPACE,
      STATUS_PROFILE_INVALID_WORKSPACE_ID,
      STATUS_PROFILE_WORKSPACE_NOT_FOUND,
      STATUS_AUTH_INVALID_GRANT,
      STATUS_AUTH_INVALID_CLIENT,
      STATUS_AUTH_USAGE_LIMIT,
      STATUS_AUTH_NOT_AUTHENTICATED,
      STATUS_AUTH_TRANSPORT,
      STATUS_AUTH_CONFIG,
      STATUS_AUTH_OTHER,
      STATUS_AUTH_REFRESH_REQUIRED,
      STATUS_CONTEXT_MISMATCH]"

section \<open>Packed results\<close>

definition pack_buffer :: "u32 \<Rightarrow> u32 \<Rightarrow> u64" where
  "pack_buffer addr len = (push_bit 32 (ucast addr)) OR (ucast len)"

definition pack_status :: "u32 \<Rightarrow> u64" where
  "pack_status status = ucast status"

text \<open>How the host reads a packed value.\<close>

datatype packed = PBuffer u32 u32 | PStatus u32

definition unpack :: "u64 \<Rightarrow> packed" where
  "unpack v =
     (let high = (ucast (drop_bit 32 v) :: u32); low = (ucast v :: u32)
      in if high = 0 then PStatus low else PBuffer high low)"

lemma high_pack_buffer: "(ucast (drop_bit 32 (pack_buffer addr len)) :: u32) = addr"
  unfolding pack_buffer_def
  by (rule bit_word_eqI) (auto simp: bit_simps dest: bit_imp_le_length)

lemma low_pack_buffer: "(ucast (pack_buffer addr len) :: u32) = len"
  unfolding pack_buffer_def
  by (rule bit_word_eqI) (auto simp: bit_simps dest: bit_imp_le_length)

lemma high_pack_status: "(ucast (drop_bit 32 (pack_status st)) :: u32) = 0"
  unfolding pack_status_def
  by (rule bit_word_eqI) (auto simp: bit_simps dest: bit_imp_le_length)

lemma low_pack_status: "(ucast (pack_status st) :: u32) = st"
  unfolding pack_status_def
  by (rule bit_word_eqI) (auto simp: bit_simps dest: bit_imp_le_length)

lemma unpack_pack_buffer [guest_simps]: "addr \<noteq> 0 \<Longrightarrow> unpack (pack_buffer addr len) = PBuffer addr len"
  by (simp add: unpack_def high_pack_buffer low_pack_buffer)

lemma unpack_pack_status [guest_simps]: "unpack (pack_status st) = PStatus st"
  by (simp add: unpack_def high_pack_status low_pack_status)

end
