(* ===== verification/Guest_Errors.thy ===== *)
theory Guest_Errors
  imports Guest_Status
begin

text \<open>
  The last-error slot of \<open>packages/stack-guest-abi/src/last_error.rs\<close> and the export
  lifecycle of \<open>call.rs\<close> and \<open>abi.rs\<close>: the encoding of an error with its causes, the
  slot's operations over the buffer registry, \<open>run\<close>, the packed results and the
  validated inputs. The value codec and the allocator are arguments; \<open>codec_ok\<close> and
  \<open>allocator_ok\<close> say what is relied on of them. A failed allocation aborts the
  instance, which is the value \<open>None\<close>.
\<close>

section \<open>Errors and their encoding\<close>

datatype json_number = PosInt u64 | NegInt "64 word" | Float u64

datatype json =
    JNull | JBool bool | JNumber json_number | JString string
  | JArray "json list" | JObject "(string \<times> json) list"

datatype ffi_value =
    FNull | FBool bool | FUInt64 u64 | FInt64 "64 word" | FFloat64 u64 | FString string
  | FArray "ffi_value list" | FObject "(string \<times> ffi_value) list"

datatype json_category = CatIo | CatSyntax | CatData | CatEof

text \<open>
  An error from another library: what it can be downcast to, its own message, and its
  source. A diagnostic of one of the four crates has a code, a message, help, a URL, a
  severity, a diagnostic source and a plain source.
\<close>

datatype foreign_kind = IsIo string | IsJson json_category nat nat | IsOther

datatype foreign = Foreign (fkind: foreign_kind) (fmessage: string) (fsource: "foreign option")

datatype severity = SevError | SevWarning | SevAdvice

datatype diagnostic =
  Diagnostic (d_code: "string option") (d_message: string) (d_help: "string option")
    (d_url: "string option") (d_severity: "severity option")
    (d_diagnostic_source: "diagnostic option") (d_source: "foreign option")

definition UNDESCRIBED_CAUSE :: string where
  "UNDESCRIBED_CAUSE = ''an error from another library''"

definition MAX_CAUSES :: nat where
  "MAX_CAUSES = 16"

fun dec_digits :: "nat \<Rightarrow> string" where
  "dec_digits n =
     (if n < 10 then [char_of (48 + n)] else dec_digits (n div 10) @ [char_of (48 + n mod 10)])"

declare dec_digits.simps [simp del]

fun describe_std :: "foreign \<Rightarrow> string option" where
  "describe_std (Foreign (IsIo kind) _ _) = Some (''I/O error: '' @ kind)"
| "describe_std (Foreign (IsJson cat line col) _ _) =
     (let kind = (case cat of CatIo \<Rightarrow> ''read error'' | CatSyntax \<Rightarrow> ''syntax error''
                  | CatData \<Rightarrow> ''unexpected data'' | CatEof \<Rightarrow> ''unexpected end of input'')
      in Some (''JSON error: '' @ kind @ '' at line '' @ dec_digits line
               @ '' column '' @ dec_digits col))"
| "describe_std (Foreign IsOther _ _) = None"

fun json_value :: "json \<Rightarrow> ffi_value" where
  "json_value JNull = FNull"
| "json_value (JBool b) = FBool b"
| "json_value (JNumber n) =
     (case n of PosInt v \<Rightarrow> FUInt64 v | NegInt v \<Rightarrow> FInt64 v | Float v \<Rightarrow> FFloat64 v)"
| "json_value (JString s) = FString s"
| "json_value (JArray items) = FArray (map json_value items)"
| "json_value (JObject entries) = FObject (map (\<lambda>(k, v). (k, json_value v)) entries)"

datatype cause = Ours diagnostic | ForeignCause foreign

definition next_of :: "diagnostic \<Rightarrow> cause option" where
  "next_of d =
     (case d_diagnostic_source d of
        Some src \<Rightarrow> Some (Ours src)
      | None \<Rightarrow> map_option ForeignCause (d_source d))"

definition cause_entry :: "(foreign \<Rightarrow> string option) \<Rightarrow> cause \<Rightarrow> ffi_value \<times> cause option" where
  "cause_entry describe c =
     (let (code, message, after) =
        (case c of
           Ours d \<Rightarrow> (d_code d, d_message d, next_of d)
         | ForeignCause f \<Rightarrow>
             (None, (case describe f of Some t \<Rightarrow> t | None \<Rightarrow> UNDESCRIBED_CAUSE),
              map_option ForeignCause (fsource f)))
      in (FObject ((case code of Some c \<Rightarrow> [(''code'', FString c)] | None \<Rightarrow> [])
                   @ [(''message'', FString message)]), after))"

text \<open>The loop of \<open>causes\<close>; the first argument is how many entries the bound still allows.\<close>

fun causes_loop :: "nat \<Rightarrow> (foreign \<Rightarrow> string option) \<Rightarrow> cause option \<Rightarrow> ffi_value list" where
  "causes_loop _ describe None = []"
| "causes_loop 0 describe (Some c) = []"
| "causes_loop (Suc n) describe (Some c) =
     (let (entry, after) = cause_entry describe c in entry # causes_loop n describe after)"

definition causes :: "diagnostic \<Rightarrow> (foreign \<Rightarrow> string option) \<Rightarrow> ffi_value list" where
  "causes d describe = causes_loop MAX_CAUSES describe (next_of d)"

definition encode ::
  "diagnostic \<Rightarrow> (string \<times> json) list \<Rightarrow> (foreign \<Rightarrow> string option) \<Rightarrow> ffi_value" where
  "encode d flds describe =
     FObject
       ((case d_code d of Some c \<Rightarrow> [(''code'', FString c)] | None \<Rightarrow> [])
        @ [(''message'', FString (d_message d))]
        @ (case d_help d of Some h \<Rightarrow> [(''help'', FString h)] | None \<Rightarrow> [])
        @ (case d_url d of Some u \<Rightarrow> [(''url'', FString u)] | None \<Rightarrow> [])
        @ [(''severity'', FString
              (case (case d_severity d of Some s \<Rightarrow> s | None \<Rightarrow> SevError) of
                 SevError \<Rightarrow> ''error'' | SevWarning \<Rightarrow> ''warning'' | SevAdvice \<Rightarrow> ''advice''))]
        @ [(''fields'', FObject (map (\<lambda>(k, v). (k, json_value v)) flds))]
        @ [(''causes'', FArray (causes d describe))])"

section \<open>Guest errors\<close>

datatype guest_error =
    Malformed string | OutOfOrder string | Internal string | Status u32

definition guest_diagnostic :: "guest_error \<Rightarrow> diagnostic" where
  "guest_diagnostic e =
     (case e of
        Malformed t \<Rightarrow> Diagnostic (Some ''stack_guest_abi::malformed_input'')
          (''malformed input: '' @ t) None None None None None
      | OutOfOrder t \<Rightarrow> Diagnostic (Some ''stack_guest_abi::out_of_order'')
          (''call out of order: '' @ t)
          (Some ''Initialise the instance once before any operation, and make no call after it is shut down.'')
          None None None None
      | Internal t \<Rightarrow> Diagnostic (Some ''stack_guest_abi::internal'')
          (''internal failure: '' @ t) None None None None None
      | Status st \<Rightarrow> Diagnostic (Some ''stack_guest_abi::status'')
          (''the call failed with status '' @ dec_digits (unat st)) None None None None None)"

definition guest_fields :: "guest_error \<Rightarrow> (string \<times> json) list" where
  "guest_fields e =
     (case e of Status st \<Rightarrow> [(''status'', JNumber (PosInt (ucast st)))] | _ \<Rightarrow> [])"

definition guest_status :: "guest_error \<Rightarrow> u32" where
  "guest_status e =
     (case e of Malformed _ \<Rightarrow> STATUS_ENCODING | OutOfOrder _ \<Rightarrow> STATUS_STATE
      | Internal _ \<Rightarrow> STATUS_INTERNAL | Status st \<Rightarrow> st)"

section \<open>The slot\<close>

type_synonym allocator = "guest \<Rightarrow> nat \<Rightarrow> ptr option"
type_synonym codec = "ffi_value \<Rightarrow> bytes option"

text \<open>
  \<open>register\<close> of a buffer the guest built itself: the allocator placed it, and an empty
  one owns no memory.
\<close>

definition register_new :: "allocator \<Rightarrow> bytes \<Rightarrow> guest \<Rightarrow> (ptr \<times> guest) option" where
  "register_new al bs s =
     (if bs = [] then Some (register 0 [] s)
      else map_option (\<lambda>p. register p bs s) (al s (length bs)))"

definition clear :: "guest \<Rightarrow> guest" where
  "clear s =
     (case LAST s of
        None \<Rightarrow> s
      | Some r \<Rightarrow> dealloc (rec_ptr r) (rec_len r) (s\<lparr>LAST := None\<rparr>))"

definition store :: "ptr \<Rightarrow> bytes \<Rightarrow> u32 \<Rightarrow> guest \<Rightarrow> guest" where
  "store p bs status s =
     (let s = clear s; len = length bs; (q, s) = register p bs s
      in s\<lparr>LAST := Some \<lparr>rec_ptr = q, rec_len = len, rec_status = status\<rparr>\<rparr>)"

definition record_with ::
  "allocator \<Rightarrow> codec \<Rightarrow> diagnostic \<Rightarrow> (string \<times> json) list \<Rightarrow> (foreign \<Rightarrow> string option)
   \<Rightarrow> u32 \<Rightarrow> guest \<Rightarrow> (u32 \<times> guest) option" where
  "record_with al enc d flds describe status s =
     (case enc (encode d flds describe) of
        None \<Rightarrow> Some (status, clear s)
      | Some bs \<Rightarrow>
          (case al s (length bs) of
             None \<Rightarrow> None
           | Some p \<Rightarrow> Some (status, store p bs status s)))"

definition record_error ::
  "allocator \<Rightarrow> codec \<Rightarrow> diagnostic \<Rightarrow> (string \<times> json) list \<Rightarrow> u32 \<Rightarrow> guest
   \<Rightarrow> (u32 \<times> guest) option" where
  "record_error al enc d flds status s = record_with al enc d flds describe_std status s"

definition fail :: "allocator \<Rightarrow> codec \<Rightarrow> guest_error \<Rightarrow> guest \<Rightarrow> (u32 \<times> guest) option" where
  "fail al enc e s = record_error al enc (guest_diagnostic e) (guest_fields e) (guest_status e) s"

definition malformed :: "allocator \<Rightarrow> codec \<Rightarrow> string \<Rightarrow> guest \<Rightarrow> (u32 \<times> guest) option" where
  "malformed al enc t s = fail al enc (Malformed t) s"

definition out_of_order :: "allocator \<Rightarrow> codec \<Rightarrow> string \<Rightarrow> guest \<Rightarrow> (u32 \<times> guest) option" where
  "out_of_order al enc t s = fail al enc (OutOfOrder t) s"

definition internal :: "allocator \<Rightarrow> codec \<Rightarrow> string \<Rightarrow> guest \<Rightarrow> (u32 \<times> guest) option" where
  "internal al enc t s = fail al enc (Internal t) s"

definition ensure_error :: "u32 \<Rightarrow> guest_error" where
  "ensure_error status =
     (if status = STATUS_ENCODING then Malformed ''the input failed validation''
      else if status = STATUS_STATE then OutOfOrder ''no operation can run in this state''
      else if status = STATUS_INTERNAL then Internal ''an unexpected failure''
      else Status status)"

definition ensure :: "allocator \<Rightarrow> codec \<Rightarrow> u32 \<Rightarrow> guest \<Rightarrow> guest option" where
  "ensure al enc status s =
     (if (case LAST s of Some r \<Rightarrow> rec_status r = status | None \<Rightarrow> False) then Some s
      else
        (let e = ensure_error status
         in map_option snd
              (record_error al enc (guest_diagnostic e) (guest_fields e) status s)))"

definition is_set :: "guest \<Rightarrow> bool" where
  "is_set s = (LAST s \<noteq> None)"

definition take_registered :: "guest \<Rightarrow> (ptr \<times> nat) option \<times> guest" where
  "take_registered s = (map_option (\<lambda>r. (rec_ptr r, rec_len r)) (LAST s), s\<lparr>LAST := None\<rparr>)"

definition take_error :: "guest \<Rightarrow> bytes option \<times> guest" where
  "take_error s =
     (case take_registered s of
        (None, s) \<Rightarrow> (None, s)
      | (Some (p, len), s) \<Rightarrow> take_buffer p len s)"

section \<open>What is relied on of the allocator and the codec\<close>

text \<open>
  A block the allocator hands out overlaps no live buffer and lies in linear memory; the
  codec encodes every value, to at least one byte.
\<close>

definition allocator_ok :: "allocator \<Rightarrow> bool" where
  "allocator_ok al \<longleftrightarrow>
     (\<forall>s n p. registry_ok s \<longrightarrow> n > 0 \<longrightarrow> al s n = Some p \<longrightarrow> fresh_block s p n)"

definition codec_ok :: "codec \<Rightarrow> bool" where
  "codec_ok enc \<longleftrightarrow> (\<forall>v. \<exists>bs. enc v = Some bs \<and> bs \<noteq> [])"

text \<open>
  Both can be had: an allocator that places every block after the last live one, and a
  codec that writes the number of a value's constructor.
\<close>

fun blocks_end :: "(ptr \<times> nat) list \<Rightarrow> nat" where
  "blocks_end [] = 1"
| "blocks_end ((p, n) # live) = max (unat p + n) (blocks_end live)"

definition bump_alloc :: allocator where
  "bump_alloc s n =
     (let top = blocks_end (BUFFERS s)
      in if top + n < 2 ^ 32 then Some (word_of_nat top) else None)"

fun tag_codec :: codec where
  "tag_codec FNull = Some [0]"
| "tag_codec (FBool _) = Some [1]"
| "tag_codec (FUInt64 _) = Some [2]"
| "tag_codec (FInt64 _) = Some [3]"
| "tag_codec (FFloat64 _) = Some [4]"
| "tag_codec (FString _) = Some [5]"
| "tag_codec (FArray _) = Some [6]"
| "tag_codec (FObject _) = Some [7]"

lemma blocks_end_bound: "e \<in> set live \<Longrightarrow> unat (fst e) + snd e \<le> blocks_end live"
  by (induction live rule: blocks_end.induct) (auto simp: max_def)

lemma blocks_end_pos: "0 < blocks_end live"
  by (induction live rule: blocks_end.induct) (auto simp: max_def)

lemma bump_alloc_ok: "allocator_ok bump_alloc"
proof -
  have "fresh_block s p n" if "bump_alloc s n = Some p" for s n p
  proof -
    define top where "top = blocks_end (BUFFERS s)"
    from that have b: "top + n < 2 ^ 32" and p: "p = word_of_nat top"
      by (auto simp: bump_alloc_def top_def Let_def split: if_splits)
    then have u: "unat p = top" by (simp add: unat_of_nat)
    moreover have "p \<noteq> 0" using u blocks_end_pos [of "BUFFERS s"] by (auto simp: top_def)
    ultimately show ?thesis
      using b blocks_end_bound [of _ "BUFFERS s"]
      by (auto simp: fresh_block_def blocks_disjoint_def top_def)
  qed
  then show ?thesis by (simp add: allocator_ok_def)
qed

lemma tag_codec_ok: "codec_ok tag_codec"
  unfolding codec_ok_def
proof
  fix v show "\<exists>bs. tag_codec v = Some bs \<and> bs \<noteq> []" by (cases v) auto
qed

section \<open>The slot's invariant\<close>

definition slot_ok :: "guest \<Rightarrow> bool" where
  "slot_ok s =
     (case LAST s of
        None \<Rightarrow> True
      | Some r \<Rightarrow> map_of (BUFFERS s) (rec_ptr r) = Some (rec_len r))"

definition guest_ok :: "guest \<Rightarrow> bool" where
  "guest_ok s \<longleftrightarrow> registry_ok s \<and> slot_ok s"

lemma reclaim_LAST: "LAST (snd (reclaim p n s)) = LAST s"
  by (auto simp: reclaim_def split: option.split)

lemma reclaim_BUFFERS: "set (BUFFERS (snd (reclaim p n s))) \<subseteq> set (BUFFERS s)"
  by (auto simp: reclaim_def split: option.split)

lemma dealloc_LAST [simp]: "LAST (dealloc p n s) = LAST s"
  using reclaim_LAST [of p n s] by (auto simp: dealloc_def split: prod.split option.split)

lemma dealloc_BUFFERS: "set (BUFFERS (dealloc p n s)) \<subseteq> set (BUFFERS s)"
  using reclaim_BUFFERS [of p n s] by (auto simp: dealloc_def split: prod.split option.split)

lemma clear_LAST [simp]: "LAST (clear s) = None"
  by (auto simp: clear_def split: option.split)

lemma clear_registry_ok: "registry_ok s \<Longrightarrow> registry_ok (clear s)"
  by (auto simp: clear_def dealloc_ok split: option.split)

lemma clear_ok: "guest_ok s \<Longrightarrow> guest_ok (clear s)"
  by (simp add: guest_ok_def clear_registry_ok slot_ok_def)

lemma clear_fresh: "fresh_block s p n \<Longrightarrow> fresh_block (clear s) p n"
  using dealloc_BUFFERS by (fastforce simp: fresh_block_def clear_def split: option.split)

lemma store_LAST: "LAST (store p bs st s) =
    Some \<lparr>rec_ptr = (if bs = [] then empty_ptr else p), rec_len = length bs, rec_status = st\<rparr>"
  by (simp add: store_def register_def Let_def)

lemma store_ok:
  assumes "registry_ok s" and "bs \<noteq> []" and "fresh_block s p (length bs)"
  shows "guest_ok (store p bs st s)"
proof -
  have "registry_ok (snd (register p bs (clear s)))"
    using assms by (intro register_ok) (auto simp: clear_registry_ok clear_fresh)
  then show ?thesis
    using assms(2) by (auto simp: guest_ok_def slot_ok_def store_def register_def Let_def)
qed

lemma store_view:
  assumes "registry_ok s" and "bs \<noteq> []" and "fresh_block s p (length bs)"
  shows "sized (view (store p bs st s)) p = Some bs"
proof -
  have "view (snd (register p bs (clear s))) = spec_register p bs (view (clear s))"
    using assms by (intro view_register) (auto simp: clear_registry_ok clear_fresh)
  then show ?thesis
    using assms(2) by (simp add: store_def Let_def register_def view_def spec_register_def)
qed

text \<open>After a success, the slot holds the encoding of the error just recorded, for its status.\<close>

definition holds :: "guest \<Rightarrow> u32 \<Rightarrow> bytes \<Rightarrow> bool" where
  "holds s st bs =
     (case LAST s of
        None \<Rightarrow> False
      | Some r \<Rightarrow> rec_status r = st \<and> rec_len r = length bs \<and> rec_ptr r \<noteq> 0
                  \<and> sized (view s) (rec_ptr r) = Some bs)"

lemma record_with_result:
  assumes al: "allocator_ok al" and cd: "codec_ok enc" and ok: "registry_ok s"
    and r: "record_with al enc d flds describe st s = Some (st', s')"
  shows "st' = st \<and> guest_ok s' \<and> (\<exists>bs. enc (encode d flds describe) = Some bs \<and> holds s' st bs)"
proof -
  obtain bs where bs: "enc (encode d flds describe) = Some bs" "bs \<noteq> []"
    using cd unfolding codec_ok_def by blast
  from r bs(1) have r': "(case al s (length bs) of None \<Rightarrow> None
      | Some p \<Rightarrow> Some (st, store p bs st s)) = Some (st', s')"
    by (simp only: record_with_def option.case)
  then obtain p where p: "al s (length bs) = Some p" by (cases "al s (length bs)") simp_all
  with r' have s': "s' = store p bs st s" and "st' = st" by auto
  from al ok bs(2) p have fr: "fresh_block s p (length bs)"
    unfolding allocator_ok_def by blast
  have "holds s' st bs"
    using s' store_view [OF ok bs(2) fr, of st] fr bs(2)
    by (simp add: holds_def store_LAST fresh_block_def)
  moreover have "guest_ok s'" using s' store_ok [OF ok bs(2) fr, of st] by simp
  ultimately show ?thesis using \<open>st' = st\<close> bs(1) by blast
qed

lemma fail_result:
  assumes "allocator_ok al" and "codec_ok enc" and "registry_ok s"
    and "fail al enc e s = Some (st, s')"
  shows "st = guest_status e \<and> guest_ok s' \<and>
    (\<exists>bs. enc (encode (guest_diagnostic e) (guest_fields e) describe_std) = Some bs
          \<and> holds s' (guest_status e) bs)"
  using record_with_result [OF assms(1-3), of "guest_diagnostic e" "guest_fields e" describe_std
      "guest_status e" st s'] assms(4)
  by (auto simp: fail_def record_error_def)

lemma ensure_result:
  assumes al: "allocator_ok al" and cd: "codec_ok enc" and ok: "guest_ok s"
    and r: "ensure al enc st s = Some s'"
  shows "guest_ok s' \<and> map_option rec_status (LAST s') = Some st"
proof (cases "map_option rec_status (LAST s) = Some st")
  case True
  then have "s' = s" using r by (auto simp: ensure_def)
  with True ok show ?thesis by simp
next
  case False
  then obtain st' where
    "record_with al enc (guest_diagnostic (ensure_error st)) (guest_fields (ensure_error st))
       describe_std st s = Some (st', s')"
    using r by (auto simp: ensure_def record_error_def Let_def split: option.splits)
  from record_with_result [OF al cd _ this] ok show ?thesis
    by (auto simp: guest_ok_def holds_def split: option.splits)
qed

lemma take_error_holds:
  assumes "registry_ok s" and "holds s st bs" and "bs \<noteq> []"
  shows "fst (take_error s) = Some bs"
proof -
  obtain r where r: "LAST s = Some r" "rec_len r = length bs" "rec_ptr r \<noteq> 0"
      "sized (view s) (rec_ptr r) = Some bs"
    using assms(2) by (auto simp: holds_def split: option.splits)
  have "view (s\<lparr>LAST := None\<rparr>) = view s" by (simp add: view_def)
  then show ?thesis
    using r assms view_take [of "s\<lparr>LAST := None\<rparr>" "rec_ptr r" "rec_len r"]
    by (simp add: take_error_def take_registered_def spec_take_def)
qed

section \<open>What the encoding keeps out\<close>

text \<open>
  \<open>hush\<close> erases the message of every foreign error in a chain. An encoding computed
  with a describer that does not read the message cannot tell a chain from its hushed form.
\<close>

primrec hush :: "foreign \<Rightarrow> foreign" where
  "hush (Foreign k m src) = Foreign k [] (map_option hush src)"

primrec hush_diagnostic :: "diagnostic \<Rightarrow> diagnostic" where
  "hush_diagnostic (Diagnostic c m h u sv ds src) =
     Diagnostic c m h u sv (map_option hush_diagnostic ds) (map_option hush src)"

fun hush_cause :: "cause \<Rightarrow> cause" where
  "hush_cause (Ours d) = Ours (hush_diagnostic d)"
| "hush_cause (ForeignCause f) = ForeignCause (hush f)"

lemma hush_simps [simp]:
  "fsource (hush f) = map_option hush (fsource f)"
  "d_code (hush_diagnostic d) = d_code d"
  "d_message (hush_diagnostic d) = d_message d"
  "d_help (hush_diagnostic d) = d_help d"
  "d_url (hush_diagnostic d) = d_url d"
  "d_severity (hush_diagnostic d) = d_severity d"
  by (cases f; simp) (cases d; simp)+

lemma next_of_hush: "next_of (hush_diagnostic d) = map_option hush_cause (next_of d)"
  by (cases d) (auto simp: next_of_def option.map_comp comp_def split: option.split)

lemma describe_std_hush: "describe_std (hush f) = describe_std f"
  by (cases f rule: describe_std.cases) auto

lemma cause_entry_hush:
  assumes "\<And>f. describe (hush f) = describe f"
  shows "cause_entry describe (hush_cause c)
    = (fst (cause_entry describe c), map_option hush_cause (snd (cause_entry describe c)))"
  using assms by (cases c) (auto simp: cause_entry_def next_of_hush option.map_comp comp_def)

lemma causes_loop_hush:
  assumes "\<And>f. describe (hush f) = describe f"
  shows "causes_loop n describe (map_option hush_cause c) = causes_loop n describe c"
proof (induction n arbitrary: c)
  case 0
  then show ?case by (cases c) auto
next
  case (Suc n)
  then show ?case
    by (cases c) (auto simp: cause_entry_hush [of describe, OF assms] split: prod.split)
qed

lemma length_causes: "length (causes d describe) \<le> MAX_CAUSES"
proof -
  have "length (causes_loop n describe c) \<le> n" for n c
  proof (induction n arbitrary: c)
    case 0
    then show ?case by (cases c) auto
  next
    case (Suc n)
    then show ?case by (cases c) (auto split: prod.split)
  qed
  then show ?thesis by (simp add: causes_def)
qed

lemma encode_hush:
  assumes "\<And>f. describe (hush f) = describe f"
  shows "encode (hush_diagnostic d) flds describe = encode d flds describe"
  using causes_loop_hush [of describe, OF assms]
  by (simp add: encode_def causes_def next_of_hush)

text \<open>
  No message of an error from another library reaches the host: the encoding of an
  error is the same whatever those messages are, and it holds at most
  \<open>MAX_CAUSES\<close> causes.
\<close>

theorem foreign_messages_never_encoded:
  "encode (hush_diagnostic d) flds describe_std = encode d flds describe_std
   \<and> length (causes d describe_std) \<le> 16"
  using encode_hush [of describe_std, OF describe_std_hush] length_causes [of d describe_std]
  by (simp add: MAX_CAUSES_def)

end
