(* ===== verification/Guest_Call.thy ===== *)
theory Guest_Call
  imports Guest_Errors
begin

text \<open>
  The export surface: the lifecycle every export runs (\<open>call.rs\<close>), the packed results,
  \<open>se_alloc\<close>, \<open>se_dealloc\<close> and \<open>se_last_error\<close>, the validated inputs
  (\<open>abi.rs\<close>), and one HTTP request through the host (\<open>transport.rs\<close>). The lifecycle is
  stated over an interface for the error slot, which \<open>Guest_Errors\<close> provides.
\<close>

section \<open>The lifecycle of an export\<close>

text \<open>
  The body of an export is a function on the guest's state: it panics, or returns a value
  or a status; \<open>None\<close> is an aborted instance. The slot's operations are arguments of
  \<open>run_with\<close>, and \<open>run\<close> supplies those of the guest.
\<close>

datatype 'a body_result = Panicked | Returned "(u32, 'a) result"

definition run_with ::
  "('s \<Rightarrow> 's) \<Rightarrow> ('s \<Rightarrow> (u32 \<times> 's) option) \<Rightarrow> (u32 \<Rightarrow> 's \<Rightarrow> 's option)
   \<Rightarrow> ('s \<Rightarrow> ('a body_result \<times> 's) option) \<Rightarrow> 's \<Rightarrow> ((u32, 'a) result \<times> 's) option" where
  "run_with clr panicked ens f s =
     Option.bind (f (clr s)) (\<lambda>(out, s).
     Option.bind
       (case out of
          Returned r \<Rightarrow> Some (r, s)
        | Panicked \<Rightarrow> map_option (\<lambda>(st, s). (Inl st, s)) (panicked s))
       (\<lambda>(r, s).
          case r of
            Inr v \<Rightarrow> Some (Inr v, clr s)
          | Inl st \<Rightarrow> map_option (\<lambda>s. (Inl st, s)) (ens st s)))"

definition run ::
  "allocator \<Rightarrow> codec \<Rightarrow> (guest \<Rightarrow> ('a body_result \<times> guest) option) \<Rightarrow> guest
   \<Rightarrow> ((u32, 'a) result \<times> guest) option" where
  "run al enc = run_with clear (internal al enc ''a panic was caught'') (ensure al enc)"

text \<open>
  The interface of an error slot: what it holds is a status or nothing; clearing empties
  it, a caught panic fills it for the status it returns, and \<open>ens\<close> makes it hold the
  status it is given.
\<close>

locale error_slot =
  fixes clr :: "'s \<Rightarrow> 's"
    and panicked :: "'s \<Rightarrow> (u32 \<times> 's) option"
    and ens :: "u32 \<Rightarrow> 's \<Rightarrow> 's option"
    and slot :: "'s \<Rightarrow> u32 option"
    and invar :: "'s \<Rightarrow> bool"
  assumes clr_law: "invar s \<Longrightarrow> invar (clr s) \<and> slot (clr s) = None"
    and panicked_law: "invar s \<Longrightarrow> panicked s = Some (st, s') \<Longrightarrow> invar s'"
    and ens_law: "invar s \<Longrightarrow> ens st s = Some s' \<Longrightarrow> invar s' \<and> slot s' = Some st"
begin

lemma run_with_slot:
  assumes inv: "invar s"
    and body: "\<And>s out s'. invar s \<Longrightarrow> f s = Some (out, s') \<Longrightarrow> invar s'"
    and res: "run_with clr panicked ens f s = Some (r, s')"
  shows "invar s' \<and> slot s' = (case r of Inr _ \<Rightarrow> None | Inl st \<Rightarrow> Some st)"
proof -
  obtain out s1 where f: "f (clr s) = Some (out, s1)"
    using res by (cases "f (clr s)") (auto simp: run_with_def)
  have inv1: "invar s1" using body [OF _ f] clr_law [OF inv] by blast
  obtain r' s2 where s2: "(case out of Returned r \<Rightarrow> Some (r, s1)
      | Panicked \<Rightarrow> map_option (\<lambda>(st, s). (Inl st, s)) (panicked s1)) = Some (r', s2)"
    using res f by (auto simp: run_with_def bind_eq_Some_conv)
  have inv2: "invar s2"
    using s2 inv1 panicked_law [OF inv1] by (auto split: body_result.splits)
  have "(case r' of Inr v \<Rightarrow> Some (Inr v, clr s2)
      | Inl st \<Rightarrow> map_option (\<lambda>s. (Inl st, s)) (ens st s2)) = Some (r, s')"
    using res f s2 by (simp add: run_with_def)
  then show ?thesis
    using clr_law [OF inv2] ens_law [OF inv2] by (cases r') auto
qed

end

definition export ::
  "allocator \<Rightarrow> codec \<Rightarrow> (guest \<Rightarrow> (bytes body_result \<times> guest) option) \<Rightarrow> guest
   \<Rightarrow> (u64 \<times> guest) option" where
  "export al enc f s =
     Option.bind (run al enc f s) (\<lambda>(r, s).
       case r of
         Inl status \<Rightarrow> Some (pack_status status, s)
       | Inr out \<Rightarrow>
           map_option (\<lambda>(p, s). (pack_buffer p (word_of_nat (length out)), s))
             (register_new al out s))"

definition se_last_error :: "guest \<Rightarrow> u64 \<times> guest" where
  "se_last_error s =
     (case take_registered s of
        (Some (p, len), s) \<Rightarrow> (pack_buffer p (word_of_nat len), s)
      | (None, s) \<Rightarrow> (0, s))"

definition se_alloc :: "ptr option \<Rightarrow> u32 \<Rightarrow> guest \<Rightarrow> ptr \<times> guest" where
  "se_alloc reserved len s = alloc reserved (unat len) s"

definition se_dealloc :: "ptr \<Rightarrow> u32 \<Rightarrow> guest \<Rightarrow> guest" where
  "se_dealloc p len s = dealloc p (unat len) s"

section \<open>Validated inputs\<close>

text \<open>
  \<open>pages\<close> is the size of linear memory in 64 KiB pages. A slice is read when the pair is
  validated; \<open>isize::MAX\<close> is \<open>2 ^ 31 - 1\<close> on wasm32.
\<close>

definition linear_memory_bytes :: "nat \<Rightarrow> nat" where
  "linear_memory_bytes pages = pages * 65536"

definition input_ok :: "nat \<Rightarrow> ptr \<Rightarrow> nat \<Rightarrow> bool" where
  "input_ok pages p len =
     (\<not> (p = 0 \<or> len > 2 ^ 31 - 1) \<and> unat p + len < 2 ^ 32
      \<and> unat p + len \<le> linear_memory_bytes pages)"

definition input ::
  "allocator \<Rightarrow> codec \<Rightarrow> nat \<Rightarrow> ptr \<Rightarrow> u32 \<Rightarrow> guest \<Rightarrow> ((u32, bytes) result \<times> guest) option" where
  "input al enc pages p len s =
     (if len = 0 then Some (Inr [], s)
      else if \<not> input_ok pages p (unat len) then
        map_option (\<lambda>(st, s). (Inl st, s))
          (malformed al enc ''a pointer/length pair is outside guest memory'' s)
      else Some (Inr (read_range (mem s) p (unat len)), s))"

definition wipe_input :: "ptr \<Rightarrow> u32 \<Rightarrow> guest \<Rightarrow> guest" where
  "wipe_input p len s =
     (if p = 0 \<or> len = 0 then s else s\<lparr>mem := zero_range (mem s) p (unat len)\<rparr>)"

definition take_plaintext ::
  "allocator \<Rightarrow> codec \<Rightarrow> nat \<Rightarrow> ptr \<Rightarrow> u32 \<Rightarrow> guest \<Rightarrow> ((u32, bytes) result \<times> guest) option" where
  "take_plaintext al enc pages p len s =
     map_option (\<lambda>(r, s). case r of Inl st \<Rightarrow> (Inl st, s) | Inr taken \<Rightarrow> (Inr taken, wipe_input p len s))
       (input al enc pages p len s)"

section \<open>One request through the host\<close>

text \<open>
  The host import \<open>transport_send\<close> is an argument: from the request and the guest's
  state it gives the status it returns, the two output slots it filled, and the state its
  calls of \<open>se_alloc\<close> left.
\<close>

record response =
  resp_status :: "32 word"
  resp_headers :: bytes
  resp_body :: bytes

record host_reply =
  hr_status :: "32 word"
  hr_headers :: "ptr \<times> u32"
  hr_body :: "ptr \<times> u32"

type_synonym transport = "string \<Rightarrow> string \<Rightarrow> bytes \<Rightarrow> bytes \<Rightarrow> guest \<Rightarrow> host_reply \<times> guest"

datatype host_buffer_error = HostBufferError

definition send ::
  "transport \<Rightarrow> string \<Rightarrow> string \<Rightarrow> bytes \<Rightarrow> bytes \<Rightarrow> guest
   \<Rightarrow> (host_buffer_error, response) result \<times> guest" where
  "send transport_send verb url headers body s =
     (let (reply, s) = transport_send verb url headers body s;
          (resp_headers, s) = take_buffer (fst (hr_headers reply)) (unat (snd (hr_headers reply))) s;
          (resp_body, s) = take_buffer (fst (hr_body reply)) (unat (snd (hr_body reply))) s
      in (and_then (ok_or resp_headers HostBufferError) (\<lambda>hs.
            and_then (ok_or resp_body HostBufferError) (\<lambda>b.
              Inr \<lparr>resp_status = hr_status reply, resp_headers = hs, resp_body = b\<rparr>)), s))"

section \<open>Properties of the lifecycle\<close>

definition slot_status :: "guest \<Rightarrow> u32 option" where
  "slot_status s = map_option rec_status (LAST s)"

definition runtime_ok :: "allocator \<Rightarrow> codec \<Rightarrow> guest \<Rightarrow> bool" where
  "runtime_ok al enc s \<longleftrightarrow> allocator_ok al \<and> codec_ok enc \<and> guest_ok s"

interpretation guest_slot: error_slot clear "internal al enc t" "ensure al enc" slot_status
    "runtime_ok al enc" for al enc t
proof unfold_locales
  fix s assume "runtime_ok al enc s"
  then show "runtime_ok al enc (clear s) \<and> slot_status (clear s) = None"
    by (simp add: runtime_ok_def slot_status_def clear_ok)
next
  fix s st s' assume "runtime_ok al enc s" and "internal al enc t s = Some (st, s')"
  then show "runtime_ok al enc s'"
    using fail_result [of al enc s] by (auto simp: internal_def runtime_ok_def guest_ok_def)
next
  fix s st s' assume "runtime_ok al enc s" and "ensure al enc st s = Some s'"
  then show "runtime_ok al enc s' \<and> slot_status s' = Some st"
    using ensure_result [of al enc s st s'] by (simp add: runtime_ok_def slot_status_def)
qed

lemma register_new_result:
  assumes "allocator_ok al" and "registry_ok s" and "unat (EMPTY_BUFFERS s) + 1 < 2 ^ 32"
    and "register_new al out s = Some (p, s')"
  shows "p \<noteq> 0 \<and> length out < 2 ^ 32 \<and> registry_ok s' \<and> LAST s' = LAST s
    \<and> fst (take_buffer p (length out) s') = Some out"
proof (cases "out = []")
  case True
  then have e: "p = 1" "s' = s\<lparr>EMPTY_BUFFERS := EMPTY_BUFFERS s + 1\<rparr>"
    using assms(4) by (auto simp: register_new_def register_def empty_ptr_def)
  have "unat (EMPTY_BUFFERS s + 1) = unat (EMPTY_BUFFERS s) + 1"
    using assms(3) by (simp add: unat_word_ariths)
  then have "EMPTY_BUFFERS s + 1 > 0" by (simp add: word_less_nat_alt)
  with True e assms(2) show ?thesis
    by (simp add: take_buffer_def reclaim_def empty_ptr_def)
next
  case False
  then have al: "al s (length out) = Some p" and s': "s' = snd (register p out s)"
    using assms(4) by (auto simp: register_new_def register_def)
  with assms(1,2) False have fr: "fresh_block s p (length out)"
    by (simp add: allocator_ok_def)
  have v: "view s' = spec_register p out (view s)"
    unfolding s' using False fr assms(2) by (intro view_register) auto
  have ok: "registry_ok s'"
    unfolding s' using fr assms(2) by (intro register_ok) auto
  have p: "p \<noteq> 0" "unat p > 0" "unat p + length out \<le> 2 ^ 32"
    using fr by (auto simp: fresh_block_def unat_gt_0)
  then have l: "length out < 2 ^ 32" by linarith
  have "LAST s' = LAST s" using False by (simp add: s' register_def)
  with ok p l False show ?thesis
    using view_take [OF ok, of p "length out"] by (simp add: v spec_register_def spec_take_def)
qed

lemma run_Inr:
  assumes "run al enc f s = Some (Inr out, s1)"
  shows "\<exists>t. f (clear s) = Some (Returned (Inr out), t) \<and> s1 = clear t"
proof (cases "f (clear s)")
  case None
  with assms show ?thesis by (simp add: run_def run_with_def)
next
  case (Some x)
  obtain res t where x: "x = (res, t)" by (cases x)
  show ?thesis
  proof (cases res)
    case Panicked
    with assms Some x show ?thesis
      by (auto simp: run_def run_with_def bind_eq_Some_conv)
  next
    case (Returned r)
    with assms Some x show ?thesis
      by (cases r) (auto simp: run_def run_with_def)
  qed
qed

lemma slot_handed_over:
  assumes "guest_ok s" and "slot_status s = Some st"
  shows "\<exists>p len bs. unpack (fst (se_last_error s)) = PBuffer p len
    \<and> fst (take_buffer p (unat len) (snd (se_last_error s))) = Some bs"
proof -
  obtain r where r: "LAST s = Some r" "map_of (BUFFERS s) (rec_ptr r) = Some (rec_len r)"
    using assms by (auto simp: guest_ok_def slot_ok_def slot_status_def)
  have b: "rec_ptr r \<noteq> 0" "unat (rec_ptr r) + rec_len r \<le> 2 ^ 32" "rec_len r > 0"
    using registry_okD [OF _ r(2)] assms(1) by (auto simp: guest_ok_def)
  then have "unat (rec_ptr r) > 0" by (simp add: unat_gt_0)
  with b have "rec_len r < 2 ^ 32" by linarith
  then have u: "unat (word_of_nat (rec_len r) :: u32) = rec_len r" by (simp add: unat_of_nat)
  let ?s = "s\<lparr>LAST := None\<rparr>"
  have "se_last_error s = (pack_buffer (rec_ptr r) (word_of_nat (rec_len r)), ?s)"
    using r by (simp add: se_last_error_def take_registered_def)
  moreover have "fst (take_buffer (rec_ptr r) (rec_len r) ?s) = Some (read_range (mem s) (rec_ptr r) (rec_len r))"
    using r b by (simp add: take_buffer_def reclaim_def)
  ultimately show ?thesis
    using b u by (auto simp: unpack_pack_buffer)
qed

text \<open>
  C18. What the host reads from a packed result is what the export did. A buffer result has
  left the error slot empty and hands the host exactly the bytes the export's body
  returned; a status result has left an error recorded for that very status, and
  \<open>se_last_error\<close> hands over a buffer the host can take.
\<close>

theorem export_result:
  assumes al: "allocator_ok al" and cd: "codec_ok enc" and ok: "guest_ok s"
    and body: "\<And>s out s'. guest_ok s \<Longrightarrow> f s = Some (out, s')
      \<Longrightarrow> guest_ok s' \<and> unat (EMPTY_BUFFERS (clear s')) + 1 < 2 ^ 32"
    and res: "export al enc f s = Some (v, s')"
  shows "case unpack v of
      PStatus st \<Rightarrow> slot_status s' = Some st
        \<and> (\<exists>p len bs. unpack (fst (se_last_error s')) = PBuffer p len
              \<and> fst (take_buffer p (unat len) (snd (se_last_error s'))) = Some bs)
    | PBuffer p len \<Rightarrow> slot_status s' = None
        \<and> (\<exists>bs t. f (clear s) = Some (Returned (Inr bs), t)
              \<and> fst (take_buffer p (unat len) s') = Some bs)"
proof -
  obtain r s1 where r: "run al enc f s = Some (r, s1)"
    using res by (cases "run al enc f s") (auto simp: export_def)
  have inv: "runtime_ok al enc s1 \<and> slot_status s1 = (case r of Inr _ \<Rightarrow> None | Inl st \<Rightarrow> Some st)"
  proof (rule guest_slot.run_with_slot [where f = f])
    show "runtime_ok al enc s" using al cd ok by (simp add: runtime_ok_def)
    show "run_with clear (internal al enc ''a panic was caught'') (ensure al enc) f s = Some (r, s1)"
      using r by (simp add: run_def)
    fix u out u' assume "runtime_ok al enc u" and "f u = Some (out, u')"
    then show "runtime_ok al enc u'" using body by (auto simp: runtime_ok_def)
  qed
  show ?thesis
  proof (cases r)
    case (Inl st)
    then have "v = pack_status st" and "s' = s1" using res r by (auto simp: export_def)
    with Inl inv show ?thesis
      using slot_handed_over [of s1 st] by (simp add: unpack_pack_status runtime_ok_def)
  next
    case (Inr out)
    then obtain p where p: "register_new al out s1 = Some (p, s')"
        and v: "v = pack_buffer p (word_of_nat (length out))"
      using res r by (auto simp: export_def)
    obtain t where t: "f (clear s) = Some (Returned (Inr out), t)" and s1: "s1 = clear t"
      using run_Inr [OF r [unfolded Inr]] by auto
    have "unat (EMPTY_BUFFERS s1) + 1 < 2 ^ 32"
      using body [OF _ t] clear_ok [OF ok] s1 by blast
    then have new: "p \<noteq> 0" "length out < 2 ^ 32" "LAST s' = LAST s1"
        "fst (take_buffer p (length out) s') = Some out"
      using register_new_result [OF al _ _ p] inv by (auto simp: runtime_ok_def guest_ok_def)
    then have "unat (word_of_nat (length out) :: u32) = length out" by (simp add: unat_of_nat)
    with new inv Inr t v show ?thesis
      by (simp add: unpack_pack_buffer slot_status_def)
  qed
qed

theorem export_result_witness:
  "case unpack (fst (the (export bump_alloc tag_codec (\<lambda>s. Some (Returned (Inl STATUS_STATE), s)) guest0))) of
     PStatus st \<Rightarrow> st = STATUS_STATE | PBuffer _ _ \<Rightarrow> False"
proof -
  let ?f = "\<lambda>s. Some (Returned (Inl STATUS_STATE), s) :: (bytes body_result \<times> guest) option"
  let ?f' = "\<lambda>s. if unat (EMPTY_BUFFERS (clear s)) + 1 < 2 ^ 32 then ?f s else None"
  have ok: "guest_ok guest0" by (simp add: guest_ok_def slot_ok_def) (simp add: guest0_def)
  have e: "export bump_alloc tag_codec ?f' guest0 = export bump_alloc tag_codec ?f guest0"
    by (simp add: export_def run_def run_with_def clear_def guest0_def)
  obtain v s' where x: "export bump_alloc tag_codec ?f guest0 = Some (v, s')"
      and v: "v = pack_status STATUS_STATE"
    by (auto simp: export_def run_def run_with_def clear_def guest0_def ensure_def status_defs
        record_error_def record_with_def encode_def bump_alloc_def Let_def)
  have "slot_status s' = Some STATUS_STATE"
  proof -
    have "case unpack v of
        PStatus st \<Rightarrow> slot_status s' = Some st
          \<and> (\<exists>p len bs. unpack (fst (se_last_error s')) = PBuffer p len
                \<and> fst (take_buffer p (unat len) (snd (se_last_error s'))) = Some bs)
      | PBuffer p len \<Rightarrow> slot_status s' = None
          \<and> (\<exists>bs t. ?f' (clear guest0) = Some (Returned (Inr bs), t)
                \<and> fst (take_buffer p (unat len) s') = Some bs)"
      by (rule export_result [OF bump_alloc_ok tag_codec_ok ok])
        (use x e in \<open>auto split: if_splits\<close>)
    then show ?thesis by (simp add: v unpack_pack_status)
  qed
  then show ?thesis by (simp add: x v unpack_pack_status)
qed

text \<open>
  A validated plaintext input is copied out exactly and wiped in place: the host's
  buffer holds zeros before the call goes on and no byte outside it has changed. A pair
  that is null or reaches outside linear memory is refused with \<open>STATUS_ENCODING\<close>.
\<close>

theorem take_plaintext_wipes:
  assumes "allocator_ok al" and "codec_ok enc" and "guest_ok s" and "len \<noteq> 0"
    and "take_plaintext al enc pages p len s = Some (r, s')"
  shows "if input_ok pages p (unat len)
     then r = Inr (read_range (mem s) p (unat len))
       \<and> read_range (mem s') p (unat len) = replicate (unat len) 0
       \<and> (\<forall>a. \<not> in_block p (unat len) a \<longrightarrow> mem s' a = mem s a)
     else r = Inl STATUS_ENCODING \<and> slot_status s' = Some STATUS_ENCODING"
proof (cases "input_ok pages p (unat len)")
  case True
  then have "p \<noteq> 0" by (auto simp: input_ok_def)
  moreover have "unat len \<le> 2 ^ 32"
    using order.strict_implies_order [OF unsigned_less [of len, where 'a = nat]] by simp
  moreover have "r = Inr (read_range (mem s) p (unat len))"
      and "s' = s\<lparr>mem := zero_range (mem s) p (unat len)\<rparr>"
    using True assms(4,5) \<open>p \<noteq> 0\<close> by (auto simp: take_plaintext_def input_def wipe_input_def)
  ultimately show ?thesis
    using True by (simp add: zero_range_def [of _ _ _, THEN fun_cong])
next
  case False
  then obtain st where f: "malformed al enc ''a pointer/length pair is outside guest memory'' s = Some (st, s')"
      and r: "r = Inl st"
    using assms(4,5) by (auto simp: take_plaintext_def input_def)
  have "registry_ok s" using assms(3) by (simp add: guest_ok_def)
  from fail_result [OF assms(1,2) this f [unfolded malformed_def]] r False show ?thesis
    by (auto simp: guest_status_def holds_def slot_status_def split: option.splits)
qed

text \<open>
  A response body never stays behind. Whatever the host put in the headers slot, and
  whether the call succeeds or fails, a live body buffer it returned has been taken out of
  the registry when \<open>send\<close> returns; and \<open>send\<close> succeeds exactly when both slots
  name live buffers, with their bytes.
\<close>

theorem send_reclaims_both_slots:
  assumes h: "host verb url hdrs body s = (reply, s1)" and ok: "registry_ok s1"
    and pb: "fst (hr_body reply) \<noteq> fst (hr_headers reply)"
    and nh: "fst (hr_headers reply) \<noteq> 0" and nb: "fst (hr_body reply) \<noteq> 0"
    and lh: "snd (hr_headers reply) \<noteq> 0" and lb: "snd (hr_body reply) \<noteq> 0"
    and live: "sized (view s1) (fst (hr_body reply)) = Some b"
    and len: "length b = unat (snd (hr_body reply))"
  shows "sized (view (snd (send host verb url hdrs body s))) (fst (hr_body reply)) = None
    \<and> fst (send host verb url hdrs body s) =
        (case sized (view s1) (fst (hr_headers reply)) of
           Some hb \<Rightarrow> if length hb = unat (snd (hr_headers reply))
             then Inr \<lparr>resp_status = hr_status reply, resp_headers = hb, resp_body = b\<rparr>
             else Inl HostBufferError
         | None \<Rightarrow> Inl HostBufferError)"
proof -
  have nz: "unat (snd (hr_body reply)) \<noteq> 0" "unat (snd (hr_headers reply)) \<noteq> 0"
    using lb lh by (simp_all add: unsigned_eq_0_iff)
  define r1 where "r1 = take_buffer (fst (hr_headers reply)) (unat (snd (hr_headers reply))) s1"
  define r2 where "r2 = take_buffer (fst (hr_body reply)) (unat (snd (hr_body reply))) (snd r1)"
  have ok1: "registry_ok (snd r1)" using take_buffer_ok [OF ok] by (simp add: r1_def)
  have v1: "fst r1 = fst (spec_take (fst (hr_headers reply)) (unat (snd (hr_headers reply))) (view s1))"
      "view (snd r1) = snd (spec_take (fst (hr_headers reply)) (unat (snd (hr_headers reply))) (view s1))"
    using view_take [OF ok] by (simp_all add: r1_def)
  have still: "sized (view (snd r1)) (fst (hr_body reply)) = Some b"
    unfolding v1(2) using spec_take_other [OF pb [symmetric]] live by simp
  have v2: "fst r2 = Some b" "sized (view (snd r2)) (fst (hr_body reply)) = None"
    using view_take [OF ok1, of "fst (hr_body reply)" "unat (snd (hr_body reply))"] still len nb nz
    by (simp_all add: r2_def spec_take_def)
  have "send host verb url hdrs body s =
     (and_then (ok_or (fst r1) HostBufferError) (\<lambda>hs. and_then (ok_or (fst r2) HostBufferError)
        (\<lambda>b. Inr \<lparr>resp_status = hr_status reply, resp_headers = hs, resp_body = b\<rparr>)), snd r2)"
    by (simp add: send_def h r1_def r2_def Let_def case_prod_beta)
  then show ?thesis
    using v1(1) v2 nh nz by (auto simp: spec_take_def split: option.splits)
qed

text \<open>A host that places a body of three bytes and leaves the headers slot unfilled.\<close>

definition body_only_host :: transport where
  "body_only_host verb url hdrs body s =
     (\<lparr>hr_status = 200, hr_headers = (8, 4), hr_body = (16, 3)\<rparr>, snd (register 16 [1, 2, 3] s))"

end
