(* ===== verification/Keyset_Cache.thy ===== *)
theory Keyset_Cache
  imports Stack_Prelude
begin

text \<open>
  The keyset cache of \<open>packages/stack-encrypt/src/keyset.rs\<close>: a bounded,
  least-recently-used cache of loaded keysets with name-to-id bindings that age, move and
  are ordered by the lookup that produced them. Every method of \<open>KeysetCache\<close> is one
  definition. A clock reading (\<open>Instant::now\<close>) is an argument, in nanoseconds; the
  \<open>u64\<close> counters are natural numbers, since no run reaches \<open>2 ^ 64\<close> lookups.
\<close>

section \<open>The state\<close>

type_synonym uuid = "128 word"

record keyset_state =
  ks_id :: uuid
  ks_name :: "string option"
  ks_prf :: nat

type_synonym resolution = nat

record entry =
  e_state :: keyset_state
  e_last_used :: nat
  e_name :: "string option"
  e_resolution :: resolution

record name_alias =
  a_id :: uuid
  a_resolved_at :: nat
  a_resolution :: resolution

record keyset_cache =
  capacity :: nat
  name_ttl :: nat
  tick :: nat
  resolutions :: nat
  default_entry :: entry
  watermark :: resolution
  by_id :: "(uuid \<times> entry) list"
  by_name :: "string \<rightharpoonup> name_alias"

datatype identified_by = Uuid uuid | Name string

datatype lookup = Hit keyset_state | Stale resolution | Miss resolution

section \<open>The operations\<close>

definition is_later_than :: "resolution \<Rightarrow> resolution \<Rightarrow> bool" where
  "is_later_than r other = (r > other)"

definition is_fresh_at :: "name_alias \<Rightarrow> nat \<Rightarrow> nat \<Rightarrow> bool" where
  "is_fresh_at a now ttl = (now - a_resolved_at a < ttl)"

definition DEFAULT_NAME_TTL :: nat where
  "DEFAULT_NAME_TTL = 5 * 60 * 1000000000"

definition DEFAULT_CAPACITY :: nat where
  "DEFAULT_CAPACITY = 1 + 1023"

definition new_cache :: "nat \<Rightarrow> nat \<Rightarrow> keyset_state \<Rightarrow> nat \<Rightarrow> keyset_cache" where
  "new_cache cap ttl dflt now =
     \<lparr>capacity = cap, name_ttl = ttl, tick = 0, resolutions = 0,
      default_entry = \<lparr>e_state = dflt, e_last_used = 0, e_name = ks_name dflt, e_resolution = 0\<rparr>,
      watermark = 0, by_id = [],
      by_name = (case ks_name dflt of
                   None \<Rightarrow> Map.empty
                 | Some name \<Rightarrow>
                     [name \<mapsto> \<lparr>a_id = ks_id dflt, a_resolved_at = now, a_resolution = 0\<rparr>])\<rparr>"

definition next_resolution :: "keyset_cache \<Rightarrow> resolution \<times> keyset_cache" where
  "next_resolution c = (resolutions c + 1, c\<lparr>resolutions := resolutions c + 1\<rparr>)"

definition default_id :: "keyset_cache \<Rightarrow> uuid" where
  "default_id c = ks_id (e_state (default_entry c))"

definition entry_of :: "keyset_cache \<Rightarrow> uuid \<Rightarrow> entry option" where
  "entry_of c i = (if i = default_id c then Some (default_entry c) else map_of (by_id c) i)"

text \<open>\<open>entry_mut\<close>: the cache with the entry of \<open>id\<close>, where it has one, updated.\<close>

definition with_entry :: "uuid \<Rightarrow> (entry \<Rightarrow> entry) \<Rightarrow> keyset_cache \<Rightarrow> keyset_cache" where
  "with_entry i f c =
     (if i = default_id c then c\<lparr>default_entry := f (default_entry c)\<rparr>
      else c\<lparr>by_id := map (\<lambda>(k, e). (k, if k = i then f e else e)) (by_id c)\<rparr>)"

definition touch :: "uuid \<Rightarrow> keyset_cache \<Rightarrow> keyset_state option \<times> keyset_cache" where
  "touch i c =
     (case entry_of c i of
        None \<Rightarrow> (None, c)
      | Some e \<Rightarrow>
          (Some (e_state e),
           (with_entry i (\<lambda>e. e\<lparr>e_last_used := tick c + 1\<rparr>) c)\<lparr>tick := tick c + 1\<rparr>))"

definition cache_get :: "identified_by \<Rightarrow> nat \<Rightarrow> keyset_cache \<Rightarrow> lookup \<times> keyset_cache" where
  "cache_get by now c =
     (case (case by of
              Uuid i \<Rightarrow> Some (i, True)
            | Name name \<Rightarrow> map_option (\<lambda>a. (a_id a, is_fresh_at a now (name_ttl c))) (by_name c name)) of
        None \<Rightarrow> (let (r, c) = next_resolution c in (Miss r, c))
      | Some (i, fresh) \<Rightarrow>
          (case touch i c of
             (None, c) \<Rightarrow> (let (r, c) = next_resolution c in (Miss r, c))
           | (Some st, c) \<Rightarrow>
               if fresh then (Hit st, c)
               else (let (r, c) = next_resolution c in (Stale r, c))))"

definition forget_name_of :: "uuid \<Rightarrow> string \<Rightarrow> keyset_cache \<Rightarrow> keyset_cache" where
  "forget_name_of i name c =
     with_entry i (\<lambda>e. if e_name e = Some name then e\<lparr>e_name := None\<rparr> else e) c"

definition current_name_of :: "uuid \<Rightarrow> keyset_cache \<Rightarrow> string option" where
  "current_name_of i c = Option.bind (entry_of c i) e_name"

text \<open>
  The two steps of \<open>bind\<close> before the binding is written: the keyset the name was bound
  to gives it up, and the keyset being bound leaves the name it had.
\<close>

definition displace :: "string \<Rightarrow> uuid \<Rightarrow> keyset_cache \<Rightarrow> keyset_cache" where
  "displace name i c =
     (case by_name c name of
        Some a \<Rightarrow> if a_id a \<noteq> i then forget_name_of (a_id a) name c else c
      | None \<Rightarrow> c)"

definition leave_previous :: "string \<Rightarrow> uuid \<Rightarrow> keyset_cache \<Rightarrow> keyset_cache" where
  "leave_previous name i c =
     (case current_name_of i c of
        Some previous \<Rightarrow> if previous \<noteq> name
                         then c\<lparr>by_name := (by_name c)(previous := None)\<rparr> else c
      | None \<Rightarrow> c)"

definition bind_name ::
  "nat \<Rightarrow> string \<Rightarrow> uuid \<Rightarrow> resolution \<Rightarrow> keyset_cache \<Rightarrow> bool \<times> keyset_cache" where
  "bind_name now name i r c =
     (if is_later_than (watermark c) r then (False, c)
      else if (case by_name c name of Some a \<Rightarrow> is_later_than (a_resolution a) r | None \<Rightarrow> False)
      then (False, c)
      else
        (let c = displace name i c;
             c = leave_previous name i c;
             c = c\<lparr>by_name := (by_name c)(name \<mapsto>
                     \<lparr>a_id = i, a_resolved_at = now, a_resolution = r\<rparr>)\<rparr>
         in (True, with_entry i (\<lambda>e. e\<lparr>e_name := Some name\<rparr>) c)))"

definition evict_oldest :: "keyset_cache \<Rightarrow> keyset_cache" where
  "evict_oldest c =
     (case min_by_key (\<lambda>e. e_last_used (snd e)) (by_id c) of
        None \<Rightarrow> c
      | Some (oldest, e) \<Rightarrow>
          (let c = c\<lparr>by_id := al_remove oldest (by_id c),
                     watermark := max (watermark c) (e_resolution e)\<rparr>
           in case e_name e of
                None \<Rightarrow> c
              | Some name \<Rightarrow>
                  if (case by_name c name of Some a \<Rightarrow> a_id a = oldest | None \<Rightarrow> False)
                  then c\<lparr>by_name := (by_name c)(name := None)\<rparr> else c))"

definition later_answer :: "keyset_state \<Rightarrow> resolution \<Rightarrow> keyset_cache \<Rightarrow> keyset_state option" where
  "later_answer st r c =
     Option.bind (ks_name st) (\<lambda>name.
     Option.bind (by_name c name) (\<lambda>a.
       if is_later_than (a_resolution a) r then map_option e_state (entry_of c (a_id a)) else None))"

definition make_room :: "uuid \<Rightarrow> keyset_cache \<Rightarrow> keyset_cache" where
  "make_room i c =
     (if i \<noteq> default_id c \<and> map_of (by_id c) i = None \<and> length (by_id c) \<ge> capacity c
      then evict_oldest c else c)"

definition apply_answer ::
  "keyset_state \<Rightarrow> bool \<Rightarrow> resolution \<Rightarrow> keyset_cache \<Rightarrow> keyset_cache" where
  "apply_answer st bound r c =
     (if ks_id st = default_id c
      then c\<lparr>default_entry := (default_entry c)\<lparr>e_resolution := r\<rparr>\<rparr>
      else
        (let c = c\<lparr>tick := tick c + 1\<rparr>
         in case map_of (by_id c) (ks_id st) of
              Some _ \<Rightarrow> with_entry (ks_id st)
                (\<lambda>e. e\<lparr>e_state := st, e_last_used := tick c, e_resolution := r\<rparr>) c
            | None \<Rightarrow> c\<lparr>by_id := al_put (ks_id st)
                \<lparr>e_state = st, e_last_used = tick c,
                 e_name = (if bound then ks_name st else None), e_resolution = r\<rparr> (by_id c)\<rparr>))"

definition cache_insert ::
  "nat \<Rightarrow> keyset_state \<Rightarrow> resolution \<Rightarrow> keyset_cache \<Rightarrow> keyset_state \<times> keyset_cache" where
  "cache_insert now st r c =
     (let later = later_answer st r c
      in case (case entry_of c (ks_id st) of
                 Some e \<Rightarrow> if is_later_than (e_resolution e) r then Some e else None
               | None \<Rightarrow> None) of
           Some e \<Rightarrow> (case later of Some l \<Rightarrow> l | None \<Rightarrow> e_state e, c)
         | None \<Rightarrow>
             (let c = make_room (ks_id st) c;
                  (bound, c) = (case ks_name st of
                                  Some name \<Rightarrow> bind_name now name (ks_id st) r c
                                | None \<Rightarrow> (False, c));
                  answer = (case later of Some l \<Rightarrow> l | None \<Rightarrow> st)
              in (answer, apply_answer st bound r c)))"

definition cache_forget :: "string \<Rightarrow> resolution \<Rightarrow> keyset_cache \<Rightarrow> keyset_cache" where
  "cache_forget name r c =
     (let c = c\<lparr>watermark := max (watermark c) r\<rparr>
      in case by_name c name of
           None \<Rightarrow> c
         | Some a \<Rightarrow>
             if is_later_than (a_resolution a) r then c
             else forget_name_of (a_id a) name (c\<lparr>by_name := (by_name c)(name := None)\<rparr>))"

section \<open>The invariant\<close>

text \<open>
  Entries sit under their own id, the default keyset apart and never in the bounded map;
  the map respects its capacity; last uses are distinct and not in the future. Names and
  entries agree: a binding names a held keyset that claims exactly that name, a claimed
  name is bound to the keyset that claims it, and no binding is later than the answer that
  last spoke for its keyset. Nothing carries a ticket that was not yet issued.
\<close>

definition names_agree :: "keyset_cache \<Rightarrow> bool" where
  "names_agree c \<longleftrightarrow>
     (\<forall>name a. by_name c name = Some a \<longrightarrow>
        (\<exists>e. entry_of c (a_id a) = Some e \<and> e_name e = Some name)) \<and>
     (\<forall>i e name. entry_of c i = Some e \<longrightarrow> e_name e = Some name \<longrightarrow>
        (\<exists>a. by_name c name = Some a \<and> a_id a = i))"

definition tickets_ok :: "keyset_cache \<Rightarrow> bool" where
  "tickets_ok c \<longleftrightarrow>
     (\<forall>name a. by_name c name = Some a \<longrightarrow>
        (\<exists>e. entry_of c (a_id a) = Some e \<and> a_resolution a \<le> e_resolution e)) \<and>
     (\<forall>i e. entry_of c i = Some e \<longrightarrow> e_resolution e \<le> resolutions c) \<and>
     watermark c \<le> resolutions c"

definition store_ok :: "keyset_cache \<Rightarrow> bool" where
  "store_ok c \<longleftrightarrow>
     0 < capacity c \<and> length (by_id c) \<le> capacity c \<and>
     distinct (map fst (by_id c)) \<and> default_id c \<notin> fst ` set (by_id c) \<and>
     (\<forall>(i, e) \<in> set (by_id c). ks_id (e_state e) = i \<and> e_last_used e \<le> tick c) \<and>
     distinct (map (\<lambda>x. e_last_used (snd x)) (by_id c))"

definition cache_ok :: "keyset_cache \<Rightarrow> bool" where
  "cache_ok c \<longleftrightarrow> store_ok c \<and> names_agree c \<and> tickets_ok c"

section \<open>Facts on the accessors\<close>

lemma map_of_map_entry:
  "map_of (map (\<lambda>(k, e). (k, if k = i then f e else e)) xs) k
     = (if k = i then map_option f (map_of xs k) else map_of xs k)"
  by (induction xs) auto

lemma with_entry_fields [simp]:
  "capacity (with_entry i f c) = capacity c"
  "tick (with_entry i f c) = tick c"
  "resolutions (with_entry i f c) = resolutions c"
  "watermark (with_entry i f c) = watermark c"
  "by_name (with_entry i f c) = by_name c"
  "name_ttl (with_entry i f c) = name_ttl c"
  by (simp_all add: with_entry_def)

lemma length_with_entry [simp]: "length (by_id (with_entry i f c)) = length (by_id c)"
  by (simp add: with_entry_def)

lemma keys_with_entry [simp]: "map fst (by_id (with_entry i f c)) = map fst (by_id c)"
  by (auto simp: with_entry_def case_prod_beta)

lemma keyset_with_entry [simp]: "fst ` set (by_id (with_entry i f c)) = fst ` set (by_id c)"
  using keys_with_entry [of i f c] by (metis list.set_map)

definition keeps_id :: "(entry \<Rightarrow> entry) \<Rightarrow> bool" where
  "keeps_id f \<longleftrightarrow> (\<forall>e. ks_id (e_state (f e)) = ks_id (e_state e))"

lemma default_id_with_entry [simp]:
  "keeps_id f \<Longrightarrow> default_id (with_entry i f c) = default_id c"
  by (simp add: with_entry_def default_id_def keeps_id_def)

lemma entry_of_with_entry [simp]:
  "keeps_id f \<Longrightarrow> entry_of (with_entry i f c) k
     = (if k = i then map_option f (entry_of c k) else entry_of c k)"
  using default_id_with_entry [of f i c]
  by (auto simp: entry_of_def with_entry_def map_of_map_entry default_id_def keeps_id_def)

lemma keeps_id_updates [simp]:
  "keeps_id (\<lambda>e. e\<lparr>e_last_used := n\<rparr>)"
  "keeps_id (\<lambda>e. e\<lparr>e_name := m\<rparr>)"
  "keeps_id (\<lambda>e. if e_name e = Some name then e\<lparr>e_name := None\<rparr> else e)"
  by (simp_all add: keeps_id_def)

lemma default_id_frame [simp]:
  "default_id (c\<lparr>by_name := x\<rparr>) = default_id c"
  "default_id (c\<lparr>tick := y\<rparr>) = default_id c"
  "default_id (c\<lparr>resolutions := z\<rparr>) = default_id c"
  "default_id (c\<lparr>watermark := w\<rparr>) = default_id c"
  "default_id (c\<lparr>by_id := v\<rparr>) = default_id c"
  by (simp_all add: default_id_def)

lemma entry_of_frame [simp]:
  "entry_of (c\<lparr>by_name := x\<rparr>) = entry_of c"
  "entry_of (c\<lparr>tick := y\<rparr>) = entry_of c"
  "entry_of (c\<lparr>resolutions := z\<rparr>) = entry_of c"
  "entry_of (c\<lparr>watermark := w\<rparr>) = entry_of c"
  by (simp_all add: entry_of_def default_id_def fun_eq_iff)

lemma forget_name_of_fields [simp]:
  "capacity (forget_name_of i name c) = capacity c"
  "tick (forget_name_of i name c) = tick c"
  "resolutions (forget_name_of i name c) = resolutions c"
  "watermark (forget_name_of i name c) = watermark c"
  "by_name (forget_name_of i name c) = by_name c"
  "default_id (forget_name_of i name c) = default_id c"
  by (simp_all add: forget_name_of_def)

lemma entry_of_forget_name_of [simp]:
  "entry_of (forget_name_of i name c) k
     = (if k = i then map_option (\<lambda>e. if e_name e = Some name then e\<lparr>e_name := None\<rparr> else e) (entry_of c k)
        else entry_of c k)"
  by (simp add: forget_name_of_def)

section \<open>The operations on names and entries\<close>

lemma displace_fields [simp]:
  "capacity (displace name i c) = capacity c"
  "tick (displace name i c) = tick c"
  "resolutions (displace name i c) = resolutions c"
  "watermark (displace name i c) = watermark c"
  "default_id (displace name i c) = default_id c"
  "by_name (displace name i c) = by_name c"
  by (simp_all add: displace_def split: option.split)

lemma entry_of_displace:
  "entry_of (displace name i c) k =
     (if k \<noteq> i \<and> map_option a_id (by_name c name) = Some k
      then map_option (\<lambda>e. if e_name e = Some name then e\<lparr>e_name := None\<rparr> else e) (entry_of c k)
      else entry_of c k)"
  by (auto simp: displace_def split: option.split)

lemma current_name_of_displace [simp]: "current_name_of i (displace name i c) = current_name_of i c"
  by (simp add: current_name_of_def entry_of_displace)

lemma leave_previous_fields [simp]:
  "capacity (leave_previous name i c) = capacity c"
  "tick (leave_previous name i c) = tick c"
  "resolutions (leave_previous name i c) = resolutions c"
  "watermark (leave_previous name i c) = watermark c"
  "default_id (leave_previous name i c) = default_id c"
  "entry_of (leave_previous name i c) k = entry_of c k"
  by (simp_all add: leave_previous_def split: option.split)

lemma by_name_leave_previous:
  "by_name (leave_previous name i c) n =
     (if current_name_of i c = Some n \<and> n \<noteq> name then None else by_name c n)"
  by (auto simp: leave_previous_def split: option.split)

lemma bind_name_refused: "\<not> fst (bind_name now name i r c) \<Longrightarrow> snd (bind_name now name i r c) = c"
  by (auto simp: bind_name_def Let_def split: if_splits)

lemma bind_name_fields [simp]:
  "capacity (snd (bind_name now name i r c)) = capacity c"
  "tick (snd (bind_name now name i r c)) = tick c"
  "resolutions (snd (bind_name now name i r c)) = resolutions c"
  "watermark (snd (bind_name now name i r c)) = watermark c"
  "default_id (snd (bind_name now name i r c)) = default_id c"
  by (simp_all add: bind_name_def Let_def)

lemma bind_name_accepts:
  "fst (bind_name now name i r c) \<longleftrightarrow>
     watermark c \<le> r \<and> (\<forall>a. by_name c name = Some a \<longrightarrow> a_resolution a \<le> r)"
  by (auto simp: bind_name_def Let_def is_later_than_def split: option.split)

lemma bind_name_success:
  assumes "fst (bind_name now name i r c)"
  shows "snd (bind_name now name i r c) =
    (let c = leave_previous name i (displace name i c)
     in with_entry i (\<lambda>e. e\<lparr>e_name := Some name\<rparr>)
          (c\<lparr>by_name := (by_name c)(name \<mapsto> \<lparr>a_id = i, a_resolved_at = now, a_resolution = r\<rparr>)\<rparr>))"
  using assms by (simp add: bind_name_def Let_def split: if_splits)

lemma by_name_bind_name:
  assumes "fst (bind_name now name i r c)"
  shows "by_name (snd (bind_name now name i r c)) n =
    (if n = name then Some \<lparr>a_id = i, a_resolved_at = now, a_resolution = r\<rparr>
     else if current_name_of i c = Some n then None else by_name c n)"
  by (simp add: bind_name_success [OF assms] Let_def by_name_leave_previous)

lemma entry_of_bind_name:
  assumes "fst (bind_name now name i r c)"
  shows "entry_of (snd (bind_name now name i r c)) k =
    (if k = i then map_option (\<lambda>e. e\<lparr>e_name := Some name\<rparr>) (entry_of c k)
     else if map_option a_id (by_name c name) = Some k
     then map_option (\<lambda>e. if e_name e = Some name then e\<lparr>e_name := None\<rparr> else e) (entry_of c k)
     else entry_of c k)"
  by (simp add: bind_name_success [OF assms] Let_def entry_of_displace)

lemma entry_of_bind_name_other:
  assumes "fst (bind_name now name i r c)" and "k \<noteq> i"
    and "entry_of (snd (bind_name now name i r c)) k = Some e" and "e_name e = Some n"
  shows "entry_of c k = Some e \<and> \<not> (n = name \<and> map_option a_id (by_name c name) = Some k)"
  using assms(2-4) by (cases "entry_of c k") (auto simp: entry_of_bind_name [OF assms(1)] split: if_splits)

lemma apply_answer_fields [simp]:
  "by_name (apply_answer st b r c) = by_name c"
  "resolutions (apply_answer st b r c) = resolutions c"
  "watermark (apply_answer st b r c) = watermark c"
  "capacity (apply_answer st b r c) = capacity c"
  by (auto simp: apply_answer_def Let_def split: option.split)

lemma default_id_apply_answer [simp]: "default_id (apply_answer st b r c) = default_id c"
  by (auto simp: apply_answer_def Let_def with_entry_def default_id_def split: option.split)

lemma entry_of_apply_answer_other:
  assumes "k \<noteq> ks_id st"
  shows "entry_of (apply_answer st b r c) k = entry_of c k"
proof (cases "ks_id st = default_id c")
  case True
  with assms show ?thesis by (simp add: apply_answer_def entry_of_def default_id_def)
next
  case False
  have "map_of (by_id (apply_answer st b r c)) k = map_of (by_id c) k"
    using assms False
    by (simp add: apply_answer_def Let_def with_entry_def map_of_map_entry split: option.split)
  moreover have "default_entry (apply_answer st b r c) = default_entry c"
    using False by (simp add: apply_answer_def Let_def with_entry_def split: option.split)
  ultimately show ?thesis by (simp add: entry_of_def)
qed

lemma entry_of_apply_answer_self:
  "\<exists>e'. entry_of (apply_answer st b r c) (ks_id st) = Some e' \<and> e_resolution e' = r
     \<and> e_name e' = (case entry_of c (ks_id st) of Some e \<Rightarrow> e_name e
                      | None \<Rightarrow> if b then ks_name st else None)
     \<and> (ks_id st \<noteq> default_id c \<longrightarrow> e_state e' = st)
     \<and> (ks_id st = default_id c \<longrightarrow> e_state e' = e_state (default_entry c))"
proof (cases "ks_id st = default_id c")
  case True
  then show ?thesis by (simp add: apply_answer_def entry_of_def default_id_def)
next
  case False
  then have d: "entry_of (apply_answer st b r c) (ks_id st) = map_of (by_id (apply_answer st b r c)) (ks_id st)"
    by (simp add: entry_of_def)
  show ?thesis
  proof (cases "map_of (by_id c) (ks_id st)")
    case None
    with False show ?thesis
      unfolding d by (simp add: apply_answer_def entry_of_def Let_def)
  next
    case (Some e)
    with False show ?thesis
      unfolding d by (simp add: apply_answer_def entry_of_def Let_def with_entry_def map_of_map_entry)
  qed
qed

section \<open>Preservation: names and tickets\<close>

lemma names_agreeD:
  assumes "names_agree c" and "by_name c name = Some a"
  shows "\<exists>e. entry_of c (a_id a) = Some e \<and> e_name e = Some name"
  using assms by (auto simp: names_agree_def)

lemma names_agreeE:
  assumes "names_agree c" and "entry_of c i = Some e" and "e_name e = Some name"
  shows "\<exists>a. by_name c name = Some a \<and> a_id a = i"
  using assms by (auto simp: names_agree_def)

lemma names_agree_cong:
  assumes "names_agree c" and "by_name d = by_name c"
    and "\<And>i. map_option e_name (entry_of d i) = map_option e_name (entry_of c i)"
  shows "names_agree d"
  unfolding names_agree_def assms(2)
proof (intro conjI allI impI)
  fix n a assume "by_name c n = Some a"
  then obtain e where "entry_of c (a_id a) = Some e" "e_name e = Some n"
    using names_agreeD [OF assms(1)] by blast
  then show "\<exists>e. entry_of d (a_id a) = Some e \<and> e_name e = Some n"
    using assms(3) [of "a_id a"] by auto
next
  fix i e n assume "entry_of d i = Some e" and "e_name e = Some n"
  then obtain e' where "entry_of c i = Some e'" "e_name e' = Some n"
    using assms(3) [of i] by (cases "entry_of c i") auto
  then show "\<exists>a. by_name c n = Some a \<and> a_id a = i"
    using names_agreeE [OF assms(1)] by blast
qed

text \<open>A cache whose names agree except that \<open>i\<close>, freshly bound to \<open>name\<close>, may not be
  held yet: what \<open>bind_name\<close> leaves for \<open>apply_answer\<close> to complete.\<close>

definition names_pending :: "uuid \<Rightarrow> string \<Rightarrow> keyset_cache \<Rightarrow> bool" where
  "names_pending i name c \<longleftrightarrow>
     (\<exists>a. by_name c name = Some a \<and> a_id a = i) \<and>
     (\<forall>e. entry_of c i = Some e \<longrightarrow> e_name e = Some name) \<and>
     (\<forall>n a. n \<noteq> name \<longrightarrow> by_name c n = Some a \<longrightarrow>
        a_id a \<noteq> i \<and> (\<exists>e. entry_of c (a_id a) = Some e \<and> e_name e = Some n)) \<and>
     (\<forall>k e n. k \<noteq> i \<longrightarrow> entry_of c k = Some e \<longrightarrow> e_name e = Some n \<longrightarrow>
        n \<noteq> name \<and> (\<exists>a. by_name c n = Some a \<and> a_id a = k))"

lemma bind_name_pending:
  assumes ok: "names_agree c" and b: "fst (bind_name now name i r c)"
  shows "names_pending i name (snd (bind_name now name i r c))"
proof -
  let ?d = "snd (bind_name now name i r c)"
  note N = by_name_bind_name [OF b]
  note E = entry_of_bind_name [OF b]
  have "a_id a \<noteq> i \<and> (\<exists>e. entry_of ?d (a_id a) = Some e \<and> e_name e = Some n)"
    if n: "n \<noteq> name" and a: "by_name ?d n = Some a" for n a
  proof -
    have ca: "by_name c n = Some a" "current_name_of i c \<noteq> Some n"
      using n a by (auto simp: N split: if_splits)
    then obtain e where e: "entry_of c (a_id a) = Some e" "e_name e = Some n"
      using names_agreeD [OF ok] by blast
    then have "a_id a \<noteq> i" using ca(2) by (auto simp: current_name_of_def)
    with e n show ?thesis by (auto simp: E)
  qed
  moreover have "n \<noteq> name \<and> (\<exists>a. by_name ?d n = Some a \<and> a_id a = k)"
    if k: "k \<noteq> i" and e: "entry_of ?d k = Some e" and n: "e_name e = Some n" for k e n
  proof -
    have e': "entry_of c k = Some e" and nn: "\<not> (n = name \<and> map_option a_id (by_name c name) = Some k)"
      using entry_of_bind_name_other [OF b k e n] by simp_all
    then obtain a where a: "by_name c n = Some a" "a_id a = k"
      using names_agreeE [OF ok _ n] by blast
    have "n \<noteq> name" using a nn by auto
    moreover have "current_name_of i c \<noteq> Some n"
    proof
      assume "current_name_of i c = Some n"
      then obtain e2 where "entry_of c i = Some e2" "e_name e2 = Some n"
        by (auto simp: current_name_of_def bind_eq_Some_conv)
      from names_agreeE [OF ok this] a k show False by simp
    qed
    ultimately show ?thesis using a by (auto simp: N)
  qed
  moreover have "\<exists>a. by_name ?d name = Some a \<and> a_id a = i" by (simp add: N)
  moreover have "e_name e = Some name" if "entry_of ?d i = Some e" for e
    using that by (auto simp: E)
  ultimately show ?thesis unfolding names_pending_def by blast
qed

lemma apply_answer_names_pending:
  assumes "names_pending (ks_id st) name c" and "ks_name st = Some name"
  shows "names_agree (apply_answer st True r c)"
proof -
  let ?d = "apply_answer st True r c"
  obtain e' where e': "entry_of ?d (ks_id st) = Some e'" "e_name e' = Some name"
    using entry_of_apply_answer_self [of st True r c] assms
    by (auto simp: names_pending_def split: option.splits)
  note o = entry_of_apply_answer_other [of _ st True r c]
  show ?thesis
    unfolding names_agree_def
  proof (intro conjI allI impI)
    fix n a assume "by_name ?d n = Some a"
    then show "\<exists>e. entry_of ?d (a_id a) = Some e \<and> e_name e = Some n"
      using assms(1) e' o by (cases "n = name") (auto simp: names_pending_def)
  next
    fix k e n assume "entry_of ?d k = Some e" and "e_name e = Some n"
    then show "\<exists>a. by_name ?d n = Some a \<and> a_id a = k"
      using assms(1) e' o by (cases "k = ks_id st") (auto simp: names_pending_def)
  qed
qed

lemma apply_answer_names_agree:
  assumes ok: "names_agree c"
  shows "names_agree (apply_answer st False r c)"
proof -
  let ?d = "apply_answer st False r c"
  note o = entry_of_apply_answer_other [of _ st False r c]
  obtain e' where e': "entry_of ?d (ks_id st) = Some e'"
      "e_name e' = (case entry_of c (ks_id st) of Some e \<Rightarrow> e_name e | None \<Rightarrow> None)"
    using entry_of_apply_answer_self [of st False r c] by (auto simp only: if_False)
  show ?thesis
    unfolding names_agree_def
  proof (intro conjI allI impI)
    fix n a assume a: "by_name ?d n = Some a"
    then obtain e where "entry_of c (a_id a) = Some e" "e_name e = Some n"
      using names_agreeD [OF ok] by auto
    then show "\<exists>e. entry_of ?d (a_id a) = Some e \<and> e_name e = Some n"
      using e' o by (cases "a_id a = ks_id st") auto
  next
    fix k e n assume "entry_of ?d k = Some e" and "e_name e = Some n"
    then show "\<exists>a. by_name ?d n = Some a \<and> a_id a = k"
      using e' o names_agreeE [OF ok] by (cases "k = ks_id st") (auto split: option.splits)
  qed
qed

section \<open>Eviction\<close>

lemma evict_oldest_cases:
  assumes "store_ok c" and "names_agree c" and "by_id c \<noteq> []"
  obtains oldest e where "(oldest, e) \<in> set (by_id c)" and "oldest \<noteq> default_id c"
    and "\<forall>(k, f) \<in> set (by_id c). e_last_used e \<le> e_last_used f"
    and "by_id (evict_oldest c) = al_remove oldest (by_id c)"
    and "watermark (evict_oldest c) = max (watermark c) (e_resolution e)"
    and "\<And>n. by_name (evict_oldest c) n = (if e_name e = Some n then None else by_name c n)"
    and "entry_of c oldest = Some e"
proof -
  obtain oldest e where m: "min_by_key (\<lambda>e. e_last_used (snd e)) (by_id c) = Some (oldest, e)"
    using min_by_key_Some [OF assms(3)] by fastforce
  from min_by_key_least [OF m] have mem: "(oldest, e) \<in> set (by_id c)"
    and least: "\<forall>(k, f) \<in> set (by_id c). e_last_used e \<le> e_last_used f" by auto
  have nd: "oldest \<noteq> default_id c" using mem assms(1) by (force simp: store_ok_def)
  have en: "entry_of c oldest = Some e"
    using mem assms(1) nd by (simp add: entry_of_def store_ok_def)
  have nm: "by_name (evict_oldest c) n = (if e_name e = Some n then None else by_name c n)" for n
  proof (cases "e_name e")
    case None
    then show ?thesis by (simp add: evict_oldest_def m Let_def)
  next
    case (Some name)
    then obtain a where "by_name c name = Some a" "a_id a = oldest"
      using names_agreeE [OF assms(2) en] by blast
    with Some show ?thesis by (simp add: evict_oldest_def m Let_def)
  qed
  have "by_id (evict_oldest c) = al_remove oldest (by_id c)"
    and "watermark (evict_oldest c) = max (watermark c) (e_resolution e)"
    by (auto simp: evict_oldest_def m Let_def split: option.split)
  with that mem least nd en nm show thesis by blast
qed

lemma evict_oldest_fields [simp]:
  "capacity (evict_oldest c) = capacity c"
  "tick (evict_oldest c) = tick c"
  "resolutions (evict_oldest c) = resolutions c"
  "default_entry (evict_oldest c) = default_entry c"
  "default_id (evict_oldest c) = default_id c"
  by (auto simp: evict_oldest_def Let_def default_id_def split: option.split)

lemma evict_oldest_ok:
  assumes ok: "cache_ok c" and ne: "by_id c \<noteq> []"
  shows "cache_ok (evict_oldest c) \<and> length (by_id (evict_oldest c)) < capacity c"
proof -
  let ?d = "evict_oldest c"
  have so: "store_ok c" and na: "names_agree c" and tk: "tickets_ok c"
    using ok by (simp_all add: cache_ok_def)
  obtain oldest e where o: "(oldest, e) \<in> set (by_id c)" "oldest \<noteq> default_id c"
      "by_id ?d = al_remove oldest (by_id c)" "watermark ?d = max (watermark c) (e_resolution e)"
      "entry_of c oldest = Some e"
    and nm: "\<And>n. by_name ?d n = (if e_name e = Some n then None else by_name c n)"
    using evict_oldest_cases [OF so na ne] by metis
  have ent: "entry_of ?d k = (if k = oldest then None else entry_of c k)" for k
    using o(2,3) by (simp add: entry_of_def)
  have names: "a_id a \<noteq> oldest" if "by_name ?d n = Some a" for n a
    using that names_agreeD [OF na, of n a] o(5) by (auto simp: nm split: if_splits)
  have "length (by_id ?d) = length (by_id c) - 1"
    using o(1,3) so length_al_remove [of "by_id c" oldest] by (force simp: store_ok_def)
  then have len: "length (by_id ?d) < capacity c"
    using so ne by (auto simp: store_ok_def)
  have "store_ok ?d"
    using so len o(3)
    by (auto simp: store_ok_def al_remove_def distinct_map_filter case_prod_beta)
  moreover have "names_agree ?d"
    unfolding names_agree_def
  proof (intro conjI allI impI)
    fix n a assume a: "by_name ?d n = Some a"
    then show "\<exists>e. entry_of ?d (a_id a) = Some e \<and> e_name e = Some n"
      using names [OF a] names_agreeD [OF na, of n a] by (auto simp: nm ent split: if_splits)
  next
    fix k f n assume "entry_of ?d k = Some f" and n: "e_name f = Some n"
    then have f: "entry_of c k = Some f" "k \<noteq> oldest" by (auto simp: ent split: if_splits)
    then obtain a where a: "by_name c n = Some a" "a_id a = k" using names_agreeE [OF na _ n] by blast
    then have "e_name e \<noteq> Some n" using names_agreeE [OF na o(5), of n] f(2) by auto
    with a show "\<exists>a. by_name ?d n = Some a \<and> a_id a = k" by (simp add: nm)
  qed
  moreover have "tickets_ok ?d"
    unfolding tickets_ok_def
  proof (intro conjI allI impI)
    fix n a assume a: "by_name ?d n = Some a"
    then show "\<exists>e. entry_of ?d (a_id a) = Some e \<and> a_resolution a \<le> e_resolution e"
      using names [OF a] tk by (auto simp: nm ent tickets_ok_def split: if_splits)
  next
    fix k f assume "entry_of ?d k = Some f"
    then show "e_resolution f \<le> resolutions ?d"
      using tk by (auto simp: ent tickets_ok_def split: if_splits)
  next
    show "watermark ?d \<le> resolutions ?d" using tk o(4,5) by (auto simp: tickets_ok_def)
  qed
  ultimately show ?thesis using len by (simp add: cache_ok_def)
qed

lemma make_room_ok:
  assumes "cache_ok c"
  shows "cache_ok (make_room i c) \<and> default_id (make_room i c) = default_id c
    \<and> resolutions (make_room i c) = resolutions c \<and> capacity (make_room i c) = capacity c
    \<and> (i = default_id c \<or> map_of (by_id (make_room i c)) i \<noteq> None
       \<or> length (by_id (make_room i c)) < capacity c)"
proof (cases "i \<noteq> default_id c \<and> map_of (by_id c) i = None \<and> length (by_id c) \<ge> capacity c")
  case True
  then have "by_id c \<noteq> []" using assms by (auto simp: cache_ok_def store_ok_def)
  with True evict_oldest_ok [OF assms] show ?thesis by (auto simp: make_room_def)
next
  case False
  then have "make_room i c = c" by (auto simp: make_room_def)
  with False assms show ?thesis by auto
qed

lemma entry_of_evict_oldest_Some:
  assumes "cache_ok c" and "entry_of (evict_oldest c) k = Some e"
  shows "entry_of c k = Some e"
proof (cases "by_id c = []")
  case True
  with assms show ?thesis by (simp add: evict_oldest_def)
next
  case False
  then obtain oldest where "by_id (evict_oldest c) = al_remove oldest (by_id c)"
    using assms(1) evict_oldest_cases [of c] by (metis cache_ok_def)
  with assms(2) show ?thesis by (auto simp: entry_of_def split: if_splits)
qed

lemma entry_of_make_room_Some:
  assumes "cache_ok c" and "entry_of (make_room i c) k = Some e"
  shows "entry_of c k = Some e"
  using assms entry_of_evict_oldest_Some [OF assms(1)] by (auto simp: make_room_def split: if_splits)

section \<open>Preservation by the operations\<close>

lemma store_ok_names:
  assumes "store_ok c" and "map fst (by_id d) = map fst (by_id c)"
    and "map (\<lambda>(i, e). (i, ks_id (e_state e), e_last_used e)) (by_id d)
       = map (\<lambda>(i, e). (i, ks_id (e_state e), e_last_used e)) (by_id c)"
    and "capacity d = capacity c" and "tick d = tick c" and "default_id d = default_id c"
  shows "store_ok d"
proof -
  have len: "length (by_id d) = length (by_id c)" using assms(2) by (metis length_map)
  have keys: "fst ` set (by_id d) = fst ` set (by_id c)" using assms(2) by (metis list.set_map)
  have lu: "map (\<lambda>x. e_last_used (snd x)) (by_id d) = map (\<lambda>x. e_last_used (snd x)) (by_id c)"
    using arg_cong [OF assms(3), of "map (\<lambda>(i, k, n). n)"] by (simp add: case_prod_beta comp_def)
  have sets: "(\<lambda>(i, e). (i, ks_id (e_state e), e_last_used e)) ` set (by_id d)
      = (\<lambda>(i, e). (i, ks_id (e_state e), e_last_used e)) ` set (by_id c)"
    using arg_cong [OF assms(3), of set] by simp
  have "ks_id (e_state e) = i \<and> e_last_used e \<le> tick d" if "(i, e) \<in> set (by_id d)" for i e
  proof -
    from that sets obtain e' where "(i, e') \<in> set (by_id c)"
        "ks_id (e_state e') = ks_id (e_state e)" "e_last_used e' = e_last_used e"
      by (force simp: image_iff)
    then show ?thesis using assms(1,5) by (auto simp: store_ok_def)
  qed
  then show ?thesis
    using assms(1,2,4,6) by (auto simp: store_ok_def len lu keys)
qed

lemma store_ok_with_name:
  assumes "store_ok c" and "\<And>e. ks_id (e_state (f e)) = ks_id (e_state e) \<and> e_last_used (f e) = e_last_used e"
  shows "store_ok (with_entry i f c)"
proof (rule store_ok_names [OF assms(1)])
  show "default_id (with_entry i f c) = default_id c"
    using assms(2) by (simp add: keeps_id_def)
  show "map (\<lambda>(i, e). (i, ks_id (e_state e), e_last_used e)) (by_id (with_entry i f c))
      = map (\<lambda>(i, e). (i, ks_id (e_state e), e_last_used e)) (by_id c)"
    using assms(2) by (auto simp: with_entry_def)
qed simp_all

lemma store_ok_frame [simp]:
  "store_ok (c\<lparr>by_name := x\<rparr>) = store_ok c"
  "store_ok (c\<lparr>resolutions := y\<rparr>) = store_ok c"
  "store_ok (c\<lparr>watermark := z\<rparr>) = store_ok c"
  by (simp_all add: store_ok_def)

lemma store_ok_forget_name_of: "store_ok c \<Longrightarrow> store_ok (forget_name_of i name c)"
  unfolding forget_name_of_def by (rule store_ok_with_name) auto

lemma store_ok_bind_name:
  assumes "store_ok c"
  shows "store_ok (snd (bind_name now name i r c))"
proof (cases "fst (bind_name now name i r c)")
  case True
  have "store_ok (leave_previous name i (displace name i c))"
    using assms store_ok_forget_name_of
    by (auto simp: leave_previous_def displace_def split: option.split)
  then show ?thesis
    unfolding bind_name_success [OF True] Let_def by (intro store_ok_with_name) auto
qed (simp add: bind_name_refused assms)

lemma store_ok_apply_answer:
  assumes so: "store_ok c"
    and room: "ks_id st = default_id c \<or> map_of (by_id c) (ks_id st) \<noteq> None \<or> length (by_id c) < capacity c"
  shows "store_ok (apply_answer st b r c)"
proof (cases "ks_id st = default_id c")
  case True
  with so show ?thesis by (simp add: apply_answer_def store_ok_def default_id_def)
next
  case nd: False
  have past: "e_last_used e \<le> tick c" if "(k, e) \<in> set (by_id c)" for k e
    using so that by (auto simp: store_ok_def)
  show ?thesis
  proof (cases "map_of (by_id c) (ks_id st)")
    case None
    then have new: "ks_id st \<notin> fst ` set (by_id c)" by (simp add: map_of_eq_None_iff)
    have "al_remove (ks_id st) (by_id c) = by_id c"
      using new by (force simp: al_remove_def filter_id_conv)
    then have put: "al_put (ks_id st) e (by_id c) = (ks_id st, e) # by_id c" for e
      by (simp add: al_put_def al_remove_def)
    show ?thesis
      using so nd None new room past
      by (fastforce simp: apply_answer_def Let_def store_ok_def put)
  next
    case (Some e0)
    let ?g = "\<lambda>(k, e). (k, if k = ks_id st then e\<lparr>e_state := st, e_last_used := Suc (tick c), e_resolution := r\<rparr> else e)"
    have d: "apply_answer st b r c = c\<lparr>tick := Suc (tick c), by_id := map ?g (by_id c)\<rparr>"
      using nd Some by (simp add: apply_answer_def Let_def with_entry_def)
    have dk: "distinct (map fst (by_id c))" using so by (simp add: store_ok_def)
    have dl: "distinct (map (\<lambda>x. e_last_used (snd (?g x))) xs)"
      if "distinct (map fst xs)" "distinct (map (\<lambda>x. e_last_used (snd x)) xs)"
        "\<forall>x \<in> set xs. e_last_used (snd x) \<le> tick c" for xs
      using that
    proof (induction xs)
      case (Cons x xs)
      have ne: "fst y \<noteq> fst x" "e_last_used (snd y) \<noteq> e_last_used (snd x)" "e_last_used (snd y) \<le> tick c"
        if "y \<in> set xs" for y
        using Cons.prems that by (auto simp: image_iff)
      have "e_last_used (snd (?g y)) \<noteq> e_last_used (snd (?g x))" if "y \<in> set xs" for y
        using ne [OF that] Cons.prems(3) by (auto simp: case_prod_beta)
      then have "e_last_used (snd (?g x)) \<notin> (\<lambda>x. e_last_used (snd (?g x))) ` set xs" by force
      moreover have "distinct (map (\<lambda>x. e_last_used (snd (?g x))) xs)"
        using Cons by simp
      ultimately show ?case by simp
    qed simp
    have "distinct (map (\<lambda>x. e_last_used (snd x)) (map ?g (by_id c)))"
      using dl [OF dk] so by (simp add: store_ok_def comp_def case_prod_beta)
    moreover have "map fst (map ?g (by_id c)) = map fst (by_id c)"
      by (simp add: case_prod_beta comp_def)
    moreover have "fst ` set (map ?g (by_id c)) = fst ` set (by_id c)"
      by (force simp: case_prod_beta image_iff)
    ultimately show ?thesis
      using so past dk
      by (auto simp: d store_ok_def case_prod_beta le_SucI comp_def)
  qed
qed

lemma tickets_okD:
  assumes "tickets_ok c" and "by_name c n = Some a"
  shows "\<exists>e. entry_of c (a_id a) = Some e \<and> a_resolution a \<le> e_resolution e"
  using assms by (simp add: tickets_ok_def)

lemma tickets_ok_entryD:
  assumes "tickets_ok c" and "map_option e_resolution (entry_of c i) = Some r"
  shows "r \<le> resolutions c"
proof -
  obtain e where "entry_of c i = Some e" "e_resolution e = r" using assms(2) by auto
  then show ?thesis using assms(1) unfolding tickets_ok_def by blast
qed

lemma tickets_ok_cong:
  assumes tk: "tickets_ok c" and "\<And>n a. by_name d n = Some a \<Longrightarrow> by_name c n = Some a"
    and e: "\<And>i. map_option e_resolution (entry_of d i) = map_option e_resolution (entry_of c i)"
    and r: "resolutions d = resolutions c" and "watermark d \<le> resolutions c"
  shows "tickets_ok d"
  unfolding tickets_ok_def
proof (intro conjI allI impI)
  fix n a assume "by_name d n = Some a"
  then obtain e0 where "entry_of c (a_id a) = Some e0" "a_resolution a \<le> e_resolution e0"
    using assms(2) tickets_okD [OF tk] by blast
  then show "\<exists>e. entry_of d (a_id a) = Some e \<and> a_resolution a \<le> e_resolution e"
    using e [of "a_id a"] by auto
next
  fix k e1 assume "entry_of d k = Some e1"
  then have "map_option e_resolution (entry_of c k) = Some (e_resolution e1)"
    using e [of k] by simp
  then show "e_resolution e1 \<le> resolutions d" using tickets_ok_entryD [OF tk] r by simp
qed (use assms in simp)

lemma tickets_apply_answer:
  assumes tk: "tickets_ok c" and na: "names_agree c" and le: "r \<le> resolutions c"
    and later: "\<And>e. entry_of c (ks_id st) = Some e \<Longrightarrow> e_resolution e \<le> r"
  shows "tickets_ok (apply_answer st b r c)"
proof -
  let ?d = "apply_answer st b r c"
  obtain e' where e': "entry_of ?d (ks_id st) = Some e'" "e_resolution e' = r"
    using entry_of_apply_answer_self [of st b r c] by blast
  note o = entry_of_apply_answer_other [of _ st b r c]
  show ?thesis
    unfolding tickets_ok_def
  proof (intro conjI allI impI)
    fix n a assume "by_name ?d n = Some a"
    then obtain e where e: "entry_of c (a_id a) = Some e" "a_resolution a \<le> e_resolution e"
      using tickets_okD [OF tk] by fastforce
    show "\<exists>e. entry_of ?d (a_id a) = Some e \<and> a_resolution a \<le> e_resolution e"
    proof (cases "a_id a = ks_id st")
      case True
      with e later e' show ?thesis by fastforce
    next
      case False
      with e o show ?thesis by simp
    qed
  next
    fix k e assume "entry_of ?d k = Some e"
    then show "e_resolution e \<le> resolutions ?d"
      using e' o le tk by (cases "k = ks_id st") (auto simp: tickets_ok_def)
  next
    show "watermark ?d \<le> resolutions ?d" using tk by (simp add: tickets_ok_def)
  qed
qed

text \<open>The same where the name was just bound to the keyset with this very ticket.\<close>

lemma tickets_apply_bound:
  assumes tk: "tickets_ok c" and na: "names_agree c" and le: "r \<le> resolutions c"
    and b: "fst (bind_name now name (ks_id st) r c)"
    and later: "\<And>e. entry_of c (ks_id st) = Some e \<Longrightarrow> e_resolution e \<le> r"
  shows "tickets_ok (apply_answer st True r (snd (bind_name now name (ks_id st) r c)))"
proof -
  let ?c = "snd (bind_name now name (ks_id st) r c)"
  let ?d = "apply_answer st True r ?c"
  obtain e' where e': "entry_of ?d (ks_id st) = Some e'" "e_resolution e' = r"
    using entry_of_apply_answer_self [of st True r ?c] by blast
  have other: "map_option e_resolution (entry_of ?d k) = map_option e_resolution (entry_of c k)"
    if "k \<noteq> ks_id st" for k
    using that by (cases "entry_of c k")
      (auto simp: entry_of_apply_answer_other entry_of_bind_name [OF b])
  have bound: "\<exists>e. entry_of c k = Some e \<and> x = e_resolution e"
    if "map_option e_resolution (entry_of c k) = Some x" for k x
    using that by auto
  show ?thesis
    unfolding tickets_ok_def
  proof (intro conjI allI impI)
    fix n a assume a: "by_name ?d n = Some a"
    show "\<exists>e. entry_of ?d (a_id a) = Some e \<and> a_resolution a \<le> e_resolution e"
    proof (cases "n = name")
      case True
      with a e' show ?thesis by (auto simp: by_name_bind_name [OF b])
    next
      case False
      with a have ca: "by_name c n = Some a" and cn: "current_name_of (ks_id st) c \<noteq> Some n"
        by (auto simp: by_name_bind_name [OF b] split: if_splits)
      obtain e where e: "entry_of c (a_id a) = Some e" "a_resolution a \<le> e_resolution e"
        using tickets_okD [OF tk ca] by blast
      have "a_id a \<noteq> ks_id st"
        using names_agreeD [OF na ca] cn by (auto simp: current_name_of_def)
      with other [of "a_id a"] e show ?thesis by auto
    qed
  next
    fix k e assume k: "entry_of ?d k = Some e"
    show "e_resolution e \<le> resolutions ?d"
    proof (cases "k = ks_id st")
      case True
      with k e' le show ?thesis by simp
    next
      case False
      with other [OF False] k have "map_option e_resolution (entry_of c k) = Some (e_resolution e)"
        by simp
      then show ?thesis using tickets_ok_entryD [OF tk] by simp
    qed
  next
    show "watermark ?d \<le> resolutions ?d" using tk by (simp add: tickets_ok_def)
  qed
qed

lemma cache_insert_ok:
  assumes ok: "cache_ok c" and le: "r \<le> resolutions c"
  shows "cache_ok (snd (cache_insert now st r c))"
proof (cases "\<exists>e. entry_of c (ks_id st) = Some e \<and> is_later_than (e_resolution e) r")
  case True
  then have "snd (cache_insert now st r c) = c" by (auto simp: cache_insert_def Let_def)
  with ok show ?thesis by simp
next
  case False
  let ?m = "make_room (ks_id st) c"
  have mk: "cache_ok ?m" "resolutions ?m = resolutions c" "default_id ?m = default_id c"
      "capacity ?m = capacity c"
    and room: "ks_id st = default_id c \<or> map_of (by_id ?m) (ks_id st) \<noteq> None
      \<or> length (by_id ?m) < capacity c"
    using make_room_ok [OF ok, of "ks_id st"] by auto
  have later: "e_resolution e \<le> r" if "entry_of ?m (ks_id st) = Some e" for e
    using entry_of_make_room_Some [OF ok that] False by (auto simp: is_later_than_def)
  show ?thesis
  proof (cases "\<exists>name. ks_name st = Some name \<and> fst (bind_name now name (ks_id st) r ?m)")
    case True
    then obtain name where n: "ks_name st = Some name" and b: "fst (bind_name now name (ks_id st) r ?m)"
      by blast
    let ?b = "snd (bind_name now name (ks_id st) r ?m)"
    have fin: "snd (cache_insert now st r c) = apply_answer st True r ?b"
      using False n b by (auto simp: cache_insert_def Let_def case_prod_beta split: option.split)
    have keys: "map fst (by_id ?b) = map fst (by_id ?m)"
      unfolding bind_name_success [OF b] Let_def
      by (simp add: leave_previous_def displace_def forget_name_of_def split: option.split)
    then have "length (by_id ?b) = length (by_id ?m)"
        and "(map_of (by_id ?b) (ks_id st) = None) = (map_of (by_id ?m) (ks_id st) = None)"
      by (metis length_map, metis list.set_map map_of_eq_None_iff)
    then have "store_ok (apply_answer st True r ?b)"
      using mk room by (intro store_ok_apply_answer store_ok_bind_name) (auto simp: cache_ok_def)
    moreover have "names_agree (apply_answer st True r ?b)"
      using bind_name_pending [OF _ b] mk n by (intro apply_answer_names_pending) (auto simp: cache_ok_def)
    moreover have "tickets_ok (apply_answer st True r ?b)"
      using mk le later by (intro tickets_apply_bound [OF _ _ _ b]) (auto simp: cache_ok_def)
    ultimately show ?thesis by (simp add: fin cache_ok_def)
  next
    case nb: False
    have fin: "snd (cache_insert now st r c) = apply_answer st False r ?m"
      using False nb by (auto simp: cache_insert_def Let_def case_prod_beta bind_name_refused split: option.split)
    show ?thesis
      unfolding fin cache_ok_def
      using mk room le later
      by (intro conjI store_ok_apply_answer apply_answer_names_agree tickets_apply_answer)
        (auto simp: cache_ok_def)
  qed
qed

lemma touch_result:
  "fst (touch i c) = map_option e_state (entry_of c i)"
  by (simp add: touch_def split: option.split)

lemma touch_fields [simp]:
  "by_name (snd (touch i c)) = by_name c"
  "resolutions (snd (touch i c)) = resolutions c"
  "watermark (snd (touch i c)) = watermark c"
  "name_ttl (snd (touch i c)) = name_ttl c"
  "default_id (snd (touch i c)) = default_id c"
  by (auto simp: touch_def split: option.split)

lemma entry_of_touch:
  "map_option (\<lambda>e. (e_state e, e_name e, e_resolution e)) (entry_of (snd (touch i c)) k)
     = map_option (\<lambda>e. (e_state e, e_name e, e_resolution e)) (entry_of c k)"
  by (auto simp: touch_def option.map_comp comp_def split: option.split)

lemma store_ok_touch:
  assumes so: "store_ok c"
  shows "store_ok (snd (touch i c))"
proof (cases "i = default_id c")
  case True
  with so show ?thesis
    by (auto simp: touch_def entry_of_def with_entry_def store_ok_def default_id_def)
next
  case False
  show ?thesis
  proof (cases "map_of (by_id c) i")
    case None
    with False so show ?thesis by (simp add: touch_def entry_of_def)
  next
    case (Some e)
    then have "(i, e) \<in> set (by_id c)" by (rule map_of_SomeD)
    then have idd: "ks_id (e_state e) = i" using so by (auto simp: store_ok_def)
    have same: "map (\<lambda>(k, f). (k, if k = i then f\<lparr>e_last_used := Suc (tick c)\<rparr> else f)) (by_id c)
        = map (\<lambda>(k, f). (k, if k = i then f\<lparr>e_state := e_state e, e_last_used := Suc (tick c),
             e_resolution := e_resolution e\<rparr> else f)) (by_id c)"
    proof (rule map_cong [OF refl])
      fix x assume x: "x \<in> set (by_id c)"
      have "snd x = e" if "fst x = i"
      proof -
        have "(i, snd x) \<in> set (by_id c)" using x prod.collapse [of x] that by simp
        moreover have "distinct (map fst (by_id c))" using so by (simp add: store_ok_def)
        ultimately have "map_of (by_id c) i = Some (snd x)" by simp
        with Some show ?thesis by simp
      qed
      then show "(\<lambda>(k, f). (k, if k = i then f\<lparr>e_last_used := Suc (tick c)\<rparr> else f)) x
          = (\<lambda>(k, f). (k, if k = i then f\<lparr>e_state := e_state e, e_last_used := Suc (tick c),
             e_resolution := e_resolution e\<rparr> else f)) x"
        by (auto simp: case_prod_beta)
    qed
    have "snd (touch i c) = apply_answer (e_state e) False (e_resolution e) c"
      using False Some idd same
      by (simp add: touch_def entry_of_def apply_answer_def with_entry_def Let_def)
    then show ?thesis
      using store_ok_apply_answer [OF so] Some idd by simp
  qed
qed

lemma touch_ok:
  assumes "cache_ok c"
  shows "cache_ok (snd (touch i c))"
proof -
  let ?d = "snd (touch i c)"
  have e: "map_option e_name (entry_of ?d k) = map_option e_name (entry_of c k)"
      "map_option e_resolution (entry_of ?d k) = map_option e_resolution (entry_of c k)" for k
    using entry_of_touch [of i c k]
    by (cases "entry_of ?d k"; cases "entry_of c k"; simp)+
  have "names_agree c" using assms by (simp add: cache_ok_def)
  then have "names_agree ?d" by (rule names_agree_cong) (simp_all only: touch_fields e)
  moreover have tk: "tickets_ok c" using assms by (simp add: cache_ok_def)
  then have "tickets_ok ?d"
    by (rule tickets_ok_cong) (use tk in \<open>simp_all add: e(2) tickets_ok_def del: map_option_eq_Some\<close>)
  ultimately show ?thesis using assms store_ok_touch by (simp add: cache_ok_def)
qed

lemma next_resolution_ok: "cache_ok c \<Longrightarrow> cache_ok (snd (next_resolution c))"
  by (auto simp: next_resolution_def cache_ok_def names_agree_def tickets_ok_def le_SucI)

lemma cache_get_ok:
  assumes "cache_ok c"
  shows "cache_ok (snd (cache_get by now c))"
proof -
  have "cache_ok (snd (case touch i c of
      (None, c) \<Rightarrow> (let (r, c) = next_resolution c in (Miss r, c))
    | (Some st, c) \<Rightarrow> if fresh then (Hit st, c)
        else (let (r, c) = next_resolution c in (Stale r, c))))" for i fresh
    using touch_ok [OF assms, of i] next_resolution_ok
    by (auto simp: Let_def case_prod_beta split: option.split)
  then show ?thesis
    using next_resolution_ok [OF assms]
    by (auto simp: cache_get_def Let_def case_prod_beta split: option.split)
qed

lemma cache_forget_ok:
  assumes ok: "cache_ok c" and le: "r \<le> resolutions c"
  shows "cache_ok (cache_forget name r c)"
proof -
  let ?w = "c\<lparr>watermark := max (watermark c) r\<rparr>"
  have w: "cache_ok ?w"
    using ok le by (auto simp: cache_ok_def names_agree_def tickets_ok_def)
  show ?thesis
  proof (cases "\<exists>a. by_name c name = Some a \<and> \<not> is_later_than (a_resolution a) r")
    case False
    then have "cache_forget name r c = ?w" by (auto simp: cache_forget_def Let_def split: option.split)
    with w show ?thesis by simp
  next
    case True
    then obtain a where a: "by_name c name = Some a" "\<not> is_later_than (a_resolution a) r" by blast
    let ?d = "forget_name_of (a_id a) name (?w\<lparr>by_name := (by_name c)(name := None)\<rparr>)"
    have d: "cache_forget name r c = ?d" using a by (simp add: cache_forget_def Let_def)
    have na: "names_agree c" and tk: "tickets_ok c" using ok by (simp_all add: cache_ok_def)
    have ent: "entry_of ?d k = (if k = a_id a
        then map_option (\<lambda>e. if e_name e = Some name then e\<lparr>e_name := None\<rparr> else e) (entry_of c k)
        else entry_of c k)" for k by simp
    have "names_agree ?d"
      unfolding names_agree_def
    proof (intro conjI allI impI)
      fix n b assume "by_name ?d n = Some b"
      then have b: "n \<noteq> name" "by_name c n = Some b" by (auto split: if_splits)
      then obtain e where e: "entry_of c (a_id b) = Some e" "e_name e = Some n"
        using names_agreeD [OF na] by blast
      then have "entry_of ?d (a_id b) = Some e"
        unfolding ent using b(1) by (cases "a_id b = a_id a") (simp_all del: map_option_eq_Some)
      with e show "\<exists>e. entry_of ?d (a_id b) = Some e \<and> e_name e = Some n" by blast
    next
      fix k e n assume e: "entry_of ?d k = Some e" and n: "e_name e = Some n"
      obtain e0 where e0: "entry_of c k = Some e0"
        using e unfolding ent by (cases "entry_of c k") (auto split: if_splits)
      have c: "entry_of c k = Some e" and "\<not> (k = a_id a \<and> n = name)"
        using e n unfolding ent e0 by (auto split: if_splits)
      moreover obtain b where b: "by_name c n = Some b" "a_id b = k"
        using names_agreeE [OF na c n] by blast
      ultimately have "n \<noteq> name" using a by auto
      with b show "\<exists>b. by_name ?d n = Some b \<and> a_id b = k" by simp
    qed
    moreover have "map_option e_resolution (entry_of ?d k) = map_option e_resolution (entry_of c k)" for k
      unfolding ent by (cases "k = a_id a"; cases "entry_of c k") (simp_all del: map_option_eq_Some)
    then have "tickets_ok ?d"
      using tk le by (intro tickets_ok_cong [OF tk]) (auto simp: tickets_ok_def split: if_splits)
    moreover have "store_ok ?d"
      using ok by (intro store_ok_forget_name_of) (simp add: cache_ok_def)
    ultimately show ?thesis by (simp add: d cache_ok_def)
  qed
qed

lemma new_cache_ok: "cap > 0 \<Longrightarrow> cache_ok (new_cache cap ttl dflt now)"
  by (auto simp: cache_ok_def store_ok_def names_agree_def tickets_ok_def new_cache_def entry_of_def
      default_id_def split: option.splits if_splits)

section \<open>Sequences of cache operations\<close>

text \<open>
  The calls \<open>StackCipher::keyset\<close> makes on the cache, in any order. A ticket handed to
  \<open>insert\<close> or \<open>forget\<close> came from an earlier \<open>get\<close>, so it has been issued.
\<close>

datatype cache_op = OpGet identified_by nat | OpInsert nat keyset_state resolution | OpForget string resolution

fun cache_step :: "cache_op \<Rightarrow> keyset_cache \<Rightarrow> keyset_cache" where
  "cache_step (OpGet by now) c = snd (cache_get by now c)"
| "cache_step (OpInsert now st r) c = snd (cache_insert now st r c)"
| "cache_step (OpForget name r) c = cache_forget name r c"

fun cache_guard :: "cache_op \<Rightarrow> keyset_cache \<Rightarrow> bool" where
  "cache_guard (OpInsert now st r) c = (r \<le> resolutions c)"
| "cache_guard (OpForget name r) c = (r \<le> resolutions c)"
| "cache_guard (OpGet by now) c = True"

interpretation cache: component cache_step cache_guard cache_ok
proof unfold_locales
  fix c x assume "cache_ok c" and "cache_guard x c"
  then show "cache_ok (cache_step x c)"
    by (cases x) (auto intro: cache_get_ok cache_insert_ok cache_forget_ok)
qed

section \<open>What an operation does to bindings, tickets and held keysets\<close>

lemma by_name_make_room:
  assumes "cache_ok c" and "by_name (make_room i c) n = Some a"
  shows "by_name c n = Some a"
proof (cases "make_room i c = c")
  case False
  then have m: "make_room i c = evict_oldest c" by (auto simp: make_room_def)
  moreover have "by_id c \<noteq> []" using False m by (auto simp: evict_oldest_def)
  ultimately show ?thesis
    using assms evict_oldest_cases [of c] by (metis cache_ok_def option.discI)
qed (use assms in simp)

lemma watermark_make_room:
  assumes "cache_ok c"
  shows "watermark c \<le> watermark (make_room i c)"
proof (cases "by_id c = []")
  case True
  then show ?thesis by (simp add: make_room_def evict_oldest_def)
next
  case False
  then show ?thesis
    using assms evict_oldest_cases [of c]
    by (metis cache_ok_def make_room_def max.cobounded1 order_refl)
qed

text \<open>\<open>insert\<close> past the order of the keyset itself, in its two outcomes.\<close>

lemma cache_insert_cases [consumes 1, case_names bound unbound]:
  assumes "\<forall>e. entry_of c (ks_id st) = Some e \<longrightarrow> e_resolution e \<le> r"
  obtains (bound) name where "ks_name st = Some name"
      and "fst (bind_name now name (ks_id st) r (make_room (ks_id st) c))"
      and "snd (cache_insert now st r c)
        = apply_answer st True r (snd (bind_name now name (ks_id st) r (make_room (ks_id st) c)))"
    | (unbound) "\<And>name. ks_name st = Some name
        \<Longrightarrow> \<not> fst (bind_name now name (ks_id st) r (make_room (ks_id st) c))"
      and "snd (cache_insert now st r c) = apply_answer st False r (make_room (ks_id st) c)"
proof -
  have no: "\<not> (\<exists>e. entry_of c (ks_id st) = Some e \<and> is_later_than (e_resolution e) r)"
    using assms by (auto simp: is_later_than_def not_less)
  show thesis
  proof (cases "\<exists>name. ks_name st = Some name
      \<and> fst (bind_name now name (ks_id st) r (make_room (ks_id st) c))")
    case True
    then obtain name where n: "ks_name st = Some name"
      and b: "fst (bind_name now name (ks_id st) r (make_room (ks_id st) c))" by blast
    from no n b have "snd (cache_insert now st r c)
        = apply_answer st True r (snd (bind_name now name (ks_id st) r (make_room (ks_id st) c)))"
      by (auto simp: cache_insert_def Let_def case_prod_beta split: option.split)
    with n b bound show thesis by blast
  next
    case False
    with no have "snd (cache_insert now st r c) = apply_answer st False r (make_room (ks_id st) c)"
      by (auto simp: cache_insert_def Let_def case_prod_beta bind_name_refused split: option.split)
    with False unbound show thesis by blast
  qed
qed

lemma cache_insert_dropped:
  assumes "entry_of c (ks_id st) = Some e" and "r < e_resolution e"
  shows "snd (cache_insert now st r c) = c"
  using assms by (simp add: cache_insert_def Let_def is_later_than_def)

lemma make_room_lost_binding:
  assumes ok: "cache_ok c" and b: "by_name c n = Some b" and gone: "by_name (make_room i c) n \<noteq> Some b"
  shows "a_resolution b \<le> watermark (make_room i c)"
proof -
  have m: "make_room i c = evict_oldest c" using gone b by (auto simp: make_room_def)
  then have ne: "by_id c \<noteq> []" using gone b by (auto simp: evict_oldest_def)
  have so: "store_ok c" and na: "names_agree c" and tk: "tickets_ok c"
    using ok by (simp_all add: cache_ok_def)
  obtain oldest e where o: "watermark (evict_oldest c) = max (watermark c) (e_resolution e)"
      "entry_of c oldest = Some e"
    and nm: "\<And>n. by_name (evict_oldest c) n = (if e_name e = Some n then None else by_name c n)"
    using evict_oldest_cases [OF so na ne] by metis
  have "e_name e = Some n" using gone b nm [of n] m by (auto split: if_splits)
  then have "a_id b = oldest" using names_agreeE [OF na o(2)] b by auto
  then have "a_resolution b \<le> e_resolution e" using tickets_okD [OF tk b] o(2) by auto
  then show ?thesis using o(1) m by simp
qed

lemma make_room_lost_entry:
  assumes ok: "cache_ok c" and b: "entry_of c k = Some e" and gone: "entry_of (make_room i c) k \<noteq> Some e"
  shows "entry_of (make_room i c) k = None" and "e_resolution e \<le> watermark (make_room i c)"
    and "k \<noteq> i" and "k \<noteq> default_id c"
proof -
  have m: "make_room i c = evict_oldest c" and i: "i \<noteq> default_id c" "map_of (by_id c) i = None"
    using gone b by (auto simp: make_room_def split: if_splits)
  then have ne: "by_id c \<noteq> []" using gone b by (auto simp: evict_oldest_def)
  have so: "store_ok c" and na: "names_agree c" using ok by (simp_all add: cache_ok_def)
  obtain oldest f where o: "watermark (evict_oldest c) = max (watermark c) (e_resolution f)"
      "entry_of c oldest = Some f" "oldest \<noteq> default_id c"
      "by_id (evict_oldest c) = al_remove oldest (by_id c)"
    using evict_oldest_cases [OF so na ne] by metis
  have ent: "entry_of (evict_oldest c) j = (if j = oldest then None else entry_of c j)" for j
    using o(3,4) by (simp add: entry_of_def)
  then have "k = oldest" using gone b m by (auto split: if_splits)
  with ent m o b i show "entry_of (make_room i c) k = None" and "e_resolution e \<le> watermark (make_room i c)"
    and "k \<noteq> i" and "k \<noteq> default_id c" by (auto simp: entry_of_def)
qed

lemma insert_binding:
  assumes ok: "cache_ok c" and a: "by_name (snd (cache_insert now st r c)) n = Some a"
  shows "by_name c n = Some a \<or>
    ks_name st = Some n \<and> a = \<lparr>a_id = ks_id st, a_resolved_at = now, a_resolution = r\<rparr>
      \<and> watermark c \<le> r \<and> (\<forall>b. by_name c n = Some b \<longrightarrow> a_resolution b \<le> r)"
proof (cases "\<exists>e. entry_of c (ks_id st) = Some e \<and> r < e_resolution e")
  case True
  with a show ?thesis using cache_insert_dropped by force
next
  case False
  let ?m = "make_room (ks_id st) c"
  have "\<forall>e. entry_of c (ks_id st) = Some e \<longrightarrow> e_resolution e \<le> r"
    using False by (simp add: not_less)
  then show ?thesis
  proof (cases rule: cache_insert_cases [of c st r now])
    case (bound name)
    have acc: "watermark ?m \<le> r" "\<And>b. by_name ?m name = Some b \<Longrightarrow> a_resolution b \<le> r"
      using bound(2) by (auto simp: bind_name_accepts)
    show ?thesis
    proof (cases "n = name")
      case True
      have "a_resolution b \<le> r" if "by_name c n = Some b" for b
        using make_room_lost_binding [OF ok that, of "ks_id st"] acc(1) acc(2) [of b] True
        by (cases "by_name ?m n = Some b") auto
      moreover have "a = \<lparr>a_id = ks_id st, a_resolved_at = now, a_resolution = r\<rparr>"
        using a True by (simp add: bound(3) by_name_bind_name [OF bound(2)])
      ultimately show ?thesis
        using watermark_make_room [OF ok, of "ks_id st"] acc(1) bound(1) True by simp
    next
      case False
      with a have "by_name ?m n = Some a"
        by (simp add: bound(3) by_name_bind_name [OF bound(2)] split: if_splits)
      then show ?thesis using by_name_make_room [OF ok] by blast
    qed
  next
    case unbound
    with a show ?thesis using by_name_make_room [OF ok] by simp
  qed
qed

lemma cache_get_frame:
  "by_name (snd (cache_get by now c)) = by_name c"
  "watermark (snd (cache_get by now c)) = watermark c"
  "default_id (snd (cache_get by now c)) = default_id c"
  by (auto simp: cache_get_def next_resolution_def Let_def case_prod_beta split: option.split)

lemma by_name_forget: "by_name (cache_forget name r c) n = Some a \<Longrightarrow> by_name c n = Some a"
  by (auto simp: cache_forget_def Let_def split: option.splits if_splits)

lemma watermark_insert:
  assumes ok: "cache_ok c"
  shows "watermark c \<le> watermark (snd (cache_insert now st r c))"
proof (cases "\<exists>e. entry_of c (ks_id st) = Some e \<and> r < e_resolution e")
  case True
  then show ?thesis using cache_insert_dropped by force
next
  case False
  then have "\<forall>e. entry_of c (ks_id st) = Some e \<longrightarrow> e_resolution e \<le> r"
    by (simp add: not_less)
  then show ?thesis
    by (cases rule: cache_insert_cases [of c st r now])
      (simp_all add: watermark_make_room [OF ok])
qed

lemma watermark_forget:
  "watermark (cache_forget name r c) = max (watermark c) r"
  by (simp add: cache_forget_def Let_def split: option.split)

text \<open>The default keyset's state and the configuration never change.\<close>

lemma default_state_with_entry:
  "(\<And>e. e_state (f e) = e_state e) \<Longrightarrow> e_state (default_entry (with_entry i f c)) = e_state (default_entry c)"
  by (simp add: with_entry_def)

lemma default_state_bind_name:
  "e_state (default_entry (snd (bind_name now name i r c))) = e_state (default_entry c)"
  by (simp add: bind_name_def Let_def default_state_with_entry leave_previous_def displace_def
      forget_name_of_def split: option.split)

lemma default_state_apply_answer:
  "e_state (default_entry (apply_answer st b r c)) = e_state (default_entry c)"
  by (simp add: apply_answer_def Let_def with_entry_def split: option.split)

lemma default_state_make_room: "default_entry (make_room i c) = default_entry c"
  by (simp add: make_room_def)

lemma capacity_make_room: "capacity (make_room i c) = capacity c" "name_ttl (make_room i c) = name_ttl c"
  by (simp_all add: make_room_def evict_oldest_def Let_def split: option.split prod.split)

lemma name_ttl_bind_name: "name_ttl (snd (bind_name now name i r c)) = name_ttl c"
  by (simp add: bind_name_def Let_def leave_previous_def displace_def forget_name_of_def split: option.split)

lemma name_ttl_apply_answer: "name_ttl (apply_answer st b r c) = name_ttl c"
  by (simp add: apply_answer_def Let_def split: option.split)

lemmas insert_frame = default_state_bind_name default_state_apply_answer default_state_make_room
  capacity_make_room name_ttl_bind_name name_ttl_apply_answer

lemma cache_step_config:
  "capacity (cache_step x c) = capacity c \<and> name_ttl (cache_step x c) = name_ttl c
     \<and> e_state (default_entry (cache_step x c)) = e_state (default_entry c)"
proof (cases x)
  case (OpGet sel now)
  have t: "capacity (snd (touch i c)) = capacity c" 
      "e_state (default_entry (snd (touch i c))) = e_state (default_entry c)" for i
    by (auto simp: touch_def default_state_with_entry split: option.split)
  show ?thesis
    by (auto simp: OpGet t cache_get_def next_resolution_def Let_def case_prod_beta split: option.split)
next
  case (OpInsert now st r)
  show ?thesis
  proof (cases "\<exists>e. entry_of c (ks_id st) = Some e \<and> r < e_resolution e")
    case True
    then show ?thesis using cache_insert_dropped [of c st _ r now] by (auto simp: OpInsert)
  next
    case False
    then have "\<forall>e. entry_of c (ks_id st) = Some e \<longrightarrow> e_resolution e \<le> r" by (simp add: not_less)
    then show ?thesis
      by (cases rule: cache_insert_cases [of c st r now]) (simp_all add: OpInsert insert_frame)
  qed
next
  case (OpForget name r)
  then show ?thesis
    by (simp add: cache_forget_def Let_def forget_name_of_def default_state_with_entry split: option.split)
qed

lemma run_config:
  "capacity (run_ops cache_step ops c) = capacity c
     \<and> e_state (default_entry (run_ops cache_step ops c)) = e_state (default_entry c)"
  by (induction ops arbitrary: c) (simp_all add: cache_step_config)

lemma bind_resolution: 
  assumes "fst (bind_name now name i r c)"
  shows "map_option e_resolution (entry_of (snd (bind_name now name i r c)) k)
    = map_option e_resolution (entry_of c k)"
  unfolding entry_of_bind_name [OF assms] by (cases "entry_of c k") (auto simp del: map_option_eq_Some)

lemma insert_entry_monotone:
  assumes ok: "cache_ok c" and e: "entry_of c i = Some e"
    and f: "entry_of (snd (cache_insert now st r c)) i = Some f"
  shows "e_resolution e \<le> e_resolution f"
proof (cases "\<exists>e. entry_of c (ks_id st) = Some e \<and> r < e_resolution e")
  case True
  with e f show ?thesis using cache_insert_dropped [of c st _ r now] by auto
next
  case False
  then have le: "\<forall>e. entry_of c (ks_id st) = Some e \<longrightarrow> e_resolution e \<le> r" by (simp add: not_less)
  let ?m = "make_room (ks_id st) c"
  have self: "e_resolution f = r" if "entry_of (apply_answer st b r d) (ks_id st) = Some f" for b d f
    using that entry_of_apply_answer_self [of st b r d] by auto
  have stays: "entry_of ?m i = Some e" if "entry_of ?m i \<noteq> None"
    using that entry_of_make_room_Some [OF ok, of "ks_id st" i] e by force
  show ?thesis
  proof (cases "i = ks_id st")
    case True
    from le have "e_resolution f = r"
      using f True self by (cases rule: cache_insert_cases [of c st r now]) simp_all
    with le e True show ?thesis by simp
  next
    case other: False
    from le have "map_option e_resolution (entry_of ?m i) = Some (e_resolution f)"
    proof (cases rule: cache_insert_cases [of c st r now])
      case (bound name)
      then show ?thesis
        using f other bind_resolution [OF bound(2), of i] by (simp add: entry_of_apply_answer_other)
    next
      case unbound
      then show ?thesis using f other by (simp add: entry_of_apply_answer_other)
    qed
    then show ?thesis using stays by auto
  qed
qed

lemma insert_keeps_later:
  assumes ok: "cache_ok c" and n: "by_name c n = Some a" and e: "entry_of c (a_id a) = Some e"
    and nm: "ks_name st = Some n" and r: "r < a_resolution a"
  shows "by_name (snd (cache_insert now st r c)) n = Some a
    \<or> entry_of (snd (cache_insert now st r c)) (a_id a) = None"
proof (cases "\<exists>e. entry_of c (ks_id st) = Some e \<and> r < e_resolution e")
  case True
  with n show ?thesis using cache_insert_dropped [of c st _ r now] by auto
next
  case False
  then have le: "\<forall>e. entry_of c (ks_id st) = Some e \<longrightarrow> e_resolution e \<le> r" by (simp add: not_less)
  let ?m = "make_room (ks_id st) c"
  have na: "names_agree ?m" using make_room_ok [OF ok, of "ks_id st"] by (simp add: cache_ok_def)
  have ne: "a_id a \<noteq> ks_id st"
    using le e tickets_okD [of c n a] n r ok by (fastforce simp: cache_ok_def)
  from le show ?thesis
  proof (cases rule: cache_insert_cases [of c st r now])
    case (bound name)
    then have "a_resolution a \<le> r"
      using nm make_room_lost_binding [OF ok n, of "ks_id st"]
      by (cases "by_name ?m n = Some a") (auto simp: bind_name_accepts)
    with r show ?thesis by simp
  next
    case unbound
    show ?thesis
    proof (cases "by_name ?m n = Some a")
      case True
      with unbound show ?thesis by simp
    next
      case False
      then have "by_name ?m n = None" using by_name_make_room [OF ok] n by (cases "by_name ?m n") auto
      have "entry_of ?m (a_id a) = None"
      proof (rule ccontr)
        assume "entry_of ?m (a_id a) \<noteq> None"
        then have "entry_of ?m (a_id a) = Some e"
          using entry_of_make_room_Some [OF ok, of "ks_id st" "a_id a"] e by force
        moreover have "e_name e = Some n"
          using names_agreeD [OF _ n] e ok by (auto simp: cache_ok_def)
        ultimately show False using names_agreeE [OF na] \<open>by_name ?m n = None\<close> by fastforce
      qed
      with unbound ne show ?thesis by (simp add: entry_of_apply_answer_other)
    qed
  qed
qed

text \<open>What an insert lets go of, and what it binds, lies on the two sides of the watermark it leaves.\<close>

lemma insert_lost_entry:
  assumes ok: "cache_ok c" and e: "entry_of c i = Some e"
    and gone: "entry_of (snd (cache_insert now st r c)) i = None"
  shows "e_resolution e \<le> watermark (snd (cache_insert now st r c))"
proof (cases "\<exists>e. entry_of c (ks_id st) = Some e \<and> r < e_resolution e")
  case True
  with e gone show ?thesis using cache_insert_dropped [of c st _ r now] by auto
next
  case False
  then have le: "\<forall>e. entry_of c (ks_id st) = Some e \<longrightarrow> e_resolution e \<le> r" by (simp add: not_less)
  let ?m = "make_room (ks_id st) c"
  have ne: "i \<noteq> ks_id st" if "entry_of (apply_answer st b r d) i = None" for b d
    using that entry_of_apply_answer_self [of st b r d] by auto
  from le have "entry_of ?m i = None"
  proof (cases rule: cache_insert_cases [of c st r now])
    case (bound name)
    let ?b = "snd (bind_name now name (ks_id st) r ?m)"
    have "entry_of ?b i = None"
      using gone ne [of True ?b] by (simp add: bound(3) entry_of_apply_answer_other)
    then show ?thesis using bind_resolution [OF bound(2), of i] by simp
  next
    case unbound
    then show ?thesis using gone ne [of False ?m] by (simp add: entry_of_apply_answer_other)
  qed
  then have "e_resolution e \<le> watermark ?m" using make_room_lost_entry(2) [OF ok e, of "ks_id st"] by simp
  with le show ?thesis by (cases rule: cache_insert_cases [of c st r now]) simp_all
qed

lemma insert_new_binding:
  assumes ok: "cache_ok c" and a: "by_name (snd (cache_insert now st r c)) n = Some a" "by_name c n \<noteq> Some a"
  shows "watermark (snd (cache_insert now st r c)) \<le> a_resolution a"
proof (cases "\<exists>e. entry_of c (ks_id st) = Some e \<and> r < e_resolution e")
  case True
  with a show ?thesis using cache_insert_dropped [of c st _ r now] by auto
next
  case False
  then have "\<forall>e. entry_of c (ks_id st) = Some e \<longrightarrow> e_resolution e \<le> r" by (simp add: not_less)
  then show ?thesis
  proof (cases rule: cache_insert_cases [of c st r now])
    case (bound name)
    then have "a_resolution a = r"
      using insert_binding [OF ok a(1)] a(2) by auto
    with bound show ?thesis by (simp add: bind_name_accepts)
  next
    case unbound
    with a show ?thesis using by_name_make_room [OF ok] by simp
  qed
qed

lemma bindings_below_watermark:
  assumes "cache_ok c" and "ops_ok cache_guard cache_step ops c"
    and "by_name (run_ops cache_step ops c) n = Some a" and "a_resolution a < watermark c"
  shows "by_name c n = Some a"
  using assms
proof (induction ops arbitrary: c)
  case (Cons x ops)
  let ?d = "cache_step x c"
  have ok: "cache_ok c" and g: "cache_guard x c" using Cons.prems by auto
  have wm: "watermark c \<le> watermark ?d"
    by (cases x) (simp_all add: cache_get_frame watermark_insert [OF ok] watermark_forget)
  have "ops_ok cache_guard cache_step ops ?d" "by_name (run_ops cache_step ops ?d) n = Some a"
      "a_resolution a < watermark ?d"
    using Cons.prems(2-4) wm by (simp_all only: ops_ok.simps run_ops.simps)
  with Cons.IH cache.step_invar [OF ok g] have "by_name ?d n = Some a" by blast
  then show ?case
    using Cons.prems(4)
    by (cases x) (auto simp: cache_get_frame dest: by_name_forget dest!: insert_binding [OF ok])
qed simp

text \<open>Only an insert drops a keyset.\<close>

lemma entry_kept:
  assumes "entry_of c i \<noteq> None" and "\<And>now st r. x \<noteq> OpInsert now st r"
  shows "entry_of (cache_step x c) i \<noteq> None"
proof (cases x)
  case (OpGet sel now)
  have "entry_of (snd (touch j c)) i \<noteq> None" for j
    using assms(1) entry_of_touch [of j c i] by (cases "entry_of c i") auto
  with OpGet assms(1) show ?thesis
    by (auto simp: cache_get_def next_resolution_def Let_def case_prod_beta split: option.split)
next
  case (OpForget name r)
  with assms(1) show ?thesis by (auto simp: cache_forget_def Let_def split: option.split)
qed (use assms(2) in blast)

lemma let_go_watermark:
  assumes ok: "cache_ok c"
    and gone: "(\<exists>m. x = OpForget m r)
      \<or> (\<exists>i e. entry_of c i = Some e \<and> entry_of (cache_step x c) i = None \<and> e_resolution e = r)"
  shows "r \<le> watermark (cache_step x c)"
  using gone
proof
  assume "\<exists>m. x = OpForget m r"
  then show ?thesis by (auto simp: watermark_forget)
next
  assume "\<exists>i e. entry_of c i = Some e \<and> entry_of (cache_step x c) i = None \<and> e_resolution e = r"
  then obtain i e where e: "entry_of c i = Some e" "entry_of (cache_step x c) i = None" "e_resolution e = r" by blast
  then obtain now st r' where "x = OpInsert now st r'" using entry_kept [of c i x] by auto
  with e insert_lost_entry [OF ok e(1)] show ?thesis by simp
qed

section \<open>Concrete caches\<close>

definition kstate :: "uuid \<Rightarrow> string option \<Rightarrow> keyset_state" where
  "kstate i name = \<lparr>ks_id = i, ks_name = name, ks_prf = 0\<rparr>"

definition demo_cache :: "nat \<Rightarrow> keyset_cache" where
  "demo_cache cap = new_cache cap 100 (kstate 0 None) 0"

lemmas cache_eval = demo_cache_def kstate_def new_cache_def cache_get_def cache_insert_def cache_forget_def
  touch_def with_entry_def entry_of_def default_id_def next_resolution_def make_room_def evict_oldest_def
  bind_name_def displace_def leave_previous_def current_name_of_def forget_name_of_def apply_answer_def
  later_answer_def is_later_than_def is_fresh_at_def al_put_def al_remove_def Let_def

section \<open>Properties\<close>

text \<open>
  C22. Whatever lookups, answers and negative answers reach the cache, in whatever order
  (with tickets the cache issued): the bound is respected, the default keyset is still held
  with its state, every binding names a held keyset under its own id that claims exactly
  that name, so that a keyset has at most one name, and the claimed names are bound.\<close>

theorem cache_sequences_ok:
  assumes cap: "cap > 0" and ok: "ops_ok cache_guard cache_step ops (new_cache cap ttl dflt now)"
  shows "let c = run_ops cache_step ops (new_cache cap ttl dflt now) in
    length (by_id c) \<le> cap \<and> map_option e_state (entry_of c (ks_id dflt)) = Some dflt
    \<and> (\<forall>n a. by_name c n = Some a \<longrightarrow>
         (\<exists>e. entry_of c (a_id a) = Some e \<and> e_name e = Some n \<and> ks_id (e_state e) = a_id a))
    \<and> (\<forall>n m a b. by_name c n = Some a \<and> by_name c m = Some b \<and> a_id a = a_id b \<longrightarrow> n = m)
    \<and> (\<forall>i e n. entry_of c i = Some e \<and> e_name e = Some n \<longrightarrow> map_option a_id (by_name c n) = Some i)"
proof -
  let ?c = "run_ops cache_step ops (new_cache cap ttl dflt now)"
  have inv: "cache_ok ?c" using cache.run_invar [OF new_cache_ok [OF cap] ok] .
  then have so: "store_ok ?c" and na: "names_agree ?c" by (simp_all add: cache_ok_def)
  have cf: "capacity ?c = cap" "e_state (default_entry ?c) = dflt"
    using run_config [of ops "new_cache cap ttl dflt now"] by (simp_all add: new_cache_def)
  have own: "ks_id (e_state e) = i" if "entry_of ?c i = Some e" for i e
    using that so by (auto simp: entry_of_def store_ok_def default_id_def dest!: map_of_SomeD split: if_splits)
  have "length (by_id ?c) \<le> cap" using so cf by (simp add: store_ok_def)
  moreover have "map_option e_state (entry_of ?c (ks_id dflt)) = Some dflt"
    by (simp add: entry_of_def default_id_def cf)
  moreover have "\<exists>e. entry_of ?c (a_id a) = Some e \<and> e_name e = Some n \<and> ks_id (e_state e) = a_id a"
    if "by_name ?c n = Some a" for n a
    using names_agreeD [OF na that] own by blast
  moreover have "n = m" if "by_name ?c n = Some a" "by_name ?c m = Some b" "a_id a = a_id b" for n m a b
    using names_agreeD [OF na that(1)] names_agreeD [OF na that(2)] that(3) by auto
  moreover have "map_option a_id (by_name ?c n) = Some i" if "entry_of ?c i = Some e" "e_name e = Some n" for i e n
    using names_agreeE [OF na that] by auto
  ultimately show ?thesis unfolding Let_def by blast
qed

theorem cache_sequences_ok_witness:
  "length (by_id (run_ops cache_step
     [OpGet (Name ''a'') 1, OpGet (Name ''b'') 2, OpInsert 3 (kstate 2 (Some ''b'')) 2,
      OpInsert 4 (kstate 1 (Some ''a'')) 1] (new_cache 1 100 (kstate 0 None) 0))) \<le> 1"
proof -
  let ?ops = "[OpGet (Name ''a'') 1, OpGet (Name ''b'') 2,
      OpInsert 3 (kstate 2 (Some ''b'')) 2, OpInsert 4 (kstate 1 (Some ''a'')) 1]"
  have "ops_ok cache_guard cache_step ?ops (new_cache 1 100 (kstate 0 None) 0)" by code_simp
  then show ?thesis by (rule cache_sequences_ok [OF zero_less_one, unfolded Let_def, THEN conjunct1])
qed

text \<open>
  C9. Once a place in the order has been let go of, by the eviction of a keyset or by a
  negative answer, it stays closed: whatever operations follow, a name is bound to an answer
  older than the evicted entry, or than the negative answer, only where that very binding
  stood before and survived; it is not the name that was answered negatively, and its keyset
  was not the one evicted.\<close>

theorem let_go_orders_stay_closed:
  assumes ok: "cache_ok c" and g: "ops_ok cache_guard cache_step (x # ops) c"
    and gone: "(\<exists>m. x = OpForget m r)
      \<or> (\<exists>i e. entry_of c i = Some e \<and> entry_of (cache_step x c) i = None \<and> e_resolution e = r)"
    and a: "by_name (run_ops cache_step (x # ops) c) n = Some a" "a_resolution a < r"
  shows "by_name c n = Some a \<and> by_name (cache_step x c) n = Some a
    \<and> x \<noteq> OpForget n r \<and> entry_of (cache_step x c) (a_id a) \<noteq> None"
proof -
  let ?d = "cache_step x c"
  have d: "cache_ok ?d" using cache.step_invar [OF ok] g by simp
  have w: "a_resolution a < watermark ?d" using let_go_watermark [OF ok gone] a(2) by simp
  have 1: "by_name ?d n = Some a" by (rule bindings_below_watermark [OF d _ _ w, of ops]) (use g a(1) in simp_all)
  moreover have "by_name c n = Some a"
  proof (cases x)
    case (OpInsert now st r')
    with 1 w insert_new_binding [OF ok, of now st r' n a] show ?thesis by fastforce
  qed (use 1 in \<open>auto simp: cache_get_frame dest: by_name_forget\<close>)
  moreover have "x \<noteq> OpForget n r"
    using 1 a(2) by (auto simp: cache_forget_def Let_def is_later_than_def split: option.splits if_splits)
  moreover have "entry_of ?d (a_id a) \<noteq> None" using names_agreeD [OF _ 1] d by (auto simp: cache_ok_def)
  ultimately show ?thesis by blast
qed

text \<open>A full cache: the lookup of keyset 2 lands last and evicts keyset 1, bound to a name that an
  older lookup, still under way, then answers for.\<close>

definition crowded_cache :: keyset_cache where
  "crowded_cache = run_ops cache_step
     [OpGet (Name ''n'') 0, OpGet (Name ''n'') 0, OpGet (Name ''m'') 0, OpInsert 1 (kstate 1 (Some ''n'')) 2] (demo_cache 1)"

theorem let_go_orders_stay_closed_witness:
  "let x = OpInsert 2 (kstate 2 (Some ''m'')) 3; y = OpInsert 3 (kstate 3 (Some ''n'')) 1
   in map_option a_resolution (by_name crowded_cache ''n'') = Some 2
      \<and> entry_of (cache_step x crowded_cache) 1 = None
      \<and> by_name (run_ops cache_step [x, y] crowded_cache) ''n'' = None"
proof -
  let ?x = "OpInsert 2 (kstate 2 (Some ''m'')) 3" and ?y = "OpInsert 3 (kstate 3 (Some ''n'')) 1"
  have "ops_ok cache_guard cache_step
     [OpGet (Name ''n'') 0, OpGet (Name ''n'') 0, OpGet (Name ''m'') 0, OpInsert 1 (kstate 1 (Some ''n'')) 2] (demo_cache 1)"
    by code_simp
  then have ok: "cache_ok crowded_cache"
    unfolding crowded_cache_def by (rule cache.run_invar [rotated]) (simp add: demo_cache_def new_cache_ok)
  have g: "ops_ok cache_guard cache_step [?x, ?y] crowded_cache" by code_simp
  have n: "map_option a_resolution (by_name crowded_cache ''n'') = Some 2" by code_simp
  have e: "map_option e_resolution (entry_of crowded_cache 1) = Some 2" by code_simp
  have gone: "entry_of (cache_step ?x crowded_cache) 1 = None" by code_simp
  have low: "\<not> case_option False (\<lambda>a. 2 \<le> a_resolution a) (by_name (run_ops cache_step [?x, ?y] crowded_cache) ''n'')"
    by code_simp
  have none: "by_name (cache_step ?x crowded_cache) ''n'' = None" by code_simp
  have let_go: "(\<exists>m. ?x = OpForget m 2) \<or> (\<exists>i e. entry_of crowded_cache i = Some e
      \<and> entry_of (cache_step ?x crowded_cache) i = None \<and> e_resolution e = 2)"
    using e gone by auto
  have "by_name (run_ops cache_step [?x, ?y] crowded_cache) ''n'' = None"
  proof (cases "by_name (run_ops cache_step [?x, ?y] crowded_cache) ''n''")
    case (Some a)
    then have "a_resolution a < 2" using low by (simp only: Some option.case not_le)
    from let_go_orders_stay_closed [OF ok g let_go Some this] none show ?thesis by simp
  qed
  with n gone show ?thesis unfolding Let_def by blast
qed

lemma own_id:
  assumes "store_ok c" and "entry_of c i = Some e"
  shows "ks_id (e_state e) = i"
  using assms by (auto simp: entry_of_def store_ok_def default_id_def dest!: map_of_SomeD split: if_splits)

lemma insert_answer_later:
  assumes "ks_name st = Some n" and "by_name c n = Some a" and "r < a_resolution a"
    and "entry_of c (a_id a) = Some e"
  shows "fst (cache_insert now st r c) = e_state e"
proof -
  have "later_answer st r c = Some (e_state e)" using assms by (simp add: later_answer_def is_later_than_def)
  then show ?thesis by (auto simp: cache_insert_def Let_def case_prod_beta split: option.split)
qed

text \<open>
  C28. Answers land in any order and the later lookup wins. An answer never lowers the
  ticket of a name's binding nor of a keyset's entry, and one whose name a later lookup has
  bound is answered with the keyset the name means now; that binding then stands, unless
  this very insert evicts its keyset.\<close>

theorem later_lookup_wins:
  assumes ok: "cache_ok c" and le: "r \<le> resolutions c"
    and n: "by_name c n = Some a"
  shows "let (answer, d) = cache_insert now st r c in
    (\<forall>b. by_name d n = Some b \<longrightarrow> a_resolution a \<le> a_resolution b)
    \<and> (\<forall>i e f. entry_of c i = Some e \<and> entry_of d i = Some f \<longrightarrow> e_resolution e \<le> e_resolution f)
    \<and> (ks_name st = Some n \<and> r < a_resolution a \<longrightarrow>
         ks_id answer = a_id a \<and> (by_name d n = Some a \<or> entry_of d (a_id a) = None))"
proof -
  obtain answer d where d: "cache_insert now st r c = (answer, d)" by (cases "cache_insert now st r c") auto
  have so: "store_ok c" and na: "names_agree c" and tk: "tickets_ok c" using ok by (simp_all add: cache_ok_def)
  have dok: "cache_ok d" using cache_insert_ok [OF ok le, of now st] d by simp
  have 1: "a_resolution a \<le> a_resolution b" if "by_name d n = Some b" for b
    using insert_binding [OF ok, of now st r n b] that d n by auto
  have 2: "e_resolution e \<le> e_resolution f" if "entry_of c i = Some e" "entry_of d i = Some f" for i e f
    using insert_entry_monotone [OF ok, of i e now st r f] that d by simp
  have 3: "ks_id answer = a_id a \<and> (by_name d n = Some a \<or> entry_of d (a_id a) = None)"
    if nm: "ks_name st = Some n" and r: "r < a_resolution a"
  proof -
    obtain e where e: "entry_of c (a_id a) = Some e" "a_resolution a \<le> e_resolution e"
      using tickets_okD [OF tk n] by blast
    have "answer = e_state e" using insert_answer_later [OF nm n r e(1), of now] d by simp
    moreover have "by_name d n = Some a \<or> entry_of d (a_id a) = None"
      using insert_keeps_later [OF ok n e(1) nm r, of now] d by simp
    ultimately show ?thesis using own_id [OF so e(1)] by simp
  qed
  show ?thesis unfolding d using 1 2 3 by auto
qed

theorem later_lookup_wins_witness:
  "let (answer, d) = cache_insert 5 (kstate 1 (Some ''n'')) 1 (snd (cache_insert 3 (kstate 2 (Some ''n'')) 2
     (snd (cache_get (Name ''n'') 1 (snd (cache_get (Name ''n'') 0 (demo_cache 4))))))) in ks_id answer = 2"
proof -
  let ?g = "snd (cache_get (Name ''n'') 1 (snd (cache_get (Name ''n'') 0 (demo_cache 4))))"
  let ?c = "snd (cache_insert 3 (kstate 2 (Some ''n'')) 2 ?g)"
  let ?a = "\<lparr>a_id = 2, a_resolved_at = 3, a_resolution = 2\<rparr> :: name_alias"
  have "cache_ok (demo_cache 4)" by (simp add: demo_cache_def new_cache_ok)
  then have "cache_ok ?g" by (intro cache_get_ok)
  moreover have "2 \<le> resolutions ?g" by code_simp
  ultimately have ok: "cache_ok ?c" by (rule cache_insert_ok)
  have n: "by_name ?c ''n'' = Some ?a" by code_simp
  have r: "1 \<le> resolutions ?c" by code_simp
  show ?thesis
    using later_lookup_wins [OF ok r n, of 5 "kstate 1 (Some ''n'')"]
    by (auto simp: kstate_def)
qed

text \<open>
  What is inserted is found. When nothing later has spoken for the keyset or its name,
  the keyset is a hit by id, and by its name as long as the binding is within its window
  and a stale binding afterwards; the default keyset answers with its own state.\<close>

theorem insert_then_get:
  assumes ok: "cache_ok c" and le: "r \<le> resolutions c"
    and fresh: "\<forall>e. entry_of c (ks_id st) = Some e \<longrightarrow> e_resolution e \<le> r"
  shows "let d = snd (cache_insert now st r c);
             held = (if ks_id st = default_id c then e_state (default_entry c) else st) in
    fst (cache_get (Uuid (ks_id st)) t d) = Hit held
    \<and> (\<forall>name. ks_name st = Some name \<and> fst (bind_name now name (ks_id st) r (make_room (ks_id st) c)) \<longrightarrow>
         fst (cache_get (Name name) t d)
           = (if t - now < name_ttl c then Hit held else Stale (resolutions c + 1)))"
proof -
  let ?d = "snd (cache_insert now st r c)" and ?m = "make_room (ks_id st) c"
  define held where "held = (if ks_id st = default_id c then e_state (default_entry c) else st)"
  have mk: "default_id ?m = default_id c" "resolutions ?m = resolutions c"
    using make_room_ok [OF ok, of "ks_id st"] by auto
  have dd: "resolutions ?d = resolutions c" "name_ttl ?d = name_ttl c"
    using fresh by (cases rule: cache_insert_cases [of c st r now], simp_all add: mk insert_frame)+
  have e: "map_option e_state (entry_of ?d (ks_id st)) = Some held"
    using fresh
  proof (cases rule: cache_insert_cases [of c st r now])
    case (bound name)
    let ?b = "snd (bind_name now name (ks_id st) r ?m)"
    show ?thesis using entry_of_apply_answer_self [of st True r ?b] by (auto simp: bound(3) mk insert_frame held_def)
  next
    case unbound
    show ?thesis using entry_of_apply_answer_self [of st False r ?m] by (auto simp: unbound(2) mk insert_frame held_def)
  qed
  obtain d' where t: "touch (ks_id st) ?d = (Some held, d')"
    using e touch_result [of "ks_id st" ?d] by (cases "touch (ks_id st) ?d") simp
  have d': "resolutions d' = resolutions c" using touch_fields(2) [of "ks_id st" ?d] t dd by simp
  have "fst (cache_get (Uuid (ks_id st)) t ?d) = Hit held"
    by (simp add: cache_get_def t)
  moreover have "fst (cache_get (Name name) t ?d)
      = (if t - now < name_ttl c then Hit held else Stale (resolutions c + 1))"
    if nm: "ks_name st = Some name" and b: "fst (bind_name now name (ks_id st) r ?m)" for name
  proof -
    from fresh have "by_name ?d name = Some \<lparr>a_id = ks_id st, a_resolved_at = now, a_resolution = r\<rparr>"
    proof (cases rule: cache_insert_cases [of c st r now])
      case (bound name')
      then show ?thesis using nm by (simp add: by_name_bind_name [OF bound(2)])
    next
      case unbound
      with nm b show ?thesis by simp
    qed
    then show ?thesis
      using dd d' by (cases "t - now < name_ttl c")
        (simp_all add: cache_get_def t is_fresh_at_def next_resolution_def)
  qed
  ultimately show ?thesis unfolding Let_def held_def [symmetric] by blast
qed

text \<open>
  An insert of a new keyset into a full cache drops exactly one held keyset, the least
  recently used one; every other keyset is still held, and the default was never a
  candidate. An insert that finds room drops nothing.\<close>

theorem insert_evicts_least_recently_used:
  assumes ok: "cache_ok c" and new: "entry_of c (ks_id st) = None"
  shows "let d = snd (cache_insert now st r c) in
    (if length (by_id c) < capacity c then fst ` set (by_id d) = insert (ks_id st) (fst ` set (by_id c))
     else \<exists>oldest e. (oldest, e) \<in> set (by_id c)
       \<and> (\<forall>(k, f) \<in> set (by_id c). k \<noteq> oldest \<longrightarrow> e_last_used e < e_last_used f)
       \<and> fst ` set (by_id d) = insert (ks_id st) (fst ` set (by_id c) - {oldest}))"
proof -
  let ?m = "make_room (ks_id st) c" and ?d = "snd (cache_insert now st r c)"
  have so: "store_ok c" and na: "names_agree c" using ok by (simp_all add: cache_ok_def)
  have nd: "ks_id st \<noteq> default_id c" "map_of (by_id c) (ks_id st) = None"
    using new by (simp_all add: entry_of_def split: if_splits)
  have dm: "default_id ?m = default_id c" using make_room_ok [OF ok, of "ks_id st"] by simp
  have applied: "fst ` set (by_id (apply_answer st b r x)) = insert (ks_id st) (fst ` set (by_id x))"
    if "default_id x = default_id c" for b x
  proof (cases "map_of (by_id x) (ks_id st)")
    case None
    with that nd show ?thesis by (simp add: apply_answer_def Let_def)
  next
    case (Some e)
    then have "ks_id st \<in> fst ` set (by_id x)" by (force dest: map_of_SomeD)
    with Some that nd show ?thesis by (simp add: apply_answer_def Let_def insert_absorb)
  qed
  have bound: "fst ` set (by_id (snd (bind_name now name i r x))) = fst ` set (by_id x)" for name i x
    by (simp add: bind_name_def Let_def leave_previous_def displace_def forget_name_of_def split: option.split)
  have "\<forall>e. entry_of c (ks_id st) = Some e \<longrightarrow> e_resolution e \<le> r" using new by simp
  then have keys: "fst ` set (by_id ?d) = insert (ks_id st) (fst ` set (by_id ?m))"
    by (cases rule: cache_insert_cases [of c st r now]) (simp_all add: applied bound dm)
  show ?thesis
  proof (cases "length (by_id c) < capacity c")
    case True
    then show ?thesis using keys nd by (simp add: make_room_def Let_def)
  next
    case False
    then have m: "?m = evict_oldest c" using nd by (simp add: make_room_def)
    have ne: "by_id c \<noteq> []" using False so by (auto simp: store_ok_def)
    obtain oldest e where o: "(oldest, e) \<in> set (by_id c)"
        "\<forall>(k, f) \<in> set (by_id c). e_last_used e \<le> e_last_used f"
        "by_id (evict_oldest c) = al_remove oldest (by_id c)"
      using evict_oldest_cases [OF so na ne] by metis
    have strict: "e_last_used e < e_last_used f" if "(k, f) \<in> set (by_id c)" "k \<noteq> oldest" for k f
    proof -
      have "inj_on (\<lambda>x. e_last_used (snd x)) (set (by_id c))" using so by (simp add: store_ok_def distinct_map)
      from inj_onD [OF this _ that(1) o(1)] that(2) have "e_last_used f \<noteq> e_last_used e" by auto
      moreover have "e_last_used e \<le> e_last_used f" using o(2) that(1) by blast
      ultimately show ?thesis by simp
    qed
    have "fst ` set (by_id ?d) = insert (ks_id st) (fst ` set (by_id c) - {oldest})"
      using keys by (simp add: m o(3))
    with o(1) strict have "\<exists>oldest e. (oldest, e) \<in> set (by_id c)
       \<and> (\<forall>(k, f) \<in> set (by_id c). k \<noteq> oldest \<longrightarrow> e_last_used e < e_last_used f)
       \<and> fst ` set (by_id ?d) = insert (ks_id st) (fst ` set (by_id c) - {oldest})" by blast
    with False show ?thesis by (simp only: Let_def if_False)
  qed
qed







end
