(* ===== verification/Rust_Str.thy ===== *)
theory Rust_Str
  imports Stack_Prelude
begin

text \<open>
  Rust's \<open>str\<close> and what the modelled code uses of it: a string is the list of its
  Unicode scalar values, with the UTF-8 encoding (\<open>as_bytes\<close>, \<open>from_utf8\<close>),
  \<open>split\<close>, prefixes, decimal printing and the character classes.
\<close>

type_synonym rstr = "nat list"

definition lit :: "string \<Rightarrow> rstr" where
  "lit s = map of_char s"

definition is_scalar :: "nat \<Rightarrow> bool" where
  "is_scalar c = (c < 0xD800 \<or> 0xE000 \<le> c \<and> c < 0x110000)"

definition is_str :: "rstr \<Rightarrow> bool" where
  "is_str s = list_all is_scalar s"

section \<open>UTF-8\<close>

definition byte :: "nat \<Rightarrow> u8" where
  "byte n = of_nat n"

definition encode_char :: "nat \<Rightarrow> bytes" where
  "encode_char c =
     (if c < 0x80 then [byte c]
      else if c < 0x800 then [byte (0xC0 + c div 64), byte (0x80 + c mod 64)]
      else if c < 0x10000 then
        [byte (0xE0 + c div 4096), byte (0x80 + c div 64 mod 64), byte (0x80 + c mod 64)]
      else [byte (0xF0 + c div 262144), byte (0x80 + c div 4096 mod 64),
            byte (0x80 + c div 64 mod 64), byte (0x80 + c mod 64)])"

definition as_bytes :: "rstr \<Rightarrow> bytes" where
  "as_bytes s = concat (map encode_char s)"

text \<open>A continuation byte and the six bits it carries.\<close>

definition cont :: "u8 \<Rightarrow> nat option" where
  "cont b = (if 0x80 \<le> unat b \<and> unat b < 0xC0 then Some (unat b - 0x80) else None)"

text \<open>
  One scalar value off the front: the lead byte says how many continuation bytes follow,
  and the value must need that many (no overlong form) and be a scalar value.
\<close>

definition decode_char :: "bytes \<Rightarrow> (nat \<times> bytes) option" where
  "decode_char bs =
     (case bs of
        [] \<Rightarrow> None
      | b # r \<Rightarrow>
          if unat b < 0x80 then Some (unat b, r)
          else if unat b < 0xC0 then None
          else if unat b < 0xE0 then
            (case r of
               b1 # r1 \<Rightarrow> Option.bind (cont b1) (\<lambda>x1.
                 let c = (unat b - 0xC0) * 64 + x1 in if 0x80 \<le> c then Some (c, r1) else None)
             | [] \<Rightarrow> None)
          else if unat b < 0xF0 then
            (case r of
               b1 # b2 # r2 \<Rightarrow> Option.bind (cont b1) (\<lambda>x1. Option.bind (cont b2) (\<lambda>x2.
                 let c = (unat b - 0xE0) * 4096 + x1 * 64 + x2
                 in if 0x800 \<le> c \<and> is_scalar c then Some (c, r2) else None))
             | _ \<Rightarrow> None)
          else if unat b < 0xF8 then
            (case r of
               b1 # b2 # b3 # r3 \<Rightarrow>
                 Option.bind (cont b1) (\<lambda>x1. Option.bind (cont b2) (\<lambda>x2. Option.bind (cont b3) (\<lambda>x3.
                 let c = (unat b - 0xF0) * 262144 + x1 * 4096 + x2 * 64 + x3
                 in if 0x10000 \<le> c \<and> is_scalar c then Some (c, r3) else None)))
             | _ \<Rightarrow> None)
          else None)"

lemma unat_byte [simp]: "n < 256 \<Longrightarrow> unat (byte n) = n"
  by (simp add: byte_def unat_of_nat)

lemma byte_unat [simp]: "byte (unat b) = b"
  by (simp add: byte_def)

lemma unat_u8: "unat (b :: u8) < 256"
  using unsigned_less [of b, where 'a = nat] by simp

lemma cont_byte [simp]: "x < 64 \<Longrightarrow> cont (byte (0x80 + x)) = Some x"
  by (simp add: cont_def)

lemma cont_Some: "cont b = Some x \<longleftrightarrow> x < 64 \<and> b = byte (0x80 + x)"
  using byte_unat [of b] by (auto simp: cont_def split: if_splits)

lemma lead2: "x < 32 \<Longrightarrow> y < 64 \<Longrightarrow> decode_char (byte (0xC0 + x) # byte (0x80 + y) # r)
    = (let c = x * 64 + y in if 0x80 \<le> c then Some (c, r) else None)"
  by (simp add: decode_char_def Let_def)

lemma lead3: "x < 16 \<Longrightarrow> y < 64 \<Longrightarrow> z < 64 \<Longrightarrow>
    decode_char (byte (0xE0 + x) # byte (0x80 + y) # byte (0x80 + z) # r)
    = (let c = x * 4096 + y * 64 + z in if 0x800 \<le> c \<and> is_scalar c then Some (c, r) else None)"
  by (simp add: decode_char_def Let_def)

lemma lead4: "x < 8 \<Longrightarrow> y < 64 \<Longrightarrow> z < 64 \<Longrightarrow> w < 64 \<Longrightarrow>
    decode_char (byte (0xF0 + x) # byte (0x80 + y) # byte (0x80 + z) # byte (0x80 + w) # r)
    = (let c = x * 262144 + y * 4096 + z * 64 + w in if 0x10000 \<le> c \<and> is_scalar c then Some (c, r) else None)"
  by (simp add: decode_char_def Let_def)

lemma decode_encode_char:
  assumes "is_scalar c"
  shows "decode_char (encode_char c @ r) = Some (c, r)"
proof -
  have lt: "c < 0x110000" using assms by (auto simp: is_scalar_def)
  have c2: "c div 64 * 64 + c mod 64 = c" by (rule div_mult_mod_eq)
  have d3: "c div 4096 = c div 64 div 64" by (simp add: div_mult2_eq [symmetric])
  have c3: "c div 4096 * 4096 + c div 64 mod 64 * 64 + c mod 64 = c"
    using c2 div_mult_mod_eq [of "c div 64" 64] unfolding d3 by linarith
  have d4: "c div 262144 = c div 4096 div 64" by (simp add: div_mult2_eq [symmetric])
  have c4: "c div 262144 * 262144 + c div 4096 mod 64 * 4096 + c div 64 mod 64 * 64 + c mod 64 = c"
    using c3 div_mult_mod_eq [of "c div 4096" 64] unfolding d4 by linarith
  consider "c < 0x80" | "0x80 \<le> c" "c < 0x800" | "0x800 \<le> c" "c < 0x10000" | "0x10000 \<le> c" by linarith
  then show ?thesis
  proof cases
    case 1
    then show ?thesis by (simp add: encode_char_def decode_char_def)
  next
    case 2
    then have "c div 64 < 32" by (simp add: less_mult_imp_div_less)
    with 2 c2 show ?thesis by (simp add: encode_char_def lead2)
  next
    case 3
    then have "c div 4096 < 16" by (simp add: less_mult_imp_div_less)
    with 3 c3 assms show ?thesis by (simp add: encode_char_def lead3)
  next
    case 4
    then have "c div 262144 < 8" using lt by (simp add: less_mult_imp_div_less)
    with 4 c4 assms show ?thesis by (simp add: encode_char_def lead4)
  qed
qed

lemma encode_char_nonempty: "encode_char c \<noteq> []"
  by (simp add: encode_char_def)

lemma digit64: "r < 64 \<Longrightarrow> (q * 64 + r) div 64 = q \<and> (q * 64 + r) mod 64 = (r :: nat)"
  by simp

lemma div4096: "c div 4096 = c div 64 div (64 :: nat)"
  by (simp add: div_mult2_eq [symmetric])

lemma div262144: "c div 262144 = c div 64 div 64 div (64 :: nat)"
  by (simp add: div_mult2_eq [symmetric])

lemma encode_char2: "x * 64 + y < 0x800 \<Longrightarrow> 0x80 \<le> x * 64 + y \<Longrightarrow> y < 64 \<Longrightarrow>
    encode_char (x * 64 + y) = [byte (0xC0 + x), byte (0x80 + y)]"
  by (simp add: encode_char_def)

lemma encode_char3:
  assumes "x * 4096 + y * 64 + z < 0x10000" and "0x800 \<le> x * 4096 + y * 64 + z" and "y < 64" "z < 64"
  shows "encode_char (x * 4096 + y * 64 + z) = [byte (0xE0 + x), byte (0x80 + y), byte (0x80 + z)]"
proof -
  have c: "x * 4096 + y * 64 + z = (x * 64 + y) * 64 + z" by simp
  show ?thesis
    using assms(1,2) digit64 [OF assms(4), of "x * 64 + y"] digit64 [OF assms(3), of x]
    unfolding c by (simp add: encode_char_def div4096)
qed

lemma encode_char4:
  assumes "0x10000 \<le> x * 262144 + y * 4096 + z * 64 + w" and "y < 64" "z < 64" "w < 64"
  shows "encode_char (x * 262144 + y * 4096 + z * 64 + w)
    = [byte (0xF0 + x), byte (0x80 + y), byte (0x80 + z), byte (0x80 + w)]"
proof -
  have c: "x * 262144 + y * 4096 + z * 64 + w = ((x * 64 + y) * 64 + z) * 64 + w" by simp
  show ?thesis
    using assms(1) digit64 [OF assms(4), of "(x * 64 + y) * 64 + z"]
      digit64 [OF assms(3), of "x * 64 + y"] digit64 [OF assms(2), of x]
    unfolding c by (simp add: encode_char_def div4096 div262144)
qed

lemma byte_lead: "k \<le> unat b \<Longrightarrow> b = byte (k + (unat b - k))"
  by simp

lemma encode_decode_char:
  assumes "decode_char bs = Some (c, r)"
  shows "bs = encode_char c @ r \<and> is_scalar c"
proof -
  obtain b rest where bs: "bs = b # rest" using assms by (cases bs) (auto simp: decode_char_def)
  consider "unat b < 0x80" | "0xC0 \<le> unat b" "unat b < 0xE0" | "0xE0 \<le> unat b" "unat b < 0xF0"
    | "0xF0 \<le> unat b" "unat b < 0xF8"
    using assms by (auto simp: bs decode_char_def split: if_splits)
  then show ?thesis
  proof cases
    case 1
    with assms show ?thesis by (auto simp: bs decode_char_def encode_char_def is_scalar_def)
  next
    case 2
    then obtain y where r: "rest = byte (0x80 + y) # r" "y < 64" and c: "c = (unat b - 0xC0) * 64 + y" "0x80 \<le> c"
      using assms by (auto simp: bs decode_char_def Let_def cont_Some bind_eq_Some_conv split: list.splits if_splits)
    have "c < 0x800" using 2 r(2) c(1) by simp
    then show ?thesis
      using encode_char2 [of "unat b - 0xC0" y] byte_lead [OF 2(1)] c r by (simp add: bs is_scalar_def)
  next
    case 3
    then obtain y z where r: "rest = byte (0x80 + y) # byte (0x80 + z) # r" "y < 64" "z < 64"
      and c: "c = (unat b - 0xE0) * 4096 + y * 64 + z" "0x800 \<le> c" "is_scalar c"
      using assms by (auto simp: bs decode_char_def Let_def cont_Some bind_eq_Some_conv split: list.splits if_splits)
    have "c < 0x10000" using 3 r(2,3) c(1) by simp
    then show ?thesis
      using encode_char3 [of "unat b - 0xE0" y z] byte_lead [OF 3(1)] c r by (simp add: bs)
  next
    case 4
    then obtain y z w where r: "rest = byte (0x80 + y) # byte (0x80 + z) # byte (0x80 + w) # r"
        "y < 64" "z < 64" "w < 64"
      and c: "c = (unat b - 0xF0) * 262144 + y * 4096 + z * 64 + w" "0x10000 \<le> c" "is_scalar c"
      using assms by (auto simp: bs decode_char_def Let_def cont_Some bind_eq_Some_conv split: list.splits if_splits)
    then show ?thesis
      using encode_char4 [of "unat b - 0xF0" y z w] byte_lead [OF 4(1)] by (simp add: bs)
  qed
qed

text \<open>\<open>str::from_utf8\<close>, with its error as \<open>None\<close>.\<close>

function from_utf8 :: "bytes \<Rightarrow> rstr option" where
  "from_utf8 bs =
     (if bs = [] then Some []
      else case decode_char bs of
             None \<Rightarrow> None
           | Some (c, r) \<Rightarrow> map_option (\<lambda>s. c # s) (from_utf8 r))"
  by pat_completeness auto
termination
proof (relation "measure length")
  fix bs p c r assume "bs \<noteq> ([] :: bytes)" and "decode_char bs = Some p" and "(c, r) = p"
  then have "bs = encode_char c @ r" using encode_decode_char by blast
  then show "(r, bs) \<in> measure length" using encode_char_nonempty [of c] by simp
qed simp

declare from_utf8.simps [simp del]

lemma from_utf8_Nil [simp]: "from_utf8 [] = Some []"
  by (simp add: from_utf8.simps)

lemma from_utf8_as_bytes: "is_str s \<Longrightarrow> from_utf8 (as_bytes s) = Some s"
proof (induction s)
  case (Cons c s)
  then have "decode_char (as_bytes (c # s)) = Some (c, as_bytes s)" "as_bytes (c # s) \<noteq> []"
    using decode_encode_char [of c "as_bytes s"] encode_char_nonempty [of c]
    by (simp_all add: as_bytes_def is_str_def)
  with Cons show ?case by (subst from_utf8.simps) (simp add: is_str_def)
qed (simp add: as_bytes_def)

lemma from_utf8_SomeD: "from_utf8 bs = Some s \<Longrightarrow> as_bytes s = bs \<and> is_str s"
proof (induction bs arbitrary: s rule: from_utf8.induct)
  case (1 bs)
  show ?case
  proof (cases "bs = []")
    case True
    with 1 show ?thesis by (simp add: as_bytes_def is_str_def)
  next
    case False
    with 1(2) obtain c r s' where d: "decode_char bs = Some (c, r)" "from_utf8 r = Some s'" "s = c # s'"
      by (subst (asm) from_utf8.simps) (auto split: option.splits)
    have "as_bytes s' = r \<and> is_str s'" using 1(1) [OF False d(1)] d(2) by simp
    with d encode_decode_char [OF d(1)] show ?thesis by (simp add: as_bytes_def is_str_def)
  qed
qed

lemma as_bytes_inj: "is_str s \<Longrightarrow> is_str t \<Longrightarrow> as_bytes s = as_bytes t \<Longrightarrow> s = t"
  using from_utf8_as_bytes [of s] from_utf8_as_bytes [of t] by (metis option.inject)

lemma as_bytes_eq_Nil [simp]: "as_bytes s = [] \<longleftrightarrow> s = []"
  by (cases s) (auto simp: as_bytes_def encode_char_nonempty)

section \<open>Splitting and joining\<close>

text \<open>\<open>str::split\<close> on a character: always at least one piece.\<close>

fun split_on :: "nat \<Rightarrow> rstr \<Rightarrow> rstr list" where
  "split_on sep [] = [[]]"
| "split_on sep (c # cs) =
     (if c = sep then [] # split_on sep cs
      else case split_on sep cs of [] \<Rightarrow> [[c]] | x # xs \<Rightarrow> (c # x) # xs)"

fun join_with :: "nat \<Rightarrow> rstr list \<Rightarrow> rstr" where
  "join_with sep [] = []"
| "join_with sep [x] = x"
| "join_with sep (x # y # xs) = x @ sep # join_with sep (y # xs)"

lemma split_on_nonempty [simp]: "split_on sep s \<noteq> []"
  by (cases s) (auto split: list.split)

lemma join_with_Cons: "xs \<noteq> [] \<Longrightarrow> join_with sep (x # xs) = x @ sep # join_with sep xs"
  by (cases xs) auto

lemma join_split: "join_with sep (split_on sep s) = s"
proof (induction s)
  case (Cons c s)
  obtain x xs where sp: "split_on sep s = x # xs" by (cases "split_on sep s") auto
  with Cons show ?case by (cases xs) auto
qed simp

lemma split_on_app: "sep \<notin> set x \<Longrightarrow> split_on sep (x @ sep # s) = x # split_on sep s"
  by (induction x) auto

lemma split_on_none: "sep \<notin> set x \<Longrightarrow> split_on sep x = [x]"
  by (induction x) auto

lemma split_join: "xs \<noteq> [] \<Longrightarrow> \<forall>x \<in> set xs. sep \<notin> set x \<Longrightarrow> split_on sep (join_with sep xs) = xs"
proof (induction xs)
  case (Cons x xs)
  then show ?case
    by (cases "xs = []") (auto simp: split_on_none join_with_Cons split_on_app)
qed simp

lemma split_on_pieces: "x \<in> set (split_on sep s) \<Longrightarrow> sep \<notin> set x"
proof (induction s arbitrary: x)
  case (Cons c s)
  obtain y ys where sp: "split_on sep s = y # ys" by (cases "split_on sep s") auto
  with Cons show ?case by (auto split: if_splits)
qed simp

section \<open>Decimal printing\<close>

fun dec :: "nat \<Rightarrow> rstr" where
  "dec n = (if n < 10 then [48 + n] else dec (n div 10) @ [48 + n mod 10])"

declare dec.simps [simp del]

definition is_ascii_digit :: "nat \<Rightarrow> bool" where
  "is_ascii_digit c = (48 \<le> c \<and> c \<le> 57)"

lemma dec_digits: "c \<in> set (dec n) \<Longrightarrow> is_ascii_digit c"
proof (induction n rule: dec.induct)
  case (1 n)
  then show ?case by (subst (asm) dec.simps) (auto simp: is_ascii_digit_def split: if_splits)
qed

lemma dec_nonempty [simp]: "dec n \<noteq> []"
  by (subst dec.simps) auto

definition undec :: "rstr \<Rightarrow> nat" where
  "undec s = foldl (\<lambda>n c. n * 10 + (c - 48)) 0 s"

lemma undec_dec [simp]: "undec (dec n) = n"
proof (induction n rule: dec.induct)
  case (1 n)
  then show ?case
    by (subst dec.simps) (simp add: undec_def)
qed

lemma dec_inj: "dec m = dec n \<longleftrightarrow> m = n"
  by (metis undec_dec)

section \<open>Characters and prefixes\<close>

text \<open>\<open>char::is_control\<close>: the general category \<open>Cc\<close>.\<close>

definition is_control :: "nat \<Rightarrow> bool" where
  "is_control c = (c < 0x20 \<or> 0x7F \<le> c \<and> c < 0xA0)"

fun starts_with :: "rstr \<Rightarrow> rstr \<Rightarrow> bool" where
  "starts_with [] s = True"
| "starts_with (p # ps) [] = False"
| "starts_with (p # ps) (c # cs) = (p = c \<and> starts_with ps cs)"

lemma starts_with_iff: "starts_with p s \<longleftrightarrow> (\<exists>r. s = p @ r)"
  by (induction p s rule: starts_with.induct) auto

lemma starts_with_append [simp]: "starts_with p (p @ r)"
  by (auto simp: starts_with_iff)

text \<open>\<open>char::is_whitespace\<close> (the property \<open>White_Space\<close>) and \<open>str::trim\<close>.\<close>

definition is_whitespace :: "nat \<Rightarrow> bool" where
  "is_whitespace c =
     (9 \<le> c \<and> c \<le> 13 \<or> c = 0x20 \<or> c = 0x85 \<or> c = 0xA0 \<or> c = 0x1680 \<or> 0x2000 \<le> c \<and> c \<le> 0x200A
      \<or> c = 0x2028 \<or> c = 0x2029 \<or> c = 0x202F \<or> c = 0x205F \<or> c = 0x3000)"

definition trim :: "rstr \<Rightarrow> rstr" where
  "trim s = rev (dropWhile is_whitespace (rev (dropWhile is_whitespace s)))"

lemma all_dropWhile: "(\<forall>c \<in> set (dropWhile P s). P c) \<longleftrightarrow> (\<forall>c \<in> set s. P c)"
  by (induction s) auto

lemma trim_eq_Nil: "trim s = [] \<longleftrightarrow> (\<forall>c \<in> set s. is_whitespace c)"
  using all_dropWhile [of is_whitespace s] by (simp add: trim_def)

lemma trim_trim_Nil: "trim (trim s) = [] \<longleftrightarrow> trim s = []"
proof -
  let ?r = "dropWhile is_whitespace (rev (dropWhile is_whitespace s))"
  have "(\<forall>c \<in> set ?r. is_whitespace c) \<longleftrightarrow> (\<forall>c \<in> set s. is_whitespace c)"
    by (simp add: all_dropWhile)
  then show ?thesis by (simp add: trim_eq_Nil) (simp add: trim_def)
qed

end
