(* ===== verification/Descriptor.thy ===== *)
theory Descriptor
  imports Rust_Str
begin

text \<open>
  The ZeroKMS descriptor of \<open>packages/stack-encrypt/src/descriptor.rs\<close>: the frozen
  rendering of a context's parts as the string ZeroKMS binds, and the labels that name
  data. The rendering is shown to separate any two contexts except those it is meant to
  be blind to, and a label to be its own descriptor and to be read back losslessly.
  The base64 encoding of the \<open>base64ct\<close> crate and the longest descriptor the protocol
  accepts are arguments.
\<close>

section \<open>Contexts\<close>

text \<open>
  The parts of a context, by the constructors the renderer matches on. A signed integer is
  held as its two's complement bits, which is all the rendering reads of it.
\<close>

datatype context_piece =
    Text rstr
  | Bytes bytes
  | U8 "8 word" | U16 "16 word" | U32 "32 word" | U64 "64 word" | U128 "128 word"
  | I8 "8 word" | I16 "16 word" | I32 "32 word" | I64 "64 word" | I128 "128 word"
  | Encoded bytes
  | List "context_piece list"

text \<open>Contexts a Rust program can build: every text part is a \<open>str\<close>.\<close>

fun piece_ok :: "context_piece \<Rightarrow> bool" where
  "piece_ok (Text t) = is_str t"
| "piece_ok (List ps) = list_all piece_ok ps"
| "piece_ok _ = True"

section \<open>Labels\<close>

datatype label_error =
    Empty
  | EmptySegment nat
  | Separator nat
  | Reserved nat nat
  | ReservedPrefix nat
  | NotText

type_synonym label = "rstr list"

definition BASE64_PREFIX :: rstr where
  "BASE64_PREFIX = lit ''b64:''"

definition SEPARATOR :: nat where
  "SEPARATOR = 0x2F"

definition INVISIBLE :: "nat list" where
  "INVISIBLE =
     [0x00AD, 0x061C, 0x180E, 0x200B, 0x200C, 0x200D, 0x200E,
      0x200F, 0x202A, 0x202B, 0x202C, 0x202D, 0x202E, 0x2060,
      0x2061, 0x2062, 0x2063, 0x2064, 0x2066, 0x2067, 0x2068,
      0x2069, 0xFEFF]"

text \<open>The loop of \<open>check_segment\<close> over the characters of the segment.\<close>

fun check_chars :: "nat \<Rightarrow> rstr \<Rightarrow> (label_error, unit) result" where
  "check_chars index [] = Inr ()"
| "check_chars index (found # rest) =
     (if found = SEPARATOR then Inl (Separator index)
      else if is_control found \<or> found \<in> set INVISIBLE \<or> found = 0x28 \<or> found = 0x29
      then Inl (Reserved index found)
      else check_chars index rest)"

definition check_segment :: "nat \<Rightarrow> rstr \<Rightarrow> (label_error, unit) result" where
  "check_segment index segment =
     (if segment = [] then Inl (EmptySegment index)
      else if starts_with BASE64_PREFIX segment
           \<or> (case segment of c # _ \<Rightarrow> is_ascii_digit c \<or> c = 0x2D | [] \<Rightarrow> False)
      then Inl (ReservedPrefix index)
      else check_chars index segment)"

fun check_segments :: "nat \<Rightarrow> rstr list \<Rightarrow> (label_error, rstr list) result" where
  "check_segments index [] = Inr []"
| "check_segments index (segment # rest) =
     and_then (check_segment index segment) (\<lambda>_.
     and_then (check_segments (Suc index) rest) (\<lambda>segments. Inr (segment # segments)))"

definition label_new :: "rstr list \<Rightarrow> (label_error, label) result" where
  "label_new segments =
     and_then (check_segments 0 segments) (\<lambda>segments.
       if segments = [] then Inl Empty else Inr segments)"

definition label_parse :: "rstr \<Rightarrow> (label_error, label) result" where
  "label_parse text = label_new (split_on SEPARATOR text)"

text \<open>\<open>Display\<close>: the loop over the segments with their positions.\<close>

fun display_segments :: "nat \<Rightarrow> rstr list \<Rightarrow> rstr \<Rightarrow> rstr" where
  "display_segments i [] out = out"
| "display_segments i (segment # rest) out =
     display_segments (Suc i) rest ((if i > 0 then out @ [SEPARATOR] else out) @ segment)"

definition label_display :: "label \<Rightarrow> rstr" where
  "label_display l = display_segments 0 l []"

fun label_payload :: "label_error \<Rightarrow> (string \<times> nat) list" where
  "label_payload Empty = []"
| "label_payload NotText = []"
| "label_payload (EmptySegment index) = [(''segment'', index)]"
| "label_payload (Separator index) = [(''segment'', index)]"
| "label_payload (Reserved index _) = [(''segment'', index)]"
| "label_payload (ReservedPrefix index) = [(''segment'', index)]"

section \<open>Rendering\<close>

definition is_plain :: "rstr \<Rightarrow> bool" where
  "is_plain text = is_ok (check_segment 0 text)"

definition render_bytes :: "(bytes \<Rightarrow> rstr) \<Rightarrow> bytes \<Rightarrow> bool \<Rightarrow> rstr \<Rightarrow> rstr" where
  "render_bytes b64 bytes root out =
     (if bytes = [] \<and> root then out
      else case from_utf8 bytes of
             Some text \<Rightarrow> if is_plain text then out @ text
                          else out @ BASE64_PREFIX @ b64 bytes
           | None \<Rightarrow> out @ BASE64_PREFIX @ b64 bytes)"

definition render_int :: "nat \<Rightarrow> string \<Rightarrow> rstr \<Rightarrow> rstr" where
  "render_int value suffix out = out @ dec value @ lit suffix"

fun render :: "(bytes \<Rightarrow> rstr) \<Rightarrow> context_piece \<Rightarrow> bool \<Rightarrow> rstr \<Rightarrow> rstr"
  and render_parts :: "(bytes \<Rightarrow> rstr) \<Rightarrow> nat \<Rightarrow> context_piece list \<Rightarrow> rstr \<Rightarrow> rstr" where
  "render b64 (Text text) root out = render_bytes b64 (as_bytes text) root out"
| "render b64 (Bytes bytes) root out = render_bytes b64 bytes root out"
| "render b64 (U8 v) root out = render_int (unat v) ''u8'' out"
| "render b64 (U16 v) root out = render_int (unat v) ''u16'' out"
| "render b64 (U32 v) root out = render_int (unat v) ''u32'' out"
| "render b64 (U64 v) root out = render_int (unat v) ''u64'' out"
| "render b64 (U128 v) root out = render_int (unat v) ''u128'' out"
| "render b64 (I8 v) root out = render_int (unat v) ''u8'' out"
| "render b64 (I16 v) root out = render_int (unat v) ''u16'' out"
| "render b64 (I32 v) root out = render_int (unat v) ''u32'' out"
| "render b64 (I64 v) root out = render_int (unat v) ''u64'' out"
| "render b64 (I128 v) root out = render_int (unat v) ''u128'' out"
| "render b64 (Encoded bytes) root out = render_bytes b64 bytes root out"
| "render b64 (List parts) root out =
     (let bare = root \<and> length parts \<ge> 2;
          out = (if bare then out else out @ [0x28]);
          out = render_parts b64 0 parts out
      in if bare then out else out @ [0x29])"
| "render_parts b64 i [] out = out"
| "render_parts b64 i (part # rest) out =
     render_parts b64 (Suc i) rest
       (render b64 part False (if i > 0 then out @ [SEPARATOR] else out))"

definition from_piece :: "(bytes \<Rightarrow> rstr) \<Rightarrow> context_piece \<Rightarrow> rstr" where
  "from_piece b64 piece = render b64 piece True []"

text \<open>\<open>len\<close> counts bytes; \<open>check\<close> is what every request path calls.\<close>

definition descriptor_len :: "rstr \<Rightarrow> nat" where
  "descriptor_len d = length (as_bytes d)"

definition fits :: "nat \<Rightarrow> rstr \<Rightarrow> bool" where
  "fits max_len d = (descriptor_len d \<le> max_len)"

datatype descriptor_error = DescriptorTooLong nat

definition check_descriptor :: "nat \<Rightarrow> rstr \<Rightarrow> (descriptor_error, unit) result" where
  "check_descriptor max_len d =
     (if fits max_len d then Inr () else Inl (DescriptorTooLong (descriptor_len d)))"

section \<open>Descriptions\<close>

record description =
  d_first :: context_piece
  d_rest :: "context_piece list"

definition desc_part :: "context_piece \<Rightarrow> description" where
  "desc_part first = \<lparr>d_first = first, d_rest = []\<rparr>"

definition desc_text :: "rstr \<Rightarrow> description" where
  "desc_text first = desc_part (Text first)"

definition desc_then :: "description \<Rightarrow> context_piece \<Rightarrow> description" where
  "desc_then d part = d\<lparr>d_rest := d_rest d @ [part]\<rparr>"

definition then_text :: "description \<Rightarrow> rstr \<Rightarrow> description" where
  "then_text d text = desc_then d (Text text)"

definition desc_into_context :: "description \<Rightarrow> context_piece" where
  "desc_into_context d =
     (if d_rest d = [] then d_first d else List (d_first d # d_rest d))"

text \<open>\<open>Describe for Label\<close>, and the default methods of the trait.\<close>

definition label_describe :: "label \<Rightarrow> description" where
  "label_describe l =
     (case l of [] \<Rightarrow> desc_text [] | first # rest \<Rightarrow> foldl then_text (desc_text first) rest)"

definition label_to_context :: "label \<Rightarrow> context_piece" where
  "label_to_context l = desc_into_context (label_describe l)"

definition label_descriptor :: "(bytes \<Rightarrow> rstr) \<Rightarrow> label \<Rightarrow> rstr" where
  "label_descriptor b64 l = from_piece b64 (label_to_context l)"

section \<open>What the rendering distinguishes\<close>

text \<open>
  The rendering is blind to text against bytes against encoded bytes, and to the sign of an
  integer of one width. \<open>norm_of\<close> is a context up to exactly that.
\<close>

datatype norm_piece = NBytes bytes | NInt nat nat | NList "norm_piece list"

fun norm_of :: "context_piece \<Rightarrow> norm_piece" where
  "norm_of (Text t) = NBytes (as_bytes t)"
| "norm_of (Bytes b) = NBytes b"
| "norm_of (Encoded b) = NBytes b"
| "norm_of (U8 v) = NInt 8 (unat v)"
| "norm_of (U16 v) = NInt 16 (unat v)"
| "norm_of (U32 v) = NInt 32 (unat v)"
| "norm_of (U64 v) = NInt 64 (unat v)"
| "norm_of (U128 v) = NInt 128 (unat v)"
| "norm_of (I8 v) = NInt 8 (unat v)"
| "norm_of (I16 v) = NInt 16 (unat v)"
| "norm_of (I32 v) = NInt 32 (unat v)"
| "norm_of (I64 v) = NInt 64 (unat v)"
| "norm_of (I128 v) = NInt 128 (unat v)"
| "norm_of (List ps) = NList (map norm_of ps)"

text \<open>The text of a normal form: an atom, or a parenthesised list.\<close>

definition atom_str :: "(bytes \<Rightarrow> rstr) \<Rightarrow> bytes \<Rightarrow> rstr" where
  "atom_str b64 bytes = render_bytes b64 bytes False []"

fun norm_str :: "(bytes \<Rightarrow> rstr) \<Rightarrow> norm_piece \<Rightarrow> rstr" where
  "norm_str b64 (NBytes b) = atom_str b64 b"
| "norm_str b64 (NInt w v) = dec v @ 0x75 # dec w"
| "norm_str b64 (NList ns) = 0x28 # join_with SEPARATOR (map (norm_str b64) ns) @ [0x29]"

definition tails :: "(bytes \<Rightarrow> rstr) \<Rightarrow> norm_piece list \<Rightarrow> rstr" where
  "tails b64 ns = concat (map (\<lambda>n. SEPARATOR # norm_str b64 n) ns)"

lemma tails_simps [simp]:
  "tails b64 [] = []"
  "tails b64 (n # ns) = SEPARATOR # norm_str b64 n @ tails b64 ns"
  by (simp_all add: tails_def)

lemma join_tails: "join_with SEPARATOR (map (norm_str b64) (n # ns)) = norm_str b64 n @ tails b64 ns"
  by (induction ns arbitrary: n) simp_all

lemma suffixes:
  "lit ''u8'' = 0x75 # dec 8" "lit ''u16'' = 0x75 # dec 16" "lit ''u32'' = 0x75 # dec 32"
  "lit ''u64'' = 0x75 # dec 64" "lit ''u128'' = 0x75 # dec 128"
  by (simp_all add: lit_def dec.simps)

lemma render_bytes_out: "render_bytes b64 b root out = out @ (if b = [] \<and> root then [] else atom_str b64 b)"
  by (auto simp: render_bytes_def atom_str_def split: option.split)

definition root_str :: "(bytes \<Rightarrow> rstr) \<Rightarrow> norm_piece \<Rightarrow> rstr" where
  "root_str b64 n =
     (case n of
        NBytes b \<Rightarrow> if b = [] then [] else atom_str b64 b
      | NList ns \<Rightarrow> if length ns \<ge> 2 then join_with SEPARATOR (map (norm_str b64) ns) else norm_str b64 n
      | _ \<Rightarrow> norm_str b64 n)"

lemma render_out:
  "render b64 p root out = out @ (if root then root_str b64 (norm_of p) else norm_str b64 (norm_of p))"
  "render_parts b64 i ps out = out @ (if i > 0 then tails b64 (map norm_of ps)
     else join_with SEPARATOR (map (norm_str b64) (map norm_of ps)))"
proof (induction b64 p root out and b64 i ps out rule: render_render_parts.induct)
  case (14 b64 parts root out)
  then show ?case by (auto simp: Let_def root_str_def comp_def)
next
  case (16 b64 i part rest out)
  then show ?case
    using join_tails [of b64 "norm_of part" "map norm_of rest"] by (cases "i > 0") simp_all
qed (auto simp: render_bytes_out render_int_def suffixes root_str_def)

section \<open>Unique readability\<close>

text \<open>What the rendering relies on from the base64 encoding: it is injective, and its
  alphabet (URL-safe, padded) has no separator and no parenthesis.\<close>

definition b64_ok :: "(bytes \<Rightarrow> rstr) \<Rightarrow> bool" where
  "b64_ok b64 \<longleftrightarrow> inj b64 \<and> (\<forall>b. set (b64 b) \<inter> {SEPARATOR, 0x28, 0x29} = {})"

lemma check_chars_ok:
  "check_chars k s = Inr () \<longleftrightarrow>
     (\<forall>c \<in> set s. c \<noteq> SEPARATOR \<and> \<not> is_control c \<and> c \<notin> set INVISIBLE \<and> c \<noteq> 0x28 \<and> c \<noteq> 0x29)"
  by (induction s) auto

lemma check_segment_ok:
  "check_segment k s = Inr () \<longleftrightarrow>
     s \<noteq> [] \<and> \<not> starts_with BASE64_PREFIX s \<and> \<not> is_ascii_digit (hd s) \<and> hd s \<noteq> 0x2D
     \<and> check_chars 0 s = Inr ()"
  by (cases s) (auto simp: check_segment_def check_chars_ok split: if_splits)

lemma is_plain_iff: "is_plain s \<longleftrightarrow> check_segment k s = Inr ()"
  by (cases "check_segment 0 s") (simp_all add: is_plain_def check_segment_ok [of k] check_segment_ok [of 0, symmetric])

lemma is_plainD:
  assumes "is_plain s"
  shows "s \<noteq> []" "\<not> starts_with BASE64_PREFIX s" "\<not> is_ascii_digit (hd s)"
    "set s \<inter> {SEPARATOR, 0x28, 0x29} = {}"
  using assms is_plain_iff [of s 0] by (auto simp: check_segment_ok check_chars_ok)

lemma prefix_chars: "BASE64_PREFIX = [0x62, 0x36, 0x34, 0x3A]"
  by (simp add: BASE64_PREFIX_def lit_def)

lemma atom_cases:
  obtains (plain) t where "from_utf8 b = Some t" "is_plain t" "atom_str b64 b = t"
    | (escaped) "atom_str b64 b = BASE64_PREFIX @ b64 b"
proof (cases "\<exists>t. from_utf8 b = Some t \<and> is_plain t")
  case True
  then show thesis using plain by (auto simp: atom_str_def render_bytes_def)
next
  case False
  then have "atom_str b64 b = BASE64_PREFIX @ b64 b"
    by (auto simp: atom_str_def render_bytes_def split: option.split)
  then show thesis by (rule escaped)
qed

lemma atom_str_chars:
  assumes "b64_ok b64"
  shows "atom_str b64 b \<noteq> [] \<and> set (atom_str b64 b) \<inter> {SEPARATOR, 0x28, 0x29} = {}
    \<and> \<not> is_ascii_digit (hd (atom_str b64 b))"
proof (cases rule: atom_cases [of b b64])
  case (plain t)
  then show ?thesis using is_plainD [OF plain(2)] by simp
next
  case escaped
  then show ?thesis
    using assms by (auto simp: b64_ok_def prefix_chars is_ascii_digit_def SEPARATOR_def)
qed

lemma atom_str_inj:
  assumes "b64_ok b64" and "atom_str b64 a = atom_str b64 b"
  shows "a = b"
proof (cases rule: atom_cases [of a b64])
  case (plain t)
  note a = plain
  show ?thesis
  proof (cases rule: atom_cases [of b b64])
    case (plain u)
    with a assms(2) show ?thesis using from_utf8_SomeD [OF a(1)] from_utf8_SomeD [OF plain(1)] by simp
  next
    case escaped
    with a assms(2) show ?thesis using is_plainD(2) [OF a(2)] by (metis starts_with_append)
  qed
next
  case escaped
  note a = escaped
  show ?thesis
  proof (cases rule: atom_cases [of b b64])
    case (plain u)
    with a assms(2) show ?thesis using is_plainD(2) [OF plain(2)] by (metis starts_with_append)
  next
    case escaped
    with a assms show ?thesis by (simp add: b64_ok_def inj_eq)
  qed
qed

text \<open>What may follow a part: nothing, a separator, or a closing parenthesis.\<close>

definition part_end :: "rstr \<Rightarrow> bool" where
  "part_end s \<longleftrightarrow> s = [] \<or> hd s = SEPARATOR \<or> hd s = 0x29"

lemma part_end_simps [simp]:
  "part_end []" "part_end (c # s) \<longleftrightarrow> c = SEPARATOR \<or> c = 0x29"
  by (simp_all add: part_end_def)

fun is_atom :: "norm_piece \<Rightarrow> bool" where
  "is_atom (NList _) = False"
| "is_atom _ = True"

lemma int_str_chars:
  "set (dec v @ 0x75 # dec w) \<inter> {SEPARATOR, 0x28, 0x29} = {}"
  "is_ascii_digit (hd (dec v @ 0x75 # dec w))"
proof -
  have "\<not> is_ascii_digit SEPARATOR" "\<not> is_ascii_digit 0x28" "\<not> is_ascii_digit 0x29"
    by (simp_all add: is_ascii_digit_def SEPARATOR_def)
  then show "set (dec v @ 0x75 # dec w) \<inter> {SEPARATOR, 0x28, 0x29} = {}"
    using dec_digits [of _ v] dec_digits [of _ w] by (auto simp: SEPARATOR_def)
  show "is_ascii_digit (hd (dec v @ 0x75 # dec w))"
    using dec_digits [of "hd (dec v)" v] hd_in_set [OF dec_nonempty [of v]] by simp
qed

lemma atom_chars:
  assumes "b64_ok b64" and "is_atom n"
  shows "norm_str b64 n \<noteq> [] \<and> set (norm_str b64 n) \<inter> {SEPARATOR, 0x28, 0x29} = {}"
  using assms atom_str_chars [OF assms(1)] int_str_chars(1) by (cases n) auto

lemma norm_str_hd:
  assumes "b64_ok b64"
  shows "norm_str b64 n \<noteq> [] \<and> hd (norm_str b64 n) \<noteq> SEPARATOR \<and> hd (norm_str b64 n) \<noteq> 0x29
    \<and> (hd (norm_str b64 n) = 0x28 \<longleftrightarrow> \<not> is_atom n)"
proof (cases "is_atom n")
  case True
  then show ?thesis
    using atom_chars [OF assms True] hd_in_set [of "norm_str b64 n"] by (auto simp: disjoint_iff)
next
  case False
  then show ?thesis by (cases n) (auto simp: SEPARATOR_def)
qed

lemma takeWhile_digits: "takeWhile is_ascii_digit (dec v @ 0x75 # r) = dec v"
  using dec_digits [of _ v] by (simp add: takeWhile_append2 is_ascii_digit_def)

lemma atom_inj:
  assumes "b64_ok b64" and "is_atom m" and "is_atom n" and eq: "norm_str b64 m = norm_str b64 n"
  shows "m = n"
proof -
  have ne: "atom_str b64 b \<noteq> dec v @ 0x75 # dec w" for b v w
    using atom_str_chars [OF assms(1), of b] int_str_chars(2) [of v w] by metis
  have int: "v = v' \<and> w = w'" if "dec v @ 0x75 # dec w = dec v' @ 0x75 # dec w'" for v w v' w'
  proof -
    have "dec v = dec v'" using takeWhile_digits [of v] takeWhile_digits [of v'] that by metis
    with that show ?thesis by (simp add: dec_inj)
  qed
  show ?thesis
  proof (cases m)
    case (NBytes a)
    with assms ne show ?thesis
      by (cases n) (auto dest: atom_str_inj [OF assms(1)])
  next
    case (NInt w v)
    show ?thesis
    proof (cases n)
      case (NBytes b)
      with NInt eq ne [of b v w] show ?thesis by simp
    next
      case (NInt w' v')
      then have "dec v @ 0x75 # dec w = dec v' @ 0x75 # dec w'" using eq \<open>m = NInt w v\<close> by simp
      from int [OF this] show ?thesis using NInt \<open>m = NInt w v\<close> by simp
    qed (use assms in simp)
  qed (use assms in simp)
qed

lemma atom_then_end:
  assumes "b64_ok b64" and "is_atom n" and "part_end s"
  shows "takeWhile (\<lambda>c. c \<notin> {SEPARATOR, 0x28, 0x29}) (norm_str b64 n @ s) = norm_str b64 n"
proof -
  have "takeWhile (\<lambda>c. c \<notin> {SEPARATOR, 0x28, 0x29}) s = []"
    using assms(3) by (cases s) auto
  moreover have "\<forall>c \<in> set (norm_str b64 n). c \<notin> {SEPARATOR, 0x28, 0x29}"
    using atom_chars [OF assms(1,2)] by blast
  ultimately show ?thesis by (simp add: takeWhile_append2)
qed

lemma atom_readable:
  assumes ok: "b64_ok b64" and "is_atom m" and eq: "norm_str b64 m @ s = norm_str b64 n @ t"
    and "part_end s" and "part_end t"
  shows "m = n \<and> s = t"
proof -
  have "is_atom n"
    using arg_cong [OF eq, of hd] norm_str_hd [OF ok, of m] norm_str_hd [OF ok, of n] assms(2) by auto
  then have "norm_str b64 m = norm_str b64 n"
    using atom_then_end [OF ok] assms by metis
  with atom_inj [OF ok assms(2) \<open>is_atom n\<close>] eq show ?thesis by simp
qed

lemma tails_readable:
  assumes ok: "b64_ok b64"
    and IH: "\<And>m n s t. m \<in> set ms \<Longrightarrow> norm_str b64 m @ s = norm_str b64 n @ t \<Longrightarrow> part_end s \<Longrightarrow> part_end t
      \<Longrightarrow> m = n \<and> s = t"
    and eq: "tails b64 ms @ s = tails b64 ns @ t"
    and ends: "s = [] \<or> hd s = 0x29" "t = [] \<or> hd t = 0x29"
  shows "ms = ns \<and> s = t"
  using IH eq
proof (induction ms arbitrary: ns)
  case Nil
  then show ?case using ends by (cases ns) (auto simp: SEPARATOR_def)
next
  case (Cons m ms)
  have pe: "part_end (tails b64 xs @ r)" if "r = [] \<or> hd r = 0x29" for xs r
    using that by (cases xs; cases r) auto
  show ?case
  proof (cases ns)
    case Nil
    with Cons.prems(2) ends show ?thesis by (auto simp: SEPARATOR_def)
  next
    case (Cons n ns')
    with Cons.prems(2) have "norm_str b64 m @ (tails b64 ms @ s) = norm_str b64 n @ (tails b64 ns' @ t)"
      by simp
    then have "m = n \<and> tails b64 ms @ s = tails b64 ns' @ t"
      by (intro Cons.prems(1) pe ends) simp_all
    moreover from this have "ms = ns' \<and> s = t"
      by (intro Cons.IH Cons.prems(1)) simp_all
    ultimately show ?thesis using Cons by simp
  qed
qed

lemma part_readable:
  assumes ok: "b64_ok b64"
  shows "norm_str b64 m @ s = norm_str b64 n @ t \<Longrightarrow> part_end s \<Longrightarrow> part_end t \<Longrightarrow> m = n \<and> s = t"
proof (induction m arbitrary: n s t)
  case (NList ms)
  have "\<not> is_atom n"
    using arg_cong [OF NList.prems(1), of hd] norm_str_hd [OF ok, of n] by simp
  then obtain ns where n: "n = NList ns" by (cases n) auto
  show ?case
  proof (cases ms)
    case Nil
    show ?thesis
    proof (cases ns)
      case Nil
      with \<open>ms = []\<close> n NList.prems show ?thesis by simp
    next
      case (Cons n' ns')
      have "0x29 # s = norm_str b64 n' @ tails b64 ns' @ 0x29 # t"
        using NList.prems(1) \<open>ms = []\<close> Cons n join_tails [of b64 n' ns'] by simp
      from arg_cong [OF this, of hd] show ?thesis using norm_str_hd [OF ok, of n'] by simp
    qed
  next
    case (Cons m' ms')
    note ms = Cons
    show ?thesis
    proof (cases ns)
      case Nil
      have "norm_str b64 m' @ tails b64 ms' @ 0x29 # s = 0x29 # t"
        using NList.prems(1) Nil ms n join_tails [of b64 m' ms'] by simp
      from arg_cong [OF this, of hd] show ?thesis using norm_str_hd [OF ok, of m'] by simp
    next
      case (Cons n' ns')
      have "tails b64 ms @ 0x29 # s = tails b64 ns @ 0x29 # t"
        using NList.prems(1) ms Cons n join_tails [of b64 m' ms'] join_tails [of b64 n' ns'] by simp
      then have "ms = ns \<and> 0x29 # s = 0x29 # t"
        by (intro tails_readable [OF ok NList.IH]) simp_all
      with n show ?thesis by simp
    qed
  qed
next
  case (NBytes b)
  then show ?case by (intro atom_readable [OF ok _ NBytes(1)]) simp_all
next
  case (NInt w v)
  then show ?case by (intro atom_readable [OF ok _ NInt(1)]) simp_all
qed

lemma root_str_inj:
  assumes ok: "b64_ok b64" and eq: "root_str b64 m = root_str b64 n"
  shows "m = n"
proof -
  have bare: "root_str b64 k = norm_str b64 k'@ tails b64 (k'' # ks)" if "k = NList (k' # k'' # ks)" for k k' k'' ks
    using that join_tails [of b64 k' "k'' # ks"] by (simp add: root_str_def)
  have kinds: "k = NBytes [] \<or> (\<exists>k' k'' ks. k = NList (k' # k'' # ks)) \<or> root_str b64 k = norm_str b64 k" for k
    by (auto simp: root_str_def Suc_le_length_iff numeral_2_eq_2 split: norm_piece.split)
  have pe: "part_end (tails b64 ks)" for ks by (cases ks) auto
  note hd = norm_str_hd [OF ok]
  have none: "k = NBytes []" if z: "root_str b64 k = []" for k
    using kinds [of k]
  proof (elim disjE exE)
    fix k' k'' ks assume "k = NList (k' # k'' # ks)"
    from z [unfolded bare [OF this]] show ?thesis by simp
  qed (use z hd [of k] in auto)
  from kinds [of m] consider (m0) "m = NBytes []"
    | (mb) m' m'' ms where "m = NList (m' # m'' # ms)"
    | (mn) "root_str b64 m = norm_str b64 m" by blast
  then show ?thesis
  proof cases
    case m0
    then have "root_str b64 n = []" using eq by (simp add: root_str_def)
    then show ?thesis using none m0 by blast
  next
    case mb
    note em = eq [unfolded bare [OF mb]]
    from kinds [of n] consider (n0) "n = NBytes []"
      | (nb) n' n'' ns where "n = NList (n' # n'' # ns)" | (nn) "root_str b64 n = norm_str b64 n" by blast
    then show ?thesis
    proof cases
      case n0
      with em hd [of m'] show ?thesis by (simp add: root_str_def)
    next
      case nb
      from em have "m' = n' \<and> tails b64 (m'' # ms) = tails b64 (n'' # ns)"
        unfolding bare [OF nb] by (intro part_readable [OF ok] pe)
      moreover from this have "(m'' # ms) = (n'' # ns) \<and> [] = ([] :: rstr)"
        by (intro tails_readable [OF ok] part_readable [OF ok]) auto
      ultimately show ?thesis using mb nb by simp
    next
      case nn
      with em part_readable [OF ok, of m' "tails b64 (m'' # ms)" n "[]"] pe show ?thesis by simp
    qed
  next
    case mn
    note em = eq [unfolded mn]
    from kinds [of n] consider (n0) "n = NBytes []"
      | (nb) n' n'' ns where "n = NList (n' # n'' # ns)" | (nn) "root_str b64 n = norm_str b64 n" by blast
    then show ?thesis
    proof cases
      case n0
      with em hd [of m] show ?thesis by (simp add: root_str_def)
    next
      case nb
      with em bare [OF nb] part_readable [OF ok, of m "[]" n' "tails b64 (n'' # ns)"] pe show ?thesis by simp
    next
      case nn
      with em part_readable [OF ok, of m "[]" n "[]"] show ?thesis by simp
    qed
  qed
qed

section \<open>Labels\<close>

lemma check_segments_ok:
  "check_segments k segs = Inr l \<longleftrightarrow> l = segs \<and> list_all is_plain segs"
proof (induction segs arbitrary: k l)
  case (Cons s segs)
  show ?case
  proof (cases "check_segment k s")
    case (Inl e)
    then show ?thesis using is_plain_iff [of s k] by simp
  next
    case (Inr u)
    then show ?thesis
      using is_plain_iff [of s k] Cons.IH [of "Suc k"] by (auto simp: and_then_Inr_iff)
  qed
qed auto

lemma label_new_ok: "label_new segs = Inr l \<longleftrightarrow> l = segs \<and> segs \<noteq> [] \<and> list_all is_plain segs"
  by (auto simp: label_new_def and_then_Inr_iff check_segments_ok split: if_splits)

lemma display_segments_out:
  "display_segments i segs out = out @ (if i > 0 then concat (map (\<lambda>s. SEPARATOR # s) segs) else join_with SEPARATOR segs)"
proof (induction segs arbitrary: i out)
  case (Cons s segs)
  have "join_with SEPARATOR (s # segs) = s @ concat (map (\<lambda>s. SEPARATOR # s) segs)"
    by (induction segs arbitrary: s) simp_all
  with Cons show ?case by simp
qed simp

lemma label_display_join: "label_display l = join_with SEPARATOR l"
  by (simp add: label_display_def display_segments_out)

lemma foldl_then_text: "d_first (foldl then_text d ts) = d_first d \<and> d_rest (foldl then_text d ts) = d_rest d @ map Text ts"
  by (induction ts arbitrary: d) (simp_all add: then_text_def desc_then_def)

lemma label_to_context_eq:
  "label_to_context [s] = Text s"
  "label_to_context (s # t # ts) = List (map Text (s # t # ts))"
  by (simp_all add: label_to_context_def label_describe_def desc_into_context_def foldl_then_text
      desc_text_def desc_part_def then_text_def desc_then_def)

lemma atom_str_plain: "is_str t \<Longrightarrow> is_plain t \<Longrightarrow> atom_str b64 (as_bytes t) = t"
  using is_plainD(1) [of t] by (simp add: atom_str_def render_bytes_def from_utf8_as_bytes)

section \<open>Properties\<close>

text \<open>
  C14. The frozen rendering separates contexts: two contexts have the same descriptor
  exactly when they are the same parts up to text against bytes (or encoded bytes) of one
  content and signed against unsigned of one width. In particular no text can imitate a
  list, an integer or an escaped part, at any depth.\<close>

theorem descriptor_separates_contexts:
  assumes "b64_ok b64"
  shows "from_piece b64 p = from_piece b64 q \<longleftrightarrow> norm_of p = norm_of q"
  using root_str_inj [OF assms] by (auto simp: from_piece_def render_out)

definition hex_digit :: "nat \<Rightarrow> nat" where
  "hex_digit d = 0x61 + d"

definition hex :: "bytes \<Rightarrow> rstr" where
  "hex b = concat (map (\<lambda>x. [hex_digit (unat x div 16), hex_digit (unat x mod 16)]) b)"

lemma hex_ok: "b64_ok hex"
  unfolding b64_ok_def
proof (intro conjI allI)
  have "hex a = hex b \<Longrightarrow> a = b" for a b
  proof (induction a arbitrary: b)
    case Nil
    then show ?case by (cases b) (simp_all add: hex_def)
  next
    case (Cons x a)
    then obtain y c where b: "b = y # c" by (cases b) (auto simp: hex_def)
    with Cons.prems have "unat x div 16 = unat y div 16" "unat x mod 16 = unat y mod 16" "hex a = hex c"
      by (simp_all add: hex_def hex_digit_def)
    then have "unat x = unat y" by (metis div_mult_mod_eq)
    with Cons.IH \<open>hex a = hex c\<close> b show ?case by (simp add: unsigned_word_eqI)
  qed
  then show "inj hex" by (rule injI)
  show "set (hex b) \<inter> {SEPARATOR, 0x28, 0x29} = {}" for b
    by (auto simp: hex_def hex_digit_def SEPARATOR_def)
qed

theorem descriptor_separates_contexts_witness:
  "from_piece hex (List [Text (lit ''users''), Text (lit ''email'')])
     \<noteq> from_piece hex (Text (lit ''users/email''))"
  using descriptor_separates_contexts [OF hex_ok,
      of "List [Text (lit ''users''), Text (lit ''email'')]" "Text (lit ''users/email'')"]
  by simp

text \<open>
  A label is read back from what it prints and prints as what it was read from:
  parsing is the exact inverse of \<open>Display\<close>, in both directions.\<close>

theorem label_parse_display:
  "label_parse text = Inr l \<longleftrightarrow> label_display l = text \<and> label_new l = Inr l"
proof
  assume "label_parse text = Inr l"
  then have "l = split_on SEPARATOR text" and "list_all is_plain l"
    by (simp_all add: label_parse_def label_new_ok)
  then show "label_display l = text \<and> label_new l = Inr l"
    by (simp add: label_display_join join_split label_new_ok)
next
  assume r: "label_display l = text \<and> label_new l = Inr l"
  then have l: "l \<noteq> []" "list_all is_plain l" by (simp_all add: label_new_ok)
  then have "\<forall>s \<in> set l. SEPARATOR \<notin> set s" using is_plainD(4) by (auto simp: list_all_iff)
  then have "split_on SEPARATOR text = l" using r l(1) split_join by (auto simp: label_display_join)
  with l show "label_parse text = Inr l" by (simp add: label_parse_def label_new_ok)
qed

text \<open>
  A label is its own descriptor: the string ZeroKMS binds and logs for it is what the
  label prints, whatever base64 does.\<close>

theorem label_renders_verbatim:
  assumes "label_new segs = Inr l" and "list_all is_str segs"
  shows "label_descriptor b64 l = label_display l"
proof -
  have l: "l = segs" "segs \<noteq> []" "list_all is_plain segs" using assms(1) by (simp_all add: label_new_ok)
  have verb: "norm_str b64 (norm_of (Text s)) = s" if "s \<in> set segs" for s
    using that l assms(2) by (simp add: atom_str_plain list_all_iff)
  then have all: "map (norm_str b64) (map norm_of (map Text segs)) = segs"
    by (simp add: map_idI)
  obtain s ss where segs: "segs = s # ss" using l(2) by (cases segs) auto
  show ?thesis
  proof (cases ss)
    case Nil
    have "s \<noteq> []" using l(3) is_plainD(1) segs by simp
    with Nil segs l(1) verb show ?thesis
      by (simp add: label_descriptor_def label_to_context_eq from_piece_def render_out root_str_def
          label_display_join)
  next
    case (Cons t ts)
    have "label_descriptor b64 l = join_with SEPARATOR (map (norm_str b64) (map norm_of (map Text segs)))"
      using Cons segs l(1)
      by (simp add: label_descriptor_def label_to_context_eq from_piece_def render_out root_str_def)
    then show ?thesis by (simp only: all label_display_join l(1))
  qed
qed

lemma check_chars_error: "check_chars k s = Inl e \<Longrightarrow> label_payload e = [(''segment'', k)]"
  by (induction s) (auto split: if_splits)

lemma check_segment_error: "check_segment k s = Inl e \<Longrightarrow> label_payload e = [(''segment'', k)] \<and> \<not> is_plain s"
  using is_plain_iff [of s k] by (auto simp: check_segment_def check_chars_error split: if_splits)

lemma check_segments_error:
  "check_segments k segs = Inl e \<Longrightarrow>
     \<exists>j < length segs. \<not> is_plain (segs ! j) \<and> list_all is_plain (take j segs)
       \<and> label_payload e = [(''segment'', k + j)]"
proof (induction segs arbitrary: k)
  case (Cons s segs)
  show ?case
  proof (cases "check_segment k s")
    case (Inl e')
    with Cons.prems check_segment_error [OF Inl] show ?thesis by (intro exI [of _ 0]) simp
  next
    case (Inr u)
    then have "is_plain s" using is_plain_iff [of s k] by simp
    from Inr Cons.prems have "check_segments (Suc k) segs = Inl e" by (auto simp: and_then_Inl_iff)
    from Cons.IH [OF this] obtain j where "j < length segs" "\<not> is_plain (segs ! j)"
      "list_all is_plain (take j segs)" "label_payload e = [(''segment'', Suc k + j)]" by blast
    with \<open>is_plain s\<close> show ?thesis by (intro exI [of _ "Suc j"]) simp
  qed
qed simp

text \<open>
  A refused label says which segment is the first that is not plain, by position only:
  nothing of the segment's text is in the error's payload.\<close>

theorem label_error_names_first_bad_segment:
  assumes "label_new segs = Inl e"
  shows "segs = [] \<and> e = Empty \<or>
    (\<exists>j < length segs. \<not> is_plain (segs ! j) \<and> list_all is_plain (take j segs)
       \<and> label_payload e = [(''segment'', j)])"
proof (cases "check_segments 0 segs")
  case (Inl e')
  with assms have "e' = e" by (simp add: label_new_def)
  with check_segments_error [OF Inl] show ?thesis by simp
next
  case (Inr l)
  with assms show ?thesis by (auto simp: label_new_def check_segments_ok split: if_splits)
qed

end
