(* ===== verification/Pending.thy ===== *)
theory Pending
  imports Descriptor Keyset_Cache
begin

text \<open>
  The request carrier of \<open>packages/stack-encrypt/src/target/pending.rs\<close> and
  \<open>request.rs\<close>: pendings are built and merged without I/O, and settling one issues the
  batched ZeroKMS calls of \<open>dispatch\<close> and hands every fulfilment exactly the responses its
  own requests asked for. A data-key source is a pair of functions on a state of its own;
  its contract, the interface \<open>data_key_source\<close>, is discharged in \<open>Key_Source\<close> for the
  in-memory sources of \<open>stack-kms\<close>.
\<close>

section \<open>Keys, requests and responses\<close>

type_synonym iv = bytes

record data_key =
  dk_iv :: iv
  dk_key :: bytes

record data_key_with_tag =
  kt_key :: data_key
  kt_tag :: bytes

datatype 'k error =
    NoKeyset
  | ForeignKeyset uuid uuid
  | KeysetMismatch uuid uuid
  | ResponseShape
  | KeyCountMismatch nat nat
  | TooLong descriptor_error
  | Kms 'k
  | Aead
  | Other string

datatype request =
    GenerateDataKey rstr
  | RetrieveDataKey iv bytes rstr uuid

fun retrieve_keyset :: "request \<Rightarrow> uuid option" where
  "retrieve_keyset (GenerateDataKey _) = None"
| "retrieve_keyset (RetrieveDataKey _ _ _ keyset_id) = Some keyset_id"

text \<open>The public constructors render the descriptor from the context.\<close>

definition generate_data_key :: "(bytes \<Rightarrow> rstr) \<Rightarrow> context_piece \<Rightarrow> request" where
  "generate_data_key b64 ctx = GenerateDataKey (from_piece b64 ctx)"

definition retrieve_data_key :: "(bytes \<Rightarrow> rstr) \<Rightarrow> iv \<Rightarrow> bytes \<Rightarrow> context_piece \<Rightarrow> uuid \<Rightarrow> request" where
  "retrieve_data_key b64 v tag ctx keyset_id = RetrieveDataKey v tag (from_piece b64 ctx) keyset_id"

fun tally :: "request list \<Rightarrow> nat \<times> nat" where
  "tally [] = (0, 0)"
| "tally (GenerateDataKey _ # rs) = (let (g, r) = tally rs in (g + 1, r))"
| "tally (RetrieveDataKey _ _ _ _ # rs) = (let (g, r) = tally rs in (g, r + 1))"

record responses =
  generated :: "data_key_with_tag list"
  retrieved :: "data_key list"

definition next_generated_key :: "responses \<Rightarrow> ('k error, data_key_with_tag) result \<times> responses" where
  "next_generated_key rs =
     (case generated rs of
        [] \<Rightarrow> (Inl ResponseShape, rs)
      | k # ks \<Rightarrow> (Inr k, rs\<lparr>generated := ks\<rparr>))"

definition next_retrieved_key :: "responses \<Rightarrow> ('k error, data_key) result \<times> responses" where
  "next_retrieved_key rs =
     (case retrieved rs of
        [] \<Rightarrow> (Inl ResponseShape, rs)
      | k # ks \<Rightarrow> (Inr k, rs\<lparr>retrieved := ks\<rparr>))"

definition split_front :: "nat \<Rightarrow> nat \<Rightarrow> responses \<Rightarrow> ('k error, responses) result \<times> responses" where
  "split_front g r rs =
     (if length (generated rs) < g \<or> length (retrieved rs) < r then (Inl ResponseShape, rs)
      else (Inr \<lparr>generated = take g (generated rs), retrieved = take r (retrieved rs)\<rparr>,
            \<lparr>generated = drop g (generated rs), retrieved = drop r (retrieved rs)\<rparr>))"

definition is_exhausted :: "responses \<Rightarrow> bool" where
  "is_exhausted rs \<longleftrightarrow> generated rs = [] \<and> retrieved rs = []"

section \<open>Pendings\<close>

text \<open>A fulfilment consumes responses from the front of the shared set, also when it fails.\<close>

type_synonym ('k, 't) fulfil = "responses \<Rightarrow> ('k error, 't) result \<times> responses"

record ('c, 'k, 't) pending =
  p_cipher :: 'c
  p_keyset :: "uuid option"
  p_requests :: "request list"
  p_failed :: "'k error option"
  p_fulfil :: "('k, 't) fulfil"

text \<open>A scope: the client-wide cipher, or that cipher and a keyset.\<close>

type_synonym 'c scope = "'c \<times> uuid option"

definition pending_failed :: "'c scope \<Rightarrow> 'k error \<Rightarrow> ('c, 'k, 't) pending" where
  "pending_failed scope e =
     \<lparr>p_cipher = fst scope, p_keyset = snd scope, p_requests = [], p_failed = Some e,
      p_fulfil = (\<lambda>rs. (Inl (Other ''fulfilment invoked on an already-failed pending''), rs))\<rparr>"

definition ready :: "'c scope \<Rightarrow> ('k error, 't) result \<Rightarrow> ('c, 'k, 't) pending" where
  "ready scope res =
     (case res of
        Inr value \<Rightarrow> \<lparr>p_cipher = fst scope, p_keyset = snd scope, p_requests = [], p_failed = None,
                      p_fulfil = (\<lambda>rs. (Inr value, rs))\<rparr>
      | Inl e \<Rightarrow> pending_failed scope e)"

fun merge_scopes :: "uuid option \<Rightarrow> uuid option \<Rightarrow> ('k error, uuid option) result" where
  "merge_scopes (Some l) (Some r) = (if l \<noteq> r then Inl (KeysetMismatch l r) else Inr (Some l))"
| "merge_scopes (Some k) None = Inr (Some k)"
| "merge_scopes None (Some k) = Inr (Some k)"
| "merge_scopes None None = Inr None"

fun check_scope :: "uuid option \<Rightarrow> request list \<Rightarrow> ('k error, unit) result" where
  "check_scope keyset [] = Inr ()"
| "check_scope keyset (request # rest) =
     (case (keyset, retrieve_keyset request) of
        (None, None) \<Rightarrow> Inl NoKeyset
      | (Some expected, Some found) \<Rightarrow>
          if expected \<noteq> found then Inl (ForeignKeyset expected found) else check_scope keyset rest
      | _ \<Rightarrow> check_scope keyset rest)"

text \<open>The fulfilment \<open>Pending::request\<close> wraps around the caller's.\<close>

definition scoped_fulfil :: "nat \<Rightarrow> nat \<Rightarrow> ('k, 't) fulfil \<Rightarrow> ('k, 't) fulfil" where
  "scoped_fulfil g r fulfil rs =
     (case split_front g r rs of
        (Inl e, rs) \<Rightarrow> (Inl e, rs)
      | (Inr own, rs) \<Rightarrow>
          (case fulfil own of
             (Inl e, _) \<Rightarrow> (Inl e, rs)
           | (Inr value, own) \<Rightarrow>
               (if \<not> is_exhausted own then (Inl ResponseShape, rs) else (Inr value, rs))))"

definition pending_request ::
  "'c scope \<Rightarrow> request list \<Rightarrow> ('k, 't) fulfil \<Rightarrow> ('c, 'k, 't) pending" where
  "pending_request scope requests fulfil =
     (let (g, r) = tally requests
      in case check_scope (snd scope) requests of
           Inl e \<Rightarrow> pending_failed scope e
         | Inr _ \<Rightarrow> \<lparr>p_cipher = fst scope, p_keyset = snd scope, p_requests = requests,
                     p_failed = None, p_fulfil = scoped_fulfil g r fulfil\<rparr>)"

definition try_map :: "('t \<Rightarrow> ('k error, 'u) result) \<Rightarrow> ('c, 'k, 't) pending \<Rightarrow> ('c, 'k, 'u) pending" where
  "try_map f p =
     \<lparr>p_cipher = p_cipher p, p_keyset = p_keyset p, p_requests = p_requests p, p_failed = p_failed p,
      p_fulfil = (\<lambda>rs. let (res, rs) = p_fulfil p rs in (and_then res f, rs))\<rparr>"

definition pending_map :: "('t \<Rightarrow> 'u) \<Rightarrow> ('c, 'k, 't) pending \<Rightarrow> ('c, 'k, 'u) pending" where
  "pending_map f p = try_map (\<lambda>x. Inr (f x)) p"

definition scoped_to :: "uuid \<Rightarrow> ('c, 'k, 't) pending \<Rightarrow> ('c, 'k, 't) pending" where
  "scoped_to keyset p =
     (case p_keyset p of
        Some existing \<Rightarrow>
          if existing \<noteq> keyset then pending_failed (p_cipher p, None) (KeysetMismatch existing keyset)
          else (case check_scope (Some keyset) (p_requests p) of
                  Inl e \<Rightarrow> pending_failed (p_cipher p, None) e
                | Inr _ \<Rightarrow> p\<lparr>p_keyset := Some keyset\<rparr>)
      | None \<Rightarrow>
          (case check_scope (Some keyset) (p_requests p) of
             Inl e \<Rightarrow> pending_failed (p_cipher p, None) e
           | Inr _ \<Rightarrow> p\<lparr>p_keyset := Some keyset\<rparr>))"

definition opens_any_keyset :: "('c, 'k, 't) pending \<Rightarrow> bool" where
  "opens_any_keyset p \<longleftrightarrow> p_keyset p = None \<and> p_failed p = None"

definition pair_fulfil :: "('k, 't) fulfil \<Rightarrow> ('k, 'u) fulfil \<Rightarrow> ('k, 't \<times> 'u) fulfil" where
  "pair_fulfil first second rs =
     (case first rs of
        (Inl e, rs) \<Rightarrow> (Inl e, rs)
      | (Inr x, rs) \<Rightarrow> (case second rs of
                          (Inl e, rs) \<Rightarrow> (Inl e, rs)
                        | (Inr y, rs) \<Rightarrow> (Inr (x, y), rs)))"

definition pending_zip ::
  "('c, 'k, 't) pending \<Rightarrow> ('c, 'k, 'u) pending \<Rightarrow> ('c, 'k, 't \<times> 'u) pending" where
  "pending_zip p q =
     (case merge_scopes (p_keyset p) (p_keyset q) of
        Inl e \<Rightarrow> pending_failed (p_cipher p, None) e
      | Inr keyset \<Rightarrow>
          (case (case p_failed p of Some e \<Rightarrow> Some e | None \<Rightarrow> p_failed q) of
             Some e \<Rightarrow> pending_failed (p_cipher p, None) e
           | None \<Rightarrow>
               (let requests = p_requests p @ p_requests q
                in case check_scope keyset requests of
                     Inl e \<Rightarrow> pending_failed (p_cipher p, None) e
                   | Inr _ \<Rightarrow> \<lparr>p_cipher = p_cipher p, p_keyset = keyset, p_requests = requests,
                               p_failed = None,
                               p_fulfil = pair_fulfil (p_fulfil p) (p_fulfil q)\<rparr>)))"

text \<open>The fulfilments of a column, run in order over the shared responses.\<close>

fun run_fulfils :: "('k, 't) fulfil list \<Rightarrow> ('k, 't list) fulfil" where
  "run_fulfils [] rs = (Inr [], rs)"
| "run_fulfils (f # fs) rs =
     (case f rs of
        (Inl e, rs) \<Rightarrow> (Inl e, rs)
      | (Inr x, rs) \<Rightarrow> (case run_fulfils fs rs of
                          (Inl e, rs) \<Rightarrow> (Inl e, rs)
                        | (Inr xs, rs) \<Rightarrow> (Inr (x # xs), rs)))"

fun collect_items ::
  "('c, 'k, 't) pending list \<Rightarrow> uuid option \<Rightarrow> request list \<Rightarrow> ('k, 't) fulfil list
     \<Rightarrow> ('k error, uuid option \<times> request list \<times> ('k, 't) fulfil list) result" where
  "collect_items [] keyset requests fulfils = Inr (keyset, requests, fulfils)"
| "collect_items (item # items) keyset requests fulfils =
     (case merge_scopes keyset (p_keyset item) of
        Inl e \<Rightarrow> Inl e
      | Inr keyset \<Rightarrow>
          (case p_failed item of
             Some e \<Rightarrow> Inl e
           | None \<Rightarrow> collect_items items keyset (requests @ p_requests item) (fulfils @ [p_fulfil item])))"

definition pending_collect ::
  "'c scope \<Rightarrow> ('c, 'k, 't) pending list \<Rightarrow> ('c, 'k, 't list) pending" where
  "pending_collect scope items =
     (case collect_items items (snd scope) [] [] of
        Inl e \<Rightarrow> pending_failed (fst scope, None) e
      | Inr (keyset, requests, fulfils) \<Rightarrow>
          (case check_scope keyset requests of
             Inl e \<Rightarrow> pending_failed (fst scope, None) e
           | Inr _ \<Rightarrow> \<lparr>p_cipher = fst scope, p_keyset = keyset, p_requests = requests,
                       p_failed = None, p_fulfil = run_fulfils fulfils\<rparr>))"

section \<open>Settling\<close>

record retrieve =
  rt_iv :: iv
  rt_tag :: bytes
  rt_descriptor :: rstr
  rt_keyset :: uuid

text \<open>
  A data-key source: the answer to a batch of descriptors, or of stored \<open>iv\<close>, descriptor
  and tag triples, under a keyset, and the source's next state.
\<close>

record ('k, 's) key_source =
  generate_keys :: "rstr list \<Rightarrow> uuid option \<Rightarrow> 's \<Rightarrow> ('k, data_key_with_tag list) result \<times> 's"
  retrieve_keys :: "(iv \<times> rstr \<times> bytes) list \<Rightarrow> uuid option \<Rightarrow> 's \<Rightarrow> ('k, data_key list) result \<times> 's"

fun sort_requests :: "request list \<Rightarrow> rstr list \<times> retrieve list \<Rightarrow> rstr list \<times> retrieve list" where
  "sort_requests [] acc = acc"
| "sort_requests (GenerateDataKey d # rest) (gs, rs) = sort_requests rest (gs @ [d], rs)"
| "sort_requests (RetrieveDataKey v tag d k # rest) (gs, rs) =
     sort_requests rest
       (gs, rs @ [\<lparr>rt_iv = v, rt_tag = tag, rt_descriptor = d, rt_keyset = k\<rparr>])"

fun check_all :: "nat \<Rightarrow> rstr list \<Rightarrow> ('k error, unit) result" where
  "check_all max_len [] = Inr ()"
| "check_all max_len (d # ds) =
     (case check_descriptor max_len d of Inl e \<Rightarrow> Inl (TooLong e) | Inr _ \<Rightarrow> check_all max_len ds)"

definition generate_batch ::
  "('k, 's) key_source \<Rightarrow> uuid option \<Rightarrow> rstr list \<Rightarrow> 's
     \<Rightarrow> ('k error, data_key_with_tag list) result \<times> 's" where
  "generate_batch kms keyset gs s =
     (if gs = [] then (Inr [], s)
      else case keyset of
             None \<Rightarrow> (Inl NoKeyset, s)
           | Some keyset \<Rightarrow>
               (case generate_keys kms gs (Some keyset) s of
                  (Inl e, s) \<Rightarrow> (Inl (Kms e), s)
                | (Inr keys, s) \<Rightarrow>
                    if length keys \<noteq> length gs
                    then (Inl (KeyCountMismatch (length gs) (length keys)), s)
                    else (Inr keys, s)))"

text \<open>The grouping loop: the groups in first-seen order, and the place of each keyset's.\<close>

type_synonym grouping = "(uuid \<times> nat list) list \<times> (uuid \<rightharpoonup> nat)"

definition group_step :: "nat \<times> retrieve \<Rightarrow> grouping \<Rightarrow> grouping" where
  "group_step x g =
     (let (index, r) = x;
          (groups, group_of) = g;
          (groups, group_of, at) =
            (case group_of (rt_keyset r) of
               Some at \<Rightarrow> (groups, group_of, at)
             | None \<Rightarrow> (groups @ [(rt_keyset r, [])], group_of(rt_keyset r \<mapsto> length groups), length groups));
          (keyset, indices) = groups ! at
      in (groups[at := (keyset, indices @ [index])], group_of))"

definition group_retrieves :: "retrieve list \<Rightarrow> (uuid \<times> nat list) list" where
  "group_retrieves rs = fst (fold group_step (enumerate 0 rs) ([], Map.empty))"

definition payload :: "retrieve \<Rightarrow> iv \<times> rstr \<times> bytes" where
  "payload r = (rt_iv r, rt_descriptor r, rt_tag r)"

definition scatter :: "nat list \<Rightarrow> 'a list \<Rightarrow> 'a option list \<Rightarrow> 'a option list" where
  "scatter indices keys slots = fold (\<lambda>(i, key) slots. slots[i := Some key]) (zip indices keys) slots"

fun retrieve_groups ::
  "('k, 's) key_source \<Rightarrow> retrieve list \<Rightarrow> (uuid \<times> nat list) list \<Rightarrow> data_key option list \<Rightarrow> 's
     \<Rightarrow> ('k error, data_key option list) result \<times> 's" where
  "retrieve_groups kms rs [] slots s = (Inr slots, s)"
| "retrieve_groups kms rs ((keyset_id, indices) # groups) slots s =
     (let payloads = map (\<lambda>index. payload (rs ! index)) indices
      in case retrieve_keys kms payloads (Some keyset_id) s of
           (Inl e, s) \<Rightarrow> (Inl (Kms e), s)
         | (Inr keys, s) \<Rightarrow>
             if length keys \<noteq> length payloads
             then (Inl (KeyCountMismatch (length payloads) (length keys)), s)
             else retrieve_groups kms rs groups (scatter indices keys slots) s)"

definition dispatch ::
  "nat \<Rightarrow> ('k, 's) key_source \<Rightarrow> uuid option \<Rightarrow> request list \<Rightarrow> 's \<Rightarrow> ('k error, responses) result \<times> 's" where
  "dispatch max_len kms keyset requests s =
     (let (gs, rs) = sort_requests requests ([], [])
      in case check_all max_len (gs @ map rt_descriptor rs) of
           Inl e \<Rightarrow> (Inl e, s)
         | Inr _ \<Rightarrow>
             (case generate_batch kms keyset gs s of
                (Inl e, s) \<Rightarrow> (Inl e, s)
              | (Inr keys, s) \<Rightarrow>
                  (case retrieve_groups kms rs (group_retrieves rs) (replicate (length rs) None) s of
                     (Inl e, s) \<Rightarrow> (Inl e, s)
                   | (Inr slots, s) \<Rightarrow>
                       (case collect (\<lambda>key. ok_or key ResponseShape) slots of
                          Inl e \<Rightarrow> (Inl e, s)
                        | Inr found \<Rightarrow> (Inr \<lparr>generated = keys, retrieved = found\<rparr>, s)))))"

definition settle ::
  "nat \<Rightarrow> ('c \<Rightarrow> ('k, 's) key_source) \<Rightarrow> ('c, 'k, 't) pending \<Rightarrow> 's \<Rightarrow> ('k error, 't) result \<times> 's" where
  "settle max_len kms_of p s =
     (case p_failed p of
        Some e \<Rightarrow> (Inl e, s)
      | None \<Rightarrow>
          (case dispatch max_len (kms_of (p_cipher p)) (p_keyset p) (p_requests p) s of
             (Inl e, s) \<Rightarrow> (Inl e, s)
           | (Inr rs, s) \<Rightarrow> (fst (p_fulfil p rs), s)))"

section \<open>Scopes\<close>

text \<open>The rules a settled pending was built under: a failed one asks for nothing, and the
  requests of any other meet its scope.\<close>

definition meets :: "uuid option \<Rightarrow> request \<Rightarrow> bool" where
  "meets keyset r =
     (case retrieve_keyset r of
        None \<Rightarrow> keyset \<noteq> None
      | Some k \<Rightarrow> keyset = None \<or> keyset = Some k)"

definition well_scoped :: "('c, 'k, 't) pending \<Rightarrow> bool" where
  "well_scoped p \<longleftrightarrow>
     (p_failed p \<noteq> None \<longrightarrow> p_requests p = []) \<and>
     (p_failed p = None \<longrightarrow> (\<forall>r \<in> set (p_requests p). meets (p_keyset p) r))"

lemma check_scope_ok:
  "check_scope keyset rs = Inr u \<longleftrightarrow> (\<forall>r \<in> set rs. meets keyset r)"
  by (induction rs) (auto simp: meets_def split: option.splits)

lemma well_scoped_failed: "well_scoped (pending_failed scope e)"
  by (simp add: well_scoped_def pending_failed_def)

lemma well_scoped_ready: "well_scoped (ready scope res)"
  by (auto simp: ready_def well_scoped_def pending_failed_def split: sum.split)

lemma well_scoped_request: "well_scoped (pending_request scope rs f)"
  unfolding pending_request_def case_prod_beta Let_def
  by (auto simp: well_scoped_failed check_scope_ok split: sum.split) (auto simp: well_scoped_def)

lemma well_scoped_try_map: "well_scoped p \<Longrightarrow> well_scoped (try_map f p)"
  by (simp add: well_scoped_def try_map_def)

lemma well_scoped_scoped_to: "well_scoped p \<Longrightarrow> well_scoped (scoped_to k p)"
  by (auto simp: scoped_to_def pending_failed_def well_scoped_def check_scope_ok split: option.splits sum.splits)

lemma well_scoped_zip: "well_scoped (pending_zip p q)"
  unfolding pending_zip_def Let_def
  by (auto simp: well_scoped_failed check_scope_ok split: option.split sum.split) (auto simp: well_scoped_def)

lemma well_scoped_collect: "well_scoped (pending_collect scope items)"
  unfolding pending_collect_def
  by (auto simp: well_scoped_failed check_scope_ok split: sum.split) (auto simp: well_scoped_def)

section \<open>Grouping and scattering\<close>

text \<open>Where the keysets of a list were first seen, and the places one keyset has in it.\<close>

definition first_seen :: "'a list \<Rightarrow> 'a list" where
  "first_seen xs = rev (remdups (rev xs))"

definition places :: "uuid \<Rightarrow> retrieve list \<Rightarrow> nat list" where
  "places k rs = filter (\<lambda>i. rt_keyset (rs ! i) = k) [0..<length rs]"

lemma first_seen_simps [simp]:
  "first_seen [] = []"
  "first_seen (xs @ [x]) = (if x \<in> set xs then first_seen xs else first_seen xs @ [x])"
  by (simp_all add: first_seen_def)

lemma set_first_seen [simp]: "set (first_seen xs) = set xs"
  by (simp add: first_seen_def)

lemma distinct_first_seen [simp]: "distinct (first_seen xs)"
  by (simp add: first_seen_def)

lemma places_snoc:
  "places k (rs @ [r]) = (if rt_keyset r = k then places k rs @ [length rs] else places k rs)"
proof -
  have "filter (\<lambda>i. rt_keyset ((rs @ [r]) ! i) = k) [0..<length rs] = places k rs"
    unfolding places_def by (rule filter_cong) (auto simp: nth_append)
  then show ?thesis by (simp add: places_def)
qed

lemma places_Nil [simp]: "places k [] = []"
  by (simp add: places_def)

lemma places_absent: "k \<notin> rt_keyset ` set rs \<Longrightarrow> places k rs = []"
  by (force simp: places_def filter_empty_conv)

definition group_inv :: "retrieve list \<Rightarrow> grouping \<Rightarrow> bool" where
  "group_inv rs g \<longleftrightarrow>
     fst g = map (\<lambda>k. (k, places k rs)) (first_seen (map rt_keyset rs)) \<and>
     (\<forall>k i. snd g k = Some i \<longleftrightarrow>
        i < length (first_seen (map rt_keyset rs)) \<and> first_seen (map rt_keyset rs) ! i = k)"

lemma group_step_inv:
  assumes inv: "group_inv rs g"
  shows "group_inv (rs @ [r]) (group_step (length rs, r) g)"
proof -
  let ?ks = "first_seen (map rt_keyset rs)" and ?k = "rt_keyset r"
  obtain groups gof where g: "g = (groups, gof)" by (cases g)
  have gr: "groups = map (\<lambda>k. (k, places k rs)) ?ks"
    and of: "\<And>k i. gof k = Some i \<longleftrightarrow> i < length ?ks \<and> ?ks ! i = k"
    using inv by (auto simp: group_inv_def g)
  have d: "distinct ?ks" by simp
  show ?thesis
  proof (cases "gof ?k")
    case (Some i)
    then have i: "i < length ?ks" "?ks ! i = ?k" using of by auto
    then have mem: "?k \<in> rt_keyset ` set rs" using nth_mem [OF i(1)] by simp
    have step: "group_step (length rs, r) g = (groups[i := (?k, places ?k rs @ [length rs])], gof)"
      using Some i by (simp add: group_step_def g gr)
    have "groups[i := (?k, places ?k rs @ [length rs])] = map (\<lambda>k. (k, places k (rs @ [r]))) ?ks"
      using i by (intro nth_equalityI)
        (auto simp: gr nth_list_update places_snoc nth_eq_iff_index_eq [OF d])
    with of mem show ?thesis by (simp add: group_inv_def step)
  next
    case None
    then have new: "?k \<notin> rt_keyset ` set rs"
      using of [of ?k] in_set_conv_nth [of ?k ?ks] by force
    have step: "group_step (length rs, r) g
        = (groups @ [(?k, [length rs])], gof(?k \<mapsto> length ?ks))"
      using None by (simp add: group_step_def g gr nth_append list_update_append)
    have "groups @ [(?k, [length rs])] = map (\<lambda>k. (k, places k (rs @ [r]))) (?ks @ [?k])"
      using new by (auto simp: gr places_snoc places_absent)
    moreover have "(gof(?k \<mapsto> length ?ks)) k = Some i \<longleftrightarrow> i < length (?ks @ [?k]) \<and> (?ks @ [?k]) ! i = k" for k i
    proof (cases "k = ?k")
      case True
      then show ?thesis
        using new nth_mem [of i ?ks] by (auto simp: nth_append less_Suc_eq)
    next
      case False
      then show ?thesis using of [of k i] by (auto simp: nth_append less_Suc_eq)
    qed
    ultimately show ?thesis using new by (simp add: group_inv_def step)
  qed
qed

lemma group_fold_inv: "group_inv rs (fold group_step (enumerate 0 rs) ([], Map.empty))"
proof (induction rs rule: rev_induct)
  case Nil
  then show ?case by (simp add: group_inv_def)
next
  case (snoc r rs)
  then show ?case by (simp add: enumerate_append_eq group_step_inv)
qed

lemma group_retrieves_eq:
  "group_retrieves rs = map (\<lambda>k. (k, places k rs)) (first_seen (map rt_keyset rs))"
  using group_fold_inv [of rs] by (simp add: group_retrieves_def group_inv_def)

lemma length_scatter [simp]: "length (scatter is ks slots) = length slots"
proof -
  have "length (fold (\<lambda>(i, key) slots. slots[i := Some key]) ps slots) = length slots" for ps
    by (induction ps arbitrary: slots) auto
  then show ?thesis by (simp add: scatter_def)
qed

lemma scatter_Cons: "scatter (x # xs) (y # ys) slots = scatter xs ys (slots[x := Some y])"
  by (simp add: scatter_def)

lemma scatter_other: "length xs = length ys \<Longrightarrow> i \<notin> set xs \<Longrightarrow> scatter xs ys slots ! i = slots ! i"
proof (induction xs ys arbitrary: slots rule: list_induct2)
  case Nil
  then show ?case by (simp add: scatter_def)
next
  case (Cons x xs y ys)
  then show ?case by (simp add: scatter_Cons)
qed

lemma scatter_nth:
  "length xs = length ys \<Longrightarrow> distinct xs \<Longrightarrow> \<forall>i \<in> set xs. i < length slots \<Longrightarrow> j < length xs
     \<Longrightarrow> scatter xs ys slots ! (xs ! j) = Some (ys ! j)"
proof (induction xs ys arbitrary: slots j rule: list_induct2)
  case (Cons x xs y ys)
  then show ?case by (cases j) (simp_all add: scatter_Cons scatter_other)
qed simp

section \<open>The contract of a data-key source\<close>

text \<open>
  What \<open>DataKeySource\<close> promises: one key per payload, in payload order, whichever other
  payloads share the call. \<open>answer\<close> is what the source has for one stored triple.
\<close>

locale data_key_source =
  fixes kms :: "('k, 's) key_source"
    and answer :: "'s \<Rightarrow> uuid option \<Rightarrow> iv \<times> rstr \<times> bytes \<Rightarrow> ('k, data_key) result"
  assumes retrieve_law: "retrieve_keys kms ps k s = (collect (answer s k) ps, s)"
    and generate_count: "generate_keys kms gs k s = (Inr keys, s') \<Longrightarrow> length keys = length gs"
begin

lemma collect_places:
  assumes "\<And>i. i < length rs \<Longrightarrow> rt_keyset (rs ! i) = k \<Longrightarrow> answer s (Some k) (payload (rs ! i)) = Inr (f i)"
  shows "collect (answer s (Some k)) (map (\<lambda>i. payload (rs ! i)) (places k rs)) = Inr (map f (places k rs))"
proof -
  have "collect (answer s (Some k)) (map (\<lambda>i. payload (rs ! i)) is) = Inr (map f is)"
    if "set is \<subseteq> set (places k rs)" for "is"
    using that assms by (induction "is") (auto simp: places_def)
  then show ?thesis by blast
qed

lemma retrieve_groups_ok:
  assumes "distinct ks" and "length slots = length rs"
    and "\<And>i. i < length rs \<Longrightarrow> rt_keyset (rs ! i) \<in> set ks
      \<Longrightarrow> answer s (Some (rt_keyset (rs ! i))) (payload (rs ! i)) = Inr (f i)"
  shows "retrieve_groups kms rs (map (\<lambda>k. (k, places k rs)) ks) slots s
    = (Inr (map (\<lambda>i. if rt_keyset (rs ! i) \<in> set ks then Some (f i) else slots ! i) [0..<length rs]), s)"
  using assms
proof (induction ks arbitrary: slots)
  case Nil
  then show ?case using map_nth [of slots] by simp
next
  case (Cons k ks)
  let ?is = "places k rs"
  let ?slots = "scatter ?is (map f ?is) slots"
  have pl: "set ?is = {i. i < length rs \<and> rt_keyset (rs ! i) = k}" "distinct ?is"
    by (auto simp: places_def)
  have call: "collect (answer s (Some k)) (map (\<lambda>i. payload (rs ! i)) ?is) = Inr (map f ?is)"
    using Cons.prems(3) by (intro collect_places) (metis list.set_intros(1))
  have sl: "?slots ! i = (if rt_keyset (rs ! i) = k then Some (f i) else slots ! i)" if "i < length rs" for i
  proof (cases "rt_keyset (rs ! i) = k")
    case True
    then have "i \<in> set ?is" using that pl(1) by simp
    then obtain j where j: "j < length ?is" "?is ! j = i" by (auto simp: in_set_conv_nth)
    with True show ?thesis
      using scatter_nth [of ?is "map f ?is" slots j] pl Cons.prems(2) by simp
  next
    case False
    then show ?thesis using scatter_other [of ?is "map f ?is" i slots] pl(1) by simp
  qed
  have "retrieve_groups kms rs (map (\<lambda>k. (k, places k rs)) (k # ks)) slots s
      = retrieve_groups kms rs (map (\<lambda>k. (k, places k rs)) ks) ?slots s"
    by (simp add: retrieve_law call)
  also have "\<dots> = (Inr (map (\<lambda>i. if rt_keyset (rs ! i) \<in> set ks then Some (f i) else ?slots ! i) [0..<length rs]), s)"
    using Cons.prems by (intro Cons.IH) simp_all
  also have "\<dots> = (Inr (map (\<lambda>i. if rt_keyset (rs ! i) \<in> set (k # ks) then Some (f i) else slots ! i) [0..<length rs]), s)"
    using Cons.prems(1) sl by auto
  finally show ?case .
qed

lemma retrieve_groups_error:
  assumes "\<exists>i < length rs. rt_keyset (rs ! i) \<in> set ks
      \<and> \<not> is_ok (answer s (Some (rt_keyset (rs ! i))) (payload (rs ! i)))"
  shows "\<exists>r \<in> set rs. \<exists>e. answer s (Some (rt_keyset r)) (payload r) = Inl e
    \<and> retrieve_groups kms rs (map (\<lambda>k. (k, places k rs)) ks) slots s = (Inl (Kms e), s)"
  using assms
proof (induction ks arbitrary: slots)
  case (Cons k ks)
  let ?ps = "map (\<lambda>i. payload (rs ! i)) (places k rs)"
  show ?case
  proof (cases "collect (answer s (Some k)) ?ps")
    case (Inl e)
    from collect_InlD [OF this] obtain i where "i \<in> set (places k rs)" "answer s (Some k) (payload (rs ! i)) = Inl e"
      by auto
    moreover from this have "rs ! i \<in> set rs" "rt_keyset (rs ! i) = k" by (auto simp: places_def)
    ultimately show ?thesis using Inl by (intro bexI [of _ "rs ! i"]) (simp_all add: retrieve_law)
  next
    case (Inr keys)
    then have len: "length keys = length ?ps" by (rule collect_length)
    have "\<And>p. p \<in> set ?ps \<Longrightarrow> is_ok (answer s (Some k) p)"
      using Inr by (rule collect_Inr_all_ok)
    then have "is_ok (answer s (Some k) (payload (rs ! i)))" if "i < length rs" "rt_keyset (rs ! i) = k" for i
      using that by (auto simp: places_def)
    with Cons.prems have "\<exists>i < length rs. rt_keyset (rs ! i) \<in> set ks
      \<and> \<not> is_ok (answer s (Some (rt_keyset (rs ! i))) (payload (rs ! i)))" by auto
    from Cons.IH [OF this] show ?thesis using Inr len by (simp add: retrieve_law)
  qed
qed simp

end

definition request_of :: "retrieve \<Rightarrow> request" where
  "request_of r = RetrieveDataKey (rt_iv r) (rt_tag r) (rt_descriptor r) (rt_keyset r)"

lemma sort_requests_acc:
  "sort_requests reqs (gs, rs) =
     (gs @ fst (sort_requests reqs ([], [])), rs @ snd (sort_requests reqs ([], [])))"
proof (induction reqs arbitrary: gs rs)
  case (Cons req reqs)
  show ?case
  proof (cases req)
    case (GenerateDataKey d)
    then show ?thesis using Cons.IH [of "gs @ [d]" rs] Cons.IH [of "[d]" "[]"] by simp
  next
    case (RetrieveDataKey v t d k)
    let ?r = "\<lparr>rt_iv = v, rt_tag = t, rt_descriptor = d, rt_keyset = k\<rparr>"
    show ?thesis using RetrieveDataKey Cons.IH [of gs "rs @ [?r]"] Cons.IH [of "[]" "[?r]"] by simp
  qed
qed simp

lemma sort_request_of: "sort_requests (request_of r # reqs) (gs, rs) = sort_requests reqs (gs, rs @ [r])"
  by (cases r) (simp add: request_of_def)

lemma sort_requests_retrieves: "sort_requests (map request_of rs) ([], []) = ([], rs)"
proof (induction rs)
  case (Cons r rs)
  then show ?case
    using sort_requests_acc [of "map request_of rs" "[]" "[r]"] by (simp add: sort_request_of)
qed simp

lemma sort_requests_generates: "sort_requests (map GenerateDataKey gs) ([], []) = (gs, [])"
proof (induction gs)
  case (Cons g gs)
  then show ?case using sort_requests_acc [of "map GenerateDataKey gs" "[g]" "[]"] by simp
qed simp

lemma check_all_ok: "check_all max_len ds = Inr u \<longleftrightarrow> list_all (fits max_len) ds"
  by (induction ds) (auto simp: check_descriptor_def)

lemma check_all_fits: "list_all (fits max_len) ds \<Longrightarrow> check_all max_len ds = Inr ()"
  by (induction ds) (auto simp: check_descriptor_def)

lemma collect_ok_or [simp]: "collect (\<lambda>key. ok_or key e) (map Some xs) = Inr xs"
  by (induction xs) simp_all

lemma retrieve_all_groups:
  assumes "data_key_source kms answer"
  shows "case collect (\<lambda>r. answer s (Some (rt_keyset r)) (payload r)) rs of
      Inr keys \<Rightarrow> retrieve_groups kms rs (group_retrieves rs) (replicate (length rs) None) s
        = (Inr (map Some keys), s)
    | Inl _ \<Rightarrow> \<exists>r \<in> set rs. \<exists>e. answer s (Some (rt_keyset r)) (payload r) = Inl e
        \<and> retrieve_groups kms rs (group_retrieves rs) (replicate (length rs) None) s = (Inl (Kms e), s)"
proof (cases "collect (\<lambda>r. answer s (Some (rt_keyset r)) (payload r)) rs")
  case (Inr keys)
  then have all: "answer s (Some (rt_keyset (rs ! i))) (payload (rs ! i)) = Inr (keys ! i)" if "i < length rs" for i
    using that by (simp add: collect_Inr_iff list_all2_conv_all_nth)
  have len: "length keys = length rs" using Inr by (rule collect_length)
  have "retrieve_groups kms rs (group_retrieves rs) (replicate (length rs) None) s
      = (Inr (map (\<lambda>i. Some (keys ! i)) [0..<length rs]), s)"
    unfolding group_retrieves_eq
    by (subst data_key_source.retrieve_groups_ok [OF assms, where f = "\<lambda>i. keys ! i"]) (auto simp: all)
  moreover have "map (\<lambda>i. Some (keys ! i)) [0..<length rs] = map Some keys"
    by (rule nth_equalityI) (simp_all add: len)
  ultimately show ?thesis using Inr by simp
next
  case (Inl e)
  from collect_InlD [OF this] obtain i where "i < length rs"
      "answer s (Some (rt_keyset (rs ! i))) (payload (rs ! i)) = Inl e"
    by (metis in_set_conv_nth)
  then have "\<exists>i < length rs. rt_keyset (rs ! i) \<in> set (first_seen (map rt_keyset rs))
      \<and> \<not> is_ok (answer s (Some (rt_keyset (rs ! i))) (payload (rs ! i)))"
    by (intro exI [of _ i]) simp
  from data_key_source.retrieve_groups_error [OF assms this] Inl show ?thesis
    by (simp add: group_retrieves_eq)
qed

lemma dispatch_retrieves_pointwise_lemma:
  assumes src: "data_key_source kms answer"
    and fit: "list_all (fits max_len) (map rt_descriptor rs)"
  shows "case collect (\<lambda>r. answer s (Some (rt_keyset r)) (payload r)) rs of
      Inr keys \<Rightarrow> dispatch max_len kms keyset (map request_of rs) s
        = (Inr \<lparr>generated = [], retrieved = keys\<rparr>, s)
    | Inl _ \<Rightarrow> \<exists>r \<in> set rs. \<exists>e. answer s (Some (rt_keyset r)) (payload r) = Inl e
        \<and> dispatch max_len kms keyset (map request_of rs) s = (Inl (Kms e), s)"
proof -
  have red: "dispatch max_len kms keyset (map request_of rs) s =
      (case retrieve_groups kms rs (group_retrieves rs) (replicate (length rs) None) s of
         (Inl e, s) \<Rightarrow> (Inl e, s)
       | (Inr slots, s) \<Rightarrow> (case collect (\<lambda>key. ok_or key ResponseShape) slots of
            Inl e \<Rightarrow> (Inl e, s) | Inr found \<Rightarrow> (Inr \<lparr>generated = [], retrieved = found\<rparr>, s)))"
    using fit by (simp add: dispatch_def sort_requests_retrieves generate_batch_def check_all_fits)
  show ?thesis
    using retrieve_all_groups [OF src, where s = s and rs = rs]
    by (auto simp: red split: sum.splits)
qed

section \<open>Properties\<close>

text \<open>
  C3. Batching is invisible. Opening any number of leaves, sealed under any number of
  keysets, through the grouped calls of \<open>dispatch\<close> gives each request, in request order,
  exactly the key the source has for that leaf alone; and it fails, with one of the
  leaves' own errors, exactly when the source refuses some leaf.\<close>

theorem dispatch_retrieves_pointwise:
  assumes src: "data_key_source kms answer"
    and fit: "list_all (fits max_len) (map rt_descriptor rs)"
  shows "case collect (\<lambda>r. answer s (Some (rt_keyset r)) (payload r)) rs of
      Inr keys \<Rightarrow> dispatch max_len kms keyset (map request_of rs) s
        = (Inr \<lparr>generated = [], retrieved = keys\<rparr>, s)
    | Inl _ \<Rightarrow> \<exists>r \<in> set rs. \<exists>e. answer s (Some (rt_keyset r)) (payload r) = Inl e
        \<and> dispatch max_len kms keyset (map request_of rs) s = (Inl (Kms e), s)"
  by (rule dispatch_retrieves_pointwise_lemma [OF src fit])

section \<open>The calls a settled pending makes\<close>

datatype call =
    CallGenerate "uuid option" "rstr list"
  | CallRetrieve "uuid option" "(iv \<times> rstr \<times> bytes) list"

fun call_keyset :: "call \<Rightarrow> uuid option" where
  "call_keyset (CallGenerate k _) = k"
| "call_keyset (CallRetrieve k _) = k"

fun is_generate :: "call \<Rightarrow> bool" where
  "is_generate (CallGenerate _ _) = True"
| "is_generate (CallRetrieve _ _) = False"

text \<open>A source that keeps the list of the calls made to it.\<close>

definition logged :: "('k, 's) key_source \<Rightarrow> ('k, 's \<times> call list) key_source" where
  "logged kms =
     \<lparr>generate_keys = (\<lambda>gs k (s, log). let (r, s') = generate_keys kms gs k s
                                       in (r, (s', log @ [CallGenerate k gs]))),
      retrieve_keys = (\<lambda>ps k (s, log). let (r, s') = retrieve_keys kms ps k s
                                       in (r, (s', log @ [CallRetrieve k ps])))\<rparr>"

lemma retrieve_groups_log:
  "\<exists>n \<le> length ks. snd (snd (retrieve_groups (logged kms) rs (map (\<lambda>k. (k, places k rs)) ks) slots (s, log)))
     = log @ map (\<lambda>k. CallRetrieve (Some k) (map (\<lambda>i. payload (rs ! i)) (places k rs))) (take n ks)"
proof (induction ks arbitrary: slots s log)
  case (Cons k ks)
  let ?ps = "map (\<lambda>i. payload (rs ! i)) (places k rs)"
  obtain r s' where r: "retrieve_keys kms ?ps (Some k) s = (r, s')" by fastforce
  show ?case
  proof (cases "\<exists>keys. r = Inr keys \<and> length keys = length ?ps")
    case True
    then obtain keys where k: "r = Inr keys" "length keys = length ?ps" by blast
    obtain n where "n \<le> length ks" "snd (snd (retrieve_groups (logged kms) rs (map (\<lambda>k. (k, places k rs)) ks)
        (scatter (places k rs) keys slots) (s', log @ [CallRetrieve (Some k) ?ps])))
      = (log @ [CallRetrieve (Some k) ?ps])
        @ map (\<lambda>k. CallRetrieve (Some k) (map (\<lambda>i. payload (rs ! i)) (places k rs))) (take n ks)"
      using Cons.IH by blast
    with r k show ?thesis by (intro exI [of _ "Suc n"]) (simp add: logged_def)
  next
    case False
    then have "snd (snd (retrieve_groups (logged kms) rs (map (\<lambda>k. (k, places k rs)) (k # ks)) slots (s, log)))
        = log @ [CallRetrieve (Some k) ?ps]"
      using r by (cases r) (auto simp: logged_def)
    then show ?thesis by (intro exI [of _ 1]) simp
  qed
qed simp

lemma generate_batch_log:
  "snd (snd (generate_batch (logged kms) keyset gs (s, log)))
     = (if gs = [] \<or> keyset = None then log else log @ [CallGenerate keyset gs])"
  by (auto simp: generate_batch_def logged_def split: option.split prod.split sum.split)

lemma dispatch_log:
  obtains n where "n \<le> length (first_seen (map rt_keyset (snd (sort_requests reqs ([], [])))))"
    and "snd (snd (dispatch max_len (logged kms) keyset reqs (s, []))) =
      (let (gs, rs) = sort_requests reqs ([], []) in
       (if gs = [] \<or> keyset = None \<or> \<not> list_all (fits max_len) (gs @ map rt_descriptor rs)
        then [] else [CallGenerate keyset gs])
       @ map (\<lambda>k. CallRetrieve (Some k) (map (\<lambda>i. payload (rs ! i)) (places k rs)))
           (take n (first_seen (map rt_keyset rs))))"
proof -
  obtain gs rs where sr: "sort_requests reqs ([], []) = (gs, rs)" by fastforce
  show thesis
  proof (cases "list_all (fits max_len) (gs @ map rt_descriptor rs)")
    case False
    then have "check_all max_len (gs @ map rt_descriptor rs) \<noteq> (Inr () :: ('b error, unit) result)"
      using check_all_ok by blast
    then obtain e where "(check_all max_len (gs @ map rt_descriptor rs) :: ('b error, unit) result) = Inl e"
      by (cases "check_all max_len (gs @ map rt_descriptor rs) :: ('b error, unit) result") auto
    then show thesis using False sr by (intro that [of 0]) (simp_all add: dispatch_def)
  next
    case True
    obtain g s1 log1 where g: "generate_batch (logged kms) keyset gs (s, []) = (g, s1, log1)"
      using prod_cases3 by blast
    have l1: "log1 = (if gs = [] \<or> keyset = None then [] else [CallGenerate keyset gs])"
      using generate_batch_log [of kms keyset gs s "[]"] g by simp
    obtain n where n: "n \<le> length (first_seen (map rt_keyset rs))"
      "snd (snd (retrieve_groups (logged kms) rs (group_retrieves rs) (replicate (length rs) None) (s1, log1)))
        = log1 @ map (\<lambda>k. CallRetrieve (Some k) (map (\<lambda>i. payload (rs ! i)) (places k rs)))
            (take n (first_seen (map rt_keyset rs)))"
      unfolding group_retrieves_eq
      using retrieve_groups_log [where ks = "first_seen (map rt_keyset rs)" and kms = kms and rs = rs
          and slots = "replicate (length rs) None" and s = s1 and log = log1] by blast
    have "snd (snd (dispatch max_len (logged kms) keyset reqs (s, []))) = (case g of Inl _ \<Rightarrow> log1
        | Inr _ \<Rightarrow> snd (snd (retrieve_groups (logged kms) rs (group_retrieves rs) (replicate (length rs) None) (s1, log1))))"
      using True by (simp add: dispatch_def sr check_all_fits g split: sum.split prod.split)
    then show thesis
      using that [of 0] that [of n] n True sr l1 by (cases g) simp_all
  qed
qed

lemma sort_requests_kinds:
  "rt_keyset ` set (snd (sort_requests reqs ([], []))) = {k. Some k \<in> retrieve_keyset ` set reqs}"
  "fst (sort_requests reqs ([], [])) \<noteq> [] \<longleftrightarrow> None \<in> retrieve_keyset ` set reqs"
proof (induction reqs)
  case (Cons req reqs)
  {
    case 1
    show ?case
    proof (cases req)
      case (GenerateDataKey d)
      with Cons(1) show ?thesis using sort_requests_acc [of reqs "[d]" "[]"] by auto
    next
      case (RetrieveDataKey v t d k)
      with Cons(1) show ?thesis
        using sort_requests_acc [of reqs "[]" "[\<lparr>rt_iv = v, rt_tag = t, rt_descriptor = d, rt_keyset = k\<rparr>]"]
        by auto
    qed
  next
    case 2
    show ?case
    proof (cases req)
      case (GenerateDataKey d)
      then show ?thesis using sort_requests_acc [of reqs "[d]" "[]"] by auto
    next
      case (RetrieveDataKey v t d k)
      with Cons(2) show ?thesis
        using sort_requests_acc [of reqs "[]" "[\<lparr>rt_iv = v, rt_tag = t, rt_descriptor = d, rt_keyset = k\<rparr>]"]
        by auto
    qed
  }
qed auto

text \<open>
  Every way of building a pending meets the keyset rules before any I/O: a failed
  pending carries no request, a pending that mints is scoped to a keyset, and a scoped
  pending retrieves from its own keyset only. Merging two scopes that differ fails.\<close>

theorem pendings_meet_their_scope:
  "well_scoped (ready scope res) \<and> well_scoped (pending_request scope reqs f)
   \<and> well_scoped (pending_zip p q) \<and> well_scoped (pending_collect scope items)
   \<and> (well_scoped p \<longrightarrow> well_scoped (try_map g p) \<and> well_scoped (pending_map h p) \<and> well_scoped (scoped_to k p))
   \<and> (p_keyset p = Some a \<and> p_keyset q = Some b \<and> a \<noteq> b
        \<longrightarrow> p_failed (pending_zip p q) = Some (KeysetMismatch a b))"
  by (simp add: well_scoped_ready well_scoped_request well_scoped_zip well_scoped_collect
      well_scoped_try_map pending_map_def well_scoped_scoped_to)
    (simp add: pending_zip_def pending_failed_def)

definition demo_request :: "uuid option \<Rightarrow> uuid \<Rightarrow> (nat, nat, data_key) pending" where
  "demo_request scope k = pending_request (0, scope) [RetrieveDataKey [] [] [] k] next_retrieved_key"

text \<open>
  C26. Settling a pending built under these rules, over any data-key source: one that failed
  during the build makes no call; one scoped to a keyset makes at most two, a generate and
  a retrieve, both under that keyset; one with no scope never mints and makes at most one
  retrieve per keyset its leaves were sealed under.\<close>

theorem settle_calls:
  assumes ws: "well_scoped p"
  shows "let log = snd (snd (settle max_len (\<lambda>c. logged (kms_of c)) p (s, []))) in
    (p_failed p \<noteq> None \<longrightarrow> log = [])
    \<and> (\<forall>k. p_keyset p = Some k \<longrightarrow> length log \<le> 2 \<and> (\<forall>c \<in> set log. call_keyset c = Some k))
    \<and> (p_keyset p = None \<longrightarrow> distinct (map call_keyset log) \<and> (\<forall>c \<in> set log. \<not> is_generate c
         \<and> call_keyset c \<in> retrieve_keyset ` set (p_requests p)))"
proof (cases "p_failed p")
  case (Some e)
  then show ?thesis by (simp add: settle_def)
next
  case None
  let ?reqs = "p_requests p"
  let ?log = "snd (snd (settle max_len (\<lambda>c. logged (kms_of c)) p (s, [])))"
  obtain gs rs where sr: "sort_requests ?reqs ([], []) = (gs, rs)" by fastforce
  define ks where "ks = first_seen (map rt_keyset rs)"
  define call where "call k = CallRetrieve (Some k) (map (\<lambda>i. payload (rs ! i)) (places k rs))" for k
  have eq: "?log = snd (snd (dispatch max_len (logged (kms_of (p_cipher p))) (p_keyset p) ?reqs (s, [])))"
    using None by (auto simp: settle_def split: prod.split sum.split)
  obtain n where "n \<le> length ks" and log: "?log = (if gs = [] \<or> p_keyset p = None
      \<or> \<not> list_all (fits max_len) (gs @ map rt_descriptor rs) then [] else [CallGenerate (p_keyset p) gs])
      @ map call (take n ks)"
    using dispatch_log [of ?reqs max_len "kms_of (p_cipher p)" "p_keyset p" s]
    unfolding eq sr ks_def call_def by auto
  have kset: "set ks = {k. Some k \<in> retrieve_keyset ` set ?reqs}" and dk: "distinct ks"
    using sort_requests_kinds(1) [of ?reqs] by (simp_all add: ks_def sr)
  have m: "\<forall>r \<in> set ?reqs. meets (p_keyset p) r" using ws None by (simp add: well_scoped_def)
  have "length ?log \<le> 2 \<and> (\<forall>c \<in> set ?log. call_keyset c = Some k)" if k: "p_keyset p = Some k" for k
  proof -
    have sub: "set ks \<subseteq> {k}"
    proof
      fix x assume "x \<in> set ks"
      then obtain r where "r \<in> set ?reqs" "retrieve_keyset r = Some x" using kset by force
      then show "x \<in> {k}" using m k by (auto simp: meets_def)
    qed
    have "length ks \<le> 1"
      using distinct_card [OF dk] card_mono [OF _ sub] by simp
    then have "length (take n ks) \<le> 1" by simp
    moreover have "\<forall>x \<in> set (take n ks). x = k" using sub set_take_subset [of n ks] by blast
    ultimately show ?thesis unfolding log using k by (auto simp: call_def)
  qed
  moreover have "distinct (map call_keyset ?log) \<and> (\<forall>c \<in> set ?log. \<not> is_generate c
      \<and> call_keyset c \<in> retrieve_keyset ` set ?reqs)" if k: "p_keyset p = None"
  proof -
    have l: "?log = map call (take n ks)" using k by (simp add: log)
    have mk: "map call_keyset ?log = map Some (take n ks)" by (simp add: l call_def comp_def)
    have "distinct (map call_keyset ?log)" unfolding mk using dk by (simp add: distinct_map)
    moreover have "set (take n ks) \<subseteq> {k. Some k \<in> retrieve_keyset ` set ?reqs}"
      using set_take_subset [of n ks] kset by blast
    ultimately show ?thesis unfolding l by (auto simp: call_def)
  qed
  ultimately show ?thesis using None by (simp add: Let_def)
qed

text \<open>A source that answers every batch: key bytes from the tag, for the examples.\<close>

definition echo_source :: "(nat, unit) key_source" where
  "echo_source =
     \<lparr>generate_keys = (\<lambda>gs k s. (Inr (map (\<lambda>g. \<lparr>kt_key = \<lparr>dk_iv = [1], dk_key = [2]\<rparr>, kt_tag = [2]\<rparr>) gs), s)),
      retrieve_keys = (\<lambda>ps k s. (collect (\<lambda>(v, d, t). Inr \<lparr>dk_iv = v, dk_key = t\<rparr>) ps, s))\<rparr>"

theorem settle_calls_witness:
  "snd (snd (settle 10 (\<lambda>c. logged echo_source)
       (pending_zip (demo_request (Some 7) 7) (demo_request (Some 8) 8)) ((), []))) = []
   \<and> length (snd (snd (settle 10 (\<lambda>c. logged echo_source)
       (pending_zip (demo_request (Some 7) 7) (demo_request (Some 7) 7)) ((), [])))) \<le> 2"
proof -
  let ?p = "\<lambda>k. pending_zip (demo_request (Some 7) 7) (demo_request (Some k) k)"
  have "well_scoped (?p 8)" "well_scoped (?p 7)" by (rule well_scoped_zip)+
  moreover have "p_failed (?p 8) \<noteq> None"
    by (simp add: demo_request_def pending_request_def pending_zip_def pending_failed_def)
  moreover have "p_keyset (?p 7) = Some 7" by (simp add: demo_request_def pending_request_def pending_zip_def)
  ultimately show ?thesis
    using settle_calls [of "?p 8" 10 "\<lambda>c. echo_source" "()"] settle_calls [of "?p 7" 10 "\<lambda>c. echo_source" "()"]
    unfolding Let_def by blast
qed

theorem dispatch_retrieves_pointwise_witness:
  "dispatch 10 echo_source None (map request_of
     [\<lparr>rt_iv = [1], rt_tag = [10], rt_descriptor = [], rt_keyset = 7\<rparr>,
      \<lparr>rt_iv = [2], rt_tag = [20], rt_descriptor = [], rt_keyset = 8\<rparr>,
      \<lparr>rt_iv = [3], rt_tag = [30], rt_descriptor = [], rt_keyset = 7\<rparr>]) ()
   = (Inr \<lparr>generated = [], retrieved = [\<lparr>dk_iv = [1], dk_key = [10]\<rparr>, \<lparr>dk_iv = [2], dk_key = [20]\<rparr>,
        \<lparr>dk_iv = [3], dk_key = [30]\<rparr>]\<rparr>, ())"
proof -
  let ?answer = "\<lambda>(s :: unit) (k :: uuid option) (v, d, t). Inr \<lparr>dk_iv = v, dk_key = t\<rparr> :: (nat, data_key) result"
  have src: "data_key_source echo_source ?answer"
    by unfold_locales (auto simp: echo_source_def)
  have fit: "list_all (fits 10) (map rt_descriptor
     [\<lparr>rt_iv = [1], rt_tag = [10], rt_descriptor = [], rt_keyset = 7\<rparr>,
      \<lparr>rt_iv = [2], rt_tag = [20], rt_descriptor = [], rt_keyset = 8\<rparr>,
      \<lparr>rt_iv = [3], rt_tag = [30], rt_descriptor = [], rt_keyset = 7\<rparr>])"
    by (simp add: fits_def descriptor_len_def as_bytes_def)
  show ?thesis
    using dispatch_retrieves_pointwise [OF src fit, where s = "()" and keyset = None]
    by (simp add: payload_def)
qed

section \<open>Isolation of fulfilments\<close>

text \<open>The responses of one item: as many as its requests asked for, in order.\<close>

definition append_responses :: "responses \<Rightarrow> responses \<Rightarrow> responses" where
  "append_responses a b = \<lparr>generated = generated a @ generated b, retrieved = retrieved a @ retrieved b\<rparr>"

fun own_result :: "('k, 't) fulfil \<Rightarrow> responses \<Rightarrow> ('k error, 't) result" where
  "own_result f own =
     (case f own of
        (Inl e, _) \<Rightarrow> Inl e
      | (Inr value, left) \<Rightarrow> if is_exhausted left then Inr value else Inl ResponseShape)"

lemma split_front_append:
  "length (generated own) = g \<Longrightarrow> length (retrieved own) = r
     \<Longrightarrow> split_front g r (append_responses own rest) = (Inr own, rest)"
  by (simp add: split_front_def append_responses_def)

lemma scoped_fulfil_own:
  assumes "length (generated own) = g" and "length (retrieved own) = r"
  shows "scoped_fulfil g r f (append_responses own rest) = (own_result f own, rest)"
  using assms by (cases "f own") (auto simp: scoped_fulfil_def split_front_append split: sum.split)

type_synonym ('k, 't) item = "request list \<times> ('k, 't) fulfil \<times> responses"

fun item_own :: "('k, 't) item \<Rightarrow> responses" where
  "item_own (reqs, f, own) = own"

fun item_ok :: "('k, 't) item \<Rightarrow> bool" where
  "item_ok (reqs, f, own) = (tally reqs = (length (generated own), length (retrieved own)))"

fun item_fulfil :: "('k, 't) item \<Rightarrow> ('k, 't) fulfil" where
  "item_fulfil (reqs, f, own) = scoped_fulfil (fst (tally reqs)) (snd (tally reqs)) f"

fun item_result :: "('k, 't) item \<Rightarrow> ('k error, 't) result" where
  "item_result (reqs, f, own) = own_result f own"

lemma item_fulfil_own: "item_ok it \<Longrightarrow> item_fulfil it (append_responses (item_own it) rest) = (item_result it, rest)"
  by (cases it) (simp add: scoped_fulfil_own del: own_result.simps)

lemma run_item_fulfils:
  "list_all item_ok items \<Longrightarrow>
     fst (run_fulfils (map item_fulfil items) (foldr append_responses (map item_own items) rest))
     = collect item_result items"
proof (induction items)
  case (Cons it items)
  let ?rest = "foldr append_responses (map item_own items) rest"
  have "item_fulfil it (append_responses (item_own it) ?rest) = (item_result it, ?rest)"
    using Cons.prems by (intro item_fulfil_own) simp
  with Cons show ?case by (cases "item_result it") (auto split: sum.splits prod.splits)
qed simp

lemma merge_scopes_self [simp]: "merge_scopes k k = Inr k"
  by (cases k) simp_all

lemma collect_items_ok:
  assumes "\<forall>p \<in> set ps. p_failed p = None \<and> p_keyset p = k"
  shows "collect_items ps k reqs fs = Inr (k, reqs @ concat (map p_requests ps), fs @ map p_fulfil ps)"
  using assms
proof (induction ps arbitrary: reqs fs)
  case (Cons p ps)
  then show ?case by simp
qed simp

text \<open>
  C25. A fulfilment sees exactly the responses its own requests asked for. In a column of
  pendings merged under one scope, each value is what its own fulfilment makes of its own
  slice of the responses, whatever the neighbours do; a fulfilment that draws more, or
  leaves a response behind, fails the column with \<open>ResponseShape\<close> instead of shifting a
  key to a sibling.\<close>

theorem column_fulfilments_are_isolated:
  fixes items :: "('k, 't) item list"
  assumes ok: "list_all item_ok items"
    and scope: "\<forall>it \<in> set items. check_scope keyset (fst it) = (Inr () :: ('k error, unit) result)"
  shows "let p = pending_collect (c, keyset) (map (\<lambda>it. pending_request (c, keyset) (fst it) (fst (snd it))) items) in
    p_failed p = None \<and> p_requests p = concat (map fst items)
    \<and> fst (p_fulfil p (foldr append_responses (map item_own items) rest)) = collect item_result items"
proof -
  let ?ps = "map (\<lambda>it. pending_request (c, keyset) (fst it) (fst (snd it))) items"
  have one: "p_failed (pending_request (c, keyset) (fst it) (fst (snd it))) = None
      \<and> p_keyset (pending_request (c, keyset) (fst it) (fst (snd it))) = keyset
      \<and> p_requests (pending_request (c, keyset) (fst it) (fst (snd it))) = fst it
      \<and> p_fulfil (pending_request (c, keyset) (fst it) (fst (snd it))) = item_fulfil it" if "it \<in> set items" for it
    using scope that by (cases it) (auto simp: pending_request_def case_prod_beta Let_def)
  have reqs: "map p_requests ?ps = map fst items" and fs: "map p_fulfil ?ps = map item_fulfil items"
    using one by simp_all
  have "collect_items ?ps keyset [] [] = Inr (keyset, concat (map p_requests ?ps), map p_fulfil ?ps)"
    using collect_items_ok [of ?ps keyset "[]" "[]"] one by simp
  then have ci: "collect_items ?ps keyset [] [] = Inr (keyset, concat (map fst items), map item_fulfil items)"
    unfolding reqs fs .
  have "\<forall>r \<in> set (concat (map fst items)). meets keyset r" using scope by (auto simp: check_scope_ok)
  then have cs: "check_scope keyset (concat (map fst items)) = (Inr () :: ('k error, unit) result)"
    using check_scope_ok by blast
  show ?thesis
    unfolding Let_def pending_collect_def using run_item_fulfils [OF ok, of rest] by (simp add: ci cs)
qed

theorem column_fulfilments_are_isolated_witness:
  "let key = (\<lambda>b. \<lparr>dk_iv = [], dk_key = [b]\<rparr> :: data_key);
       req = [RetrieveDataKey [] [] [] 7];
       p = pending_collect (0 :: nat, Some 7)
             (map (\<lambda>it. pending_request (0, Some 7) (fst it) (fst (snd it)))
               [(req, next_retrieved_key, \<lparr>generated = [], retrieved = [key 1]\<rparr>),
                (req, next_retrieved_key :: (nat, data_key) fulfil, \<lparr>generated = [], retrieved = [key 2]\<rparr>)])
   in fst (p_fulfil p \<lparr>generated = [], retrieved = [key 1, key 2]\<rparr>) = Inr [key 1, key 2]"
proof -
  let ?key = "\<lambda>b. \<lparr>dk_iv = [], dk_key = [b]\<rparr> :: data_key"
  let ?req = "[RetrieveDataKey [] [] [] 7]"
  let ?items = "[(?req, next_retrieved_key, \<lparr>generated = [], retrieved = [?key 1]\<rparr>),
                 (?req, next_retrieved_key :: (nat, data_key) fulfil, \<lparr>generated = [], retrieved = [?key 2]\<rparr>)]"
  have ok: "list_all item_ok ?items" by simp
  have sc: "\<forall>it \<in> set ?items. check_scope (Some 7) (fst it) = (Inr () :: (nat error, unit) result)" by simp
  have res: "collect item_result ?items = Inr [?key 1, ?key 2]"
    by (simp add: next_retrieved_key_def is_exhausted_def)
  show ?thesis
    using column_fulfilments_are_isolated [OF ok sc, of "0 :: nat" "\<lparr>generated = [], retrieved = []\<rparr>"] res
    unfolding Let_def by (simp add: append_responses_def)
qed

end
