(* ===== verification/Key_Source.thy ===== *)
theory Key_Source
  imports Pending
begin

text \<open>
  The in-memory data-key sources of \<open>packages/stack-kms/src/key_source.rs\<close>, over which
  the encryption layers are built and tested: \<open>FakeDataKeySource\<close>, which remembers
  random keys under their \<open>iv\<close> and tag, and \<open>DeterministicSource\<close>, which derives keys from
  a seed and the descriptor. Both provide the contract \<open>data_key_source\<close>; the second also
  provides \<open>sealing_source\<close>: what was generated is retrieved. The hash, the random source
  and the UUID v5 derivation are arguments.
\<close>

section \<open>The contract for sealing and opening\<close>

locale sealing_source = data_key_source +
  assumes generate_then_retrieve:
    "generate_keys kms gs k s = (Inr keys, s') \<Longrightarrow> i < length gs
       \<Longrightarrow> answer s' k (dk_iv (kt_key (keys ! i)), gs ! i, kt_tag (keys ! i)) = Inr (kt_key (keys ! i))"
begin

lemma reopen_all:
  assumes "generate_keys kms gs (Some k) s = (Inr keys, s')"
  shows "collect (\<lambda>r. answer s' (Some (rt_keyset r)) (payload r))
      (map2 (\<lambda>d kt. \<lparr>rt_iv = dk_iv (kt_key kt), rt_tag = kt_tag kt, rt_descriptor = d, rt_keyset = k\<rparr>) gs keys)
    = Inr (map kt_key keys)"
  unfolding collect_Inr_iff list_all2_conv_all_nth
  using generate_count [OF assms] generate_then_retrieve [OF assms] by (simp add: payload_def)

end

section \<open>FakeDataKeySource\<close>

datatype kms_error = GenerateIv | FailedRetrieval string | Forbidden

text \<open>The keys handed out, and how many draws the random source has made. \<open>None\<close> is a draw
  that failed.\<close>

record fake_state =
  fk_keys :: "iv \<times> bytes \<rightharpoonup> bytes"
  fk_drawn :: nat

fun fake_generate ::
  "(nat \<Rightarrow> (iv \<times> bytes \<times> bytes) option) \<Rightarrow> rstr list \<Rightarrow> uuid option \<Rightarrow> fake_state
     \<Rightarrow> (kms_error, data_key_with_tag list) result \<times> fake_state" where
  "fake_generate rng [] k s = (Inr [], s)"
| "fake_generate rng (p # ps) k s =
     (case rng (fk_drawn s) of
        None \<Rightarrow> (Inl GenerateIv, s\<lparr>fk_drawn := fk_drawn s + 1\<rparr>)
      | Some (v, key, tag) \<Rightarrow>
          (let s = s\<lparr>fk_drawn := fk_drawn s + 1, fk_keys := (fk_keys s)((v, tag) \<mapsto> key)\<rparr>
           in case fake_generate rng ps k s of
                (Inl e, s) \<Rightarrow> (Inl e, s)
              | (Inr keys, s) \<Rightarrow>
                  (Inr (\<lparr>kt_key = \<lparr>dk_iv = v, dk_key = key\<rparr>, kt_tag = tag\<rparr> # keys), s)))"

definition fake_answer :: "fake_state \<Rightarrow> uuid option \<Rightarrow> iv \<times> rstr \<times> bytes \<Rightarrow> (kms_error, data_key) result" where
  "fake_answer s k p =
     (case p of (v, _, tag) \<Rightarrow>
        (case fk_keys s (v, tag) of
           Some key \<Rightarrow> Inr \<lparr>dk_iv = v, dk_key = key\<rparr>
         | None \<Rightarrow> Inl (FailedRetrieval ''no key was generated with this iv and tag'')))"

definition fake_retrieve ::
  "(iv \<times> rstr \<times> bytes) list \<Rightarrow> uuid option \<Rightarrow> fake_state \<Rightarrow> (kms_error, data_key list) result \<times> fake_state" where
  "fake_retrieve ps k s = (collect (fake_answer s k) ps, s)"

definition fake_source :: "(nat \<Rightarrow> (iv \<times> bytes \<times> bytes) option) \<Rightarrow> (kms_error, fake_state) key_source" where
  "fake_source rng = \<lparr>generate_keys = fake_generate rng, retrieve_keys = fake_retrieve\<rparr>"

lemma fake_generate_count:
  "fake_generate rng gs k s = (Inr keys, s') \<Longrightarrow> length keys = length gs"
  by (induction rng gs k s arbitrary: keys s' rule: fake_generate.induct)
    (auto simp: Let_def split: option.splits prod.splits sum.splits)

interpretation fake: data_key_source "fake_source rng" fake_answer for rng
  by unfold_locales (auto simp: fake_source_def fake_retrieve_def fake_generate_count)

text \<open>Name resolution: the default keyset is reached by no name, the nil id or its
  reserved name; any other name has the id \<open>Uuid::new_v5\<close> derives for it.\<close>

definition DEFAULT_KEYSET_NAME :: string where
  "DEFAULT_KEYSET_NAME = ''default''"

definition KEYSET_NAME_NAMESPACE :: uuid where
  "KEYSET_NAME_NAMESPACE = 0x8ff81a034b2d4f0b9d6e5a1c3f7e2b41"

definition fake_load_index_key ::
  "(uuid \<Rightarrow> string \<Rightarrow> uuid) \<Rightarrow> (uuid \<Rightarrow> bytes) \<Rightarrow> identified_by option \<Rightarrow> uuid \<times> bytes" where
  "fake_load_index_key new_v5 index_hash keyset_id =
     (let resolved = (case keyset_id of
                        None \<Rightarrow> 0
                      | Some (Uuid i) \<Rightarrow> i
                      | Some (Name name) \<Rightarrow>
                          if name = DEFAULT_KEYSET_NAME then 0 else new_v5 KEYSET_NAME_NAMESPACE name)
      in (resolved, index_hash resolved))"

section \<open>DeterministicSource\<close>

definition IV_WIDTH :: nat where
  "IV_WIDTH = 16"

definition derive :: "(bytes \<Rightarrow> bytes) \<Rightarrow> bytes \<Rightarrow> string \<Rightarrow> rstr \<Rightarrow> bytes \<Rightarrow> bytes" where
  "derive sha256 seed what descriptor salt =
     sha256 (seed @ as_bytes (lit what) @ [0] @ as_bytes descriptor @ [0] @ salt)"

definition to_le_bytes :: "u64 \<Rightarrow> bytes" where
  "to_le_bytes n = map (\<lambda>i. ucast (drop_bit (8 * i) n)) [0..<8]"

text \<open>One payload of \<open>generate_keys\<close> with the counter's value.\<close>

definition det_key :: "(bytes \<Rightarrow> bytes) \<Rightarrow> bytes \<Rightarrow> rstr \<Rightarrow> u64 \<Rightarrow> data_key_with_tag" where
  "det_key sha256 seed descriptor n =
     (let v = take IV_WIDTH (derive sha256 seed ''iv'' descriptor (to_le_bytes n))
      in \<lparr>kt_key = \<lparr>dk_iv = v, dk_key = derive sha256 seed ''key'' descriptor v\<rparr>,
          kt_tag = derive sha256 seed ''tag'' descriptor v\<rparr>)"

fun det_generate ::
  "(bytes \<Rightarrow> bytes) \<Rightarrow> bytes \<Rightarrow> rstr list \<Rightarrow> uuid option \<Rightarrow> u64
     \<Rightarrow> (kms_error, data_key_with_tag list) result \<times> u64" where
  "det_generate sha256 seed [] k counter = (Inr [], counter)"
| "det_generate sha256 seed (d # ds) k counter =
     (let (rest, counter') = det_generate sha256 seed ds k (counter + 1)
      in (map_sum (\<lambda>e. e) (\<lambda>keys. det_key sha256 seed d counter # keys) rest, counter'))"

definition det_answer ::
  "(bytes \<Rightarrow> bytes) \<Rightarrow> bytes \<Rightarrow> u64 \<Rightarrow> uuid option \<Rightarrow> iv \<times> rstr \<times> bytes \<Rightarrow> (kms_error, data_key) result" where
  "det_answer sha256 seed counter k p =
     (case p of (v, d, tag) \<Rightarrow>
        if derive sha256 seed ''tag'' d v \<noteq> tag then Inl Forbidden
        else Inr \<lparr>dk_iv = v, dk_key = derive sha256 seed ''key'' d v\<rparr>)"

definition det_source :: "(bytes \<Rightarrow> bytes) \<Rightarrow> bytes \<Rightarrow> (kms_error, u64) key_source" where
  "det_source sha256 seed =
     \<lparr>generate_keys = det_generate sha256 seed,
      retrieve_keys = (\<lambda>ps k s. (collect (det_answer sha256 seed s k) ps, s))\<rparr>"

lemma det_generate_keys:
  "det_generate sha256 seed ds k c = (Inr keys, c') \<Longrightarrow>
     length keys = length ds \<and> (\<forall>i < length ds. \<exists>n. keys ! i = det_key sha256 seed (ds ! i) n)"
proof (induction ds arbitrary: c keys c')
  case (Cons d ds)
  then obtain rest where r: "det_generate sha256 seed ds k (c + 1) = (Inr rest, c')"
      "keys = det_key sha256 seed d c # rest"
    by (cases "fst (det_generate sha256 seed ds k (c + 1))") (auto simp: case_prod_beta Let_def prod_eq_iff)
  from Cons.IH [OF r(1)] r(2) show ?case by (auto simp: less_Suc_eq_0_disj)
qed simp

interpretation det: sealing_source "det_source sha256 seed" "det_answer sha256 seed" for sha256 seed
proof unfold_locales
  fix gs k s keys s' assume g: "generate_keys (det_source sha256 seed) gs k s = (Inr keys, s')"
  then show "length keys = length gs" by (simp add: det_source_def det_generate_keys)
  fix i assume "i < length gs"
  with g obtain n where "keys ! i = det_key sha256 seed (gs ! i) n"
    using det_generate_keys [of sha256 seed gs k s keys s'] by (auto simp: det_source_def)
  then show "det_answer sha256 seed s' k (dk_iv (kt_key (keys ! i)), gs ! i, kt_tag (keys ! i))
      = Inr (kt_key (keys ! i))"
    by (simp add: det_answer_def det_key_def Let_def)
qed (simp add: det_source_def)

lemma det_generate_ok: "\<exists>keys c'. det_generate sha256 seed ds k c = (Inr keys, c')"
proof (induction ds arbitrary: c)
  case (Cons d ds)
  then obtain keys c' where "det_generate sha256 seed ds k (c + 1) = (Inr keys, c')" by blast
  then show ?case by simp
qed simp

lemma det_mints:
  assumes "list_all (fits max_len) ds"
  shows "\<exists>rs c'. dispatch max_len (det_source sha256 seed) (Some k) (map GenerateDataKey ds) c = (Inr rs, c')"
proof -
  obtain keys c' where g: "det_generate sha256 seed ds (Some k) c = (Inr keys, c')"
    using det_generate_ok by blast
  have "generate_batch (det_source sha256 seed) (Some k) ds c = (Inr keys, c')"
    using g det_generate_keys [OF g] by (auto simp: generate_batch_def det_source_def)
  then show ?thesis
    using assms by (simp add: dispatch_def sort_requests_generates check_all_fits group_retrieves_def)
qed

text \<open>
  Sealing then opening through the batched path returns every data key: the keys a
  scoped batch mints are, when each leaf stores its \<open>iv\<close>, tag, descriptor and keyset, exactly
  the keys one batched open of those leaves gives back, in order.\<close>

lemma reopen_minted:
  assumes src: "sealing_source kms answer"
    and fit: "list_all (fits max_len) ds"
    and mint: "dispatch max_len kms (Some k) (map GenerateDataKey ds) s = (Inr rs, s')"
  shows "dispatch max_len kms keyset (map request_of
      (map2 (\<lambda>d kt. \<lparr>rt_iv = dk_iv (kt_key kt), rt_tag = kt_tag kt, rt_descriptor = d, rt_keyset = k\<rparr>)
         ds (generated rs))) s'
    = (Inr \<lparr>generated = [], retrieved = map kt_key (generated rs)\<rparr>, s')"
proof -
  have dks: "data_key_source kms answer" using src by (simp add: sealing_source_def)
  let ?rs = "map2 (\<lambda>d kt. \<lparr>rt_iv = dk_iv (kt_key kt), rt_tag = kt_tag kt, rt_descriptor = d, rt_keyset = k\<rparr>)
    ds (generated rs)"
  have g: "generate_batch kms (Some k) ds s = (Inr (generated rs), s')"
    using mint by (auto simp: dispatch_def sort_requests_generates check_all_fits fit group_retrieves_def
        split: prod.splits sum.splits)
  have reopen: "collect (\<lambda>r. answer s' (Some (rt_keyset r)) (payload r)) ?rs = Inr (map kt_key (generated rs))"
  proof (cases "ds = []")
    case True
    with g show ?thesis by (simp add: generate_batch_def)
  next
    case False
    with g have "generate_keys kms ds (Some k) s = (Inr (generated rs), s')"
      by (auto simp: generate_batch_def split: prod.splits sum.splits if_splits)
    then show ?thesis by (rule sealing_source.reopen_all [OF src])
  qed
  have "length (generated rs) = length ds"
    using g by (auto simp: generate_batch_def split: prod.splits sum.splits if_splits)
  then have "map rt_descriptor ?rs = ds" by (intro nth_equalityI) simp_all
  then have "list_all (fits max_len) (map rt_descriptor ?rs)" using fit by simp
  from dispatch_retrieves_pointwise_lemma [OF dks this, where s = s' and keyset = keyset]
  show ?thesis unfolding reopen sum.case .
qed

end
