(* ===== verification/Auth_Error.thy ===== *)
theory Auth_Error
  imports Rust_Str
begin

text \<open>
  The errors of \<open>packages/stack-auth/src/error.rs\<close>: the variants of \<open>AuthError\<close> with
  their codes and messages, the three classifications the callers act on, the wire form an
  error crosses a binding in and is rebuilt from, and the classification of a failed
  credential issuance. A foreign error a variant wraps is held as the text it displays;
  JSON parsing and workspace ids, of other crates, are arguments.
\<close>

section \<open>The variants\<close>

datatype auth_error =
    Request bool
  | AccessDenied
  | InvalidGrant
  | InvalidClient
  | InvalidUrl rstr
  | Region rstr
  | InvalidCrn rstr
  | WorkspaceMismatch rstr rstr
  | InvalidWorkspaceId rstr
  | MissingWorkspaceCrn
  | NotAuthenticated
  | TokenExpired
  | InvalidAccessKey rstr
  | InvalidToken rstr
  | UsageLimitExceeded rstr
  | OrgNotProvisioned rstr
  | Server rstr
  | AlreadyConsumed
  | Internal rstr
  | Custom rstr
  | Store rstr

text \<open>The codes of the \<open>codes\<close> module; the two account refusals take the values CTS sends.\<close>

fun error_code :: "auth_error \<Rightarrow> string" where
  "error_code (Request _) = ''REQUEST_ERROR''"
| "error_code AccessDenied = ''ACCESS_DENIED''"
| "error_code InvalidGrant = ''INVALID_GRANT''"
| "error_code InvalidClient = ''INVALID_CLIENT''"
| "error_code (InvalidUrl _) = ''INVALID_URL''"
| "error_code (Region _) = ''INVALID_REGION''"
| "error_code (InvalidCrn _) = ''INVALID_CRN''"
| "error_code (WorkspaceMismatch _ _) = ''WORKSPACE_MISMATCH''"
| "error_code (InvalidWorkspaceId _) = ''INVALID_WORKSPACE_ID''"
| "error_code MissingWorkspaceCrn = ''MISSING_WORKSPACE_CRN''"
| "error_code NotAuthenticated = ''NOT_AUTHENTICATED''"
| "error_code TokenExpired = ''EXPIRED_TOKEN''"
| "error_code (InvalidAccessKey _) = ''INVALID_ACCESS_KEY''"
| "error_code (InvalidToken _) = ''INVALID_TOKEN''"
| "error_code (UsageLimitExceeded _) = ''USAGE_LIMIT_EXCEEDED''"
| "error_code (OrgNotProvisioned _) = ''ORG_NOT_PROVISIONED''"
| "error_code (Server _) = ''SERVER_ERROR''"
| "error_code AlreadyConsumed = ''ALREADY_CONSUMED''"
| "error_code (Internal _) = ''INTERNAL_ERROR''"
| "error_code (Custom _) = ''CUSTOM''"
| "error_code (Store _) = ''STORE_ERROR''"

definition ERROR_CODES :: "string list" where
  "ERROR_CODES =
     [''REQUEST_ERROR'', ''ACCESS_DENIED'', ''INVALID_GRANT'', ''INVALID_CLIENT'', ''INVALID_URL'',
      ''INVALID_REGION'', ''INVALID_CRN'', ''WORKSPACE_MISMATCH'', ''INVALID_WORKSPACE_ID'',
      ''MISSING_WORKSPACE_CRN'', ''NOT_AUTHENTICATED'', ''EXPIRED_TOKEN'', ''INVALID_ACCESS_KEY'',
      ''INVALID_TOKEN'', ''USAGE_LIMIT_EXCEEDED'', ''ORG_NOT_PROVISIONED'', ''SERVER_ERROR'',
      ''ALREADY_CONSUMED'', ''INTERNAL_ERROR'', ''CUSTOM'', ''STORE_ERROR'']"

definition request_message :: "bool \<Rightarrow> rstr" where
  "request_message no_transport =
     (if no_transport
      then lit ''No HTTP transport: this build of stack-auth has no `http` feature, so the strategy must be given one with `.transport(..)`''
      else lit ''Request to the auth server failed'')"

text \<open>\<open>Display\<close>, which every variant takes from the struct it wraps.\<close>

fun display :: "auth_error \<Rightarrow> rstr" where
  "display (Request no_transport) = request_message no_transport"
| "display AccessDenied = lit ''Authorization was denied''"
| "display InvalidGrant = lit ''Invalid grant''"
| "display InvalidClient = lit ''Invalid client''"
| "display (InvalidUrl e) = lit ''Invalid URL: '' @ e"
| "display (Region e) = lit ''Unsupported region: '' @ e"
| "display (InvalidCrn e) = lit ''Invalid workspace CRN: '' @ e"
| "display (WorkspaceMismatch expected actual) =
     lit ''Workspace mismatch: token issued for '' @ actual
       @ lit '', but strategy is configured for '' @ expected"
| "display (InvalidWorkspaceId e) = lit ''Invalid workspace ID: '' @ e"
| "display MissingWorkspaceCrn =
     lit ''Workspace CRN is required when using an access key '' @ [0x2014]
       @ lit '' set CS_WORKSPACE_CRN or call AutoStrategyBuilder::with_workspace_crn''"
| "display NotAuthenticated = lit ''Not authenticated''"
| "display TokenExpired = lit ''Token expired''"
| "display (InvalidAccessKey e) = lit ''Invalid access key: '' @ e"
| "display (InvalidToken e) = lit ''Invalid token: '' @ e"
| "display (UsageLimitExceeded m) = m"
| "display (OrgNotProvisioned m) = m"
| "display (Server m) = lit ''Server error: '' @ m"
| "display AlreadyConsumed = lit ''Handle already consumed''"
| "display (Internal m) = lit ''Internal error: '' @ m"
| "display (Custom m) = m"
| "display (Store m) = lit ''Token store error: '' @ m"

fun auth_payload :: "auth_error \<Rightarrow> (string \<times> rstr) list" where
  "auth_payload (WorkspaceMismatch expected actual) = [(''expected'', expected), (''actual'', actual)]"
| "auth_payload _ = []"

section \<open>The classifications\<close>

fun is_credential_rejection :: "auth_error \<Rightarrow> bool" where
  "is_credential_rejection NotAuthenticated = True"
| "is_credential_rejection TokenExpired = True"
| "is_credential_rejection InvalidGrant = True"
| "is_credential_rejection InvalidClient = True"
| "is_credential_rejection (InvalidAccessKey _) = True"
| "is_credential_rejection AlreadyConsumed = True"
| "is_credential_rejection _ = False"

fun is_retryable :: "auth_error \<Rightarrow> bool" where
  "is_retryable (Request _) = True"
| "is_retryable (Server _) = True"
| "is_retryable (Internal _) = True"
| "is_retryable (Custom _) = True"
| "is_retryable (Store _) = True"
| "is_retryable _ = False"

fun is_account_refusal :: "auth_error \<Rightarrow> bool" where
  "is_account_refusal (UsageLimitExceeded _) = True"
| "is_account_refusal (OrgNotProvisioned _) = True"
| "is_account_refusal _ = False"

section \<open>The wire form\<close>

definition USAGE_LIMIT_DEFAULT :: rstr where
  "USAGE_LIMIT_DEFAULT = lit ''Workspace has exceeded its usage limit and cannot issue an access token''"

definition NOT_PROVISIONED_DEFAULT :: rstr where
  "NOT_PROVISIONED_DEFAULT =
     lit ''Organisation is not provisioned in the usage system and cannot issue an access token''"

definition default_if_blank :: "rstr \<Rightarrow> rstr \<Rightarrow> rstr" where
  "default_if_blank message dflt = (if trim message = [] then dflt else message)"

definition workspace_mismatch_from_payload ::
  "(rstr \<Rightarrow> rstr option) \<Rightarrow> (string \<times> rstr) list \<Rightarrow> auth_error option" where
  "workspace_mismatch_from_payload parse_workspace pl =
     (let parse = (\<lambda>key. Option.bind (map_of pl key) parse_workspace)
      in Option.bind (parse ''expected'') (\<lambda>expected.
         map_option (\<lambda>actual. WorkspaceMismatch expected actual) (parse ''actual'')))"

definition from_error_code ::
  "(rstr \<Rightarrow> rstr option) \<Rightarrow> string \<Rightarrow> rstr \<Rightarrow> (string \<times> rstr) list \<Rightarrow> auth_error" where
  "from_error_code parse_workspace code message pl =
     (if code = ''NOT_AUTHENTICATED'' then NotAuthenticated
      else if code = ''EXPIRED_TOKEN'' then TokenExpired
      else if code = ''ACCESS_DENIED'' then AccessDenied
      else if code = ''INVALID_GRANT'' then InvalidGrant
      else if code = ''INVALID_CLIENT'' then InvalidClient
      else if code = ''MISSING_WORKSPACE_CRN'' then MissingWorkspaceCrn
      else if code = ''ALREADY_CONSUMED'' then AlreadyConsumed
      else if code = ''USAGE_LIMIT_EXCEEDED''
        then UsageLimitExceeded (default_if_blank message USAGE_LIMIT_DEFAULT)
      else if code = ''ORG_NOT_PROVISIONED''
        then OrgNotProvisioned (default_if_blank message NOT_PROVISIONED_DEFAULT)
      else if code = ''WORKSPACE_MISMATCH''
        then (case workspace_mismatch_from_payload parse_workspace pl of
                Some e \<Rightarrow> e | None \<Rightarrow> Custom message)
      else Custom message)"

section \<open>Failed issuance\<close>

text \<open>A parsed JSON value, as far as the classifier looks at one.\<close>

datatype json = JStr rstr | JObj "(string \<times> json) list" | JOther

fun as_str :: "json \<Rightarrow> rstr option" where
  "as_str (JStr s) = Some s"
| "as_str _ = None"

fun json_get :: "string \<Rightarrow> json \<Rightarrow> json option" where
  "json_get key (JObj fields) = map_of fields key"
| "json_get key _ = None"

fun is_object :: "json \<Rightarrow> bool" where
  "is_object (JObj _) = True"
| "is_object _ = False"

datatype refusal = UsageLimit | NotProvisioned

definition recognised :: "rstr \<Rightarrow> refusal option" where
  "recognised code =
     (if code = lit ''USAGE_LIMIT_EXCEEDED'' then Some UsageLimit
      else if code = lit ''ORG_NOT_PROVISIONED'' then Some NotProvisioned
      else None)"

text \<open>A field of the body that is a string and not blank, trimmed.\<close>

definition text_field :: "json \<Rightarrow> string \<Rightarrow> rstr option" where
  "text_field parsed name =
     Option.bind (json_get name parsed) (\<lambda>value.
     Option.bind (map_option trim (as_str value)) (\<lambda>s. if s = [] then None else Some s))"

definition classify_issuance_failure :: "(rstr \<Rightarrow> json option) \<Rightarrow> nat \<Rightarrow> rstr \<Rightarrow> auth_error option" where
  "classify_issuance_failure parse status body =
     (if status \<noteq> 402 then None
      else if trim body = [] then Some (UsageLimitExceeded USAGE_LIMIT_DEFAULT)
      else case parse body of
             None \<Rightarrow> None
           | Some parsed \<Rightarrow>
               if \<not> is_object parsed then None
               else (case (case json_get ''cs_code'' parsed of
                             Some value \<Rightarrow>
                               recognised (case map_option trim (as_str value) of Some s \<Rightarrow> s | None \<Rightarrow> [])
                           | None \<Rightarrow> Some UsageLimit) of
                       None \<Rightarrow> None
                     | Some r \<Rightarrow>
                         (let description = text_field parsed ''error_description''
                          in Some (case r of
                               UsageLimit \<Rightarrow> UsageLimitExceeded
                                 (case description of Some d \<Rightarrow> d | None \<Rightarrow> USAGE_LIMIT_DEFAULT)
                             | NotProvisioned \<Rightarrow> OrgNotProvisioned
                                 (case description of Some d \<Rightarrow> d | None \<Rightarrow> NOT_PROVISIONED_DEFAULT)))))"

text \<open>\<open>ServerError::refused\<close>: the status and the description, never the body.\<close>

definition refused :: "(rstr \<Rightarrow> json option) \<Rightarrow> nat \<Rightarrow> rstr \<Rightarrow> auth_error" where
  "refused parse status body =
     (case Option.bind (parse body) (\<lambda>value. text_field value ''error_description'') of
        Some description \<Rightarrow> Server (dec status @ lit '': '' @ description)
      | None \<Rightarrow> Server (dec status))"

section \<open>Facts\<close>

text \<open>What \<open>recognised\<close> accepts, and that a description is never blank.\<close>

lemma text_field_not_blank: "text_field parsed name = Some d \<Longrightarrow> trim d \<noteq> []"
  by (auto simp: text_field_def bind_eq_Some_conv trim_trim_Nil split: if_splits)

lemma defaults_not_blank: "trim USAGE_LIMIT_DEFAULT \<noteq> []" "trim NOT_PROVISIONED_DEFAULT \<noteq> []"
  by (simp_all add: trim_eq_Nil USAGE_LIMIT_DEFAULT_def NOT_PROVISIONED_DEFAULT_def lit_def is_whitespace_def)

text \<open>An account refusal survives the wire with no payload, if its message is not blank.\<close>

lemma refusal_round_trip:
  assumes "is_account_refusal e" and "trim (display e) \<noteq> []"
  shows "from_error_code pw (error_code e) (display e) [] = e"
  using assms by (cases e) (auto simp: from_error_code_def default_if_blank_def)

lemma classify_refusal:
  assumes "classify_issuance_failure parse status body = Some e"
  shows "status = 402 \<and> is_account_refusal e \<and> trim (display e) \<noteq> []"
  using assms defaults_not_blank
  by (auto simp: classify_issuance_failure_def Let_def text_field_not_blank
      split: if_splits option.splits refusal.splits)

section \<open>Properties\<close>

text \<open>The published list of codes is exactly the set of codes an error can have, without
  repetition.\<close>

theorem error_codes_exact: "set ERROR_CODES = range error_code \<and> distinct ERROR_CODES"
proof
  have "set ERROR_CODES = error_code ` {Request False, AccessDenied, InvalidGrant, InvalidClient,
      InvalidUrl [], Region [], InvalidCrn [], WorkspaceMismatch [] [], InvalidWorkspaceId [],
      MissingWorkspaceCrn, NotAuthenticated, TokenExpired, InvalidAccessKey [], InvalidToken [],
      UsageLimitExceeded [], OrgNotProvisioned [], Server [], AlreadyConsumed, Internal [], Custom [], Store []}"
    by (simp add: ERROR_CODES_def)
  then have "set ERROR_CODES \<subseteq> range error_code" by blast
  moreover have "error_code e \<in> set ERROR_CODES" for e by (cases e) (simp_all add: ERROR_CODES_def)
  ultimately show "set ERROR_CODES = range error_code" by blast
  show "distinct ERROR_CODES" by (simp add: ERROR_CODES_def)
qed

text \<open>The three classifications agree: an account refusal is neither retryable nor a
  credential rejection, and a credential rejection is not retryable; so at most one of
  ``retry'', ``get a fresh credential'' and ``nothing helps until the account changes''
  applies to any error.\<close>

theorem classifications_exclusive:
  "(is_account_refusal e \<longrightarrow> \<not> is_retryable e \<and> \<not> is_credential_rejection e)
   \<and> (is_credential_rejection e \<longrightarrow> \<not> is_retryable e)"
  by (cases e) simp_all

theorem classifications_exclusive_witness:
  "is_account_refusal (UsageLimitExceeded []) \<and> \<not> is_retryable (UsageLimitExceeded [])
   \<and> is_credential_rejection InvalidGrant \<and> \<not> is_retryable InvalidGrant"
  using classifications_exclusive [of "UsageLimitExceeded []"] classifications_exclusive [of InvalidGrant] by simp

text \<open>
  An error that crosses a binding and comes back reads as it did: its message is kept,
  and it is the same error or, where the variant wraps a foreign error, the catch-all with
  that message. Account refusals and workspace mismatches come back as themselves.\<close>

theorem wire_round_trip:
  assumes ws: "\<And>x y. e = WorkspaceMismatch x y \<Longrightarrow> pw x = Some x \<and> pw y = Some y"
    and blank: "is_account_refusal e \<Longrightarrow> trim (display e) \<noteq> []"
  shows "let e' = from_error_code pw (error_code e) (display e) (auth_payload e) in
    display e' = display e \<and> (e' = e \<or> e' = Custom (display e))
    \<and> (is_account_refusal e \<or> (\<exists>x y. e = WorkspaceMismatch x y) \<longrightarrow> e' = e)"
proof (cases "is_account_refusal e")
  case True
  then have "auth_payload e = []" by (cases e) simp_all
  with refusal_round_trip [OF True blank [OF True]] show ?thesis by simp
next
  case False
  then show ?thesis
    using ws by (cases e) (simp_all add: from_error_code_def workspace_mismatch_from_payload_def Let_def)
qed

text \<open>
  C32. Only a 402 is classified, only as an account refusal, and always as one with a
  message, so that the refusal survives being stored as its code and message and rebuilt
  for a later caller.\<close>

theorem classified_refusals_replay_exactly:
  assumes "classify_issuance_failure parse status body = Some e"
  shows "status = 402 \<and> is_account_refusal e \<and> display e \<noteq> []
    \<and> from_error_code pw (error_code e) (display e) [] = e"
  using classify_refusal [OF assms] refusal_round_trip [of e pw] by (auto simp: trim_def)

theorem classified_refusals_replay_exactly_witness:
  "classify_issuance_failure (\<lambda>_. Some (JObj [(''cs_code'', JStr (lit '' ORG_NOT_PROVISIONED '')),
       (''error_description'', JStr (lit ''call us''))])) 402 (lit ''x'') = Some (OrgNotProvisioned (lit ''call us''))
   \<and> from_error_code Some ''ORG_NOT_PROVISIONED'' (lit ''call us'') [] = OrgNotProvisioned (lit ''call us'')"
proof -
  have c: "classify_issuance_failure (\<lambda>_. Some (JObj [(''cs_code'', JStr (lit '' ORG_NOT_PROVISIONED '')),
       (''error_description'', JStr (lit ''call us''))])) 402 (lit ''x'') = Some (OrgNotProvisioned (lit ''call us''))"
    by (simp add: classify_issuance_failure_def text_field_def recognised_def trim_def lit_def is_whitespace_def)
  from classified_refusals_replay_exactly [OF c, of Some] show ?thesis using c by simp
qed

end
