(* ===== verification/Auto_Refresh.thy ===== *)
theory Auto_Refresh
  imports Auth_Error
begin

text \<open>
  The token engine of \<open>packages/stack-auth/src/auto_refresh.rs\<close>, with the expiry rules of
  \<open>token.rs\<close> and the refreshers it drives. The code between two suspension points is one
  function of the state; the interleaving of callers, refresh tasks, notifications,
  cancellations and clock changes is the step relation of \<open>Refresh_Machine\<close>. A refresh
  exchange and a store read are events with any outcome.
\<close>

section \<open>Tokens\<close>

record token =
  access_token :: rstr
  refresh_token :: "rstr option"
  token_type :: rstr
  expires_at :: u64
  t_region :: "rstr option"
  t_client_id :: "rstr option"
  t_device_instance_id :: "rstr option"
  t_federated_from :: "rstr option"

definition EXPIRY_LEEWAY_SECS :: u64 where
  "EXPIRY_LEEWAY_SECS = 90"

definition is_expired_at :: "token \<Rightarrow> u64 \<Rightarrow> bool" where
  "is_expired_at t now = (sat_add now EXPIRY_LEEWAY_SECS \<ge> expires_at t)"

definition is_usable_at :: "token \<Rightarrow> u64 \<Rightarrow> bool" where
  "is_usable_at t now = (now < expires_at t)"

definition expires_in_at :: "token \<Rightarrow> u64 \<Rightarrow> u64" where
  "expires_in_at t now = sat_sub (expires_at t) now"

definition take_refresh_token :: "token \<Rightarrow> rstr option \<times> token" where
  "take_refresh_token t = (refresh_token t, t\<lparr>refresh_token := None\<rparr>)"

section \<open>Refreshers\<close>

text \<open>
  What a refresher does to the cached token: the credential it extracts, with the token as
  it leaves it, and the token with the credential put back.
\<close>

record 'c refresher =
  try_credential :: "token option \<Rightarrow> 'c option \<times> token option"
  restore :: "token \<Rightarrow> 'c \<Rightarrow> token"

definition device_session_refresher :: "rstr refresher" where
  "device_session_refresher =
     \<lparr>try_credential = (\<lambda>token.
        (case token of
           None \<Rightarrow> (None, None)
         | Some t \<Rightarrow> (let (credential, t) = take_refresh_token t in (credential, Some t)))),
      restore = (\<lambda>t credential. t\<lparr>refresh_token := Some credential\<rparr>)\<rparr>"

definition access_key_refresher :: "unit refresher" where
  "access_key_refresher = \<lparr>try_credential = (\<lambda>token. (Some (), token)), restore = (\<lambda>t _. t)\<rparr>"

definition jwt_refresher :: "unit refresher" where
  "jwt_refresher = \<lparr>try_credential = (\<lambda>token. (Some (), token)), restore = (\<lambda>t _. t)\<rparr>"

text \<open>The contract: extraction changes neither the bearer token nor its expiry, needs a
  token where there is one, and restoring undoes it.\<close>

locale refresher_laws =
  fixes R :: "'c refresher"
  assumes try_keeps: "try_credential R (Some t) = (c, t') \<Longrightarrow>
      \<exists>u. t' = Some u \<and> access_token u = access_token t \<and> expires_at u = expires_at t"
    and restore_undoes: "try_credential R (Some t) = (Some x, Some u) \<Longrightarrow> restore R u x = t"
    and try_none: "try_credential R None = (c, t') \<Longrightarrow> t' = None"
    and no_credential: "try_credential R (Some t) = (None, t') \<Longrightarrow> t' = Some t"
begin

lemma try_cases:
  obtains (none) "try_credential R (Some t) = (None, Some t)"
    | (credential) c u where "try_credential R (Some t) = (Some c, Some u)" "restore R u c = t"
        "access_token u = access_token t" "expires_at u = expires_at t"
proof -
  obtain c t' where ct: "try_credential R (Some t) = (c, t')" by fastforce
  show thesis
  proof (cases c)
    case None
    with ct no_credential [of t t'] none show thesis by simp
  next
    case (Some x)
    from try_keeps [OF ct] obtain u where "t' = Some u" "access_token u = access_token t"
      "expires_at u = expires_at t" by blast
    with ct Some restore_undoes credential show thesis by blast
  qed
qed

end

interpretation device: refresher_laws device_session_refresher
  by unfold_locales (auto simp: device_session_refresher_def take_refresh_token_def)

interpretation access_key: refresher_laws access_key_refresher
  by unfold_locales (auto simp: access_key_refresher_def)

interpretation jwt: refresher_laws jwt_refresher
  by unfold_locales (auto simp: jwt_refresher_def)

section \<open>Refusals\<close>

definition DENIAL_TTL_SECS :: u64 where
  "DENIAL_TTL_SECS = 60"

record sticky_denial =
  sd_code :: string
  sd_message :: rstr
  sd_recorded_at :: u64

definition sticky_new :: "auth_error \<Rightarrow> u64 \<Rightarrow> sticky_denial" where
  "sticky_new err now = \<lparr>sd_code = error_code err, sd_message = display err, sd_recorded_at = now\<rparr>"

definition is_stale :: "sticky_denial \<Rightarrow> u64 \<Rightarrow> bool" where
  "is_stale d now = (now < sd_recorded_at d \<or> now - sd_recorded_at d \<ge> DENIAL_TTL_SECS)"

text \<open>Rebuilding an error from its code and message, with no payload.\<close>

definition rebuild :: "string \<Rightarrow> rstr \<Rightarrow> auth_error" where
  "rebuild code message = from_error_code (\<lambda>_. None) code message []"

definition to_error :: "sticky_denial \<Rightarrow> auth_error" where
  "to_error d = rebuild (sd_code d) (sd_message d)"

definition credential_consumed :: "auth_error \<Rightarrow> bool" where
  "credential_consumed err = (case err of Store _ \<Rightarrow> True | _ \<Rightarrow> False)"

section \<open>The locked state\<close>

record state =
  s_token :: "token option"
  s_denial :: "sticky_denial option"
  s_last_error :: "(string \<times> rstr) option"

definition state_new :: "token option \<Rightarrow> state" where
  "state_new token = \<lparr>s_token = token, s_denial = None, s_last_error = None\<rparr>"

datatype auto_refresh_error = NotFound | Expired | Auth auth_error

type_synonym outcome = "(auto_refresh_error, rstr) result"

fun into_auth_error :: "auto_refresh_error \<Rightarrow> auth_error" where
  "into_auth_error NotFound = NotAuthenticated"
| "into_auth_error Expired = TokenExpired"
| "into_auth_error (Auth e) = e"

definition record_refusal :: "auth_error \<Rightarrow> u64 \<Rightarrow> state \<Rightarrow> state" where
  "record_refusal err now s =
     (let s = (if is_account_refusal err then s\<lparr>s_denial := Some (sticky_new err now)\<rparr> else s)
      in s\<lparr>s_last_error := Some (error_code err, display err)\<rparr>)"

definition last_refresh_error :: "state \<Rightarrow> auth_error option" where
  "last_refresh_error s = map_option (\<lambda>(code, message). rebuild code message) (s_last_error s)"

definition fresh_denial :: "u64 \<Rightarrow> state \<Rightarrow> auth_error option \<times> state" where
  "fresh_denial now s =
     (case s_denial s of
        Some d \<Rightarrow> if \<not> is_stale d now then (Some (to_error d), s) else (None, s\<lparr>s_denial := None\<rparr>)
      | None \<Rightarrow> (None, s))"

definition service_token :: "state \<Rightarrow> outcome" where
  "service_token s = (case s_token s of None \<Rightarrow> Inl NotFound | Some t \<Rightarrow> Inr (access_token t))"

definition require_usable_token :: "u64 \<Rightarrow> state \<Rightarrow> outcome" where
  "require_usable_token now s =
     (case s_token s of
        None \<Rightarrow> Inl NotFound
      | Some t \<Rightarrow> if is_usable_at t now then Inr (access_token t) else Inl Expired)"

definition token_usable :: "u64 \<Rightarrow> state \<Rightarrow> bool" where
  "token_usable now s = (case s_token s of Some t \<Rightarrow> is_usable_at t now | None \<Rightarrow> False)"

section \<open>The engine between suspension points\<close>

text \<open>
  The first part of \<open>get_token\<close>, under the lock: \<open>None\<close> is going on to read the store with
  the lock dropped, which only a call that finds no token does.
\<close>

definition enter_cold :: "u64 \<Rightarrow> state \<Rightarrow> outcome option \<times> state" where
  "enter_cold now s =
     (case fresh_denial now s of
        (Some err, s) \<Rightarrow> (Some (Inl (Auth err)), s)
      | (None, s) \<Rightarrow> (None, s))"

definition accept_loaded :: "token option \<Rightarrow> state \<Rightarrow> state" where
  "accept_loaded loaded s = (if s_token s = None then s\<lparr>s_token := loaded\<rparr> else s)"

text \<open>The rest of it, from the clock reading on: return, wait for the refresh in flight, or
  start one with a credential.\<close>

datatype 'c decision = Return outcome | Wait | Start 'c

definition decide :: "'c refresher \<Rightarrow> u64 \<Rightarrow> bool \<Rightarrow> state \<Rightarrow> 'c decision \<times> state" where
  "decide R now in_progress s =
     (case s_token s of
        None \<Rightarrow>
          (case fresh_denial now s of
             (Some err, s) \<Rightarrow> (Return (Inl (Auth err)), s)
           | (None, s) \<Rightarrow>
               (case fst (try_credential R None) of
                  None \<Rightarrow> (Return (Inl NotFound), s)
                | Some c \<Rightarrow> (Start c, s)))
      | Some t \<Rightarrow>
          if \<not> is_expired_at t now then (Return (service_token s), s)
          else if in_progress then (Wait, s)
          else
            (case fresh_denial now s of
               (Some err, s) \<Rightarrow>
                 (Return (if is_usable_at t now then service_token s else Inl (Auth err)), s)
             | (None, s) \<Rightarrow>
                 (case try_credential R (Some t) of
                    (None, t') \<Rightarrow> (let s = s\<lparr>s_token := t'\<rparr> in (Return (require_usable_token now s), s))
                  | (Some c, t') \<Rightarrow> (Start c, s\<lparr>s_token := t'\<rparr>))))"

text \<open>\<open>install_refreshed_token\<close>, without the flag, which is the machine's.\<close>

definition install_refreshed_token :: "token \<Rightarrow> state \<Rightarrow> rstr \<times> state" where
  "install_refreshed_token new_token s =
     (access_token new_token,
      s\<lparr>s_token := Some new_token, s_denial := None, s_last_error := None\<rparr>)"

text \<open>What both refresh paths do to the state when the exchange failed.\<close>

definition refresh_failed :: "'c refresher \<Rightarrow> auth_error \<Rightarrow> 'c \<Rightarrow> u64 \<Rightarrow> state \<Rightarrow> state" where
  "refresh_failed R err credential now s =
     (let s = (if credential_consumed err then s
               else s\<lparr>s_token := map_option (\<lambda>t. restore R t credential) (s_token s)\<rparr>)
      in record_refusal err now s)"

text \<open>The answer of a failed background refresh to the caller that started it.\<close>

definition failed_answer :: "auth_error \<Rightarrow> u64 \<Rightarrow> u64 \<Rightarrow> rstr \<Rightarrow> outcome" where
  "failed_answer err now current_expires_at current_token =
     (if credential_consumed err \<or> now \<ge> current_expires_at then Inl (Auth err) else Inr current_token)"

text \<open>\<open>wait_for_in_flight_refresh\<close>: the answer without waiting, and the answer after it.\<close>

definition wait_shortcut :: "u64 \<Rightarrow> state \<Rightarrow> outcome option" where
  "wait_shortcut now s =
     (case service_token s of
        Inr token \<Rightarrow> if token_usable now s then Some (Inr token) else None
      | Inl _ \<Rightarrow> None)"

definition after_wait :: "u64 \<Rightarrow> state \<Rightarrow> outcome \<times> state" where
  "after_wait now s =
     (case require_usable_token now s of
        Inr token \<Rightarrow> (Inr token, s)
      | Inl unusable \<Rightarrow>
          (case fresh_denial now s of
             (Some err, s) \<Rightarrow> (Inl (Auth err), s)
           | (None, s) \<Rightarrow>
               (case last_refresh_error s of
                  Some err \<Rightarrow> (if err \<noteq> TokenExpired then (Inl (Auth err), s) else (Inl unusable, s))
                | None \<Rightarrow> (Inl unusable, s))))"

section \<open>Facts\<close>

lemma not_expired_usable: "\<not> is_expired_at t now \<Longrightarrow> is_usable_at t now"
proof -
  assume "\<not> is_expired_at t now"
  then have "unat (sat_add now EXPIRY_LEEWAY_SECS) < unat (expires_at t)"
    by (simp add: is_expired_at_def word_less_nat_alt not_le)
  moreover have "unat now \<le> unat (sat_add now EXPIRY_LEEWAY_SECS)"
    using unsigned_less [of now, where 'a = nat] by (simp add: unat_sat_add)
  ultimately show ?thesis by (simp add: is_usable_at_def word_less_nat_alt)
qed

lemma fresh_denial_cases:
  obtains (fresh) d where "s_denial s = Some d" "\<not> is_stale d now" "fresh_denial now s = (Some (to_error d), s)"
    | (none) "fresh_denial now s = (None, s\<lparr>s_denial := None\<rparr>)" "\<And>d. s_denial s = Some d \<Longrightarrow> is_stale d now"
proof (cases "s_denial s")
  case None
  then have "s\<lparr>s_denial := None\<rparr> = s" by simp
  with None show thesis using none by (simp add: fresh_denial_def)
next
  case (Some d)
  then show thesis using fresh none by (cases "is_stale d now") (auto simp: fresh_denial_def)
qed

lemma fresh_denial_state: "snd (fresh_denial now s) = s \<or> snd (fresh_denial now s) = s\<lparr>s_denial := None\<rparr>"
  by (auto simp: fresh_denial_def split: option.split)

lemma fresh_denial_token [simp]: "s_token (snd (fresh_denial now s)) = s_token s"
  using fresh_denial_state [of now s] by auto

lemma fresh_denial_tokenD: "fresh_denial now s = (x, s') \<Longrightarrow> s_token s' = s_token s"
  using fresh_denial_token [of now s] by simp

lemma record_refusal_token [simp]: "s_token (record_refusal err now s) = s_token s"
  by (simp add: record_refusal_def Let_def)

lemma decide_cold:
  assumes "s_token s = None"
  shows "fst (decide R now f s) \<noteq> Wait" "s_token (snd (decide R now f s)) = None"
  using assms by (auto simp: decide_def dest: fresh_denial_tokenD split: prod.split option.split)

lemma decide_start:
  assumes "refresher_laws R" and d: "decide R now f s = (Start c, s')"
  shows "(s_token s = None \<and> s_token s' = None) \<or>
    (\<not> f \<and> (\<exists>t u. s_token s = Some t \<and> s_token s' = Some u \<and> restore R u c = t
       \<and> access_token u = access_token t \<and> expires_at u = expires_at t \<and> is_expired_at t now))"
proof (cases "s_token s")
  case None
  then show ?thesis using decide_cold(2) [OF None, of R now f] d by simp
next
  case (Some t)
  then have f: "\<not> f" "is_expired_at t now" and tc: "fst (try_credential R (Some t)) = Some c"
      "s_token s' = snd (try_credential R (Some t))"
    using d by (auto simp: decide_def Let_def split: if_splits prod.splits option.splits)
  show ?thesis
  proof (cases rule: refresher_laws.try_cases [OF assms(1), of t, case_names none credential])
    case none
    with tc show ?thesis by simp
  next
    case (credential c' u)
    with tc f Some show ?thesis by auto
  qed
qed

lemma decide_token_kept:
  assumes "refresher_laws R" and "s_token s \<noteq> None"
  shows "s_token (snd (decide R now f s)) \<noteq> None"
proof -
  obtain t where t: "s_token s = Some t" using assms(2) by blast
  show ?thesis
  proof (cases rule: refresher_laws.try_cases [OF assms(1), of t, case_names none credential])
    case none
    with t show ?thesis
      by (auto simp: decide_def Let_def dest: fresh_denial_tokenD split: prod.split option.split)
  next
    case (credential c u)
    with t show ?thesis
      by (auto simp: decide_def Let_def dest: fresh_denial_tokenD split: prod.split option.split)
  qed
qed

lemma sat_before_ttl: "now \<le> now' \<Longrightarrow> unat now' < unat now + 60 \<Longrightarrow> \<not> is_stale \<lparr>sd_code = a, sd_message = b, sd_recorded_at = now\<rparr> now'"
  by (auto simp: is_stale_def DENIAL_TTL_SECS_def word_le_nat_alt word_less_nat_alt unat_sub_if_size)

lemma sat_after_ttl: "unat now + 60 \<le> unat now' \<or> now' < now \<Longrightarrow> is_stale \<lparr>sd_code = a, sd_message = b, sd_recorded_at = now\<rparr> now'"
  by (auto simp: is_stale_def DENIAL_TTL_SECS_def word_le_nat_alt word_less_nat_alt unat_sub_if_size)

lemma fresh_denial_recorded:
  assumes "is_account_refusal e" and "trim (display e) \<noteq> []"
    and "now \<le> now'" and "unat now' < unat now + 60"
  shows "fresh_denial now' (record_refusal e now s) = (Some e, record_refusal e now s)"
proof -
  have "rebuild (error_code e) (display e) = e"
    using refusal_round_trip [OF assms(1,2)] by (simp add: rebuild_def)
  then show ?thesis
    using sat_before_ttl [OF assms(3,4), of "error_code e" "display e"] assms(1)
    by (simp add: fresh_denial_def record_refusal_def Let_def sticky_new_def to_error_def)
qed

lemma fresh_denial_lapsed:
  assumes "is_account_refusal e" and "unat now + 60 \<le> unat now' \<or> now' < now"
  shows "fst (fresh_denial now' (record_refusal e now s)) = None"
  using sat_after_ttl [OF assms(2), of "error_code e" "display e"] assms(1)
  by (simp add: fresh_denial_def record_refusal_def Let_def sticky_new_def)

section \<open>Properties\<close>

text \<open>
  A call that is answered from the cache is answered with the cached bearer token, and
  only while that token is usable: before its real expiry, and without a refresh only
  outside the leeway.\<close>

theorem decide_returns_usable:
  assumes "refresher_laws R" and "decide R now f s = (Return (Inr bearer), s')"
  shows "\<exists>t. s_token s = Some t \<and> bearer = access_token t \<and> is_usable_at t now"
proof (cases "s_token s")
  case None
  with assms(2) show ?thesis by (auto simp: decide_def split: prod.splits option.splits)
next
  case (Some t)
  have den: "s_token x = Some t" if "fresh_denial now s = (y, x)" for x y
    using fresh_denial_tokenD [OF that] Some by simp
  show ?thesis
  proof (cases rule: refresher_laws.try_cases [OF assms(1), of t, case_names none credential])
    case none
    with assms(2) Some not_expired_usable [of t now] show ?thesis
      by (auto simp: decide_def Let_def service_token_def require_usable_token_def dest: den
          split: if_splits prod.splits option.splits)
  next
    case (credential c u)
    with assms(2) Some not_expired_usable [of t now] show ?thesis
      by (auto simp: decide_def Let_def service_token_def dest: den
          split: if_splits prod.splits option.splits)
  qed
qed

text \<open>
  C34. The expiry arithmetic is exact at every clock reading a machine integer can hold: a
  token counts as fresh exactly while more than ninety seconds remain, the saturation near
  the top of the range included, so a fresh token is usable and has at least that long to
  live; and it counts as usable exactly while any time remains.\<close>

theorem expiry_window_exact:
  "(\<not> is_expired_at t now \<longleftrightarrow> unat now + 90 < unat (expires_at t))
   \<and> (\<not> is_expired_at t now \<longleftrightarrow> 90 < unat (expires_in_at t now))
   \<and> (is_usable_at t now \<longleftrightarrow> 0 < unat (expires_in_at t now))"
proof -
  have lim: "unat (expires_at t) < 2 ^ 64" using unsigned_less [of "expires_at t", where 'a = nat] by simp
  have leeway: "unat (sat_add now EXPIRY_LEEWAY_SECS) = min (unat now + 90) (2 ^ 64 - 1)"
    by (simp add: unat_sat_add EXPIRY_LEEWAY_SECS_def)
  have "\<not> is_expired_at t now \<longleftrightarrow> unat (sat_add now EXPIRY_LEEWAY_SECS) < unat (expires_at t)"
    by (simp add: is_expired_at_def word_less_nat_alt not_le)
  then have "\<not> is_expired_at t now \<longleftrightarrow> unat now + 90 < unat (expires_at t)"
    unfolding leeway using lim by (auto simp: min_def)
  moreover have "unat (expires_in_at t now) = unat (expires_at t) - unat now"
    by (simp add: expires_in_at_def unat_sat_sub)
  ultimately show ?thesis by (auto simp: is_usable_at_def word_less_nat_alt)
qed

definition demo_token :: "u64 \<Rightarrow> rstr option \<Rightarrow> token" where
  "demo_token expiry rt =
     \<lparr>access_token = lit ''bearer'', refresh_token = rt, token_type = lit ''Bearer'', expires_at = expiry,
      t_region = None, t_client_id = None, t_device_instance_id = None, t_federated_from = None\<rparr>"

lemma demo_try: "try_credential device_session_refresher (Some (demo_token x (Some c)))
    = (Some c, Some (demo_token x None))"
  by (simp add: device_session_refresher_def take_refresh_token_def demo_token_def)

text \<open>
  C23. An account refusal stops the requests, and only for its window. For sixty seconds
  after it was recorded every call that has no usable token gets that very refusal and
  starts no exchange; a call with a usable token still gets the token. After the window,
  or once the clock has stepped back behind the record, the next call that finds an expired
  token cached asks again.\<close>

theorem refusal_suppresses_requests:
  assumes laws: "refresher_laws R"
    and ref: "is_account_refusal e" "trim (display e) \<noteq> []"
  shows "(now \<le> now' \<and> unat now' < unat now + 60 \<longrightarrow>
      enter_cold now' (record_refusal e now s) = (Some (Inl (Auth e)), record_refusal e now s)
      \<and> (\<forall>c. fst (decide R now' False (record_refusal e now s)) \<noteq> Start c)
      \<and> (\<not> token_usable now' s \<longrightarrow>
           fst (decide R now' False (record_refusal e now s)) = Return (Inl (Auth e)))
      \<and> (\<forall>t. s_token s = Some t \<and> is_usable_at t now' \<longrightarrow>
           fst (decide R now' False (record_refusal e now s)) = Return (Inr (access_token t))))
    \<and> (unat now + 60 \<le> unat now' \<or> now' < now \<longrightarrow>
      (\<forall>c t. s_token s = Some t \<and> is_expired_at t now' \<and> fst (try_credential R (Some t)) = Some c
         \<longrightarrow> fst (decide R now' False (record_refusal e now s)) = Start c))"
proof (intro conjI impI allI)
  assume w: "now \<le> now' \<and> unat now' < unat now + 60"
  note fd = fresh_denial_recorded [OF ref, of now now' s]
  show "enter_cold now' (record_refusal e now s) = (Some (Inl (Auth e)), record_refusal e now s)"
    using w fd by (simp add: enter_cold_def)
  show "fst (decide R now' False (record_refusal e now s)) \<noteq> Start c" for c
    using w fd by (simp add: decide_def split: option.split)
  show "fst (decide R now' False (record_refusal e now s)) = Return (Inl (Auth e))"
    if "\<not> token_usable now' s"
    using w fd that not_expired_usable by (auto simp: decide_def token_usable_def split: option.split)
  show "fst (decide R now' False (record_refusal e now s)) = Return (Inr (access_token t))"
    if "s_token s = Some t \<and> is_usable_at t now'" for t
    using w fd that by (simp add: decide_def service_token_def)
next
  fix c t
  assume l: "unat now + 60 \<le> unat now' \<or> now' < now"
    and t: "s_token s = Some t \<and> is_expired_at t now' \<and> fst (try_credential R (Some t)) = Some c"
  obtain s' where "fresh_denial now' (record_refusal e now s) = (None, s')"
    using fresh_denial_lapsed [OF ref(1) l, of s] by (metis prod.collapse)
  moreover obtain u where "try_credential R (Some t) = (Some c, u)" using t by (metis prod.collapse)
  ultimately show "fst (decide R now' False (record_refusal e now s)) = Start c"
    using t by (simp add: decide_def)
qed

theorem refusal_suppresses_requests_witness:
  "let s = record_refusal (UsageLimitExceeded (lit ''over'')) 100 (state_new (Some (demo_token 50 (Some (lit ''r''))))) in
   fst (decide device_session_refresher 159 False s) = Return (Inl (Auth (UsageLimitExceeded (lit ''over''))))
   \<and> fst (decide device_session_refresher 160 False s) = Start (lit ''r'')"
proof -
  let ?e = "UsageLimitExceeded (lit ''over'')" and ?s0 = "state_new (Some (demo_token 50 (Some (lit ''r''))))"
  have r: "is_account_refusal ?e" "trim (display ?e) \<noteq> []"
    by (simp_all add: trim_eq_Nil lit_def is_whitespace_def)
  have u: "\<not> token_usable 159 ?s0" by (simp add: token_usable_def state_new_def demo_token_def is_usable_at_def)
  have x: "s_token ?s0 = Some (demo_token 50 (Some (lit ''r'')))
      \<and> is_expired_at (demo_token 50 (Some (lit ''r''))) 160
      \<and> fst (try_credential device_session_refresher (Some (demo_token 50 (Some (lit ''r''))))) = Some (lit ''r'')"
    by (simp add: state_new_def demo_try)
      (simp add: is_expired_at_def demo_token_def sat_add_def EXPIRY_LEEWAY_SECS_def)
  have "unat (159 :: u64) < unat (100 :: u64) + 60" "unat (100 :: u64) + 60 \<le> unat (160 :: u64)" by simp_all
  then show ?thesis
    using refusal_suppresses_requests [OF device.refresher_laws_axioms r, of 100 159 ?s0]
      refusal_suppresses_requests [OF device.refresher_laws_axioms r, of 100 160 ?s0] u x
    by (simp add: Let_def)
qed

text \<open>
  C24. A refresh that fails leaves the cached token exactly as it was before the attempt,
  credential included, unless the failure says the credential was spent: then it is not put
  back, whatever the refresher, and the cached token has no refresh token to replay.\<close>

theorem failed_refresh_restores_credential:
  assumes laws: "refresher_laws R" and start: "decide R now False s = (Start c, s')"
  shows "(\<not> credential_consumed err \<longrightarrow> s_token (refresh_failed R err c now' s') = s_token s)
    \<and> (credential_consumed err \<longrightarrow> s_token (refresh_failed R err c now' s') = s_token s')"
  using decide_start [OF laws start] by (auto simp: refresh_failed_def Let_def)

theorem failed_refresh_restores_credential_witness:
  "let (d, s') = decide device_session_refresher 950 False (state_new (Some (demo_token 1000 (Some (lit ''r''))))) in
   s_token (refresh_failed device_session_refresher InvalidGrant (lit ''r'') 960 s') = Some (demo_token 1000 (Some (lit ''r'')))
   \<and> s_token (refresh_failed device_session_refresher (Store []) (lit ''r'') 960 s') = Some (demo_token 1000 None)"
proof -
  let ?s = "state_new (Some (demo_token 1000 (Some (lit ''r''))))"
  have exp: "is_expired_at (demo_token 1000 x) 950" for x
    by (simp add: is_expired_at_def demo_token_def sat_add_def EXPIRY_LEEWAY_SECS_def)
  have d: "decide device_session_refresher 950 False ?s = (Start (lit ''r''), state_new (Some (demo_token 1000 None)))"
    by (simp add: decide_def exp state_new_def fresh_denial_def demo_try)
  show ?thesis
    using failed_refresh_restores_credential [OF device.refresher_laws_axioms d, of InvalidGrant 960]
      failed_refresh_restores_credential [OF device.refresher_laws_axioms d, of "Store []" 960]
    by (simp add: d credential_consumed_def) (simp add: state_new_def)
qed

lemma refresh_failed_token: "s_token (refresh_failed R err c now s) = None \<longleftrightarrow> s_token s = None"
  by (simp add: refresh_failed_def Let_def)

lemma rebuild_display: "is_account_refusal e \<longrightarrow> trim (display e) \<noteq> [] \<Longrightarrow>
    display (rebuild (error_code e) (display e)) = display e"
  by (cases e) (simp_all add: rebuild_def from_error_code_def default_if_blank_def workspace_mismatch_from_payload_def)

lemma rebuild_plain: "err \<in> {NotAuthenticated, TokenExpired, AccessDenied, InvalidGrant, InvalidClient,
    MissingWorkspaceCrn, AlreadyConsumed} \<Longrightarrow> rebuild (error_code err) (display err) = err"
  by (auto simp: rebuild_def from_error_code_def)

lemma rebuild_expired: "rebuild (error_code err) (display err) = TokenExpired \<Longrightarrow> err = TokenExpired"
  by (cases err) (simp_all add: rebuild_def from_error_code_def workspace_mismatch_from_payload_def)

lemma after_failed_wait:
  assumes "s_denial s = None" "s_token s \<noteq> None" "is_account_refusal err \<longrightarrow> trim (display err) \<noteq> []"
    and unus: "\<not> token_usable now (refresh_failed R err c at s)"
  shows "into_auth_error (projl (fst (after_wait now (refresh_failed R err c at s)))) = rebuild (error_code err) (display err)
    \<and> \<not> is_ok (fst (after_wait now (refresh_failed R err c at s)))"
proof -
  let ?s = "refresh_failed R err c at s"
  obtain t where t: "s_token ?s = Some t" 
    using assms(2) refresh_failed_token [of R err c at s] by (cases "s_token ?s") simp_all
  with unus have req: "require_usable_token now ?s = Inl Expired"
    by (simp add: token_usable_def require_usable_token_def)
  have last: "s_last_error ?s = Some (error_code err, display err)"
    by (simp add: refresh_failed_def record_refusal_def Let_def)
  have den: "s_denial ?s = (if is_account_refusal err then Some (sticky_new err at) else None)"
    using assms(1) by (simp add: refresh_failed_def record_refusal_def Let_def)
  show ?thesis
  proof (cases rule: fresh_denial_cases [of ?s now, case_names fresh none])
    case (fresh d)
    with den have "d = sticky_new err at" by (auto split: if_splits)
    with fresh req show ?thesis by (simp add: after_wait_def to_error_def sticky_new_def)
  next
    case none
    with req last show ?thesis
      using rebuild_expired [of err] by (auto simp: after_wait_def last_refresh_error_def rebuild_plain)
  qed
qed

text \<open>
  A caller that waited for a refresh which failed, and left no usable token, learns why:
  its error has the message of the error the refresh got, and is that very error when the
  code and the message determine it, which account refusals and the refusals without details
  are.\<close>

theorem waiters_learn_the_outcome:
  assumes "s_denial s = None" "s_token s \<noteq> None" "is_account_refusal err \<longrightarrow> trim (display err) \<noteq> []"
    and "\<not> token_usable now (refresh_failed R err c at s)"
  shows "\<exists>e. fst (after_wait now (refresh_failed R err c at s)) = Inl e
    \<and> display (into_auth_error e) = display err
    \<and> (is_account_refusal err \<or> err \<in> {NotAuthenticated, TokenExpired, AccessDenied, InvalidGrant, InvalidClient,
         MissingWorkspaceCrn, AlreadyConsumed} \<longrightarrow> into_auth_error e = err)"
proof -
  obtain e where e: "fst (after_wait now (refresh_failed R err c at s)) = Inl e"
    using after_failed_wait [OF assms] by (cases "fst (after_wait now (refresh_failed R err c at s))") auto
  with after_failed_wait [OF assms] have r: "into_auth_error e = rebuild (error_code err) (display err)" by simp
  have "display (into_auth_error e) = display err" unfolding r by (rule rebuild_display [OF assms(3)])
  moreover have "into_auth_error e = err" if "is_account_refusal err"
    using refusal_round_trip [OF that, of "\<lambda>_. None"] assms(3) that unfolding r rebuild_def by blast
  moreover have "err \<in> {NotAuthenticated, TokenExpired, AccessDenied, InvalidGrant, InvalidClient,
         MissingWorkspaceCrn, AlreadyConsumed} \<Longrightarrow> into_auth_error e = err" unfolding r by (rule rebuild_plain)
  ultimately show ?thesis by (intro exI [of _ e] conjI impI e) (blast | assumption)+
qed

text \<open>The waiter's error is not always the one the refresh got: it is rebuilt from the code
  and the message alone, so an error with details comes back as the catch-all, in another
  class. An invalid access key, which is a credential rejection, reaches a waiter as an error
  that reads as retryable.\<close>

theorem waiter_error_changes_class:
  "fst (after_wait 100 (refresh_failed access_key_refresher (InvalidAccessKey m) () 90
       (state_new (Some (demo_token 50 None))))) = Inl (Auth (Custom (display (InvalidAccessKey m))))
   \<and> is_credential_rejection (InvalidAccessKey m) \<and> \<not> is_retryable (InvalidAccessKey m)
   \<and> \<not> is_credential_rejection (Custom (display (InvalidAccessKey m)))
   \<and> is_retryable (Custom (display (InvalidAccessKey m)))"
  by (simp add: after_wait_def require_usable_token_def refresh_failed_def record_refusal_def state_new_def
      credential_consumed_def access_key_refresher_def demo_token_def is_usable_at_def fresh_denial_def
      last_refresh_error_def rebuild_def from_error_code_def Let_def)

end
