(* ===== verification/Refresh_Machine.thy ===== *)
theory Refresh_Machine
  imports Auto_Refresh
begin

text \<open>
  The interleaving of \<open>packages/stack-auth/src/auto_refresh.rs\<close>: any number of callers of
  \<open>get_token\<close> and the refresh tasks they spawn, sharing the state lock, the in-progress flag
  and the list of notified waiters. A step is the code between two points at which another
  thread can act; the lock-free stores and notifications of \<open>CancelGuard::drop\<close> are steps of
  their own, and so are registering on the notify list, dropping the lock and rechecking the
  flag. A refresh exchange and a store read end with any result at any time, the clock
  changes at any time and in any direction, a caller can be cancelled wherever it is
  suspended, a running task can die wherever it is suspended, and a spawned task can be
  dropped before it is first polled. The inline variant for \<open>wasm32\<close> is not modelled.
\<close>

section \<open>The engine\<close>

datatype owner = ByCaller nat | ByTask nat

text \<open>Where a call of \<open>get_token\<close> is.\<close>

datatype caller_pc =
    NoCall
  | Entering
  | Loading
  | Relocking "token option"
  | Registering
  | Registered
  | Parked
  | Rechecking u64
  | Joining nat
  | Done outcome
  | Cancelled

text \<open>Where a refresh task is; \<open>NB\<close> is the path that lets go of the lock.\<close>

datatype 'c task_pc =
    NoTask
  | Spawned 'c
  | ExchangingB 'c
  | SavingB token
  | ExchangingNB 'c rstr u64
  | SavingNB token
  | InstallingNB token
  | FailingNB auth_error 'c rstr u64
  | Notifying outcome
  | Dropping
  | Ended outcome
  | Dead

record 'c engine =
  st :: state
  lock :: "owner option"
  in_progress :: bool
  listed :: "nat set"
  n_callers :: nat
  callers :: "nat \<Rightarrow> caller_pc"
  n_tasks :: nat
  tasks :: "nat \<Rightarrow> 'c task_pc"
  clock :: u64
  saved :: "token list"

definition engine_new :: "token option \<Rightarrow> u64 \<Rightarrow> 'c engine" where
  "engine_new token now =
     \<lparr>st = state_new token, lock = None, in_progress = False, listed = {}, n_callers = 0,
      callers = (\<lambda>_. NoCall), n_tasks = 0, tasks = (\<lambda>_. NoTask), clock = now, saved = []\<rparr>"

abbreviation at_caller :: "nat \<Rightarrow> caller_pc \<Rightarrow> 'c engine \<Rightarrow> 'c engine" where
  "at_caller i pc E \<equiv> E\<lparr>callers := (callers E)(i := pc)\<rparr>"

abbreviation at_task :: "nat \<Rightarrow> 'c task_pc \<Rightarrow> 'c engine \<Rightarrow> 'c engine" where
  "at_task t pc E \<equiv> E\<lparr>tasks := (tasks E)(t := pc)\<rparr>"

section \<open>The steps of a caller\<close>

text \<open>
  \<open>get_token\<close> from the reading of the clock on, with the lock just taken and the state it
  guards being \<open>s\<close>: it returns, begins to wait (still holding the lock), or hands the lock
  to the task it spawns.
\<close>

definition begin_wait :: "nat \<Rightarrow> 'c engine \<Rightarrow> 'c engine" where
  "begin_wait i E =
     (case wait_shortcut (clock E) (st E) of
        Some r \<Rightarrow> at_caller i (Done r) E
      | None \<Rightarrow> (at_caller i Registering E)\<lparr>lock := Some (ByCaller i)\<rparr>)"

definition start_refresh :: "nat \<Rightarrow> 'c \<Rightarrow> 'c engine \<Rightarrow> 'c engine" where
  "start_refresh i c E =
     (let t = n_tasks E
      in (at_caller i (Joining t) (at_task t (Spawned c) E))
           \<lparr>in_progress := True, lock := Some (ByTask t), n_tasks := Suc t\<rparr>)"

definition proceed :: "'c refresher \<Rightarrow> nat \<Rightarrow> state \<Rightarrow> 'c engine \<Rightarrow> 'c engine" where
  "proceed R i s E =
     (case decide R (clock E) (in_progress E) s of
        (Return r, s') \<Rightarrow> at_caller i (Done r) (E\<lparr>st := s'\<rparr>)
      | (Wait, s') \<Rightarrow> begin_wait i (E\<lparr>st := s'\<rparr>)
      | (Start c, s') \<Rightarrow> start_refresh i c (E\<lparr>st := s'\<rparr>))"

definition get_token_enter :: "'c refresher \<Rightarrow> nat \<Rightarrow> 'c engine \<Rightarrow> 'c engine" where
  "get_token_enter R i E =
     (if s_token (st E) = None
      then (case enter_cold (clock E) (st E) of
              (Some r, s') \<Rightarrow> at_caller i (Done r) (E\<lparr>st := s'\<rparr>)
            | (None, s') \<Rightarrow> at_caller i Loading (E\<lparr>st := s'\<rparr>))
      else proceed R i (st E) E)"

definition recheck_flag :: "nat \<Rightarrow> 'c engine \<Rightarrow> 'c engine" where
  "recheck_flag i E = at_caller i (if in_progress E then Parked else Rechecking (clock E)) E"

definition finish_wait :: "nat \<Rightarrow> u64 \<Rightarrow> 'c engine \<Rightarrow> 'c engine" where
  "finish_wait i now E =
     (case after_wait now (st E) of
        (r, s') \<Rightarrow> (at_caller i (Done r) E)\<lparr>st := s', listed := listed E - {i}\<rparr>)"

definition TASK_TERMINATED :: auth_error where
  "TASK_TERMINATED = Internal (lit ''token refresh task terminated before completion'')"

section \<open>The steps of a refresh task\<close>

text \<open>\<open>run_refresh\<close> up to the exchange: the lock is dropped while the cached token is usable.\<close>

definition run_refresh :: "nat \<Rightarrow> 'c \<Rightarrow> 'c engine \<Rightarrow> 'c engine" where
  "run_refresh t c E =
     (case s_token (st E) of
        Some tok \<Rightarrow>
          if is_usable_at tok (clock E)
          then (at_task t (ExchangingNB c (access_token tok) (expires_at tok)) E)\<lparr>lock := None\<rparr>
          else at_task t (ExchangingB c) E
      | None \<Rightarrow> at_task t (ExchangingB c) E)"

definition blocking_installed :: "nat \<Rightarrow> token \<Rightarrow> 'c engine \<Rightarrow> 'c engine" where
  "blocking_installed t tok E =
     (case install_refreshed_token tok (st E) of
        (bearer, s') \<Rightarrow> (at_task t (Ended (Inr bearer)) E)
           \<lparr>st := s', in_progress := False, lock := None, saved := saved E @ [tok]\<rparr>)"

definition blocking_failed :: "'c refresher \<Rightarrow> nat \<Rightarrow> 'c \<Rightarrow> auth_error \<Rightarrow> 'c engine \<Rightarrow> 'c engine" where
  "blocking_failed R t c err E =
     (at_task t (Ended (Inl (Auth err))) E)
       \<lparr>st := refresh_failed R err c (clock E) (st E), in_progress := False, lock := None\<rparr>"

definition nonblocking_installed :: "nat \<Rightarrow> token \<Rightarrow> 'c engine \<Rightarrow> 'c engine" where
  "nonblocking_installed t tok E =
     (case install_refreshed_token tok (st E) of
        (bearer, s') \<Rightarrow> (at_task t (Notifying (Inr bearer)) E)\<lparr>st := s', in_progress := False\<rparr>)"

definition nonblocking_failed ::
  "'c refresher \<Rightarrow> nat \<Rightarrow> auth_error \<Rightarrow> 'c \<Rightarrow> rstr \<Rightarrow> u64 \<Rightarrow> u64 \<Rightarrow> 'c engine \<Rightarrow> 'c engine" where
  "nonblocking_failed R t err c bearer expiry now' E =
     (at_task t (Notifying (failed_answer err now' expiry bearer)) E)
       \<lparr>st := refresh_failed R err c (clock E) (st E), in_progress := False\<rparr>"

definition notify_waiters :: "'c engine \<Rightarrow> 'c engine" where
  "notify_waiters E = E\<lparr>listed := {}\<rparr>"

definition release_task_lock :: "nat \<Rightarrow> 'c engine \<Rightarrow> 'c engine" where
  "release_task_lock t E = (if lock E = Some (ByTask t) then E\<lparr>lock := None\<rparr> else E)"

text \<open>The points at which a caller and a polled task are suspended.\<close>

fun suspended :: "caller_pc \<Rightarrow> bool" where
  "suspended Entering = True"
| "suspended Loading = True"
| "suspended (Relocking _) = True"
| "suspended Parked = True"
| "suspended (Rechecking _) = True"
| "suspended (Joining _) = True"
| "suspended _ = False"

fun guarded :: "'c task_pc \<Rightarrow> bool" where
  "guarded (ExchangingB _) = True"
| "guarded (SavingB _) = True"
| "guarded (ExchangingNB _ _ _) = True"
| "guarded (SavingNB _) = True"
| "guarded (InstallingNB _) = True"
| "guarded (FailingNB _ _ _ _) = True"
| "guarded _ = False"

section \<open>The machine\<close>

datatype label = Arrive | Tick | Run | Cancel | Die | Abort

inductive step :: "'c refresher \<Rightarrow> label \<Rightarrow> 'c engine \<Rightarrow> 'c engine \<Rightarrow> bool" for R where
  arrive: "step R Arrive E ((at_caller (n_callers E) Entering E)\<lparr>n_callers := Suc (n_callers E)\<rparr>)"
| tick: "step R Tick E (E\<lparr>clock := now\<rparr>)"
| enter: "step R Run E (get_token_enter R i E)"
    if "callers E i = Entering" "lock E = None"
| loaded: "step R Run E (at_caller i (Relocking loaded) E)"
    if "callers E i = Loading"
| relock: "step R Run E (proceed R i (accept_loaded loaded (st E)) E)"
    if "callers E i = Relocking loaded" "lock E = None"
| register: "step R Run E ((at_caller i Registered E)\<lparr>listed := insert i (listed E), lock := None\<rparr>)"
    if "callers E i = Registering"
| recheck: "step R Run E (recheck_flag i E)"
    if "callers E i = Registered"
| wake: "step R Run E (at_caller i (Rechecking (clock E)) E)"
    if "callers E i = Parked" "i \<notin> listed E"
| finish: "step R Run E (finish_wait i now E)"
    if "callers E i = Rechecking now" "lock E = None"
| joined: "step R Run E (at_caller i (Done r) E)"
    if "callers E i = Joining t" "tasks E t = Ended r"
| join_failed: "step R Run E (at_caller i (Done (Inl (Auth TASK_TERMINATED))) E)"
    if "callers E i = Joining t" "tasks E t = Dead"
| cancel: "step R Cancel E ((at_caller i Cancelled E)\<lparr>listed := listed E - {i}\<rparr>)"
    if "suspended (callers E i)"
| run: "step R Run E (run_refresh t c E)"
    if "tasks E t = Spawned c"
| exchanged_b: "step R Run E (at_task t (SavingB tok) E)"
    if "tasks E t = ExchangingB c"
| saved_b: "step R Run E (blocking_installed t tok E)"
    if "tasks E t = SavingB tok"
| refused_b: "step R Run E (blocking_failed R t c err E)"
    if "tasks E t = ExchangingB c"
| exchanged_nb: "step R Run E (at_task t (SavingNB tok) E)"
    if "tasks E t = ExchangingNB c bearer expiry"
| saved_nb: "step R Run E ((at_task t (InstallingNB tok) E)\<lparr>saved := saved E @ [tok]\<rparr>)"
    if "tasks E t = SavingNB tok"
| installed_nb: "step R Run E (nonblocking_installed t tok E)"
    if "tasks E t = InstallingNB tok" "lock E = None"
| refused_nb: "step R Run E (at_task t (FailingNB err c bearer expiry) E)"
    if "tasks E t = ExchangingNB c bearer expiry"
| failed_nb: "step R Run E (nonblocking_failed R t err c bearer expiry now' E)"
    if "tasks E t = FailingNB err c bearer expiry" "lock E = None"
| notified: "step R Run E (at_task t (Ended r) (notify_waiters E))"
    if "tasks E t = Notifying r"
| die: "step R Die E ((at_task t Dropping E)\<lparr>in_progress := False\<rparr>)"
    if "guarded (tasks E t)"
| dropped: "step R Run E (at_task t Dead (release_task_lock t (notify_waiters E)))"
    if "tasks E t = Dropping"
| abort: "step R Abort E (at_task t Dead (release_task_lock t E))"
    if "tasks E t = Spawned c"

text \<open>The states a fresh engine reaches by steps of the kinds in \<open>L\<close>.\<close>

inductive reach :: "'c refresher \<Rightarrow> label set \<Rightarrow> 'c engine \<Rightarrow> bool" for R L where
  init: "reach R L (engine_new token now)"
| onward: "reach R L E \<Longrightarrow> a \<in> L \<Longrightarrow> step R a E E' \<Longrightarrow> reach R L E'"

section \<open>What the tasks hold\<close>

fun active :: "'c task_pc \<Rightarrow> bool" where
  "active (Spawned _) = True"
| "active pc = guarded pc"

fun holds_lock :: "'c task_pc \<Rightarrow> bool" where
  "holds_lock (Spawned _) = True"
| "holds_lock (ExchangingB _) = True"
| "holds_lock (SavingB _) = True"
| "holds_lock _ = False"

definition lets_go :: "'c task_pc \<Rightarrow> bool" where
  "lets_go pc = (guarded pc \<and> \<not> holds_lock pc)"

fun notifier :: "'c task_pc \<Rightarrow> bool" where
  "notifier (Notifying _) = True"
| "notifier Dropping = True"
| "notifier _ = False"

text \<open>
  The invariant of every interleaving: tasks and callers beyond the counters do not exist,
  at most one task is refreshing and the flag is set while one is, a task that has not let
  go of the lock holds it and so does a caller that is about to register, and nobody else
  does; while a refresh runs without the lock there is a cached token.
\<close>

definition engine_inv :: "'c engine \<Rightarrow> bool" where
  "engine_inv E \<longleftrightarrow>
     (\<forall>t. n_tasks E \<le> t \<longrightarrow> tasks E t = NoTask)
     \<and> (\<forall>i. n_callers E \<le> i \<longrightarrow> callers E i = NoCall)
     \<and> (\<forall>t u. active (tasks E t) \<longrightarrow> active (tasks E u) \<longrightarrow> t = u)
     \<and> (\<forall>t. active (tasks E t) \<longrightarrow> in_progress E)
     \<and> (\<forall>t. holds_lock (tasks E t) \<longrightarrow> lock E = Some (ByTask t))
     \<and> (\<forall>t. lock E = Some (ByTask t) \<longrightarrow> holds_lock (tasks E t) \<or> tasks E t = Dropping)
     \<and> (\<forall>i. lock E = Some (ByCaller i) \<longleftrightarrow> callers E i = Registering)
     \<and> (\<forall>t. lets_go (tasks E t) \<longrightarrow> s_token (st E) \<noteq> None)"

lemma guarded_active: "guarded pc \<Longrightarrow> active pc"
  by (cases pc) auto

lemma holds_lock_active: "holds_lock pc \<Longrightarrow> active pc"
  by (cases pc) auto

lemma lets_go_simps [simp]:
  "\<not> lets_go NoTask" "\<not> lets_go (Spawned c)" "\<not> lets_go (ExchangingB c)" "\<not> lets_go (SavingB tok)"
  "lets_go (ExchangingNB c b x)" "lets_go (SavingNB tok)" "lets_go (InstallingNB tok)"
  "lets_go (FailingNB e c b x)" "\<not> lets_go (Notifying r)" "\<not> lets_go Dropping" "\<not> lets_go (Ended r)" "\<not> lets_go Dead"
  by (simp_all add: lets_go_def)

lemma engine_inv_new: "engine_inv (engine_new token now)"
  by (simp add: engine_inv_def engine_new_def)

lemma engine_invD:
  assumes "engine_inv E"
  shows inv_no_task: "n_tasks E \<le> t \<Longrightarrow> tasks E t = NoTask"
    and inv_no_call: "n_callers E \<le> i \<Longrightarrow> callers E i = NoCall"
    and inv_single: "active (tasks E t) \<Longrightarrow> active (tasks E u) \<Longrightarrow> t = u"
    and inv_flag: "active (tasks E t) \<Longrightarrow> in_progress E"
    and inv_holds: "holds_lock (tasks E t) \<Longrightarrow> lock E = Some (ByTask t)"
    and inv_held: "lock E = Some (ByTask t) \<Longrightarrow> holds_lock (tasks E t) \<or> tasks E t = Dropping"
    and inv_caller: "lock E = Some (ByCaller i) \<longleftrightarrow> callers E i = Registering"
    and inv_token: "lets_go (tasks E t) \<Longrightarrow> s_token (st E) \<noteq> None"
  using assms unfolding engine_inv_def by blast+

text \<open>A free lock leaves no task that holds it, and no caller about to register.\<close>

lemma free_not_holding: "engine_inv E \<Longrightarrow> lock E = None \<Longrightarrow> \<not> holds_lock (tasks E t)"
  using inv_holds by fastforce

lemma free_active: "engine_inv E \<Longrightarrow> lock E = None \<Longrightarrow> active (tasks E t) \<Longrightarrow> lets_go (tasks E t)"
  using free_not_holding [of E t] by (cases "tasks E t") (auto simp: lets_go_def)

lemma free_not_registering: "engine_inv E \<Longrightarrow> lock E = None \<Longrightarrow> callers E i \<noteq> Registering"
  using inv_caller [of E i] by fastforce

section \<open>The invariant is kept\<close>

text \<open>The parts of the engine the invariant does not read.\<close>

lemma engine_inv_frame [simp]:
  "engine_inv (E\<lparr>clock := k\<rparr>) = engine_inv E"
  "engine_inv (E\<lparr>saved := v\<rparr>) = engine_inv E"
  "engine_inv (E\<lparr>listed := l\<rparr>) = engine_inv E"
  by (simp_all add: engine_inv_def)

lemma inv_notify: "engine_inv E \<Longrightarrow> engine_inv (notify_waiters E)"
  by (simp add: notify_waiters_def)

lemma inv_st: "engine_inv E \<Longrightarrow> (s_token (st E) \<noteq> None \<Longrightarrow> s_token s \<noteq> None) \<Longrightarrow> engine_inv (E\<lparr>st := s\<rparr>)"
  by (auto simp: engine_inv_def)

lemma inv_at_caller:
  assumes "engine_inv E" "callers E i \<noteq> NoCall" "callers E i \<noteq> Registering" "pc \<noteq> Registering"
  shows "engine_inv (at_caller i pc E)"
  using assms unfolding engine_inv_def by auto

lemma inv_register:
  assumes "engine_inv E" "callers E i = Registering" "pc \<noteq> Registering"
  shows "engine_inv ((at_caller i pc E)\<lparr>lock := None\<rparr>)"
proof -
  from assms have l: "lock E = Some (ByCaller i)" using inv_caller by blast
  have "\<not> holds_lock (tasks E t)" for t using inv_holds [OF assms(1), of t] l by auto
  moreover have "callers E j \<noteq> Registering" if "j \<noteq> i" for j
    using inv_caller [OF assms(1), of j] l that by auto
  ultimately show ?thesis using assms unfolding engine_inv_def by auto
qed

lemma inv_begin_wait:
  assumes "engine_inv E" "lock E = None" "callers E i \<noteq> NoCall"
  shows "engine_inv (begin_wait i E)"
proof (cases "wait_shortcut (clock E) (st E)")
  case None
  have "callers E j \<noteq> Registering" "\<not> holds_lock (tasks E t)" for j t
    using free_not_registering [OF assms(1,2)] free_not_holding [OF assms(1,2)] by auto
  with None assms show ?thesis unfolding engine_inv_def begin_wait_def by auto
next
  case (Some r)
  with assms free_not_registering [OF assms(1,2)] show ?thesis
    by (auto simp: begin_wait_def intro: inv_at_caller)
qed

lemma inv_start:
  assumes "engine_inv E" "lock E = None" "callers E i \<noteq> NoCall" and idle: "\<And>t. \<not> active (tasks E t)"
  shows "engine_inv (start_refresh i c E)"
proof -
  have "callers E j \<noteq> Registering" "\<not> holds_lock (tasks E t)" "\<not> lets_go (tasks E t)" for j t
    using free_not_registering [OF assms(1,2)] free_not_holding [OF assms(1,2)] idle guarded_active
    by (auto simp: lets_go_def)
  with assms idle show ?thesis unfolding engine_inv_def start_refresh_def Let_def by auto
qed

lemma inv_proceed:
  assumes laws: "refresher_laws R" and inv: "engine_inv E" and free: "lock E = None" and pc: "callers E i \<noteq> NoCall"
    and tok: "s_token (st E) \<noteq> None \<Longrightarrow> s_token s \<noteq> None"
  shows "engine_inv (proceed R i s E)"
proof -
  obtain d s' where d: "decide R (clock E) (in_progress E) s = (d, s')" by fastforce
  have "s_token s' \<noteq> None" if "s_token (st E) \<noteq> None"
    using decide_token_kept [OF laws tok [OF that], of "clock E" "in_progress E"] d by simp
  with inv have inv': "engine_inv (E\<lparr>st := s'\<rparr>)" by (rule inv_st)
  show ?thesis
  proof (cases d)
    case (Return r)
    with d free inv' pc free_not_registering [OF inv free] show ?thesis
      using inv_at_caller [OF inv', of i "Done r"] by (simp add: proceed_def)
  next
    case Wait
    with d free inv' pc show ?thesis using inv_begin_wait [OF inv', of i] by (simp add: proceed_def)
  next
    case (Start c)
    have "\<not> active (tasks E t)" for t
    proof
      assume a: "active (tasks E t)"
      then have "s_token s \<noteq> None" using tok inv_token [OF inv free_active [OF inv free a]] by simp
      with decide_start [OF laws d [unfolded Start]] inv_flag [OF inv a] show False by auto
    qed
    with Start d free inv' pc show ?thesis using inv_start [OF inv', of i c] by (simp add: proceed_def)
  qed
qed

lemma inv_task_move:
  assumes "engine_inv E" "tasks E t = old" "old \<noteq> NoTask" "old \<noteq> Dropping" "active pc \<Longrightarrow> active old"
    "holds_lock pc = holds_lock old" "lets_go pc \<Longrightarrow> lets_go old"
  shows "engine_inv (at_task t pc E)"
  using assms unfolding engine_inv_def by auto

lemma inv_unlock_nb:
  assumes "engine_inv E" "tasks E t = Spawned c" "s_token (st E) \<noteq> None"
  shows "engine_inv ((at_task t (ExchangingNB c b x) E)\<lparr>lock := None\<rparr>)"
proof -
  have l: "lock E = Some (ByTask t)" using inv_holds [OF assms(1), of t] assms(2) by simp
  have "\<not> holds_lock (tasks E u)" if "u \<noteq> t" for u using inv_holds [OF assms(1), of u] l that by auto
  moreover have "callers E i \<noteq> Registering" for i using inv_caller [OF assms(1), of i] l by auto
  moreover have "\<not> active (tasks E u)" if "u \<noteq> t" for u
    using inv_single [OF assms(1), of u t] assms(2) that by auto
  moreover have "in_progress E" using inv_flag [OF assms(1), of t] assms(2) by simp
  ultimately show ?thesis using assms unfolding engine_inv_def by auto
qed

text \<open>A refresh that is over: its task is neither refreshing nor holding the lock any more.\<close>

lemma inv_over:
  assumes inv: "engine_inv E" and act: "active (tasks E t)" and pc: "\<not> active pc"
    and keep: "lk = lock E \<and> (\<not> holds_lock (tasks E t) \<or> pc = Dropping)
      \<or> lk = None \<and> holds_lock (tasks E t)"
  shows "engine_inv ((at_task t pc E)\<lparr>in_progress := False, lock := lk\<rparr>)"
proof -
  have idle: "\<not> active (tasks E u)" if "u \<noteq> t" for u
    using inv_single [OF inv, of u t] act that by auto
  then have "\<not> lets_go (tasks E u)" "\<not> holds_lock (tasks E u)" if "u \<noteq> t" for u
    using that guarded_active holds_lock_active by (auto simp: lets_go_def)
  moreover have "\<not> lets_go pc" "\<not> holds_lock pc"
    using pc guarded_active holds_lock_active by (auto simp: lets_go_def)
  moreover have "tasks E t \<noteq> NoTask" "tasks E t \<noteq> Dropping" using act by auto
  moreover have "callers E i \<noteq> Registering" if "lk = None" "lk \<noteq> lock E" for i
    using keep that inv_holds [OF inv, of t] inv_caller [OF inv, of i] by auto
  moreover have "lk = Some (ByCaller i) \<longleftrightarrow> callers E i = Registering" for i
    using keep inv_holds [OF inv, of t] inv_caller [OF inv, of i] by auto
  moreover have "u = t \<and> pc = Dropping \<or> u \<noteq> t \<and> tasks E u = Dropping" if "lk = Some (ByTask u)" for u
    using keep inv_held [OF inv, of u] that \<open>\<not> holds_lock pc\<close> idle holds_lock_active [of "tasks E u"]
      \<open>tasks E t \<noteq> Dropping\<close> by (cases "u = t") auto
  ultimately show ?thesis using idle inv pc unfolding engine_inv_def by auto
qed

lemma inv_dropped:
  assumes "engine_inv E" "tasks E t = Dropping"
  shows "engine_inv (at_task t Dead (release_task_lock t E))"
proof -
  have "\<not> holds_lock (tasks E u)" "callers E i \<noteq> Registering" if "lock E = Some (ByTask t)" for u i
    using inv_holds [OF assms(1), of u] inv_caller [OF assms(1), of i] assms(2) that by auto
  with assms show ?thesis unfolding engine_inv_def release_task_lock_def by auto
qed

lemma inv_aborted:
  assumes "engine_inv E" "tasks E t = Spawned c"
  shows "engine_inv (at_task t Dead (release_task_lock t E))"
proof -
  have l: "lock E = Some (ByTask t)" using inv_holds [OF assms(1), of t] assms(2) by simp
  have "\<not> active (tasks E u)" if "u \<noteq> t" for u
    using inv_single [OF assms(1), of u t] assms(2) that by auto
  then have "\<not> holds_lock (tasks E u)" if "u \<noteq> t" for u using that holds_lock_active by blast
  moreover have "callers E i \<noteq> Registering" for i using inv_caller [OF assms(1), of i] l by auto
  ultimately show ?thesis using l assms unfolding engine_inv_def release_task_lock_def by auto
qed

lemma after_wait_token: "s_token (snd (after_wait now s)) = s_token s"
  by (auto simp: after_wait_def dest: fresh_denial_tokenD split: prod.split sum.split option.split)

lemma enter_cold_token: "s_token (snd (enter_cold now s)) = s_token s"
  by (auto simp: enter_cold_def dest: fresh_denial_tokenD split: prod.split option.split)

lemma inv_enter:
  assumes "refresher_laws R" "engine_inv E" "lock E = None" "callers E i = Entering"
  shows "engine_inv (get_token_enter R i E)"
proof (cases "s_token (st E)")
  case None
  obtain r s' where e: "enter_cold (clock E) (st E) = (r, s')" by fastforce
  have inv': "engine_inv (E\<lparr>st := s'\<rparr>)" using None assms(2) by (intro inv_st) auto
  show ?thesis
    using None e assms(4) inv_at_caller [OF inv', of i] by (cases r) (auto simp: get_token_enter_def)
next
  case (Some tok)
  with assms show ?thesis by (auto simp: get_token_enter_def intro: inv_proceed)
qed

lemma inv_installed:
  assumes "engine_inv E"
  shows "engine_inv (E\<lparr>st := snd (install_refreshed_token tok (st E))\<rparr>)"
  using assms by (intro inv_st) (auto simp: install_refreshed_token_def)

lemma inv_failed:
  assumes "engine_inv E"
  shows "engine_inv (E\<lparr>st := refresh_failed R err c now (st E)\<rparr>)"
  using assms by (intro inv_st) (auto simp: refresh_failed_token)

text \<open>The four ways a refresh comes to its end.\<close>

lemma inv_blocking_installed:
  assumes "engine_inv E" "tasks E t = SavingB tok"
  shows "engine_inv (blocking_installed t tok E)"
proof -
  have "engine_inv ((at_task t (Ended (Inr (access_token tok))) (E\<lparr>st := snd (install_refreshed_token tok (st E))\<rparr>))
      \<lparr>in_progress := False, lock := None\<rparr>)"
    using assms by (intro inv_over [OF inv_installed]) auto
  then show ?thesis
    by (simp add: blocking_installed_def install_refreshed_token_def engine_inv_def)
qed

lemma inv_blocking_failed:
  assumes "engine_inv E" "tasks E t = ExchangingB c"
  shows "engine_inv (blocking_failed R t c err E)"
proof -
  have "engine_inv ((at_task t (Ended (Inl (Auth err))) (E\<lparr>st := refresh_failed R err c (clock E) (st E)\<rparr>))
      \<lparr>in_progress := False, lock := None\<rparr>)"
    using assms by (intro inv_over [OF inv_failed]) auto
  then show ?thesis by (simp add: blocking_failed_def engine_inv_def)
qed

lemma inv_nonblocking_installed:
  assumes "engine_inv E" "tasks E t = InstallingNB tok"
  shows "engine_inv (nonblocking_installed t tok E)"
proof -
  have "engine_inv ((at_task t (Notifying (Inr (access_token tok))) (E\<lparr>st := snd (install_refreshed_token tok (st E))\<rparr>))
      \<lparr>in_progress := False, lock := lock E\<rparr>)"
    using assms by (intro inv_over [OF inv_installed]) auto
  then show ?thesis by (simp add: nonblocking_installed_def install_refreshed_token_def engine_inv_def)
qed

lemma inv_nonblocking_failed:
  assumes "engine_inv E" "tasks E t = FailingNB err c b x"
  shows "engine_inv (nonblocking_failed R t err c b x now' E)"
proof -
  have "engine_inv ((at_task t (Notifying (failed_answer err now' x b)) (E\<lparr>st := refresh_failed R err c (clock E) (st E)\<rparr>))
      \<lparr>in_progress := False, lock := lock E\<rparr>)"
    using assms by (intro inv_over [OF inv_failed]) auto
  then show ?thesis by (simp add: nonblocking_failed_def engine_inv_def)
qed

lemma inv_finish_wait:
  assumes "engine_inv E" "callers E i = Rechecking now"
  shows "engine_inv (finish_wait i now E)"
proof -
  obtain r s' where a: "after_wait now (st E) = (r, s')" by fastforce
  then have "s_token s' = s_token (st E)" using after_wait_token [of now "st E"] by simp
  then have "engine_inv (E\<lparr>st := s'\<rparr>)" using assms(1) by (intro inv_st) auto
  from inv_at_caller [OF this, of i "Done r"] assms a show ?thesis
    by (simp add: finish_wait_def engine_inv_def)
qed

lemma step_inv:
  assumes laws: "refresher_laws R" and "step R a E E'" and inv: "engine_inv E"
  shows "engine_inv E'"
  using assms(2)
proof cases
  case arrive
  have "callers E (n_callers E) \<noteq> Registering" using inv_no_call [OF inv, of "n_callers E"] by simp
  with arrive inv show ?thesis unfolding engine_inv_def by auto
next
  case (enter i)
  with inv_enter [OF laws inv] show ?thesis by simp
next
  case (relock i l)
  have "s_token (st E) \<noteq> None \<Longrightarrow> s_token (accept_loaded l (st E)) \<noteq> None" by (auto simp: accept_loaded_def)
  with relock inv_proceed [OF laws inv, of i "accept_loaded l (st E)"] show ?thesis by simp
next
  case (register i)
  then show ?thesis using inv_register [OF inv, of i Registered] engine_inv_frame(3) by fastforce
next
  case (finish i now)
  with inv_finish_wait [OF inv] show ?thesis by simp
next
  case (cancel i)
  then have "engine_inv (at_caller i Cancelled E)" by (intro inv_at_caller [OF inv]) auto
  with cancel show ?thesis by simp
next
  case (run t c)
  then show ?thesis
    by (auto simp: run_refresh_def intro: inv_task_move [OF inv] inv_unlock_nb [OF inv] split: option.split)
next
  case (saved_b t tok)
  with inv_blocking_installed [OF inv] show ?thesis by simp
next
  case (refused_b t c err)
  with inv_blocking_failed [OF inv] show ?thesis by simp
next
  case (saved_nb t tok)
  then have "engine_inv (at_task t (InstallingNB tok) E)" by (intro inv_task_move [OF inv]) auto
  with saved_nb show ?thesis by simp
next
  case (installed_nb t tok)
  with inv_nonblocking_installed [OF inv] show ?thesis by simp
next
  case (failed_nb t err c b x now')
  with inv_nonblocking_failed [OF inv] show ?thesis by simp
next
  case (notified t r)
  have "tasks (notify_waiters E) t = Notifying r" using notified by (simp add: notify_waiters_def)
  from inv_task_move [OF inv_notify [OF inv] this, of "Ended r"] notified show ?thesis by simp
next
  case (die t)
  then show ?thesis
    using inv_over [OF inv, of t Dropping "lock E"] guarded_active by fastforce
next
  case (dropped t)
  have "tasks (notify_waiters E) t = Dropping" using dropped by (simp add: notify_waiters_def)
  from inv_dropped [OF inv_notify [OF inv] this] dropped show ?thesis by simp
next
  case (abort t c)
  with inv_aborted [OF inv] show ?thesis by simp
qed (auto simp: inv recheck_flag_def intro!: inv_at_caller [OF inv] inv_task_move [OF inv])

lemma reach_inv:
  assumes "refresher_laws R" and "reach R L E"
  shows "engine_inv E"
  using assms(2) by induction (auto intro: engine_inv_new step_inv [OF assms(1)])

section \<open>Nothing is waited for that does not come\<close>

text \<open>
  While no task dies or is dropped: a set flag means a refresh is running; a caller about to
  register has one running without the lock; a caller on the notify list has one running
  without the lock or about to notify; a caller joins a task that exists.
\<close>

definition some_task :: "('c task_pc \<Rightarrow> bool) \<Rightarrow> 'c engine \<Rightarrow> bool" where
  "some_task P E \<longleftrightarrow> (\<exists>t. P (tasks E t))"

abbreviation will_notify :: "'c task_pc \<Rightarrow> bool" where
  "will_notify pc \<equiv> lets_go pc \<or> notifier pc"

definition live_inv :: "'c engine \<Rightarrow> bool" where
  "live_inv E \<longleftrightarrow>
     (in_progress E \<longrightarrow> some_task active E)
     \<and> ((\<exists>i. callers E i = Registering) \<longrightarrow> some_task lets_go E)
     \<and> ((\<exists>i \<in> listed E. callers E i = Registered \<or> callers E i = Parked) \<longrightarrow> some_task will_notify E)
     \<and> (\<forall>i t. callers E i = Joining t \<longrightarrow> tasks E t \<noteq> NoTask)"

lemma some_taskI: "P (tasks E t) \<Longrightarrow> some_task P E"
  by (auto simp: some_task_def)

lemma some_task_move: "some_task P E \<Longrightarrow> (P (tasks E t) \<Longrightarrow> P pc) \<Longrightarrow> some_task P (at_task t pc E)"
  unfolding some_task_def by simp (metis (mono_tags))

lemma some_task_frame [simp]:
  "some_task P (E\<lparr>clock := k\<rparr>) = some_task P E" "some_task P (E\<lparr>saved := v\<rparr>) = some_task P E"
  "some_task P (E\<lparr>st := s\<rparr>) = some_task P E" "some_task P (E\<lparr>lock := l\<rparr>) = some_task P E"
  "some_task P (E\<lparr>n_callers := n\<rparr>) = some_task P E" "some_task P (E\<lparr>callers := cs\<rparr>) = some_task P E"
  "some_task P (E\<lparr>listed := ls\<rparr>) = some_task P E" "some_task P (E\<lparr>in_progress := f\<rparr>) = some_task P E"
  "some_task P (E\<lparr>n_tasks := n\<rparr>) = some_task P E"
  by (simp_all add: some_task_def)

lemma live_inv_new: "live_inv (engine_new token now)"
  by (simp add: live_inv_def engine_new_def)

lemma live_inv_frame [simp]:
  "live_inv (E\<lparr>clock := k\<rparr>) = live_inv E"
  "live_inv (E\<lparr>saved := v\<rparr>) = live_inv E"
  "live_inv (E\<lparr>st := s\<rparr>) = live_inv E"
  "live_inv (E\<lparr>lock := l\<rparr>) = live_inv E"
  "live_inv (E\<lparr>n_callers := n\<rparr>) = live_inv E"
  by (simp_all add: live_inv_def)

lemma live_at_caller:
  assumes "live_inv E" "pc \<noteq> Registering" "pc \<noteq> Registered" "pc \<noteq> Parked"
    "\<And>t. pc = Joining t \<Longrightarrow> tasks E t \<noteq> NoTask"
  shows "live_inv (at_caller i pc E)"
  using assms unfolding live_inv_def by auto

lemma live_listed: "live_inv E \<Longrightarrow> l \<subseteq> listed E \<Longrightarrow> live_inv (E\<lparr>listed := l\<rparr>)"
  unfolding live_inv_def by auto

lemma live_task_move:
  assumes "live_inv E" "tasks E t = old" "active old \<Longrightarrow> active pc" "lets_go old \<Longrightarrow> lets_go pc"
    "\<not> notifier old" "pc \<noteq> NoTask"
  shows "live_inv (at_task t pc E)"
proof -
  have "some_task active E \<Longrightarrow> some_task active (at_task t pc E)"
    by (erule some_task_move) (use assms in simp)
  moreover have "some_task lets_go E \<Longrightarrow> some_task lets_go (at_task t pc E)"
    by (erule some_task_move) (use assms in simp)
  moreover have "some_task will_notify E \<Longrightarrow> some_task will_notify (at_task t pc E)"
    by (erule some_task_move) (use assms in auto)
  ultimately show ?thesis using assms(1,6) unfolding live_inv_def by auto
qed

text \<open>A refresh that ends without the lock becomes a notifier, one that ends with it had no
  waiter of its own.\<close>

lemma live_over_nb:
  assumes "live_inv E" "\<And>i. callers E i \<noteq> Registering"
  shows "live_inv ((at_task t (Notifying r) E)\<lparr>in_progress := False\<rparr>)"
proof -
  have "some_task will_notify (at_task t (Notifying r) E)" by (rule some_taskI [of _ _ t]) simp
  then show ?thesis using assms unfolding live_inv_def by auto
qed

lemma live_over_b:
  assumes "live_inv E" "tasks E t = old" "\<not> lets_go old" "\<not> notifier old" "pc \<noteq> NoTask"
  shows "live_inv ((at_task t pc E)\<lparr>in_progress := False\<rparr>)"
proof -
  have "some_task lets_go E \<Longrightarrow> some_task lets_go (at_task t pc E)"
    by (erule some_task_move) (use assms in simp)
  moreover have "some_task will_notify E \<Longrightarrow> some_task will_notify (at_task t pc E)"
    by (erule some_task_move) (use assms in auto)
  ultimately show ?thesis using assms(1,5) unfolding live_inv_def by auto
qed

lemma live_notified:
  assumes "live_inv E" "tasks E t = old" "\<not> active old" "pc \<noteq> NoTask"
  shows "live_inv (at_task t pc (notify_waiters E))"
proof -
  have "\<not> lets_go old" using assms(3) guarded_active by (auto simp: lets_go_def)
  then have "some_task lets_go (E\<lparr>listed := {}\<rparr>) \<Longrightarrow> some_task lets_go (at_task t pc (E\<lparr>listed := {}\<rparr>))"
    by (elim some_task_move) (use assms in simp)
  moreover have "some_task active (E\<lparr>listed := {}\<rparr>) \<Longrightarrow> some_task active (at_task t pc (E\<lparr>listed := {}\<rparr>))"
    by (elim some_task_move) (use assms in simp)
  ultimately show ?thesis using assms(1,4) unfolding live_inv_def notify_waiters_def by auto
qed

lemma decide_wait: "decide R now f s = (Wait, s') \<Longrightarrow> f"
  by (auto simp: decide_def Let_def split: option.splits prod.splits if_splits)

lemma live_begin_wait:
  assumes "live_inv E" "some_task lets_go E"
  shows "live_inv (begin_wait i E)"
proof (cases "wait_shortcut (clock E) (st E)")
  case None
  have "some_task will_notify E" using assms(2) by (auto simp: some_task_def)
  with None assms show ?thesis unfolding live_inv_def begin_wait_def by auto
next
  case (Some r)
  with assms(1) show ?thesis by (auto simp: begin_wait_def intro: live_at_caller)
qed

lemma live_start:
  assumes "live_inv E" "tasks E (n_tasks E) = NoTask"
  shows "live_inv (start_refresh i c E)"
proof -
  let ?E = "at_task (n_tasks E) (Spawned c) E"
  have "live_inv ?E" using assms by (intro live_task_move) auto
  then have l: "live_inv (at_caller i (Joining (n_tasks E)) ?E)" by (rule live_at_caller) simp_all
  have "some_task active ?E" by (rule some_taskI [of _ _ "n_tasks E"]) simp
  with l show ?thesis unfolding live_inv_def start_refresh_def Let_def by auto
qed

lemma live_proceed:
  assumes "live_inv E" "engine_inv E" "lock E = None"
  shows "live_inv (proceed R i s E)"
proof -
  obtain d s' where d: "decide R (clock E) (in_progress E) s = (d, s')" by fastforce
  show ?thesis
  proof (cases d)
    case (Return r)
    with d assms(1) show ?thesis using live_at_caller [of "E\<lparr>st := s'\<rparr>" "Done r" i] by (simp add: proceed_def)
  next
    case Wait
    with d have "in_progress E" using decide_wait by blast
    with assms have "some_task lets_go E"
      using free_active [OF assms(2,3)] by (auto simp: live_inv_def some_task_def)
    with Wait d assms(1) show ?thesis by (simp add: proceed_def live_begin_wait)
  next
    case (Start c)
    with d assms(1) inv_no_task [OF assms(2), of "n_tasks E"] show ?thesis
      by (simp add: proceed_def live_start)
  qed
qed

lemma live_enter:
  assumes "live_inv E" "engine_inv E" "lock E = None"
  shows "live_inv (get_token_enter R i E)"
proof (cases "s_token (st E) = None")
  case True
  obtain r s' where e: "enter_cold (clock E) (st E) = (r, s')" by fastforce
  have "live_inv (at_caller i Loading (E\<lparr>st := s'\<rparr>))" "live_inv (at_caller i (Done o') (E\<lparr>st := s'\<rparr>))" for o'
    by (rule live_at_caller; simp add: assms(1))+
  with True e show ?thesis by (cases r) (simp_all add: get_token_enter_def)
next
  case False
  with live_proceed [OF assms] show ?thesis by (auto simp: get_token_enter_def)
qed

lemma live_register:
  assumes "live_inv E" "callers E i = Registering"
  shows "live_inv ((at_caller i Registered E)\<lparr>listed := insert i (listed E)\<rparr>)"
proof -
  have "some_task will_notify E" using assms by (auto simp: live_inv_def some_task_def)
  with assms show ?thesis unfolding live_inv_def by auto
qed

lemma live_recheck: "live_inv E \<Longrightarrow> callers E i = Registered \<Longrightarrow> live_inv (recheck_flag i E)"
  unfolding live_inv_def recheck_flag_def by auto

lemma live_finish_wait: "live_inv E \<Longrightarrow> live_inv (finish_wait i now E)"
  unfolding live_inv_def finish_wait_def by (auto split: prod.split)

lemma live_release: "live_inv E \<Longrightarrow> live_inv (release_task_lock t E)"
  by (simp add: release_task_lock_def)

lemma live_cancel: "live_inv E \<Longrightarrow> live_inv ((at_caller i Cancelled E)\<lparr>listed := listed E - {i}\<rparr>)"
  unfolding live_inv_def by auto

lemma live_run: "live_inv E \<Longrightarrow> tasks E t = Spawned c \<Longrightarrow> live_inv (run_refresh t c E)"
  by (auto simp: run_refresh_def intro: live_task_move split: option.split)

lemma live_blocking_over:
  assumes "live_inv E" "holds_lock (tasks E t)"
  shows "live_inv ((at_task t (Ended r) E)\<lparr>st := s', in_progress := False, lock := l\<rparr>)"
proof -
  have "live_inv ((at_task t (Ended r) E)\<lparr>in_progress := False\<rparr>)"
    using assms by (intro live_over_b [OF assms(1) refl]; cases "tasks E t") auto
  then show ?thesis by (simp add: live_inv_def)
qed

lemma live_nonblocking_over:
  assumes "live_inv E" "\<And>i. callers E i \<noteq> Registering"
  shows "live_inv ((at_task t (Notifying r) E)\<lparr>st := s', in_progress := False\<rparr>)"
  using live_over_nb [OF assms, of t r] by (simp add: live_inv_def)

lemma live_dropped:
  assumes "live_inv E" "tasks E t = Dropping"
  shows "live_inv (at_task t Dead (release_task_lock t (notify_waiters E)))"
proof -
  have "live_inv (at_task t Dead (notify_waiters E))" using assms by (intro live_notified) auto
  moreover have "at_task t Dead (release_task_lock t (notify_waiters E))
      = release_task_lock t (at_task t Dead (notify_waiters E))"
    by (simp add: release_task_lock_def)
  ultimately show ?thesis by (simp add: live_release)
qed

lemma step_live:
  assumes "step R a E E'" and a: "a \<noteq> Die" "a \<noteq> Abort" and inv: "engine_inv E" and live: "live_inv E"
  shows "live_inv E'"
  using assms(1)
proof cases
  case (saved_b t tok)
  with live_blocking_over [OF live, of t] show ?thesis
    by (simp add: blocking_installed_def install_refreshed_token_def)
next
  case (refused_b t c err)
  with live_blocking_over [OF live, of t] show ?thesis by (simp add: blocking_failed_def)
next
  case (installed_nb t tok)
  with live_nonblocking_over [OF live free_not_registering [OF inv], where t = t] show ?thesis
    by (simp add: nonblocking_installed_def install_refreshed_token_def)
next
  case (failed_nb t err c b x now')
  with live_nonblocking_over [OF live free_not_registering [OF inv], where t = t] show ?thesis
    by (simp add: nonblocking_failed_def)
next
  case (saved_nb t tok)
  then have "live_inv (at_task t (InstallingNB tok) E)" by (intro live_task_move [OF live]) auto
  with saved_nb show ?thesis by simp
next
  case arrive
  have "live_inv (at_caller (n_callers E) Entering E)" by (rule live_at_caller [OF live]) simp_all
  with arrive show ?thesis by simp
qed (use a live in \<open>auto intro: live_enter [OF live inv] live_proceed [OF live inv] live_register live_recheck
       live_finish_wait live_cancel live_run live_notified live_dropped
       intro!: live_at_caller [OF live] live_task_move [OF live]\<close>)

lemma reach_live:
  assumes "refresher_laws R" and "reach R L E" and "L \<subseteq> {Arrive, Tick, Run, Cancel}"
  shows "engine_inv E \<and> live_inv E"
  using assms(2)
proof induction
  case (onward E a E')
  with assms(3) show ?case using step_inv [OF assms(1), of a E E'] step_live [of R a E E'] by auto
qed (simp add: engine_inv_new live_inv_new)

text \<open>When no further step can be taken, every call has its answer.\<close>

fun settled :: "caller_pc \<Rightarrow> bool" where
  "settled NoCall = True"
| "settled (Done _) = True"
| "settled Cancelled = True"
| "settled _ = False"

definition quiet :: "'c refresher \<Rightarrow> 'c engine \<Rightarrow> bool" where
  "quiet R E \<longleftrightarrow> (\<forall>E'. \<not> step R Run E E')"

lemma quiet_tasks:
  assumes q: "quiet R E" and inv: "engine_inv E"
  shows "lock E = None" "tasks E t \<in> {NoTask, Dead} \<union> range Ended"
proof -
  have pc: "tasks E t \<noteq> Spawned c" "tasks E t \<noteq> ExchangingB c" "tasks E t \<noteq> SavingB tok" "tasks E t \<noteq> Dropping"
    "tasks E t \<noteq> ExchangingNB c b x" "tasks E t \<noteq> SavingNB tok" "tasks E t \<noteq> Notifying r" for t c tok b x r
    using q unfolding quiet_def by (metis step.intros)+
  have reg: "callers E i \<noteq> Registering" for i using q unfolding quiet_def by (metis step.register)
  show free: "lock E = None"
  proof (rule ccontr)
    assume "lock E \<noteq> None"
    then obtain w where w: "lock E = Some w" by blast
    show False
    proof (cases w)
      case (ByCaller i)
      with w reg inv_caller [OF inv] show False by simp
    next
      case (ByTask t)
      with w pc inv_held [OF inv, of t] show False by (cases "tasks E t") auto
    qed
  qed
  have "tasks E t \<noteq> InstallingNB tok" "tasks E t \<noteq> FailingNB err c b x" for tok err c b x
    using q free unfolding quiet_def by (metis step.installed_nb) (use q free in \<open>metis quiet_def step.failed_nb\<close>)
  with pc [of t] show "tasks E t \<in> {NoTask, Dead} \<union> range Ended" by (cases "tasks E t") blast+
qed

lemma quiet_settled:
  assumes q: "quiet R E" and inv: "engine_inv E" and live: "live_inv E"
  shows "settled (callers E i)"
proof -
  note free = quiet_tasks(1) [OF q inv] and over = quiet_tasks(2) [OF q inv]
  have no: "\<not> step R Run E E'" for E' using q by (simp add: quiet_def)
  have "\<not> will_notify (tasks E t)" for t using over [of t] by auto
  then have idle: "\<not> some_task will_notify E" by (simp add: some_task_def)
  show ?thesis
  proof (cases "callers E i")
    case (Joining t)
    then have "tasks E t \<noteq> NoTask" using live by (auto simp: live_inv_def)
    with over [of t] Joining no show ?thesis by (auto intro: step.joined step.join_failed)
  next
    case Parked
    with live idle have "i \<notin> listed E" by (auto simp: live_inv_def)
    with Parked no show ?thesis by (blast intro: step.wake)
  next
    case Entering
    with free no show ?thesis by (blast intro: step.enter)
  next
    case Loading
    with no show ?thesis by (blast intro: step.loaded)
  next
    case (Relocking l)
    with free no show ?thesis by (blast intro: step.relock)
  next
    case Registering
    with no show ?thesis by (blast intro: step.register)
  next
    case Registered
    with no show ?thesis by (blast intro: step.recheck)
  next
    case (Rechecking now)
    with free no show ?thesis by (blast intro: step.finish)
  qed simp_all
qed

section \<open>Every call ends\<close>

text \<open>
  The steps a call and the refresh it starts can still take. No step of the engine undoes
  another: a call takes at most nine, its refresh included.
\<close>

fun call_work :: "caller_pc \<Rightarrow> nat" where
  "call_work Entering = 9"
| "call_work Loading = 8"
| "call_work (Relocking _) = 7"
| "call_work Registering = 4"
| "call_work Registered = 3"
| "call_work Parked = 2"
| "call_work (Rechecking _) = 1"
| "call_work (Joining _) = 1"
| "call_work _ = 0"

fun task_work :: "'c task_pc \<Rightarrow> nat" where
  "task_work (Spawned _) = 5"
| "task_work (ExchangingNB _ _ _) = 4"
| "task_work (ExchangingB _) = 3"
| "task_work (SavingNB _) = 3"
| "task_work (SavingB _) = 2"
| "task_work (InstallingNB _) = 2"
| "task_work (FailingNB _ _ _ _) = 2"
| "task_work (Notifying _) = 1"
| "task_work Dropping = 1"
| "task_work _ = 0"

definition work :: "'c engine \<Rightarrow> nat" where
  "work E = (\<Sum>i < n_callers E. call_work (callers E i)) + (\<Sum>t < n_tasks E. task_work (tasks E t))"

lemma sum_fun_upd:
  fixes f :: "'a \<Rightarrow> nat" and i n :: nat
  assumes "i < n"
  shows "(\<Sum>j < n. f ((g(i := x)) j)) + f (g i) = (\<Sum>j < n. f (g j)) + f x"
proof -
  have "(\<Sum>j < n. f ((g(i := x)) j)) = f x + (\<Sum>j \<in> {..<n} - {i}. f (g j))"
    using assms by (subst sum.remove [of _ i]) (auto intro!: sum.cong)
  moreover have "(\<Sum>j < n. f (g j)) = f (g i) + (\<Sum>j \<in> {..<n} - {i}. f (g j))"
    using assms by (subst sum.remove [of _ i]) auto
  ultimately show ?thesis by simp
qed

lemma work_frame [simp]:
  "work (E\<lparr>clock := k\<rparr>) = work E" "work (E\<lparr>saved := v\<rparr>) = work E" "work (E\<lparr>st := s\<rparr>) = work E"
  "work (E\<lparr>lock := l\<rparr>) = work E" "work (E\<lparr>listed := ls\<rparr>) = work E" "work (E\<lparr>in_progress := f\<rparr>) = work E"
  by (simp_all add: work_def)

lemma call_range: "engine_inv E \<Longrightarrow> callers E i \<noteq> NoCall \<Longrightarrow> i < n_callers E"
  using inv_no_call by (metis not_le)

lemma task_range: "engine_inv E \<Longrightarrow> tasks E t \<noteq> NoTask \<Longrightarrow> t < n_tasks E"
  using inv_no_task by (metis not_le)

lemma work_at_caller:
  assumes "engine_inv E" "callers E i \<noteq> NoCall"
  shows "work (at_caller i pc E) + call_work (callers E i) = work E + call_work pc"
  using sum_fun_upd [OF call_range [OF assms], of call_work "callers E" pc] by (simp add: work_def)

lemma work_at_task:
  assumes "engine_inv E" "tasks E t \<noteq> NoTask"
  shows "work (at_task t pc E) + task_work (tasks E t) = work E + task_work pc"
  using sum_fun_upd [OF task_range [OF assms], of task_work "tasks E" pc] by (simp add: work_def)

lemma work_start:
  assumes "engine_inv E" "callers E i \<noteq> NoCall"
  shows "work (start_refresh i c E) + call_work (callers E i) = work E + 6"
proof -
  have "(\<Sum>t < n_tasks E. task_work (((tasks E)(n_tasks E := Spawned c)) t)) = (\<Sum>t < n_tasks E. task_work (tasks E t))"
    by (intro sum.cong) auto
  with sum_fun_upd [OF call_range [OF assms], of call_work "callers E" "Joining (n_tasks E)"]
  show ?thesis by (simp add: work_def start_refresh_def Let_def)
qed

lemma work_proceed:
  assumes "engine_inv E" "callers E i \<noteq> NoCall"
  shows "work (proceed R i s E) + call_work (callers E i) \<le> work E + 6"
proof -
  obtain d s' where d: "decide R (clock E) (in_progress E) s = (d, s')" by fastforce
  have at: "work (at_caller i pc E) + call_work (callers E i) = work E + call_work pc" for pc
    by (rule work_at_caller [OF assms])
  have st: "at_caller i pc (E\<lparr>st := s'\<rparr>) = (at_caller i pc E)\<lparr>st := s'\<rparr>" for pc by simp
  show ?thesis
  proof (cases d)
    case (Return r)
    with d at [of "Done r"] show ?thesis by (simp add: proceed_def st del: work_frame) (simp add: work_def)
  next
    case Wait
    with d at [of Registering] at [of "Done r" for r] show ?thesis
      by (simp add: proceed_def begin_wait_def work_def split: option.split)
  next
    case (Start c)
    with d work_start [OF assms, of c] show ?thesis
      by (simp add: proceed_def start_refresh_def Let_def work_def)
  qed
qed

lemma work_enter:
  assumes "engine_inv E" "callers E i = Entering"
  shows "work (get_token_enter R i E) < work E"
proof (cases "s_token (st E) = None")
  case True
  obtain r s' where e: "enter_cold (clock E) (st E) = (r, s')" by fastforce
  have w: "work (at_caller i pc E) + 9 = work E + call_work pc" for pc
    using work_at_caller [OF assms(1), of i pc] assms(2) by simp
  have "work (at_caller i Loading E) < work E" "work (at_caller i (Done r') E) < work E" for r'
    using w [of Loading] w [of "Done r'"] by simp_all
  with True e show ?thesis by (cases r) (simp_all add: get_token_enter_def work_def)
next
  case False
  with work_proceed [OF assms(1), of i R "st E"] assms(2) show ?thesis by (auto simp: get_token_enter_def)
qed

lemma work_call_less:
  assumes "engine_inv E" "callers E i = old" "call_work pc < call_work old"
  shows "work (at_caller i pc E) < work E"
  using work_at_caller [OF assms(1), of i pc] assms(2,3) by (cases "old = NoCall") auto

lemma work_task_less:
  assumes "engine_inv E" "tasks E t = old" "task_work pc < task_work old"
  shows "work (at_task t pc E) < work E"
  using work_at_task [OF assms(1), of t pc] assms(2,3) by (cases "old = NoTask") auto

lemma work_nested [simp]:
  "work (E\<lparr>callers := cs, listed := ls\<rparr>) = work (E\<lparr>callers := cs\<rparr>)"
  "work (E\<lparr>callers := cs, lock := l\<rparr>) = work (E\<lparr>callers := cs\<rparr>)"
  "work (E\<lparr>listed := ls, tasks := ts\<rparr>) = work (E\<lparr>tasks := ts\<rparr>)"
  "work (E\<lparr>lock := l, tasks := ts\<rparr>) = work (E\<lparr>tasks := ts\<rparr>)"
  by (simp_all add: work_def)

lemma step_work:
  assumes "step R a E E'" and inv: "engine_inv E"
  shows "(a \<noteq> Arrive \<and> a \<noteq> Tick \<longrightarrow> work E' < work E) \<and> (a = Tick \<longrightarrow> work E' = work E)
    \<and> (a = Arrive \<longrightarrow> work E' = work E + 9)"
  using assms(1)
proof cases
  case arrive
  have "(\<Sum>i < n_callers E. call_work (((callers E)(n_callers E := Entering)) i)) = (\<Sum>i < n_callers E. call_work (callers E i))"
    by (intro sum.cong) auto
  with arrive show ?thesis by (simp add: work_def)
next
  case (enter i)
  with work_enter [OF inv] show ?thesis by simp
next
  case (relock i l)
  with work_proceed [OF inv, of i R "accept_loaded l (st E)"] show ?thesis by simp
next
  case (recheck i)
  have "work (at_caller i (if in_progress E then Parked else Rechecking (clock E)) E) < work E"
    using recheck by (intro work_call_less [OF inv]) auto
  with recheck show ?thesis by (simp add: recheck_flag_def)
next
  case (finish i now)
  have "work (at_caller i (Done r) E) < work E" for r using finish by (intro work_call_less [OF inv]) auto
  with finish show ?thesis by (simp add: finish_wait_def work_def split: prod.split)
next
  case (cancel i)
  then have "work (at_caller i Cancelled E) < work E"
    by (intro work_call_less [OF inv]) (auto elim: suspended.elims)
  with cancel show ?thesis by simp
next
  case (run t c)
  then have "work (at_task t (ExchangingB c) E) < work E" "work (at_task t (ExchangingNB c b x) E) < work E" for b x
    by (auto intro!: work_task_less [OF inv])
  with run show ?thesis by (simp add: run_refresh_def work_def split: option.split)
next
  case (die t)
  then have "work (at_task t Dropping E) < work E"
    by (intro work_task_less [OF inv]) (auto elim: guarded.elims)
  with die show ?thesis by (simp add: work_def)
next
  case (register i)
  then have "work (at_caller i Registered E) < work E" by (intro work_call_less [OF inv]) auto
  with register show ?thesis by (simp add: work_def)
qed (use inv in \<open>auto intro!: work_call_less work_task_less
      simp: blocking_installed_def blocking_failed_def nonblocking_installed_def nonblocking_failed_def
        notify_waiters_def release_task_lock_def install_refreshed_token_def\<close>)

text \<open>Runs of the machine, by the kinds of their steps.\<close>

inductive trace :: "'c refresher \<Rightarrow> 'c engine \<Rightarrow> label list \<Rightarrow> 'c engine \<Rightarrow> bool" for R E where
  start: "trace R E [] E"
| extend: "trace R E as E1 \<Longrightarrow> step R a E1 E2 \<Longrightarrow> trace R E (as @ [a]) E2"

lemma trace_append:
  assumes "trace R E2 bs E3" and "trace R E1 as E2"
  shows "trace R E1 (as @ bs) E3"
  using assms by (induction) (auto simp flip: append_assoc intro: trace.intros)

lemma trace_first: "step R a E E1 \<Longrightarrow> trace R E1 as E2 \<Longrightarrow> trace R E (a # as) E2"
  using trace_append [of R E1 as E2 E "[a]"] trace.extend [OF trace.start, of R a E E1] by simp

lemma trace_inv: "trace R E as E' \<Longrightarrow> refresher_laws R \<Longrightarrow> engine_inv E \<Longrightarrow> engine_inv E'"
  by (induction rule: trace.induct) (auto intro: step_inv)

lemma trace_live:
  assumes "trace R E as E'" "refresher_laws R" "engine_inv E" "live_inv E" "set as \<subseteq> - {Die, Abort}"
  shows "engine_inv E' \<and> live_inv E'"
  using assms by (induction rule: trace.induct) (auto intro: step_inv step_live)

lemma trace_reach: "trace R (engine_new token now) as E \<Longrightarrow> reach R (set as) E"
proof (induction rule: trace.induct)
  case (extend as E1 a E2)
  have "reach R (set (as @ [a])) E1"
    using extend.IH by (induction rule: reach.induct) (auto intro: reach.intros)
  with extend.hyps(2) show ?case by (auto intro: reach.onward)
qed (rule reach.init)

lemma trace_work:
  assumes "trace R E as E'" "refresher_laws R" "engine_inv E"
  shows "length (filter (\<lambda>a. a \<noteq> Arrive \<and> a \<noteq> Tick) as) + work E' \<le> work E + 9 * count_list as Arrive"
  using assms
proof (induction rule: trace.induct)
  case (extend as E1 a E2)
  have inv: "engine_inv E1" using trace_inv [OF extend.hyps(1) extend.prems] .
  from extend.IH [OF extend.prems] step_work [OF extend.hyps(2) inv] show ?case by (cases a) auto
qed simp

lemma settle_exists:
  assumes "refresher_laws R" "engine_inv E" "live_inv E"
  shows "\<exists>as E'. trace R E as E' \<and> set as \<subseteq> {Run} \<and> quiet R E'"
  using assms(2,3)
proof (induction "work E" arbitrary: E rule: less_induct)
  case less
  show ?case
  proof (cases "quiet R E")
    case True
    then show ?thesis using trace.start [of R E] by (intro exI [of _ "[]"] exI [of _ E]) simp
  next
    case False
    then obtain E1 where s: "step R Run E E1" by (auto simp: quiet_def)
    have "engine_inv E1" "live_inv E1" "work E1 < work E"
      using step_inv [OF assms(1) s] step_live [OF s] step_work [OF s] less.prems by simp_all
    from less.hyps [OF this(3,1,2)] obtain as E' where "trace R E1 as E'" "set as \<subseteq> {Run}" "quiet R E'" by blast
    with trace_first [OF s] show ?thesis by (intro exI [of _ "Run # as"] exI [of _ E']) simp
  qed
qed

definition ongoing :: "caller_pc \<Rightarrow> bool" where
  "ongoing pc \<longleftrightarrow> pc \<noteq> NoCall \<and> pc \<noteq> Cancelled"

lemma run_ongoing:
  assumes "step R Run E E'" "ongoing (callers E i)"
  shows "ongoing (callers E' i)"
  using assms(1)
proof cases
  case (enter j)
  with assms(2) show ?thesis
    by (auto simp: ongoing_def get_token_enter_def proceed_def begin_wait_def start_refresh_def Let_def
        split: prod.split option.split decision.split)
next
  case (relock j l)
  with assms(2) show ?thesis
    by (auto simp: ongoing_def proceed_def begin_wait_def start_refresh_def Let_def
        split: prod.split option.split decision.split)
qed (use assms(2) in \<open>auto simp: ongoing_def recheck_flag_def finish_wait_def run_refresh_def blocking_installed_def
    blocking_failed_def nonblocking_installed_def nonblocking_failed_def notify_waiters_def release_task_lock_def
    split: prod.split option.split\<close>)

lemma trace_ongoing: "trace R E as E' \<Longrightarrow> set as \<subseteq> {Run} \<Longrightarrow> ongoing (callers E i) \<Longrightarrow> ongoing (callers E' i)"
  by (induction rule: trace.induct) (auto intro: run_ongoing)

section \<open>A concrete client\<close>

text \<open>An access-key client, whose credential is always at hand, with tokens that expire at
  a given time.\<close>

lemma access_key_try [simp]: "try_credential access_key_refresher x = (Some (), x)"
  by (simp add: access_key_refresher_def)

lemmas demo_simps = demo_token_def is_expired_at_def is_usable_at_def sat_add_def EXPIRY_LEEWAY_SECS_def
lemmas machine_simps = get_token_enter_def proceed_def begin_wait_def start_refresh_def recheck_flag_def
  finish_wait_def run_refresh_def blocking_installed_def notify_waiters_def release_task_lock_def
  decide_def fresh_denial_def wait_shortcut_def service_token_def token_usable_def
  install_refreshed_token_def state_new_def Let_def

definition demo_started :: "unit engine" where
  "demo_started =
     \<lparr>st = state_new (Some (demo_token 1000 None)), lock = Some (ByTask 0), in_progress = True, listed = {},
      n_callers = Suc 0, callers = (\<lambda>_. NoCall)(0 := Joining 0), n_tasks = Suc 0,
      tasks = (\<lambda>_. NoTask)(0 := Spawned ()), clock = 950, saved = []\<rparr>"

lemma reach_mono: "reach R L E \<Longrightarrow> L \<subseteq> L' \<Longrightarrow> reach R L' E"
  by (induction rule: reach.induct) (auto intro: reach.intros)

lemma demo_reach: "reach access_key_refresher {Arrive, Run} demo_started"
proof -
  note r0 = reach.init [of access_key_refresher "{Arrive, Run}" "Some (demo_token 1000 None)" 950, unfolded engine_new_def]
  note r1 = reach.onward [OF r0 _ step.arrive, simplified]
  from reach.onward [OF r1 _ step.enter [of _ 0]] show ?thesis
    by (simp add: demo_started_def machine_simps demo_simps)
qed

section \<open>Properties\<close>

text \<open>
  C8. Single flight. In every interleaving of calls, refresh tasks, cancellations, deaths and
  clock changes, at most one refresh is under way, the in-progress flag is set while it is,
  and as long as it has not let go of the state lock nobody else has it.\<close>

theorem single_flight:
  assumes "refresher_laws R" and "reach R L E"
  shows "(\<forall>t u. active (tasks E t) \<and> active (tasks E u) \<longrightarrow> t = u)
    \<and> (\<forall>t. active (tasks E t) \<longrightarrow> in_progress E)
    \<and> (\<forall>t. holds_lock (tasks E t) \<longrightarrow> lock E = Some (ByTask t) \<and> (\<forall>i. callers E i \<noteq> Registering))"
proof -
  note inv = reach_inv [OF assms]
  have "callers E i \<noteq> Registering" if "holds_lock (tasks E t)" for i t
    using inv_holds [OF inv that] inv_caller [OF inv, of i] by auto
  then show ?thesis using inv_single [OF inv] inv_flag [OF inv] inv_holds [OF inv] by blast
qed

theorem single_flight_witness:
  "\<exists>E. reach access_key_refresher {Arrive, Run} E \<and> active (tasks E 0) \<and> in_progress E
     \<and> (\<forall>u. active (tasks E u) \<longrightarrow> u = 0) \<and> lock E = Some (ByTask 0)"
proof -
  have "active (tasks demo_started 0)" "holds_lock (tasks demo_started 0)" by (simp_all add: demo_started_def)
  with single_flight [OF access_key.refresher_laws_axioms demo_reach] demo_reach show ?thesis by blast
qed

text \<open>
  C30. Every call ends in a bounded number of steps. A run of the machine from a fresh engine
  takes at most nine steps per call of \<open>get_token\<close>, those of the refresh it starts included,
  whatever is cancelled or dies and however the clock moves; the code has no loop in which a
  call could go round.\<close>

theorem steps_bounded_by_calls:
  assumes "refresher_laws R" and "trace R (engine_new token now) as E"
  shows "length (filter (\<lambda>a. a \<noteq> Arrive \<and> a \<noteq> Tick) as) \<le> 9 * count_list as Arrive"
  using trace_work [OF assms(2,1) engine_inv_new] by (simp add: work_def engine_new_def)

theorem steps_bounded_by_calls_witness:
  "\<exists>E. trace access_key_refresher (engine_new (Some (demo_token 1000 None)) 950) [Arrive, Run] E
     \<and> length (filter (\<lambda>a. a \<noteq> Arrive \<and> a \<noteq> Tick) [Arrive, Run]) \<le> 9 * count_list [Arrive, Run] Arrive"
proof -
  have "trace access_key_refresher (engine_new (Some (demo_token 1000 None)) 950) ([] @ [Arrive])
      ((at_caller 0 Entering (engine_new (Some (demo_token 1000 None)) 950))\<lparr>n_callers := Suc 0\<rparr>)" (is "trace ?R ?E0 _ ?E1")
    using trace.extend [OF trace.start step.arrive, of access_key_refresher "engine_new (Some (demo_token 1000 None)) 950"]
    by (simp add: engine_new_def)
  from trace.extend [OF this step.enter [of _ 0]]
  have "trace ?R ?E0 [Arrive, Run] (get_token_enter ?R 0 ?E1)" by (simp add: engine_new_def)
  with steps_bounded_by_calls [OF access_key.refresher_laws_axioms this] show ?thesis by blast
qed

text \<open>
  C15. Every call is answered. As long as no refresh task is killed, from every state the
  machine can reach its own steps lead, without any new call, to a state in which every call
  that was not cancelled has its outcome; and whenever no step is left to take, that is so.
  In particular no waiter misses the notification of the refresh it waits for, and no caller
  waits for a lock that is not released.\<close>

theorem every_call_is_answered:
  assumes laws: "refresher_laws R" and "reach R {Arrive, Tick, Run, Cancel} E"
  shows "(\<exists>as E'. trace R E as E' \<and> set as \<subseteq> {Run}
        \<and> (\<forall>i. ongoing (callers E i) \<longrightarrow> (\<exists>r. callers E' i = Done r)))
    \<and> (quiet R E \<longrightarrow> (\<forall>i. ongoing (callers E i) \<longrightarrow> (\<exists>r. callers E i = Done r)))"
proof -
  have settled: "\<exists>r. callers E' i = Done r" if "ongoing (callers E' i)" "settled (callers E' i)" for E' :: "'a engine" and i
    using that by (cases "callers E' i") (auto simp: ongoing_def)
  have inv: "engine_inv E" "live_inv E" using reach_live [OF assms] by simp_all
  from settle_exists [OF laws inv] obtain as E' where t: "trace R E as E'" "set as \<subseteq> {Run}" "quiet R E'" by blast
  have "set as \<subseteq> - {Die, Abort}" using t(2) by auto
  with trace_live [OF t(1) laws inv] have "engine_inv E'" "live_inv E'" by simp_all
  then have "\<exists>r. callers E' i = Done r" if "ongoing (callers E i)" for i
    using settled [OF trace_ongoing [OF t(1,2) that]] quiet_settled [OF t(3)] by blast
  moreover have "\<exists>r. callers E i = Done r" if "quiet R E" "ongoing (callers E i)" for i
    using settled [OF that(2)] quiet_settled [OF that(1) inv] by blast
  ultimately show ?thesis using t(1,2) by blast
qed

theorem every_call_is_answered_witness:
  "ongoing (callers demo_started 0)
   \<and> (\<exists>as E'. trace access_key_refresher demo_started as E' \<and> set as \<subseteq> {Run} \<and> (\<exists>r. callers E' 0 = Done r))"
proof -
  have o: "ongoing (callers demo_started 0)" by (simp add: demo_started_def ongoing_def)
  have "reach access_key_refresher {Arrive, Tick, Run, Cancel} demo_started"
    using reach_mono [OF demo_reach] by simp
  from every_call_is_answered [OF access_key.refresher_laws_axioms this] o show ?thesis by blast
qed

text \<open>
  A refresh task that is dropped before it is first polled (its runtime shuts down, or
  there is none to spawn it on) leaves the in-progress flag set, because the guard that
  clears it is made inside the task. Once the cached token has run out, the next caller then
  parks on a notification nobody will send: no step of the machine is left.\<close>

theorem unpolled_refresh_strands_waiters:
  "\<exists>E. reach access_key_refresher {Arrive, Tick, Run, Abort} E \<and> quiet access_key_refresher E
     \<and> callers E 1 = Parked \<and> in_progress E \<and> (\<forall>t. \<not> active (tasks E t))"
proof -
  let ?L = "{Arrive, Tick, Run, Abort}"
  have r: "reach access_key_refresher ?L demo_started" using reach_mono [OF demo_reach] by simp
  note r1 = reach.onward [OF r [unfolded demo_started_def] _ step.abort [of _ 0], simplified release_task_lock_def, simplified]
  note r2 = reach.onward [OF r1 _ step.join_failed [of _ 0 0], simplified]
  note r3 = reach.onward [OF r2 _ step.tick [where now = 1000], simplified]
  note r4 = reach.onward [OF r3 _ step.arrive, simplified]
  note r5 = reach.onward [OF r4 _ step.enter [of _ 1], simplified machine_simps demo_simps, simplified]
  note r6 = reach.onward [OF r5 _ step.register [of _ 1], simplified]
  note r7 = reach.onward [OF r6 _ step.recheck [of _ 1], simplified machine_simps, simplified]
  show ?thesis
    by (intro exI conjI, rule r7) (auto simp: quiet_def elim!: step.cases split: if_splits)
qed

text \<open>
  C31. A refresh that dies can cost a waiter its wake-up. The guard of a dying refresh clears
  the flag and notifies without the lock; a caller that has read the flag and has not yet
  registered misses that notification, and if another caller starts a new refresh before it
  rechecks the flag, it parks. That new refresh holds the lock throughout and notifies
  nobody: it succeeds, a fresh token is cached, and the caller stays parked with no step of
  the machine left.\<close>

theorem dying_refresh_loses_a_wakeup:
  "\<exists>E. reach access_key_refresher {Arrive, Tick, Run, Die} E \<and> quiet access_key_refresher E
     \<and> callers E 1 = Parked \<and> \<not> in_progress E \<and> (\<forall>t. \<not> active (tasks E t))
     \<and> (\<exists>tok. s_token (st E) = Some tok \<and> \<not> is_expired_at tok (clock E))"
proof -
  let ?L = "{Arrive, Tick, Run, Die}"
  have r: "reach access_key_refresher ?L demo_started" using reach_mono [OF demo_reach] by simp
  note s = reach.onward [OF r [unfolded demo_started_def] _ step.run [of _ 0], simplified machine_simps demo_simps, simplified]
  note s = reach.onward [OF s _ step.tick [where now = 1000], simplified]
  note s = reach.onward [OF s _ step.arrive, simplified]
  note s = reach.onward [OF s _ step.enter [of _ 1], simplified machine_simps demo_simps, simplified]
  note s = reach.onward [OF s _ step.die [of _ 0], simplified]
  note s = reach.onward [OF s _ step.dropped [of _ 0], simplified machine_simps, simplified]
  note s = reach.onward [OF s _ step.register [of _ 1], simplified]
  note s = reach.onward [OF s _ step.arrive, simplified]
  note s = reach.onward [OF s _ step.enter [of _ 2], simplified machine_simps demo_simps, simplified]
  note s = reach.onward [OF s _ step.recheck [of _ 1], simplified machine_simps, simplified]
  note s = reach.onward [OF s _ step.run [of _ 1], simplified machine_simps demo_simps, simplified]
  note s = reach.onward [OF s _ step.exchanged_b [of _ 1 "()", where tok = "demo_token 5000 None"], simplified]
  note s = reach.onward [OF s _ step.saved_b [of _ 1], simplified machine_simps, simplified]
  note s = reach.onward [OF s _ step.join_failed [of _ 0 0], simplified]
  note s = reach.onward [OF s _ step.joined [of _ 2 1], simplified]
  show ?thesis
    by (intro exI conjI, rule s) (auto simp: quiet_def demo_simps elim!: step.cases split: if_splits)
qed

end
