(* ===== verification/Profile_Store.thy ===== *)
theory Profile_Store
  imports Rust_Str "HOL-Library.List_Lexorder"
begin

text \<open>
  The profile store of \<open>packages/stack-profile/src/profile_store.rs\<close> over a model of the
  file system: a map from paths to files and directories. Every system call can fail with
  any error, by the fault plan of the environment, and a failed write can be torn; a crash
  is a run cut short between two calls. JSON encoding, the process id, the random part of a
  staging name and the umask are arguments. Paths and names are those of Unix; the Windows arms
  of the write sequence (no permissions, no directory sync, a retried rename) are modelled
  too, by a flag.
\<close>

section \<open>The file system\<close>

type_synonym path = "rstr list"

datatype io_kind = KNotFound | KAlreadyExists | KNotADirectory | KIsADirectory | KInvalidInput | KInvalidData | KOs nat

datatype node = File bytes u32 | Dir

type_synonym fs = "path \<Rightarrow> node option"

datatype call =
    CCreateDirAll | COpenNew | CWriteAll | CSyncFile | CSetPermissions | CRename nat | COpenParent | CSyncParent
  | CCleanup | CRead | CRemove | CWrite | CMove rstr | CReadDir | COpenLock | CLock

record env =
  unix :: bool
  fault :: "call \<Rightarrow> io_kind option"
  torn :: nat
  umask :: u32
  pid :: nat
  uuid :: rstr

type_synonym 'a io = "fs \<Rightarrow> (io_kind, 'a) result \<times> fs"

text \<open>A call that the fault plan lets fail has no effect; a failed write leaves a prefix.\<close>

definition faulty :: "env \<Rightarrow> call \<Rightarrow> 'a io \<Rightarrow> 'a io" where
  "faulty E c f s = (case fault E c of Some k \<Rightarrow> (Inl k, s) | None \<Rightarrow> f s)"

definition is_dir :: "fs \<Rightarrow> path \<Rightarrow> bool" where
  "is_dir s p = (p = [] \<or> s p = Some Dir)"

definition is_file :: "fs \<Rightarrow> path \<Rightarrow> bool" where
  "is_file s p = (case s p of Some (File _ _) \<Rightarrow> True | _ \<Rightarrow> False)"

definition present :: "fs \<Rightarrow> path \<Rightarrow> bool" where
  "present s p = (p = [] \<or> s p \<noteq> None)"

text \<open>The proper ancestors of a path, and whether one of them is a file.\<close>

definition ancestors :: "path \<Rightarrow> path list" where
  "ancestors p = map (\<lambda>n. take n p) [0 ..< length p]"

definition under_file :: "fs \<Rightarrow> path \<Rightarrow> bool" where
  "under_file s p = list_ex (is_file s) (ancestors p)"

definition missing :: "fs \<Rightarrow> path \<Rightarrow> io_kind" where
  "missing s p = (if under_file s p then KNotADirectory else KNotFound)"

definition create_dir_all :: "path \<Rightarrow> unit io" where
  "create_dir_all p s =
     (if under_file s p then (Inl KNotADirectory, s)
      else if is_file s p then (Inl KAlreadyExists, s)
      else (Inr (), \<lambda>q. if q \<in> set (ancestors p) \<or> q = p then Some Dir else s q))"

definition open_new :: "path \<Rightarrow> u32 \<Rightarrow> unit io" where
  "open_new p md s =
     (if present s p then (Inl KAlreadyExists, s)
      else if \<not> is_dir s (butlast p) then (Inl (missing s p), s)
      else (Inr (), s(p \<mapsto> File [] md)))"

definition set_contents :: "path \<Rightarrow> bytes \<Rightarrow> fs \<Rightarrow> fs" where
  "set_contents p bs s = (case s p of Some (File _ md) \<Rightarrow> s(p \<mapsto> File bs md) | _ \<Rightarrow> s)"

definition write_all :: "env \<Rightarrow> path \<Rightarrow> bytes \<Rightarrow> unit io" where
  "write_all E p bs s =
     (case fault E CWriteAll of
        Some k \<Rightarrow> (Inl k, set_contents p (take (torn E) bs) s)
      | None \<Rightarrow> (Inr (), set_contents p bs s))"

definition set_permissions :: "path \<Rightarrow> u32 \<Rightarrow> unit io" where
  "set_permissions p md s =
     (case s p of
        Some (File bs _) \<Rightarrow> (Inr (), s(p \<mapsto> File bs md))
      | Some Dir \<Rightarrow> (Inr (), s)
      | None \<Rightarrow> (Inl (missing s p), s))"

definition rename_file :: "path \<Rightarrow> path \<Rightarrow> unit io" where
  "rename_file p q s =
     (case s p of
        Some (File bs md) \<Rightarrow>
          if is_dir s q then (Inl KIsADirectory, s)
          else if \<not> is_dir s (butlast q) then (Inl (missing s q), s)
          else (Inr (), (s(p := None))(q \<mapsto> File bs md))
      | Some Dir \<Rightarrow> (Inl (KOs 0), s)
      | None \<Rightarrow> (Inl (missing s p), s))"

definition read_to_string :: "path \<Rightarrow> rstr io" where
  "read_to_string p s =
     (case s p of
        Some (File bs _) \<Rightarrow> ((case from_utf8 bs of Some t \<Rightarrow> Inr t | None \<Rightarrow> Inl KInvalidData), s)
      | Some Dir \<Rightarrow> (Inl KIsADirectory, s)
      | None \<Rightarrow> (Inl (if p = [] then KIsADirectory else missing s p), s))"

definition remove_file :: "path \<Rightarrow> unit io" where
  "remove_file p s =
     (case s p of
        Some (File _ _) \<Rightarrow> (Inr (), s(p := None))
      | Some Dir \<Rightarrow> (Inl KIsADirectory, s)
      | None \<Rightarrow> (Inl (if p = [] then KIsADirectory else missing s p), s))"

text \<open>\<open>std::fs::write\<close>: the file is created or truncated, keeping its mode, and then written;
  a write that fails leaves it with what was written so far.\<close>

definition create_file :: "env \<Rightarrow> path \<Rightarrow> unit io" where
  "create_file E p s =
     (case s p of
        Some (File _ md) \<Rightarrow> (Inr (), s(p \<mapsto> File [] md))
      | Some Dir \<Rightarrow> (Inl KIsADirectory, s)
      | None \<Rightarrow>
          if p = [] then (Inl KIsADirectory, s)
          else if \<not> is_dir s (butlast p) then (Inl (missing s p), s)
          else (Inr (), s(p \<mapsto> File [] (and 438 (not (umask E))))))"

definition write_file :: "env \<Rightarrow> path \<Rightarrow> bytes \<Rightarrow> unit io" where
  "write_file E p bs s =
     (case faulty E CWrite (create_file E p) s of
        (Inl k, s') \<Rightarrow> (Inl k, s')
      | (Inr _, s') \<Rightarrow> write_all E p bs s')"

text \<open>Calls in order, up to the first that fails.\<close>

fun run_steps :: "unit io list \<Rightarrow> unit io" where
  "run_steps [] s = (Inr (), s)"
| "run_steps (f # fs) s = (case f s of (Inl k, s') \<Rightarrow> (Inl k, s') | (Inr _, s') \<Rightarrow> run_steps fs s')"

section \<open>Errors and names\<close>

datatype profile_error =
    PIo io_kind
  | PJson
  | HomeDirNotFound
  | PNotFound path
  | InvalidFilename rstr
  | NoCurrentWorkspace
  | PInvalidWorkspaceId rstr
  | WorkspaceNotFound rstr

definition DEFAULT_DIR_NAME :: rstr where "DEFAULT_DIR_NAME = lit ''.cipherstash''"
definition WORKSPACES_DIR :: rstr where "WORKSPACES_DIR = lit ''workspaces''"
definition CURRENT_WORKSPACE_FILE :: rstr where "CURRENT_WORKSPACE_FILE = lit ''current_workspace''"

text \<open>A name without separators joined to a directory; a single dot is the directory itself.\<close>

definition join_name :: "path \<Rightarrow> rstr \<Rightarrow> path" where
  "join_name dir name = (if name = lit ''.'' then dir else dir @ [name])"

text \<open>\<open>ProfileStore::resolve\<close>, with the environment variable and the home directory as arguments.\<close>

definition resolve :: "(rstr \<Rightarrow> path) \<Rightarrow> path option \<Rightarrow> rstr option \<Rightarrow> path option \<Rightarrow> (profile_error, path) result" where
  "resolve to_path explicit var home_dir =
     (case explicit of
        Some path \<Rightarrow> Inr path
      | None \<Rightarrow>
          (case var of
             Some v \<Rightarrow> if trim v \<noteq> [] then Inr (to_path v)
                       else map_sum id (\<lambda>home. home @ [DEFAULT_DIR_NAME]) (ok_or home_dir HomeDirNotFound)
           | None \<Rightarrow> map_sum id (\<lambda>home. home @ [DEFAULT_DIR_NAME]) (ok_or home_dir HomeDirNotFound)))"

text \<open>An absolute path starts with the separator, which a filename may not contain anyway.\<close>

definition validate_filename :: "rstr \<Rightarrow> (profile_error, unit) result" where
  "validate_filename filename =
     (if filename = [] \<or> 47 \<in> set filename \<or> filename = lit ''..'' then Inl (InvalidFilename filename)
      else Inr ())"

definition is_base32 :: "u8 \<Rightarrow> bool" where
  "is_base32 b = (65 \<le> b \<and> b \<le> 90 \<or> 50 \<le> b \<and> b \<le> 55)"

definition validate_workspace_id :: "rstr \<Rightarrow> (profile_error, unit) result" where
  "validate_workspace_id ident =
     (if length (as_bytes ident) = 16 \<and> list_all is_base32 (as_bytes ident)
      then Inr () else Inl (PInvalidWorkspaceId ident))"

section \<open>Writing a file\<close>

definition tmp_path :: "env \<Rightarrow> path \<Rightarrow> path" where
  "tmp_path E path =
     butlast path @ [lit ''.'' @ last path @ lit ''.tmp.'' @ dec (pid E) @ lit ''.'' @ uuid E]"

definition is_transient_rename_error :: "env \<Rightarrow> io_kind \<Rightarrow> bool" where
  "is_transient_rename_error E k = (\<not> unix E \<and> (k = KOs 32 \<or> k = KOs 5))"

definition MAX_ATTEMPTS :: nat where "MAX_ATTEMPTS = 5"

text \<open>The loop, by the attempts that are left.\<close>

fun rename_attempts :: "env \<Rightarrow> nat \<Rightarrow> path \<Rightarrow> path \<Rightarrow> unit io" where
  "rename_attempts E 0 p q s = (Inl (KOs 0), s)"
| "rename_attempts E (Suc left) p q s =
     (case faulty E (CRename (MAX_ATTEMPTS - left)) (rename_file p q) s of
        (Inr _, s') \<Rightarrow> (Inr (), s')
      | (Inl k, s') \<Rightarrow>
          if left > 0 \<and> is_transient_rename_error E k then rename_attempts E left p q s' else (Inl k, s'))"

definition rename_with_retry :: "env \<Rightarrow> path \<Rightarrow> path \<Rightarrow> unit io" where
  "rename_with_retry E p q = rename_attempts E MAX_ATTEMPTS p q"

text \<open>The mode a staging file is opened with: the requested one, or the default, under the umask.\<close>

definition open_mode :: "env \<Rightarrow> u32 option \<Rightarrow> u32" where
  "open_mode E md = and (case md of Some m \<Rightarrow> if unix E then m else 438 | None \<Rightarrow> 438) (not (umask E))"

text \<open>The mode the file ends up with.\<close>

definition final_mode :: "env \<Rightarrow> u32 option \<Rightarrow> u32" where
  "final_mode E md = (case md of Some m \<Rightarrow> if unix E then m else open_mode E md | None \<Rightarrow> open_mode E md)"

definition stage_steps :: "env \<Rightarrow> path \<Rightarrow> rstr \<Rightarrow> u32 option \<Rightarrow> unit io list" where
  "stage_steps E tmp json md =
     [faulty E COpenNew (open_new tmp (open_mode E md)),
      write_all E tmp (as_bytes json),
      faulty E CSyncFile (\<lambda>s. (Inr (), s))]
     @ (case md of Some m \<Rightarrow> if unix E then [faulty E CSetPermissions (set_permissions tmp m)] else [] | None \<Rightarrow> [])"

definition commit_steps :: "env \<Rightarrow> path \<Rightarrow> path \<Rightarrow> unit io list" where
  "commit_steps E tmp path =
     rename_with_retry E tmp path
     # (if unix E then [faulty E COpenParent (\<lambda>s. (Inr (), s)), faulty E CSyncParent (\<lambda>s. (Inr (), s))] else [])"

definition write_steps :: "env \<Rightarrow> path \<Rightarrow> rstr \<Rightarrow> u32 option \<Rightarrow> unit io list" where
  "write_steps E path json md =
     stage_steps E (tmp_path E path) json md @ commit_steps E (tmp_path E path) path"

definition write_to_path :: "env \<Rightarrow> path \<Rightarrow> rstr \<Rightarrow> u32 option \<Rightarrow> fs \<Rightarrow> (profile_error, unit) result \<times> fs" where
  "write_to_path E path json md s =
     (if path = [] then (Inl (PIo KInvalidInput), s)
      else case run_steps (write_steps E path json md) s of
             (Inr _, s') \<Rightarrow> (Inr (), s')
           | (Inl k, s') \<Rightarrow> (Inl (PIo k), snd (faulty E CCleanup (remove_file (tmp_path E path)) s')))"

section \<open>The operations of a store\<close>

text \<open>Lifting a call into an operation: its error becomes the operation's.\<close>

definition lift_io :: "('a, 'b) result \<times> fs \<Rightarrow> ('a \<Rightarrow> 'e) \<Rightarrow> ('b \<Rightarrow> fs \<Rightarrow> ('e, 'c) result \<times> fs) \<Rightarrow> ('e, 'c) result \<times> fs" where
  "lift_io r e k = (case r of (Inl x, s) \<Rightarrow> (Inl (e x), s) | (Inr y, s) \<Rightarrow> k y s)"

definition store_write ::
  "env \<Rightarrow> ('v \<Rightarrow> rstr option) \<Rightarrow> path \<Rightarrow> rstr \<Rightarrow> 'v \<Rightarrow> u32 option \<Rightarrow> fs \<Rightarrow> (profile_error, unit) result \<times> fs" where
  "store_write E to_json dir filename value md s =
     (case validate_filename filename of
        Inl e \<Rightarrow> (Inl e, s)
      | Inr _ \<Rightarrow>
          lift_io (faulty E CCreateDirAll (create_dir_all dir) s) PIo (\<lambda>_ s.
            case to_json value of
              None \<Rightarrow> (Inl PJson, s)
            | Some json \<Rightarrow> write_to_path E (join_name dir filename) json md s))"

definition store_load ::
  "env \<Rightarrow> (rstr \<Rightarrow> 'v option) \<Rightarrow> path \<Rightarrow> rstr \<Rightarrow> fs \<Rightarrow> (profile_error, 'v) result \<times> fs" where
  "store_load E from_json dir filename s =
     (case validate_filename filename of
        Inl e \<Rightarrow> (Inl e, s)
      | Inr _ \<Rightarrow>
          lift_io (faulty E CRead (read_to_string (join_name dir filename)) s)
            (\<lambda>k. if k = KNotFound then PNotFound (join_name dir filename) else PIo k)
            (\<lambda>text s. (ok_or (from_json text) PJson, s)))"

text \<open>Removing a file, which need not be there: \<open>clear\<close> and \<open>clear_current_workspace\<close>.\<close>

definition remove_if_there :: "env \<Rightarrow> path \<Rightarrow> fs \<Rightarrow> (profile_error, unit) result \<times> fs" where
  "remove_if_there E path s =
     (case faulty E CRemove (remove_file path) s of
        (Inr _, s') \<Rightarrow> (Inr (), s')
      | (Inl k, s') \<Rightarrow> ((if k = KNotFound then Inr () else Inl (PIo k)), s'))"

definition store_clear :: "env \<Rightarrow> path \<Rightarrow> rstr \<Rightarrow> fs \<Rightarrow> (profile_error, unit) result \<times> fs" where
  "store_clear E dir filename s =
     (case validate_filename filename of
        Inl e \<Rightarrow> (Inl e, s)
      | Inr _ \<Rightarrow> remove_if_there E (join_name dir filename) s)"

definition store_exists :: "path \<Rightarrow> rstr \<Rightarrow> fs \<Rightarrow> bool" where
  "store_exists dir filename s = (is_ok (validate_filename filename) \<and> present s (join_name dir filename))"

definition lock_path :: "path \<Rightarrow> rstr \<Rightarrow> (profile_error, path) result" where
  "lock_path dir filename =
     and_then (validate_filename filename) (\<lambda>_. Inr (dir @ [lit ''.'' @ filename @ lit ''.lock'']))"

text \<open>\<open>lock_exclusive\<close> up to the lock itself, which blocks until no other process holds it.\<close>

definition lock_exclusive :: "env \<Rightarrow> path \<Rightarrow> rstr \<Rightarrow> fs \<Rightarrow> (profile_error, path) result \<times> fs" where
  "lock_exclusive E dir filename s =
     (case lock_path dir filename of
        Inl e \<Rightarrow> (Inl e, s)
      | Inr lp \<Rightarrow>
          lift_io (faulty E CCreateDirAll (create_dir_all dir) s) PIo (\<lambda>_ s.
          lift_io (faulty E COpenLock
              (\<lambda>s. case s lp of Some (File _ _) \<Rightarrow> (Inr (), s) | Some Dir \<Rightarrow> (Inl KIsADirectory, s)
                 | None \<Rightarrow> (Inr (), s(lp \<mapsto> File [] (and 438 (not (umask E)))))) s) PIo (\<lambda>_ s.
          lift_io (faulty E CLock (\<lambda>s. (Inr (), s)) s) PIo (\<lambda>_ s. (Inr lp, s)))))"

section \<open>Workspaces\<close>

definition ws_path :: "path \<Rightarrow> rstr \<Rightarrow> path" where
  "ws_path dir ident = dir @ [WORKSPACES_DIR, ident]"

definition current_path :: "path \<Rightarrow> path" where
  "current_path dir = dir @ [CURRENT_WORKSPACE_FILE]"

definition set_current_workspace :: "env \<Rightarrow> path \<Rightarrow> rstr \<Rightarrow> fs \<Rightarrow> (profile_error, unit) result \<times> fs" where
  "set_current_workspace E dir ident s =
     (case validate_workspace_id ident of
        Inl e \<Rightarrow> (Inl e, s)
      | Inr _ \<Rightarrow>
          if \<not> is_dir s (ws_path dir ident) then (Inl (WorkspaceNotFound ident), s)
          else
            lift_io (faulty E CCreateDirAll (create_dir_all dir) s) PIo (\<lambda>_ s.
            lift_io (write_file E (current_path dir) (as_bytes ident) s) PIo (\<lambda>_ s. (Inr (), s))))"

definition init_workspace :: "env \<Rightarrow> path \<Rightarrow> rstr \<Rightarrow> fs \<Rightarrow> (profile_error, unit) result \<times> fs" where
  "init_workspace E dir ident s =
     (case validate_workspace_id ident of
        Inl e \<Rightarrow> (Inl e, s)
      | Inr _ \<Rightarrow>
          lift_io (faulty E CCreateDirAll (create_dir_all (ws_path dir ident)) s) PIo (\<lambda>_ s.
          lift_io (write_file E (current_path dir) (as_bytes ident) s) PIo (\<lambda>_ s. (Inr (), s))))"

definition current_workspace :: "env \<Rightarrow> path \<Rightarrow> fs \<Rightarrow> (profile_error, rstr) result \<times> fs" where
  "current_workspace E dir s =
     lift_io (faulty E CRead (read_to_string (current_path dir)) s)
       (\<lambda>k. if k = KNotFound then NoCurrentWorkspace else PIo k)
       (\<lambda>text s. (and_then (validate_workspace_id (trim text)) (\<lambda>_. Inr (trim text)), s))"

definition clear_current_workspace :: "env \<Rightarrow> path \<Rightarrow> fs \<Rightarrow> (profile_error, unit) result \<times> fs" where
  "clear_current_workspace E dir s = remove_if_there E (current_path dir) s"

text \<open>The names \<open>read_dir\<close> lists, in any order, are an argument.\<close>

definition list_workspaces :: "env \<Rightarrow> path \<Rightarrow> rstr list \<Rightarrow> fs \<Rightarrow> (profile_error, rstr list) result" where
  "list_workspaces E dir names s =
     (case fault E CReadDir of
        Some k \<Rightarrow> if k = KNotFound then Inr [] else Inl (PIo k)
      | None \<Rightarrow>
          if is_dir s (dir @ [WORKSPACES_DIR])
          then Inr (sort (filter (\<lambda>name. is_dir s (ws_path dir name) \<and> is_ok (validate_workspace_id name)) names))
          else if is_file s (dir @ [WORKSPACES_DIR]) then Inl (PIo KNotADirectory)
          else if missing s (dir @ [WORKSPACES_DIR]) = KNotFound then Inr []
          else Inl (PIo (missing s (dir @ [WORKSPACES_DIR]))))"

definition workspace_store :: "path \<Rightarrow> rstr \<Rightarrow> (profile_error, path) result" where
  "workspace_store dir ident = and_then (validate_workspace_id ident) (\<lambda>_. Inr (ws_path dir ident))"

definition current_workspace_store :: "env \<Rightarrow> path \<Rightarrow> fs \<Rightarrow> (profile_error, path) result \<times> fs" where
  "current_workspace_store E dir s =
     lift_io (current_workspace E dir s) id (\<lambda>ident s. (workspace_store dir ident, s))"

definition LEGACY_FILES :: "rstr list" where
  "LEGACY_FILES = [lit ''auth.json'', lit ''secretkey.json'']"

fun migrate_files :: "env \<Rightarrow> path \<Rightarrow> path \<Rightarrow> rstr list \<Rightarrow> fs \<Rightarrow> (profile_error, unit) result \<times> fs" where
  "migrate_files E dir ws [] s = (Inr (), s)"
| "migrate_files E dir ws (name # names) s =
     (if present s (dir @ [name]) \<and> \<not> present s (ws @ [name])
      then lift_io (faulty E (CMove name) (rename_file (dir @ [name]) (ws @ [name])) s) PIo
             (\<lambda>_ s. migrate_files E dir ws names s)
      else migrate_files E dir ws names s)"

definition migrate_to_workspace :: "env \<Rightarrow> path \<Rightarrow> rstr \<Rightarrow> fs \<Rightarrow> (profile_error, unit) result \<times> fs" where
  "migrate_to_workspace E dir ident s =
     (case validate_workspace_id ident of
        Inl e \<Rightarrow> (Inl e, s)
      | Inr _ \<Rightarrow>
          lift_io (faulty E CCreateDirAll (create_dir_all (ws_path dir ident)) s) PIo (\<lambda>_ s.
          lift_io (migrate_files E dir (ws_path dir ident) LEGACY_FILES s) id (\<lambda>_ s.
          set_current_workspace E dir ident s)))"

section \<open>Facts about the calls\<close>

lemma faulty_none [simp]: "fault E c = None \<Longrightarrow> faulty E c f s = f s"
  by (simp add: faulty_def)

lemma faulty_some [simp]: "fault E c = Some k \<Longrightarrow> faulty E c f s = (Inl k, s)"
  by (simp add: faulty_def)

lemma faulty_keeps: "(\<And>s. P s \<Longrightarrow> P (snd (f s))) \<Longrightarrow> P s \<Longrightarrow> P (snd (faulty E c f s))"
  by (simp add: faulty_def split: option.split)

lemma run_steps_append:
  "run_steps (xs @ ys) s = (case run_steps xs s of (Inl k, s') \<Rightarrow> (Inl k, s') | (Inr _, s') \<Rightarrow> run_steps ys s')"
  by (induction xs arbitrary: s) (auto split: prod.split sum.split)

lemma run_steps_keep:
  "(\<And>f s. f \<in> set fs \<Longrightarrow> P s \<Longrightarrow> P (snd (f s))) \<Longrightarrow> P s \<Longrightarrow> P (snd (run_steps fs s))"
proof (induction fs arbitrary: s)
  case (Cons f fs)
  have "P (snd (f s))" using Cons.prems by simp
  moreover have "P (snd (run_steps fs s'))" if "P s'" for s'
    using Cons.IH [of s'] Cons.prems(1) that by simp
  ultimately show ?case by (cases "f s") (auto split: sum.split)
qed simp

lemma tmp_neq: "path \<noteq> [] \<Longrightarrow> tmp_path E path \<noteq> path"
proof
  assume "path \<noteq> []" "tmp_path E path = path"
  then have "last (tmp_path E path) = last path" by simp
  then have "length (last (tmp_path E path)) = length (last path)" by simp
  then show False by (simp add: tmp_path_def lit_def)
qed

text \<open>The staging calls touch only the staging file.\<close>

lemma set_contents_other: "q \<noteq> p \<Longrightarrow> set_contents p bs s q = s q"
  by (simp add: set_contents_def split: option.split node.split)

lemma write_all_other: "q \<noteq> p \<Longrightarrow> snd (write_all E p bs s) q = s q"
  by (simp add: write_all_def set_contents_other split: option.split)

lemma set_permissions_other: "q \<noteq> p \<Longrightarrow> snd (set_permissions p m s) q = s q"
  by (simp add: set_permissions_def split: option.split node.split)

lemma open_new_other: "q \<noteq> p \<Longrightarrow> snd (open_new p m s) q = s q"
  by (simp add: open_new_def)

lemma stage_other:
  assumes "q \<noteq> tmp" "f \<in> set (stage_steps E tmp json md)"
  shows "snd (f s) q = s q"
  using assms
  by (auto simp: stage_steps_def faulty_def write_all_other set_permissions_other open_new_other
      split: option.splits if_splits)

text \<open>A rename happens or changes nothing, however often it is tried.\<close>

lemma rename_file_cases:
  "(\<exists>bs md. s p = Some (File bs md) \<and> rename_file p q s = (Inr (), (s(p := None))(q \<mapsto> File bs md)))
   \<or> (\<exists>k. rename_file p q s = (Inl k, s))"
  by (simp add: rename_file_def split: option.split node.split)

lemma rename_attempts_cases:
  assumes "s p = Some (File bs md)"
  shows "rename_attempts E n p q s = (Inr (), (s(p := None))(q \<mapsto> File bs md))
    \<or> (\<exists>k. rename_attempts E n p q s = (Inl k, s))"
proof (induction n)
  case (Suc n)
  have "faulty E c (rename_file p q) s = (Inr (), (s(p := None))(q \<mapsto> File bs md))
      \<or> (\<exists>k. faulty E c (rename_file p q) s = (Inl k, s))" for c
    using rename_file_cases [of s p q] assms by (cases "fault E c") auto
  from this [of "CRename (MAX_ATTEMPTS - n)"] Suc.IH show ?case
    by (elim disjE exE) (simp_all add: fun_upd_def split: if_split)
qed simp

lemma commit_cases:
  assumes "s tmp = Some (File bs md)"
  shows "\<exists>r s'. run_steps (take n (commit_steps E tmp path)) s = (r, s')
    \<and> (s' = s \<and> (r = Inr () \<longrightarrow> n = 0) \<or> s' = (s(tmp := None))(path \<mapsto> File bs md))"
proof (cases n)
  case (Suc m)
  have sync: "\<exists>r. run_steps (take m (if unix E then [faulty E COpenParent (\<lambda>s. (Inr (), s)), faulty E CSyncParent (\<lambda>s. (Inr (), s))] else [])) s' = (r, s')"
    for s'
    by (cases "unix E"; cases m; cases "m - 1") (auto simp: faulty_def take_Cons' split: option.split)
  from rename_attempts_cases [where E = E and n = MAX_ATTEMPTS and q = path, of s tmp, OF assms] show ?thesis
    using Suc sync [of "(s(tmp := None))(path \<mapsto> File bs md)"]
    by (auto simp: commit_steps_def rename_with_retry_def)
qed simp

text \<open>What the staging leaves: nothing changed but the staging file, which has at most the
  mode that was asked for, and after all of it the whole contents and exactly that mode.\<close>

definition mode_within :: "u32 \<Rightarrow> u32 \<Rightarrow> bool" where
  "mode_within m limit = (and m (not limit) = 0)"

definition tmp_private :: "env \<Rightarrow> u32 option \<Rightarrow> path \<Rightarrow> fs \<Rightarrow> bool" where
  "tmp_private E md tmp s =
     (case s tmp of
        Some (File _ m') \<Rightarrow> (case md of Some m \<Rightarrow> unix E \<longrightarrow> mode_within m' m | None \<Rightarrow> True)
      | Some Dir \<Rightarrow> False
      | None \<Rightarrow> True)"

lemma mode_within_refl: "mode_within m m"
  by (simp add: mode_within_def bit_eq_iff bit_simps)

lemma mode_within_and: "mode_within (and m x) m"
  by (auto simp: mode_within_def bit_eq_iff bit_simps)

lemma stage_private_step:
  assumes "f \<in> set (stage_steps E tmp json md)" "tmp_private E md tmp s"
  shows "tmp_private E md tmp (snd (f s))"
  using assms
  by (auto simp: stage_steps_def faulty_def write_all_def set_contents_def set_permissions_def open_new_def
      tmp_private_def open_mode_def mode_within_refl mode_within_and split: option.splits node.splits if_splits)

lemma stage_opened:
  assumes "s tmp = None" "run_steps (stage_steps E tmp json md) s = (Inr (), s')"
  shows "faulty E COpenNew (open_new tmp (open_mode E md)) s = (Inr (), s(tmp \<mapsto> File [] (open_mode E md)))"
  using assms by (cases "fault E COpenNew") (auto simp: stage_steps_def open_new_def present_def split: if_splits)

lemma stage_done:
  assumes "s tmp = None" "run_steps (stage_steps E tmp json md) s = (Inr (), s')"
  shows "s' = s(tmp \<mapsto> File (as_bytes json) (final_mode E md))"
proof -
  let ?s1 = "s(tmp \<mapsto> File [] (open_mode E md))" and ?s2 = "s(tmp \<mapsto> File (as_bytes json) (open_mode E md))"
  have "fault E CWriteAll = None"
    using stage_opened [OF assms] assms(2) by (cases "fault E CWriteAll") (auto simp: stage_steps_def write_all_def)
  then have w: "write_all E tmp (as_bytes json) ?s1 = (Inr (), ?s2)" by (simp add: write_all_def set_contents_def)
  have "fault E CSyncFile = None"
    using stage_opened [OF assms] w assms(2) by (cases "fault E CSyncFile") (auto simp: stage_steps_def)
  with stage_opened [OF assms] w assms(2) show ?thesis
    by (cases md; cases "fault E CSetPermissions"; cases "unix E")
      (auto simp: stage_steps_def set_permissions_def final_mode_def)
qed

definition new_file :: "env \<Rightarrow> rstr \<Rightarrow> u32 option \<Rightarrow> node" where
  "new_file E json md = File (as_bytes json) (final_mode E md)"

text \<open>The states a write can be seen in: the file is as it was or is the new one.\<close>

definition atomic_state :: "env \<Rightarrow> path \<Rightarrow> rstr \<Rightarrow> u32 option \<Rightarrow> fs \<Rightarrow> fs \<Rightarrow> bool" where
  "atomic_state E path json md s s' \<longleftrightarrow>
     (\<forall>q. q \<noteq> path \<longrightarrow> q \<noteq> tmp_path E path \<longrightarrow> s' q = s q)
     \<and> (s' path = s path \<or> s' path = Some (new_file E json md))
     \<and> tmp_private E md (tmp_path E path) s'"

lemma stage_atomic:
  assumes "path \<noteq> []" "s (tmp_path E path) = None" "set fs \<subseteq> set (stage_steps E (tmp_path E path) json md)"
  shows "atomic_state E path json md s (snd (run_steps fs s)) \<and> snd (run_steps fs s) path = s path"
proof -
  let ?P = "\<lambda>s'. (\<forall>q. q \<noteq> tmp_path E path \<longrightarrow> s' q = s q) \<and> tmp_private E md (tmp_path E path) s'"
  have "?P (snd (run_steps fs s))"
  proof (rule run_steps_keep)
    fix f s'
    assume "f \<in> set fs" "?P s'"
    with assms(3) have f: "f \<in> set (stage_steps E (tmp_path E path) json md)" by blast
    have "snd (f s') q = s q" if "q \<noteq> tmp_path E path" for q
      using stage_other [OF that f, of s'] \<open>?P s'\<close> that by simp
    with stage_private_step [OF f] \<open>?P s'\<close> show "?P (snd (f s'))" by blast
  next
    show "?P s" using assms(2) by (simp add: tmp_private_def)
  qed
  then show ?thesis using tmp_neq [OF assms(1), of E] unfolding atomic_state_def by simp
qed

lemma write_prefix_atomic:
  assumes "path \<noteq> []" "s (tmp_path E path) = None"
  shows "atomic_state E path json md s (snd (run_steps (take n (write_steps E path json md)) s))"
proof -
  let ?tmp = "tmp_path E path"
  let ?st = "stage_steps E ?tmp json md" and ?m = "n - length (stage_steps E (tmp_path E path) json md)"
  have split: "take n (write_steps E path json md) = take n ?st @ take ?m (commit_steps E ?tmp path)"
    by (simp add: write_steps_def)
  have st: "atomic_state E path json md s (snd (run_steps (take n ?st) s))"
    using stage_atomic [where s = s and fs = "take n ?st" and path = path and E = E and json = json and md = md] assms
    by (simp add: set_take_subset)
  show ?thesis
  proof (cases "?m = 0")
    case True
    with split st show ?thesis by simp
  next
    case False
    then have full: "take n ?st = ?st" by simp
    obtain r1 s1 where r1: "run_steps ?st s = (r1, s1)" by fastforce
    show ?thesis
    proof (cases r1)
      case (Inl k)
      with r1 split st full show ?thesis by (simp add: run_steps_append)
    next
      case (Inr u)
      with r1 have s1: "s1 = s(?tmp \<mapsto> new_file E json md)"
        using stage_done [where s = s and tmp = ?tmp and s' = s1 and E = E and json = json and md = md] assms(2)
    by (simp add: new_file_def)
      then have "s1 ?tmp = Some (File (as_bytes json) (final_mode E md))" by (simp add: new_file_def)
      from commit_cases [where s = s1 and tmp = ?tmp, OF this, of ?m E path] obtain r s' where c: "run_steps (take ?m (commit_steps E ?tmp path)) s1 = (r, s')"
        and s': "s' = s1 \<or> s' = (s1(?tmp := None))(path \<mapsto> new_file E json md)"
        by (auto simp: new_file_def)
      have res: "snd (run_steps (take n (write_steps E path json md)) s) = s'"
        using r1 Inr c split full by (simp add: run_steps_append)
      have "atomic_state E path json md s s1" using st full r1 by simp
      then show ?thesis unfolding res
        using s' tmp_neq [OF assms(1), of E] s1 by (auto simp: atomic_state_def tmp_private_def)
    qed
  qed
qed

lemma write_steps_done:
  assumes "path \<noteq> []" "s (tmp_path E path) = None" "run_steps (write_steps E path json md) s = (Inr (), s')"
  shows "s' path = Some (new_file E json md) \<and> s' (tmp_path E path) = None"
proof -
  let ?tmp = "tmp_path E path"
  obtain r1 s1 where r1: "run_steps (stage_steps E ?tmp json md) s = (r1, s1)" by fastforce
  with assms(3) have "r1 = Inr ()" by (cases r1) (auto simp: write_steps_def run_steps_append)
  with r1 have s1: "s1 = s(?tmp \<mapsto> new_file E json md)"
    using stage_done [where s = s and tmp = ?tmp and s' = s1 and E = E and json = json and md = md] assms(2)
    by (simp add: new_file_def)
  then have t: "s1 ?tmp = Some (File (as_bytes json) (final_mode E md))" by (simp add: new_file_def)
  have "run_steps (take (length (commit_steps E ?tmp path)) (commit_steps E ?tmp path)) s1 = (Inr (), s')"
    using assms(3) r1 \<open>r1 = Inr ()\<close> by (simp add: write_steps_def run_steps_append)
  with commit_cases [where s = s1 and tmp = ?tmp, OF t, of "length (commit_steps E ?tmp path)" E path]
  have "s' = (s1(?tmp := None))(path \<mapsto> new_file E json md)"
    by (auto simp: commit_steps_def new_file_def)
  then show ?thesis using tmp_neq [OF assms(1), of E] by simp
qed

lemma create_dir_all_other:
  "q \<noteq> p \<Longrightarrow> q \<notin> set (ancestors p) \<Longrightarrow> snd (create_dir_all p s) q = s q"
  by (simp add: create_dir_all_def)

lemma ancestors_shorter: "q \<in> set (ancestors p) \<Longrightarrow> length q < length p \<and> (\<exists>r. p = q @ r)"
  by (auto simp: ancestors_def) (metis append_take_drop_id)

lemma below_not_ancestor: "d @ x # xs \<noteq> d \<and> d @ x # xs \<notin> set (ancestors d)"
  using ancestors_shorter [of "d @ x # xs" d] by auto

lemma create_dir_all_below [simp]:
  "snd (create_dir_all d s) (d @ x # xs) = s (d @ x # xs)"
  using below_not_ancestor by (intro create_dir_all_other) auto

lemma mkdir_below [simp]: "snd (faulty E c (create_dir_all d) s) (d @ x # xs) = s (d @ x # xs)"
  by (simp add: faulty_def split: option.split)

lemma tmp_of_name: "tmp_path E (dir @ [name])
    = dir @ [lit ''.'' @ name @ lit ''.tmp.'' @ dec (pid E) @ lit ''.'' @ uuid E]"
  by (simp add: tmp_path_def)

text \<open>A successful write leaves the file that was asked for.\<close>

lemma write_to_path_ok:
  assumes "s (tmp_path E path) = None" "write_to_path E path json md s = (Inr (), s')"
  shows "s' path = Some (new_file E json md) \<and> s' (tmp_path E path) = None"
proof -
  have p: "path \<noteq> []" using assms(2) by (auto simp: write_to_path_def)
  with assms(2) have "run_steps (write_steps E path json md) s = (Inr (), s')"
    by (auto simp: write_to_path_def split: prod.splits sum.splits)
  with write_steps_done [where s = s and path = path and E = E] p assms(1) show ?thesis by blast
qed

lemma store_write_ok:
  assumes ok: "store_write E to_json dir filename v md s = (Inr (), s')" and dot: "filename \<noteq> lit ''.''"
    and tmp: "s (tmp_path E (dir @ [filename])) = None"
  shows "is_ok (validate_filename filename)
    \<and> (\<exists>json. to_json v = Some json \<and> s' (dir @ [filename]) = Some (new_file E json md))"
proof -
  obtain r s1 where c: "faulty E CCreateDirAll (create_dir_all dir) s = (r, s1)" by fastforce
  then have s1: "s1 (dir @ [x]) = s (dir @ [x])" for x using mkdir_below [of E CCreateDirAll dir s x "[]"] by simp
  from ok c dot obtain json where "is_ok (validate_filename filename)" "to_json v = Some json"
    "write_to_path E (dir @ [filename]) json md s1 = (Inr (), s')"
    by (auto simp: store_write_def lift_io_def join_name_def split: sum.splits option.splits)
  with write_to_path_ok [where s = s1 and path = "dir @ [filename]" and E = E] tmp s1 show ?thesis
    by (simp add: tmp_of_name)
qed

lemma load_new_file:
  assumes "s (dir @ [filename]) = Some (new_file E json md)" "is_str json" "fault E' CRead = None"
    "is_ok (validate_filename filename)" "filename \<noteq> lit ''.''"
  shows "store_load E' from_json dir filename s = (ok_or (from_json json) PJson, s)"
  using assms
  by (auto simp: store_load_def lift_io_def read_to_string_def new_file_def join_name_def from_utf8_as_bytes
      is_ok_def split: sum.splits)

text \<open>Without faults a write to a file in a directory succeeds.\<close>

lemma stage_without_faults:
  assumes "\<And>c. fault E c = None" "s (p @ [x]) = None" "is_dir s p"
  shows "run_steps (stage_steps E (p @ [x]) json md) s = (Inr (), s((p @ [x]) \<mapsto> new_file E json md))"
  using assms
  by (cases md) (auto simp: stage_steps_def open_new_def present_def write_all_def set_contents_def
      set_permissions_def new_file_def final_mode_def)

lemma commit_without_faults:
  assumes "\<And>c. fault E c = None" "s tmp = Some (File bs m)" "\<not> is_dir s path" "is_dir s (butlast path)"
  shows "run_steps (commit_steps E tmp path) s = (Inr (), (s(tmp := None))(path \<mapsto> File bs m))"
  using assms by (simp add: commit_steps_def rename_with_retry_def MAX_ATTEMPTS_def eval_nat_numeral rename_file_def)

lemma write_without_faults:
  assumes nf: "\<And>c. fault E c = None" and d: "is_dir s dir" and t: "\<not> is_dir s (dir @ [name])"
    and tmp: "s (tmp_path E (dir @ [name])) = None"
  shows "fst (write_to_path E (dir @ [name]) json md s) = Inr ()"
proof -
  let ?n = "lit ''.'' @ name @ lit ''.tmp.'' @ dec (pid E) @ lit ''.'' @ uuid E"
  let ?tmp = "dir @ [?n]" and ?path = "dir @ [name]"
  have neq: "?tmp \<noteq> ?path" using tmp_neq [of ?path E] by (simp add: tmp_of_name)
  let ?s1 = "s(?tmp \<mapsto> new_file E json md)"
  have a: "run_steps (stage_steps E ?tmp json md) s = (Inr (), ?s1)"
    using stage_without_faults [of E s dir ?n] nf d tmp by (simp add: tmp_of_name)
  have "?s1 ?tmp = Some (File (as_bytes json) (final_mode E md))" by (simp add: new_file_def)
  moreover have "\<not> is_dir ?s1 ?path" "is_dir ?s1 (butlast ?path)"
    using t d neq by (auto simp: is_dir_def)
  ultimately have "fst (run_steps (commit_steps E ?tmp ?path) ?s1) = Inr ()"
    using commit_without_faults [where E = E and s = ?s1 and tmp = ?tmp and path = ?path] nf by simp
  then have "fst (run_steps (write_steps E ?path json md) s) = Inr ()"
    using a by (simp add: write_steps_def run_steps_append tmp_of_name)
  then show ?thesis by (cases "run_steps (write_steps E ?path json md) s") (simp add: write_to_path_def)
qed

lemma store_write_without_faults:
  assumes nf: "\<And>c. fault E c = None" and v: "is_ok (validate_filename filename)" "filename \<noteq> lit ''.''"
    and d: "\<not> under_file s dir" "\<not> is_file s dir" and t: "\<not> is_dir s (dir @ [filename])"
    and tmp: "s (tmp_path E (dir @ [filename])) = None" and j: "to_json x = Some json"
  shows "fst (store_write E to_json dir filename x md s) = Inr ()"
proof -
  let ?s1 = "snd (create_dir_all dir s)"
  have c: "create_dir_all dir s = (Inr (), ?s1)" using d by (simp add: create_dir_all_def)
  have "is_dir ?s1 dir" using d by (simp add: create_dir_all_def is_dir_def)
  moreover have "\<not> is_dir ?s1 (dir @ [filename])" "?s1 (tmp_path E (dir @ [filename])) = None"
    using t tmp create_dir_all_below [of dir s _ "[]"] by (simp_all add: is_dir_def tmp_of_name)
  ultimately have "fst (write_to_path E (dir @ [filename]) json md ?s1) = Inr ()"
    using write_without_faults [where E = E and s = ?s1] nf by blast
  then show ?thesis
    using v c j nf by (cases "validate_filename filename") (auto simp: store_write_def lift_io_def join_name_def split: prod.split)
qed

section \<open>Workspace ids\<close>

lemma encode_char_ascii: "is_scalar c \<Longrightarrow> list_all (\<lambda>b. unat b < 128) (encode_char c) \<Longrightarrow> c < 128"
  by (auto simp: encode_char_def is_scalar_def split: if_splits)

lemma ascii_chars: "is_str t \<Longrightarrow> list_all (\<lambda>b. unat b < 128) (as_bytes t) \<Longrightarrow> list_all (\<lambda>c. c < 128) t \<and> as_bytes t = map byte t"
proof (induction t)
  case (Cons c t)
  then have "c < 128" using encode_char_ascii [of c] by (simp add: is_str_def as_bytes_def)
  with Cons show ?case by (simp add: is_str_def as_bytes_def encode_char_def)
qed (simp add: as_bytes_def)

lemma base32_range: "is_base32 b \<Longrightarrow> 50 \<le> unat b \<and> unat b < 128"
  by (auto simp: is_base32_def word_le_nat_alt)

lemma valid_workspace_chars:
  assumes "is_ok (validate_workspace_id ident)" "is_str ident"
  shows "list_all (\<lambda>c. 50 \<le> c \<and> c < 128) ident \<and> length ident = 16"
proof -
  have b: "list_all is_base32 (as_bytes ident)" "length (as_bytes ident) = 16"
    using assms(1) by (auto simp: validate_workspace_id_def split: if_splits)
  then have "list_all (\<lambda>b. unat b < 128) (as_bytes ident)" using base32_range by (auto simp: list_all_iff)
  from ascii_chars [OF assms(2) this] have m: "list_all (\<lambda>c. c < 128) ident" "as_bytes ident = map byte ident" by simp_all
  then have "50 \<le> c" if "c \<in> set ident" for c
    using b(1) base32_range [of "byte c"] that by (auto simp: list_all_iff)
  with m b show ?thesis by (simp add: list_all_iff)
qed

lemma dropWhile_none: "(\<And>c. c \<in> set xs \<Longrightarrow> \<not> P c) \<Longrightarrow> dropWhile P xs = xs"
  by (cases xs) auto

lemma trim_workspace:
  assumes "is_ok (validate_workspace_id ident)" "is_str ident"
  shows "trim ident = ident"
proof -
  have "\<not> is_whitespace c" if "c \<in> set ident" for c
    using valid_workspace_chars [OF assms] that by (fastforce simp: list_all_iff is_whitespace_def)
  then have "dropWhile is_whitespace ident = ident" "dropWhile is_whitespace (rev ident) = rev ident"
    by (auto intro!: dropWhile_none)
  then show ?thesis by (simp add: trim_def)
qed

text \<open>Selecting a workspace: the file that names it, and the directory.\<close>

lemma current_below: "q = current_path dir \<Longrightarrow> q \<noteq> ws_path dir ident \<and> q \<notin> set (ancestors (ws_path dir ident))"
proof -
  assume q: "q = current_path dir"
  have "q \<notin> set (ancestors (ws_path dir ident))"
  proof
    assume "q \<in> set (ancestors (ws_path dir ident))"
    then obtain r where "ws_path dir ident = current_path dir @ r" using ancestors_shorter q by blast
    then show False by (simp add: ws_path_def current_path_def WORKSPACES_DIR_def CURRENT_WORKSPACE_FILE_def lit_def)
  qed
  with q show ?thesis by (simp add: current_path_def ws_path_def)
qed

lemma write_file_ok:
  "write_file E p bs s = (Inr (), s') \<Longrightarrow> \<exists>m. s' = s(p \<mapsto> File bs m)"
  by (auto simp: write_file_def faulty_def create_file_def write_all_def set_contents_def
      split: prod.splits sum.splits option.splits node.splits if_splits)

lemma current_workspace_read:
  assumes "s (current_path dir) = Some (File (as_bytes ident) m)" "is_ok (validate_workspace_id ident)" "is_str ident"
    "fault E CRead = None"
  shows "current_workspace E dir s = (Inr ident, s) \<and> current_workspace_store E dir s = (Inr (ws_path dir ident), s)"
proof -
  have "current_workspace E dir s = (Inr ident, s)"
    using assms trim_workspace [OF assms(2,3)]
    by (cases "validate_workspace_id ident")
      (auto simp: current_workspace_def lift_io_def read_to_string_def from_utf8_as_bytes)
  with assms(2) show ?thesis
    by (cases "validate_workspace_id ident") (auto simp: current_workspace_store_def lift_io_def workspace_store_def)
qed

lemma init_workspace_ok:
  assumes "init_workspace E dir ident s = (Inr (), s')"
  shows "is_ok (validate_workspace_id ident) \<and> s' (ws_path dir ident) = Some Dir
    \<and> (\<exists>m. s' (current_path dir) = Some (File (as_bytes ident) m))"
proof -
  from assms obtain s1 where v: "is_ok (validate_workspace_id ident)"
    and c: "faulty E CCreateDirAll (create_dir_all (ws_path dir ident)) s = (Inr (), s1)"
    and w: "write_file E (current_path dir) (as_bytes ident) s1 = (Inr (), s')"
    by (auto simp: init_workspace_def lift_io_def split: sum.splits prod.splits)
  have "s1 (ws_path dir ident) = Some Dir"
    using c by (auto simp: faulty_def create_dir_all_def split: option.splits if_splits)
  moreover obtain m where "s' = s1(current_path dir \<mapsto> File (as_bytes ident) m)"
    using write_file_ok [OF w] by blast
  ultimately show ?thesis using v current_below [of "current_path dir" dir ident] by auto
qed

text \<open>Making directories and selecting a workspace keep every file but the one that names the
  selection; the loop that migrates the legacy files moves them and overwrites nothing.\<close>

lemma create_dir_all_files:
  "s q = Some (File b m) \<Longrightarrow> snd (create_dir_all p s) q = Some (File b m)"
  by (auto simp: create_dir_all_def under_file_def is_file_def list_ex_iff split: option.splits node.splits)

lemma mkdir_files: "s q = Some (File b m) \<Longrightarrow> snd (faulty E c (create_dir_all p) s) q = Some (File b m)"
  by (simp add: faulty_def create_dir_all_files split: option.split)

lemma write_file_other: "q \<noteq> p \<Longrightarrow> snd (write_file E p bs s) q = s q"
  by (auto simp: write_file_def faulty_def create_file_def write_all_other
      split: prod.split sum.split option.split node.split)

lemma set_current_files:
  assumes "s q = Some (File b m)" "q \<noteq> current_path dir"
  shows "snd (set_current_workspace E dir ident s) q = Some (File b m)"
proof -
  obtain r s1 where c: "faulty E CCreateDirAll (create_dir_all dir) s = (r, s1)" by fastforce
  then have "s1 q = Some (File b m)" using mkdir_files [where s = s and q = q, OF assms(1), of E CCreateDirAll dir] by simp
  then have "snd (write_file E (current_path dir) (as_bytes ident) s1) q = Some (File b m)"
    using assms(2) by (simp add: write_file_other)
  with c \<open>s1 q = _\<close> assms(1) show ?thesis
    by (cases "write_file E (current_path dir) (as_bytes ident) s1")
      (auto simp: set_current_workspace_def lift_io_def split: sum.split)
qed

definition kept_or_moved :: "path \<Rightarrow> path \<Rightarrow> rstr list \<Rightarrow> fs \<Rightarrow> fs \<Rightarrow> bool" where
  "kept_or_moved dir ws names s s' \<longleftrightarrow>
     (\<forall>q b m. s q = Some (File b m) \<longrightarrow>
        s' q = Some (File b m) \<or> (\<exists>name \<in> set names. q = dir @ [name] \<and> s' (ws @ [name]) = Some (File b m)))"

lemma move_one:
  assumes "\<not> present s (ws @ [name])" "dir @ [name] \<noteq> ws @ [name]"
  shows "(r, s1) = faulty E c (rename_file (dir @ [name]) (ws @ [name])) s \<Longrightarrow>
    s1 = s \<or> (\<exists>b m. s (dir @ [name]) = Some (File b m) \<and> s1 = (s(dir @ [name] := None))(ws @ [name] \<mapsto> File b m))"
  using rename_file_cases [of s "dir @ [name]" "ws @ [name]"] by (cases "fault E c") auto

lemma moved_then_kept:
  assumes ws: "length ws > length dir" and free: "s (ws @ [name]) = None"
    and s1: "s1 = (s(dir @ [name] := None))(ws @ [name] \<mapsto> File b0 m0)" "s (dir @ [name]) = Some (File b0 m0)"
    and k: "kept_or_moved dir ws names s1 s2"
  shows "kept_or_moved dir ws (name # names) s s2"
  unfolding kept_or_moved_def
proof (intro allI impI)
  fix q b m
  assume q: "s q = Some (File b m)"
  show "s2 q = Some (File b m) \<or> (\<exists>n \<in> set (name # names). q = dir @ [n] \<and> s2 (ws @ [n]) = Some (File b m))"
  proof (cases "q = dir @ [name]")
    case True
    then have "s1 (ws @ [name]) = Some (File b m)" using s1 q by simp
    moreover have "ws @ [name] \<noteq> dir @ [n]" for n using ws by auto
    ultimately have "s2 (ws @ [name]) = Some (File b m)" using k unfolding kept_or_moved_def by blast
    with True show ?thesis by simp
  next
    case False
    then have "s1 q = Some (File b m)" using s1 q free by auto
    with k show ?thesis unfolding kept_or_moved_def by auto
  qed
qed

lemma kept_or_moved_Cons: "kept_or_moved dir ws names s s2 \<Longrightarrow> kept_or_moved dir ws (name # names) s s2"
  unfolding kept_or_moved_def by (metis list.set_intros(2))

lemma migrate_files_keep:
  assumes ws: "length ws > length dir"
  shows "kept_or_moved dir ws names s (snd (migrate_files E dir ws names s))"
proof (induction names arbitrary: s)
  case Nil
  then show ?case by (simp add: kept_or_moved_def)
next
  case (Cons name names)
  let ?c = "present s (dir @ [name]) \<and> \<not> present s (ws @ [name])"
  obtain r s1 where r: "(r, s1) = faulty E (CMove name) (rename_file (dir @ [name]) (ws @ [name])) s"
    by (metis surj_pair)
  show ?case
  proof (cases ?c)
    case False
    then have e: "migrate_files E dir ws (name # names) s = migrate_files E dir ws names s" by auto
    show ?thesis unfolding e by (rule kept_or_moved_Cons) (rule Cons.IH)
  next
    case True
    have res: "snd (migrate_files E dir ws (name # names) s) = (if is_ok r then snd (migrate_files E dir ws names s1) else s1)"
      using True r by (cases r) (auto simp: lift_io_def split: prod.split)
    have free: "s (ws @ [name]) = None" using True by (simp add: present_def)
    have k: "kept_or_moved dir ws names s1 (snd (migrate_files E dir ws (name # names) s))"
      unfolding res using Cons.IH [of s1] by (simp add: kept_or_moved_def)
    have "dir @ [name] \<noteq> ws @ [name]" using ws by auto
    from move_one [of s ws name dir r s1 E, OF _ this r] True
    consider "s1 = s" | b m where "s (dir @ [name]) = Some (File b m)" "s1 = (s(dir @ [name] := None))(ws @ [name] \<mapsto> File b m)"
      by blast
    then show ?thesis
    proof cases
      case 1
      with k show ?thesis by (simp add: kept_or_moved_Cons)
    next
      case 2
      then show ?thesis using moved_then_kept [of dir ws s name s1 b m names] ws free k by simp
    qed
  qed
qed

text \<open>How a write ends: the run of its calls, and the staging file removed after a failure.\<close>

lemma write_to_path_runs:
  assumes "path \<noteq> []" "s (tmp_path E path) = None" "write_to_path E path json md s = (r, s')"
  obtains r1 s1 where "run_steps (write_steps E path json md) s = (r1, s1)" "is_ok r = is_ok r1"
    "atomic_state E path json md s s1"
    "s' = (if is_ok r1 then s1 else snd (faulty E CCleanup (remove_file (tmp_path E path)) s1))"
    "snd (remove_file (tmp_path E path) s1) = s1(tmp_path E path := None)"
proof -
  obtain r1 s1 where r1: "run_steps (write_steps E path json md) s = (r1, s1)" by fastforce
  have at: "atomic_state E path json md s s1"
    using write_prefix_atomic [where s = s and path = path and E = E and n = "length (write_steps E path json md)"] assms r1
    by (metis order_refl snd_conv take_all)
  then have "snd (remove_file (tmp_path E path) s1) = s1(tmp_path E path := None)"
    by (auto simp: atomic_state_def tmp_private_def remove_file_def split: option.splits node.splits)
  moreover have "is_ok r = is_ok r1"
    "s' = (if is_ok r1 then s1 else snd (faulty E CCleanup (remove_file (tmp_path E path)) s1))"
    using assms r1 by (cases r1; auto simp: write_to_path_def is_ok_def)+
  ultimately show ?thesis using that r1 at by blast
qed

lemma write_outcome_atomic:
  assumes "path \<noteq> []" "s (tmp_path E path) = None" "write_to_path E path json md s = (r, s')"
  shows "atomic_state E path json md s s'"
  using assms
proof (cases rule: write_to_path_runs)
  case (1 r1 s1)
  then have "s' = s1 \<or> s' = s1(tmp_path E path := None)" by (auto simp: faulty_def split: option.split)
  with 1(3) tmp_neq [OF assms(1), of E] show ?thesis by (auto simp: atomic_state_def tmp_private_def)
qed

lemma write_cleans_up:
  assumes "path \<noteq> []" "s (tmp_path E path) = None" "write_to_path E path json md s = (r, s')"
    and "r = Inr () \<or> fault E CCleanup = None"
  shows "s' (tmp_path E path) = None"
proof (cases "r = Inr ()")
  case True
  then show ?thesis using write_to_path_ok [where s = s and path = path and E = E] assms by blast
next
  case False
  from assms(1-3) show ?thesis
  proof (cases rule: write_to_path_runs)
    case (1 r1 s1)
    with False assms(4) show ?thesis by (cases r) (auto simp: is_ok_def)
  qed
qed

section \<open>Properties\<close>

text \<open>
  C16. Writing a profile file is atomic. Whatever calls fail, and wherever a crash cuts the
  sequence short, the file is as it was or is the whole new file with the requested mode, no
  other file has changed, and the staging file has never had a permission that was not asked
  for. A write that succeeds has replaced the file, and no staging file is left behind.\<close>

theorem write_is_atomic:
  assumes "path \<noteq> []" "s (tmp_path E path) = None"
  shows "(\<forall>n. atomic_state E path json md s (snd (run_steps (take n (write_steps E path json md)) s)))
    \<and> (\<forall>r s'. write_to_path E path json md s = (r, s') \<longrightarrow>
          atomic_state E path json md s s'
          \<and> (r = Inr () \<longrightarrow> s' path = Some (new_file E json md))
          \<and> (r = Inr () \<or> fault E CCleanup = None \<longrightarrow> s' (tmp_path E path) = None))"
proof (intro conjI allI impI)
  fix n
  show "atomic_state E path json md s (snd (run_steps (take n (write_steps E path json md)) s))"
    using write_prefix_atomic [where s = s and path = path and E = E] assms by blast
next
  fix r s'
  assume w: "write_to_path E path json md s = (r, s')"
  show "atomic_state E path json md s s'"
    using write_outcome_atomic [where s = s and path = path and E = E] assms w by blast
  show "s' path = Some (new_file E json md)" if "r = Inr ()"
    using write_to_path_ok [where s = s and path = path and E = E] assms(2) w that by blast
  show "s' (tmp_path E path) = None" if "r = Inr () \<or> fault E CCleanup = None"
    using write_cleans_up [where s = s and path = path and E = E] assms w that by blast
qed

definition demo_env :: env where
  "demo_env = \<lparr>unix = True, fault = (\<lambda>_. None), torn = 0, umask = 18, pid = 7, uuid = lit ''u''\<rparr>"

definition demo_fs :: fs where
  "demo_fs = [[lit ''home''] \<mapsto> Dir, [lit ''home'', lit ''a''] \<mapsto> File [1] 384]"

lemma demo_tmp: "demo_fs (tmp_path E [lit ''home'', lit ''a'']) = None"
  by (simp add: demo_fs_def tmp_path_def lit_def)

theorem write_is_atomic_witness:
  "\<exists>s'. write_to_path demo_env [lit ''home'', lit ''a''] (lit ''x'') (Some 384) demo_fs = (Inr (), s')
     \<and> s' [lit ''home'', lit ''a''] = Some (File [120] 384)
     \<and> s' (tmp_path demo_env [lit ''home'', lit ''a'']) = None"
proof -
  let ?p = "[lit ''home'', lit ''a'']"
  have "fst (write_to_path demo_env ([lit ''home''] @ [lit ''a'']) (lit ''x'') (Some 384) demo_fs) = Inr ()"
    by (rule write_without_faults) (simp_all add: demo_env_def demo_fs_def is_dir_def tmp_path_def lit_def)
  then obtain s' where w: "write_to_path demo_env ?p (lit ''x'') (Some 384) demo_fs = (Inr (), s')"
    by (cases "write_to_path demo_env ?p (lit ''x'') (Some 384) demo_fs") simp
  have "new_file demo_env (lit ''x'') (Some 384) = File [120] 384"
    by (simp add: new_file_def final_mode_def demo_env_def as_bytes_def lit_def encode_char_def byte_def)
  with write_is_atomic [of ?p demo_fs demo_env "lit ''x''" "Some 384"] demo_tmp [of demo_env] w show ?thesis by auto
qed

text \<open>
  What is saved is what is loaded. A save that reported success is read back as the
  same value, whatever had failed before it; without faults and without a directory or file
  in the way a save succeeds.\<close>

theorem save_then_load:
  assumes name: "filename \<noteq> lit ''.''" and tmp: "s (tmp_path E (dir @ [filename])) = None"
    and codec: "to_json v = Some json" "from_json json = Some v" "is_str json"
  shows "(\<forall>s'. store_write E to_json dir filename v md s = (Inr (), s') \<and> fault E' CRead = None \<longrightarrow>
        fst (store_load E' from_json dir filename s') = Inr v)
    \<and> ((\<forall>c. fault E c = None) \<and> is_ok (validate_filename filename) \<and> \<not> under_file s dir \<and> \<not> is_file s dir
        \<and> \<not> is_dir s (dir @ [filename]) \<longrightarrow> fst (store_write E to_json dir filename v md s) = Inr ())"
proof (intro conjI impI allI)
  fix s'
  assume "store_write E to_json dir filename v md s = (Inr (), s') \<and> fault E' CRead = None"
  moreover from this have "is_ok (validate_filename filename)
      \<and> (\<exists>j. to_json v = Some j \<and> s' (dir @ [filename]) = Some (new_file E j md))"
    using store_write_ok [of E to_json dir filename v md s s'] name tmp by simp
  then have "is_ok (validate_filename filename)" "s' (dir @ [filename]) = Some (new_file E json md)"
    using codec(1) by auto
  ultimately show "fst (store_load E' from_json dir filename s') = Inr v"
    using load_new_file [of s' dir filename E json md E' from_json] codec name by simp
next
  assume "(\<forall>c. fault E c = None) \<and> is_ok (validate_filename filename) \<and> \<not> under_file s dir \<and> \<not> is_file s dir
        \<and> \<not> is_dir s (dir @ [filename])"
  then show "fst (store_write E to_json dir filename v md s) = Inr ()"
    using store_write_without_faults [of E filename s dir to_json v json md] name tmp codec(1) by simp
qed

text \<open>
  C33. Migrating a legacy profile loses nothing and overwrites nothing. Whatever fails on the
  way, every file is still where it was, or it is a legacy file and is now the file of that
  name in the workspace, unchanged; only the file that names the current workspace is
  rewritten.\<close>

theorem migration_loses_nothing:
  assumes "s q = Some (File b m)" "q \<noteq> current_path dir"
    and res: "migrate_to_workspace E dir ident s = (r, s')"
  shows "s' q = Some (File b m)
    \<or> (\<exists>name \<in> set LEGACY_FILES. q = dir @ [name] \<and> s' (ws_path dir ident @ [name]) = Some (File b m))"
proof (cases "is_ok (validate_workspace_id ident)")
  case False
  with res assms(1) show ?thesis
    by (cases "validate_workspace_id ident") (auto simp: migrate_to_workspace_def)
next
  case True
  let ?ws = "ws_path dir ident"
  obtain r1 s1 where c: "faulty E CCreateDirAll (create_dir_all ?ws) s = (r1, s1)" by fastforce
  have q1: "s1 q = Some (File b m)"
    using mkdir_files [where s = s and q = q, OF assms(1), of E CCreateDirAll ?ws] c by simp
  obtain r2 s2 where m: "migrate_files E dir ?ws LEGACY_FILES s1 = (r2, s2)" by fastforce
  have "kept_or_moved dir ?ws LEGACY_FILES s1 s2"
    using migrate_files_keep [of dir ?ws LEGACY_FILES s1 E] m by (simp add: ws_path_def)
  then have q2: "s2 q = Some (File b m) \<or> (\<exists>name \<in> set LEGACY_FILES. q = dir @ [name] \<and> s2 (?ws @ [name]) = Some (File b m))"
    using q1 unfolding kept_or_moved_def by blast
  have s': "s' = s1 \<or> s' = s2 \<or> s' = snd (set_current_workspace E dir ident s2)"
    using True res c m
    by (cases "validate_workspace_id ident"; cases r1; cases r2) (auto simp: migrate_to_workspace_def lift_io_def)
  have "?ws @ [name] \<noteq> current_path dir" for name by (simp add: ws_path_def current_path_def)
  then have keep: "snd (set_current_workspace E dir ident s2) p = Some (File b m)"
    if "s2 p = Some (File b m)" "p = q \<or> (\<exists>name. p = ?ws @ [name])" for p
    using set_current_files [of s2 p b m dir E ident] that assms(2) by metis
  from s' show ?thesis
  proof (elim disjE)
    assume "s' = s1" with q1 show ?thesis by simp
  next
    assume "s' = s2" with q2 show ?thesis by simp
  next
    assume "s' = snd (set_current_workspace E dir ident s2)"
    with q2 keep show ?thesis by blast
  qed
qed

definition legacy_fs :: fs where
  "legacy_fs = [[lit ''home''] \<mapsto> Dir, [lit ''home'', lit ''auth.json''] \<mapsto> File [1] 384]"

theorem migration_loses_nothing_witness:
  "let s' = snd (migrate_to_workspace demo_env [lit ''home''] (lit ''ZVATKW3VHMFG27DY'') legacy_fs) in
   s' [lit ''home'', lit ''auth.json''] = Some (File [1] 384)
   \<or> s' [lit ''home'', WORKSPACES_DIR, lit ''ZVATKW3VHMFG27DY'', lit ''auth.json''] = Some (File [1] 384)"
proof -
  let ?r = "migrate_to_workspace demo_env [lit ''home''] (lit ''ZVATKW3VHMFG27DY'') legacy_fs"
  have q: "legacy_fs [lit ''home'', lit ''auth.json''] = Some (File [1] 384)" by (simp add: legacy_fs_def)
  have n: "[lit ''home'', lit ''auth.json''] \<noteq> current_path [lit ''home'']"
    by (simp add: current_path_def CURRENT_WORKSPACE_FILE_def lit_def)
  have p: "?r = (fst ?r, snd ?r)" by simp
  from migration_loses_nothing [of legacy_fs "[lit ''home'', lit ''auth.json'']" "[1]" 384 "[lit ''home'']", OF q n p]
  show ?thesis by (auto simp: Let_def ws_path_def)
qed

text \<open>A write that reports an error may have replaced the file: syncing the directory comes
  after the rename, and its failure is not undone.\<close>

theorem failed_write_can_replace:
  "let E = demo_env\<lparr>fault := (\<lambda>c. if c = CSyncParent then Some (KOs 5) else None)\<rparr>;
       (r, s') = write_to_path E [lit ''home'', lit ''a''] (lit ''x'') (Some 384) demo_fs
   in r = Inl (PIo (KOs 5)) \<and> demo_fs [lit ''home'', lit ''a''] = Some (File [1] 384)
      \<and> s' [lit ''home'', lit ''a''] = Some (File [120] 384)"
  by (simp add: write_to_path_def write_steps_def stage_steps_def commit_steps_def demo_env_def demo_fs_def
      open_new_def present_def is_dir_def write_all_def set_contents_def set_permissions_def rename_with_retry_def
      MAX_ATTEMPTS_def eval_nat_numeral rename_file_def remove_file_def tmp_path_def open_mode_def lit_def as_bytes_def
      encode_char_def byte_def faulty_def Let_def)

text \<open>A single dot passes for a filename, and its contents are staged outside the store.\<close>

theorem dot_filename_stages_outside:
  "validate_filename (lit ''.'') = Inr ()
   \<and> tmp_path E (join_name [lit ''home'', lit ''store''] (lit ''.''))
       = [lit ''home'', lit ''.store.tmp.'' @ dec (pid E) @ lit ''.'' @ uuid E]"
  by (simp add: validate_filename_def join_name_def tmp_path_def lit_def)

end
