(* ===== verification/Device_Refresh.thy ===== *)
theory Device_Refresh
  imports Auto_Refresh Profile_Store
begin

text \<open>
  Exchanging a refresh token: \<open>Token::refresh_with\<close> of \<open>packages/stack-auth/src/token.rs\<close>
  and the refresher of a device session, \<open>device_session_refresher.rs\<close>, which holds a lock
  shared by all processes across the exchange and the write of \<open>auth.json\<close>. The files are
  those of \<open>Profile_Store\<close>, read, locked and written by its operations; the transport, the JSON
  codecs and the clock are arguments. Several processes with one profile directory
  are a sequence of loads and refreshes, each whole refresh one event since it runs under the
  lock.
\<close>

section \<open>The exchange\<close>

record refresh_request =
  rq_grant_type :: rstr
  rq_client_id :: rstr
  rq_refresh_token :: rstr
  rq_device_instance_id :: "rstr option"

record refresh_response =
  rp_access_token :: rstr
  rp_token_type :: rstr
  rp_expires_in :: u64
  rp_refresh_token :: "rstr option"

record refresh_error_response =
  re_error :: rstr
  re_error_description :: rstr

record http_response =
  hr_status :: nat
  hr_body :: rstr

definition is_success :: "http_response \<Rightarrow> bool" where
  "is_success resp = (200 \<le> hr_status resp \<and> hr_status resp < 300)"

text \<open>\<open>ServerError::unparseable\<close>, with the description of the JSON error as an argument.\<close>

definition unparseable :: "nat \<Rightarrow> rstr \<Rightarrow> auth_error" where
  "unparseable status description =
     Server (dec status @ lit '': unparseable error body ('' @ description @ lit '')'')"

text \<open>The decoders of the bodies: as any JSON value, as the error response, as the token response.\<close>

record decoders =
  as_json :: "rstr \<Rightarrow> json option"
  as_error :: "rstr \<Rightarrow> (rstr, refresh_error_response) result"
  as_token :: "rstr \<Rightarrow> refresh_response option"

definition refused_exchange :: "decoders \<Rightarrow> nat \<Rightarrow> rstr \<Rightarrow> auth_error" where
  "refused_exchange D status body =
     (case classify_issuance_failure (as_json D) status body of
        Some err \<Rightarrow> err
      | None \<Rightarrow>
          (case as_error D body of
             Inl description \<Rightarrow> unparseable status description
           | Inr err \<Rightarrow>
               if re_error err = lit ''invalid_grant'' then InvalidGrant
               else if re_error err = lit ''invalid_client'' then InvalidClient
               else if re_error err = lit ''access_denied'' then AccessDenied
               else Server (re_error_description err)))"

text \<open>The expiry is a sum of two machine integers, which wraps.\<close>

definition token_of_response :: "u64 \<Rightarrow> refresh_response \<Rightarrow> token" where
  "token_of_response now r =
     \<lparr>access_token = rp_access_token r, refresh_token = rp_refresh_token r, token_type = rp_token_type r,
      expires_at = now + rp_expires_in r, t_region = None, t_client_id = None, t_device_instance_id = None,
      t_federated_from = None\<rparr>"

definition refresh_with ::
  "decoders \<Rightarrow> u64 \<Rightarrow> (refresh_request \<Rightarrow> http_response option) \<Rightarrow> rstr option
     \<Rightarrow> rstr \<Rightarrow> rstr \<Rightarrow> rstr option \<Rightarrow> (auth_error, token) result" where
  "refresh_with D now post_form url_error rt client_id device_instance_id =
     (case url_error of
        Some e \<Rightarrow> Inl (InvalidUrl e)
      | None \<Rightarrow>
          (case post_form \<lparr>rq_grant_type = lit ''refresh_token'', rq_client_id = client_id, rq_refresh_token = rt,
                           rq_device_instance_id = device_instance_id\<rparr> of
             None \<Rightarrow> Inl (Request False)
           | Some resp \<Rightarrow>
               if \<not> is_success resp then Inl (refused_exchange D (hr_status resp) (hr_body resp))
               else (case as_token D (hr_body resp) of
                       None \<Rightarrow> Inl (Request False)
                     | Some r \<Rightarrow> Inr (token_of_response now r))))"

section \<open>The refresher of a device session\<close>

definition TOKEN_FILENAME :: rstr where "TOKEN_FILENAME = lit ''auth.json''"
definition TOKEN_MODE :: "u32 option" where "TOKEN_MODE = Some 384"

text \<open>The store of a session is the directory it keeps \<open>auth.json\<close> in.\<close>

record device_config =
  dc_store :: "path option"
  dc_client_id :: rstr
  dc_region :: rstr
  dc_device_instance_id :: "rstr option"

text \<open>
  What one refresh meets outside: the system calls and their faults, whether the task that
  takes the lock finished, the JSON codec of a token, how a profile error displays, and what
  the exchange needs.
\<close>

record token_codec =
  tk_to_json :: "token \<Rightarrow> rstr option"
  tk_from_json :: "rstr \<Rightarrow> token option"
  profile_text :: "profile_error \<Rightarrow> rstr"

record outside =
  o_env :: env
  lock_joined :: bool
  o_decoders :: decoders
  o_now :: u64
  o_post_form :: "refresh_request \<Rightarrow> http_response option"
  o_url_error :: "rstr option"

definition acquire_refresh_lock ::
  "token_codec \<Rightarrow> device_config \<Rightarrow> outside \<Rightarrow> fs \<Rightarrow> (auth_error, unit) result \<times> fs" where
  "acquire_refresh_lock K C W s =
     (case dc_store C of
        None \<Rightarrow> (Inr (), s)
      | Some dir \<Rightarrow>
          (case lock_exclusive (o_env W) dir TOKEN_FILENAME s of
             (r, s) \<Rightarrow>
               if \<not> lock_joined W then (Inl (Server (lit ''refresh lock task join failed'')), s)
               else (case r of
                       Inl e \<Rightarrow> (Inl (Server (lit ''failed to acquire refresh lock: '' @ profile_text K e)), s)
                     | Inr _ \<Rightarrow> (Inr (), s))))"

definition load_freshly_refreshed_token ::
  "token_codec \<Rightarrow> device_config \<Rightarrow> outside \<Rightarrow> rstr \<Rightarrow> fs \<Rightarrow> token option" where
  "load_freshly_refreshed_token K C W credential s =
     (case dc_store C of
        None \<Rightarrow> None
      | Some dir \<Rightarrow>
          (case fst (store_load (o_env W) (tk_from_json K) dir TOKEN_FILENAME s) of
             Inl _ \<Rightarrow> None
           | Inr disk_token \<Rightarrow>
               (case refresh_token disk_token of
                  None \<Rightarrow> None
                | Some disk_refresh \<Rightarrow> if disk_refresh \<noteq> credential then Some disk_token else None)))"

definition persist_refreshed ::
  "token_codec \<Rightarrow> device_config \<Rightarrow> outside \<Rightarrow> token \<Rightarrow> fs \<Rightarrow> (auth_error, unit) result \<times> fs" where
  "persist_refreshed K C W t s =
     (case dc_store C of
        None \<Rightarrow> (Inr (), s)
      | Some dir \<Rightarrow>
          (case store_write (o_env W) (tk_to_json K) dir TOKEN_FILENAME t TOKEN_MODE s of
             (Inl e, s) \<Rightarrow> (Inl (Store (profile_text K e)), s)
           | (Inr _, s) \<Rightarrow> (Inr (), s)))"

text \<open>The fields a refreshed token is given, which the response does not carry.\<close>

definition attach :: "device_config \<Rightarrow> token \<Rightarrow> token" where
  "attach C t =
     (let t = t\<lparr>t_region := Some (dc_region C), t_client_id := Some (dc_client_id C)\<rparr>
      in case dc_device_instance_id C of Some d \<Rightarrow> t\<lparr>t_device_instance_id := Some d\<rparr> | None \<Rightarrow> t)"

definition exchanged :: "device_config \<Rightarrow> outside \<Rightarrow> rstr \<Rightarrow> (auth_error, token) result" where
  "exchanged C W credential =
     refresh_with (o_decoders W) (o_now W) (o_post_form W) (o_url_error W) credential (dc_client_id C)
       (dc_device_instance_id C)"

datatype burnt = Unused | Presented

text \<open>\<open>refresh\<close>: its result, whether the credential was presented to the server, and the
  files it leaves.\<close>

definition device_refresh ::
  "token_codec \<Rightarrow> device_config \<Rightarrow> outside \<Rightarrow> rstr \<Rightarrow> fs \<Rightarrow> (auth_error, token) result \<times> burnt \<times> fs" where
  "device_refresh K C W credential s =
     (case acquire_refresh_lock K C W s of
        (Inl e, s) \<Rightarrow> (Inl e, Unused, s)
      | (Inr _, s) \<Rightarrow>
          (case load_freshly_refreshed_token K C W credential s of
             Some disk_token \<Rightarrow> (Inr disk_token, Unused, s)
           | None \<Rightarrow>
               (case exchanged C W credential of
                  Inl e \<Rightarrow> (Inl e, Presented, s)
                | Inr t \<Rightarrow>
                    (case persist_refreshed K C W (attach C t) s of
                       (Inl e, s) \<Rightarrow> (Inl e, Presented, s)
                     | (Inr _, s) \<Rightarrow> (Inr (attach C t), Presented, s)))))"

section \<open>Facts\<close>

lemma refused_never_store: "refused_exchange D status body \<noteq> Store e"
  using classify_refusal [of "as_json D" status body]
  by (auto simp: refused_exchange_def unparseable_def split: option.split sum.split)

lemma refresh_with_never_store: "refresh_with D now post_form url_error rt cid dev \<noteq> Inl (Store e)"
  by (auto simp: refresh_with_def refused_never_store split: option.split)

lemma attach_simps [simp]:
  "refresh_token (attach C t) = refresh_token t" "access_token (attach C t) = access_token t"
  "expires_at (attach C t) = expires_at t"
  by (simp_all add: attach_def Let_def split: option.split)

text \<open>Taking the lock touches no file of the directory but the lock file itself.\<close>

lemma lock_exclusive_keeps:
  assumes "x \<noteq> lit ''.'' @ name @ lit ''.lock''"
  shows "snd (lock_exclusive E dir name s) (dir @ [x]) = s (dir @ [x])"
proof -
  obtain r s1 where c: "faulty E CCreateDirAll (create_dir_all dir) s = (r, s1)" by fastforce
  then have s1: "s1 (dir @ [x]) = s (dir @ [x])" using mkdir_below [of E CCreateDirAll dir s x "[]"] by simp
  show ?thesis
    using assms s1
    by (cases "validate_filename name"; cases r; cases "fault E COpenLock"; cases "fault E CLock")
      (auto simp: lock_exclusive_def lock_path_def lift_io_def c split: option.split node.split)
qed

definition token_path :: "path \<Rightarrow> path" where
  "token_path dir = dir @ [TOKEN_FILENAME]"

lemma token_names:
  "TOKEN_FILENAME \<noteq> lit ''.''" "is_ok (validate_filename TOKEN_FILENAME)"
  "join_name dir TOKEN_FILENAME = token_path dir"
  "TOKEN_FILENAME \<noteq> lit ''.'' @ TOKEN_FILENAME @ lit ''.lock''"
  by (auto simp: TOKEN_FILENAME_def join_name_def token_path_def validate_filename_def lit_def is_ok_def)

lemma staging_is_not_the_lock:
  "lit ''.'' @ name @ lit ''.tmp.'' @ xs \<noteq> lit ''.'' @ name @ lit ''.lock''"
  by (simp add: lit_def)

lemma acquire_keeps:
  assumes "dc_store C = Some dir" "x \<noteq> lit ''.'' @ TOKEN_FILENAME @ lit ''.lock''"
  shows "snd (acquire_refresh_lock K C W s) (dir @ [x]) = s (dir @ [x])"
  using lock_exclusive_keeps [OF assms(2), of "o_env W" dir s] assms(1)
  by (auto simp: acquire_refresh_lock_def split: prod.split sum.split)

text \<open>The token \<open>auth.json\<close> holds.\<close>

definition holds :: "token_codec \<Rightarrow> path \<Rightarrow> fs \<Rightarrow> token \<Rightarrow> bool" where
  "holds K dir s t =
     (case s (token_path dir) of
        Some (File bs _) \<Rightarrow> Option.bind (from_utf8 bs) (tk_from_json K) = Some t
      | _ \<Rightarrow> False)"

lemma holds_cong: "holds K dir s t \<Longrightarrow> s' (token_path dir) = s (token_path dir) \<Longrightarrow> holds K dir s' t"
  by (simp add: holds_def)

text \<open>A load reports a token only if the file holds it, and reports it unless the read fails.\<close>

lemma load_holds:
  "fst (store_load E (tk_from_json K) dir TOKEN_FILENAME s) = Inr t \<longleftrightarrow> fault E CRead = None \<and> holds K dir s t"
proof -
  obtain u where "validate_filename TOKEN_FILENAME = Inr u" using token_names(2) by (auto simp: is_ok_def split: sum.splits)
  then show ?thesis
    by (cases "fault E CRead")
      (auto simp: store_load_def lift_io_def read_to_string_def token_names holds_def ok_or_def bind_eq_Some_conv
        split: option.splits node.splits)
qed

text \<open>A refresh that meets no fault, in a directory that is there with its lock file.\<close>

definition lock_file :: "path \<Rightarrow> path" where
  "lock_file dir = dir @ [lit ''.'' @ TOKEN_FILENAME @ lit ''.lock'']"

definition set_up :: "path \<Rightarrow> fs \<Rightarrow> bool" where
  "set_up dir s \<longleftrightarrow> list_all (\<lambda>p. s p = Some Dir) (dir # ancestors dir) \<and> is_file s (lock_file dir)
     \<and> is_file s (token_path dir)"

lemma create_dir_all_there:
  assumes "list_all (\<lambda>p. s p = Some Dir) (dir # ancestors dir)"
  shows "create_dir_all dir s = (Inr (), s)"
  using assms by (auto simp: create_dir_all_def under_file_def is_file_def list_all_iff list_ex_iff fun_eq_iff)

lemma acquire_without_faults:
  assumes "\<And>c. fault (o_env W) c = None" "lock_joined W" "dc_store C = Some dir" "set_up dir s"
  shows "acquire_refresh_lock K C W s = (Inr (), s)"
proof -
  have "create_dir_all dir s = (Inr (), s)"
    using assms(4) by (intro create_dir_all_there) (simp add: set_up_def)
  moreover obtain b m where "s (lock_file dir) = Some (File b m)"
    using assms(4) by (auto simp: set_up_def is_file_def split: option.splits node.splits)
  moreover obtain u where "validate_filename TOKEN_FILENAME = Inr u" using token_names(2) by (auto simp: is_ok_def split: sum.splits)
  ultimately show ?thesis
    using assms(1-3) by (simp add: acquire_refresh_lock_def lock_exclusive_def lock_path_def lift_io_def lock_file_def)
qed

lemma persist_without_faults:
  assumes nf: "\<And>c. fault (o_env W) c = None" and dir: "dc_store C = Some dir" "set_up dir s"
    and tmp: "s (tmp_path (o_env W) (token_path dir)) = None" and j: "tk_to_json K t = Some json"
  shows "persist_refreshed K C W t s = (Inr (), s(token_path dir \<mapsto> new_file (o_env W) json TOKEN_MODE))"
proof -
  let ?path = "token_path dir" and ?tmp = "tmp_path (o_env W) (token_path dir)"
  obtain u where v: "validate_filename TOKEN_FILENAME = Inr u" using token_names(2) by (auto simp: is_ok_def split: sum.splits)
  have d: "create_dir_all dir s = (Inr (), s)"
    using dir(2) by (intro create_dir_all_there) (simp add: set_up_def)
  have "is_dir s dir" "\<not> is_dir s ?path"
    using dir(2) by (auto simp: set_up_def is_dir_def is_file_def token_path_def split: option.splits)
  with nf tmp have "fst (write_to_path (o_env W) ?path json TOKEN_MODE s) = Inr ()"
    by (simp add: token_path_def write_without_faults)
  then obtain s' where w: "write_to_path (o_env W) ?path json TOKEN_MODE s = (Inr (), s')"
    by (cases "write_to_path (o_env W) ?path json TOKEN_MODE s") simp
  have "atomic_state (o_env W) ?path json TOKEN_MODE s s'"
    using write_outcome_atomic [of ?path s "o_env W" json TOKEN_MODE "Inr ()" s'] tmp w by (simp add: token_path_def)
  then have "s' = s(?path \<mapsto> new_file (o_env W) json TOKEN_MODE)"
    using write_to_path_ok [where s = s and s' = s' and path = ?path and E = "o_env W", OF tmp w] tmp
    by (auto simp: atomic_state_def fun_eq_iff)
  with w v d nf dir(1) j show ?thesis
    by (simp add: persist_refreshed_def store_write_def lift_io_def token_names)
qed


lemma refresh_without_faults:
  assumes nf: "\<And>c. fault (o_env W) c = None" and lj: "lock_joined W" and dir: "dc_store C = Some dir" "set_up dir s"
    and tmp: "s (tmp_path (o_env W) (token_path dir)) = None"
    and d: "holds K dir s d" "refresh_token d = Some r"
    and t: "exchanged C W c = Inr t" "tk_to_json K (attach C t) = Some json"
  shows "device_refresh K C W c s =
    (if c = r then (Inr (attach C t), Presented, s(token_path dir \<mapsto> new_file (o_env W) json TOKEN_MODE))
     else (Inr d, Unused, s))"
proof -
  have "fst (store_load (o_env W) (tk_from_json K) dir TOKEN_FILENAME s) = Inr d"
    using d(1) nf by (simp add: load_holds)
  then have "load_freshly_refreshed_token K C W c s = (if c = r then None else Some d)"
    using dir d(2) by (simp add: load_freshly_refreshed_token_def)
  with acquire_without_faults [OF nf lj dir, of K] persist_without_faults [OF nf dir tmp t(2)] t(1)
  show ?thesis by (cases "c = r") (simp_all add: device_refresh_def)
qed

section \<open>Processes that share a profile\<close>

text \<open>
  The files, what each process has in memory, and the server's side of a rotating refresh
  token: the one that is live, those that were spent, and whether a spent one was ever
  presented. An event is a process loading its session, or a process refreshing, with all
  that the refresh meets outside. Only the refresh writes files; the server keeps its own
  account.
\<close>

record world =
  w_fs :: fs
  w_mem :: "nat \<Rightarrow> state"
  w_live :: rstr
  w_spent :: "rstr set"
  w_replayed :: bool

datatype event = Reads nat env | Refreshes nat outside u64

text \<open>What a presented credential does at the server: a rotation spends it.\<close>

definition server_step :: "rstr \<Rightarrow> (auth_error, token) result \<Rightarrow> world \<Rightarrow> world" where
  "server_step credential answer w =
     (let w = w\<lparr>w_replayed := w_replayed w \<or> credential \<in> w_spent w\<rparr>
      in case answer of
           Inl _ \<Rightarrow> w
         | Inr t \<Rightarrow> w\<lparr>w_live := the (refresh_token t), w_spent := insert credential (w_spent w)\<rparr>)"

text \<open>The engine's side: the token with its credential taken out, and what it installs or puts back.\<close>

definition engine_step :: "(auth_error, token) result \<Rightarrow> rstr \<Rightarrow> u64 \<Rightarrow> state \<Rightarrow> state" where
  "engine_step res credential now s =
     (case res of
        Inr t \<Rightarrow> snd (install_refreshed_token t s)
      | Inl err \<Rightarrow> refresh_failed device_session_refresher err credential now s)"

definition load_session :: "token_codec \<Rightarrow> device_config \<Rightarrow> env \<Rightarrow> fs \<Rightarrow> token option" where
  "load_session K C E s =
     (case dc_store C of
        None \<Rightarrow> None
      | Some dir \<Rightarrow>
          (case fst (store_load E (tk_from_json K) dir TOKEN_FILENAME s) of Inl _ \<Rightarrow> None | Inr t \<Rightarrow> Some t))"

definition world_step :: "token_codec \<Rightarrow> device_config \<Rightarrow> event \<Rightarrow> world \<Rightarrow> world" where
  "world_step K C ev w =
     (case ev of
        Reads p E \<Rightarrow>
          (case load_session K C E (w_fs w) of
             Some t \<Rightarrow> w\<lparr>w_mem := (w_mem w)(p := state_new (Some t))\<rparr>
           | None \<Rightarrow> w)
      | Refreshes p W now \<Rightarrow>
          (case try_credential device_session_refresher (s_token (w_mem w p)) of
             (None, _) \<Rightarrow> w
           | (Some c, t') \<Rightarrow>
               (let s = (w_mem w p)\<lparr>s_token := t'\<rparr>;
                    (res, b, files) = device_refresh K C W c (w_fs w);
                    w' = (if b = Presented then server_step c (exchanged C W c) w else w)
                in w'\<lparr>w_fs := files, w_mem := (w_mem w')(p := engine_step res c now s)\<rparr>)))"

text \<open>
  What the processes rely on: \<open>serde\<close> reads a token back from the text it wrote for it. And
  of a refresh: the read of \<open>auth.json\<close> does not fail, the random staging name is unused,
  a rotation brings a refresh token the server never issued before and could be written.
  Any other call may fail, and so may the lock and the exchange.
\<close>

definition codec_ok :: "token_codec \<Rightarrow> bool" where
  "codec_ok K \<longleftrightarrow> (\<forall>t j. tk_to_json K t = Some j \<longrightarrow> tk_from_json K j = Some t \<and> is_str j)"

definition store_failed :: "(auth_error, token) result \<Rightarrow> bool" where
  "store_failed res = (case res of Inl e \<Rightarrow> credential_consumed e | Inr _ \<Rightarrow> False)"

definition rotates_afresh :: "world \<Rightarrow> (auth_error, token) result \<Rightarrow> bool" where
  "rotates_afresh w answer =
     (case answer of
        Inl _ \<Rightarrow> True
      | Inr t \<Rightarrow> (case refresh_token t of None \<Rightarrow> False | Some r \<Rightarrow> r \<noteq> w_live w \<and> r \<notin> w_spent w))"

definition event_ok :: "token_codec \<Rightarrow> device_config \<Rightarrow> event \<Rightarrow> world \<Rightarrow> bool" where
  "event_ok K C ev w =
     (case ev of
        Reads _ _ \<Rightarrow> True
      | Refreshes p W _ \<Rightarrow>
          (case Option.bind (s_token (w_mem w p)) refresh_token of
             None \<Rightarrow> True
           | Some c \<Rightarrow>
               fault (o_env W) CRead = None
               \<and> w_fs w (tmp_path (o_env W) (token_path (the (dc_store C)))) = None
               \<and> rotates_afresh w (exchanged C W c)
               \<and> \<not> store_failed (fst (device_refresh K C W c (w_fs w)))))"

definition knows :: "rstr \<Rightarrow> rstr set \<Rightarrow> token option \<Rightarrow> bool" where
  "knows live spent t = (\<forall>r. Option.bind t refresh_token = Some r \<longrightarrow> r = live \<or> r \<in> spent)"

definition world_inv :: "token_codec \<Rightarrow> path \<Rightarrow> world \<Rightarrow> bool" where
  "world_inv K dir w \<longleftrightarrow>
     (\<exists>d. holds K dir (w_fs w) d \<and> refresh_token d = Some (w_live w))
     \<and> w_live w \<notin> w_spent w
     \<and> (\<forall>p. knows (w_live w) (w_spent w) (s_token (w_mem w p)))
     \<and> \<not> w_replayed w"

lemma device_try: "try_credential device_session_refresher (Some t) = (refresh_token t, Some (t\<lparr>refresh_token := None\<rparr>))"
  "try_credential device_session_refresher None = (None, None)"
  by (simp_all add: device_session_refresher_def take_refresh_token_def)

lemma acquire_error:
  "acquire_refresh_lock K C W s = (Inl e, s') \<Longrightarrow> \<not> credential_consumed e"
  by (auto simp: acquire_refresh_lock_def credential_consumed_def split: option.splits prod.splits if_splits sum.splits)

lemma exchanged_error: "exchanged C W c = Inl e \<Longrightarrow> \<not> credential_consumed e"
  using refresh_with_never_store by (cases e) (auto simp: exchanged_def credential_consumed_def)

text \<open>A rotation that could be written is what the file then holds.\<close>

lemma persist_holds:
  assumes K: "codec_ok K" and dir: "dc_store C = Some dir"
    and tmp: "s (tmp_path (o_env W) (token_path dir)) = None"
    and ok: "persist_refreshed K C W t s = (Inr u, s')"
  shows "holds K dir s' t"
proof -
  have "store_write (o_env W) (tk_to_json K) dir TOKEN_FILENAME t TOKEN_MODE s = (Inr (), s')"
    using ok dir by (auto simp: persist_refreshed_def split: prod.splits sum.splits)
  from store_write_ok [OF this token_names(1)] tmp obtain json
    where j: "tk_to_json K t = Some json" "s' (token_path dir) = Some (new_file (o_env W) json TOKEN_MODE)"
    by (auto simp: token_path_def)
  with K show ?thesis by (simp add: codec_ok_def holds_def new_file_def from_utf8_as_bytes)
qed

text \<open>Under the lock the credential is presented only if the file still holds it.\<close>

lemma device_refresh_cases:
  assumes K: "codec_ok K" and dir: "dc_store C = Some dir"
    and d: "holds K dir s d" "refresh_token d = Some r"
    and W: "fault (o_env W) CRead = None" "s (tmp_path (o_env W) (token_path dir)) = None"
    and ok: "\<not> store_failed (fst (device_refresh K C W c s))"
  obtains (locked) e s' where "device_refresh K C W c s = (Inl e, Unused, s')" "\<not> credential_consumed e" "holds K dir s' d"
  | (taken) s' where "c \<noteq> r" "device_refresh K C W c s = (Inr d, Unused, s')" "holds K dir s' d"
  | (refused) e s' where "c = r" "exchanged C W c = Inl e" "device_refresh K C W c s = (Inl e, Presented, s')"
      "\<not> credential_consumed e" "holds K dir s' d"
  | (rotated) t s' where "c = r" "exchanged C W c = Inr t" "device_refresh K C W c s = (Inr (attach C t), Presented, s')"
      "holds K dir s' (attach C t)"
proof -
  obtain l s1 where l: "acquire_refresh_lock K C W s = (l, s1)" by fastforce
  have keep: "s1 (dir @ [x]) = s (dir @ [x])" if "x \<noteq> lit ''.'' @ TOKEN_FILENAME @ lit ''.lock''" for x
    using acquire_keeps [OF dir that, of K W s] l by simp
  have s1: "holds K dir s1 d"
    using holds_cong [OF d(1), of s1] keep [OF token_names(4)] by (simp add: token_path_def)
  have tmp: "s1 (tmp_path (o_env W) (token_path dir)) = None"
    using W(2) keep staging_is_not_the_lock by (simp add: token_path_def tmp_of_name)
  have load: "fst (store_load (o_env W) (tk_from_json K) dir TOKEN_FILENAME s1) = Inr d"
    using s1 W(1) by (simp add: load_holds)
  show ?thesis
  proof (cases l)
    case (Inl e)
    with l locked [of e s1] s1 acquire_error [of K C W s e s1] show ?thesis by (simp add: device_refresh_def)
  next
    case (Inr u)
    show ?thesis
    proof (cases "c = r")
      case False
      with l Inr dir load d(2) taken [of s1] s1 show ?thesis
        by (simp add: device_refresh_def load_freshly_refreshed_token_def)
    next
      case True
      then have none: "load_freshly_refreshed_token K C W c s1 = None"
        using dir load d(2) by (simp add: load_freshly_refreshed_token_def)
      show ?thesis
      proof (cases "exchanged C W c")
        case (Inl e)
        with l Inr none True refused [of e s1] s1 exchanged_error [of C W c e] show ?thesis
          by (simp add: device_refresh_def)
      next
        case rot: (Inr t)
        obtain q s2 where q: "persist_refreshed K C W (attach C t) s1 = (q, s2)" by fastforce
        show ?thesis
        proof (cases q)
          case (Inl e)
          then have "store_failed (fst (device_refresh K C W c s))"
            using l Inr none rot q dir
            by (auto simp: device_refresh_def persist_refreshed_def store_failed_def credential_consumed_def
                split: prod.splits sum.splits)
          with ok show ?thesis by simp
        next
          case saved: (Inr v)
          with persist_holds [where s = s1 and W = W and u = v and s' = s2, OF K dir tmp] q have "holds K dir s2 (attach C t)" by simp
          with l Inr none rot q saved True rotated [of t s2] show ?thesis by (simp add: device_refresh_def)
        qed
      qed
    qed
  qed
qed

lemma restored: "\<not> credential_consumed e \<Longrightarrow>
    s_token (refresh_failed device_session_refresher e c now (s\<lparr>s_token := Some (t\<lparr>refresh_token := None\<rparr>)\<rparr>))
      = Some (t\<lparr>refresh_token := Some c\<rparr>)"
  by (simp add: refresh_failed_def Let_def device_session_refresher_def)

lemma knows_spent: "knows live spent t \<Longrightarrow> knows new (insert live spent) t"
  by (auto simp: knows_def)

lemma world_step_inv:
  assumes K: "codec_ok K" and dir: "dc_store C = Some dir"
    and inv: "world_inv K dir w" and ok: "event_ok K C ev w"
  shows "world_inv K dir (world_step K C ev w)"
proof -
  obtain d where d: "holds K dir (w_fs w) d" "refresh_token d = Some (w_live w)"
    and live: "w_live w \<notin> w_spent w" and mem: "\<And>q. knows (w_live w) (w_spent w) (s_token (w_mem w q))"
    and nr: "\<not> w_replayed w" using inv by (auto simp: world_inv_def)
  show ?thesis
  proof (cases ev)
    case (Reads p E)
    have "t = d" if "load_session K C E (w_fs w) = Some t" for t
      using that d(1) dir load_holds [of E K dir "w_fs w" t]
      by (auto simp: load_session_def holds_def split: sum.splits option.splits node.splits)
    with Reads d inv mem live nr show ?thesis
      by (auto simp: world_step_def world_inv_def knows_def state_new_def split: option.split)
  next
    case (Refreshes p W now)
    show ?thesis
    proof (cases "Option.bind (s_token (w_mem w p)) refresh_token")
      case None
      with inv Refreshes show ?thesis
        by (cases "s_token (w_mem w p)") (simp_all add: world_step_def device_try)
    next
      case (Some c)
      then obtain t where t: "s_token (w_mem w p) = Some t" "refresh_token t = Some c" by (auto simp: bind_eq_Some_conv)
      have c: "c = w_live w \<or> c \<in> w_spent w" using mem [of p] t by (simp add: knows_def)
      have W: "fault (o_env W) CRead = None" "w_fs w (tmp_path (o_env W) (token_path dir)) = None"
          "rotates_afresh w (exchanged C W c)" "\<not> store_failed (fst (device_refresh K C W c (w_fs w)))"
        using ok Refreshes Some dir by (simp_all add: event_ok_def)
      note step = Refreshes t world_step_def device_try engine_step_def restored server_step_def Let_def
      from K dir d W(1,2,4) show ?thesis
      proof (cases rule: device_refresh_cases)
        case (locked e s')
        with d c mem live nr show ?thesis by (auto simp: step world_inv_def knows_def)
      next
        case (taken s')
        with d c mem live nr show ?thesis by (auto simp: step world_inv_def knows_def install_refreshed_token_def)
      next
        case (refused e s')
        with d c mem live nr show ?thesis by (auto simp: step world_inv_def knows_def)
      next
        case (rotated u s')
        with W(3) obtain r where r: "refresh_token u = Some r" "r \<noteq> w_live w" "r \<notin> w_spent w"
          by (auto simp: rotates_afresh_def split: option.splits)
        have "knows r (insert c (w_spent w)) (s_token (w_mem w q))" for q
          using knows_spent [OF mem [of q]] rotated(1) by simp
        with rotated r live nr show ?thesis
          by (auto simp: step world_inv_def knows_def install_refreshed_token_def)
      qed
    qed
  qed
qed

interpretation processes: component "world_step K C" "event_ok K C"
    "\<lambda>w. codec_ok K \<and> dc_store C = Some dir \<and> world_inv K dir w" for K C dir
  by unfold_locales (use world_step_inv in blast)

definition fresh_world :: "fs \<Rightarrow> rstr \<Rightarrow> world" where
  "fresh_world s r =
     \<lparr>w_fs = s, w_mem = (\<lambda>_. state_new None), w_live = r, w_spent = {}, w_replayed = False\<rparr>"

lemma fresh_world_inv: "holds K dir s d \<Longrightarrow> refresh_token d = Some r \<Longrightarrow> world_inv K dir (fresh_world s r)"
  by (auto simp: world_inv_def fresh_world_def knows_def state_new_def)

section \<open>Properties\<close>

text \<open>
  C13. No refresh token is presented twice. However many processes share a profile directory,
  and in whatever order they load their session and refresh it, a refresh token that an
  exchange has spent is never sent to the server again, and \<open>auth.json\<close> always holds the live
  one: the refresh that rotated it wrote it there before giving up the lock, and a process
  that still holds an old one finds the new one and takes it. A refresh is one event here, as it
  holds the lock from before its read to after its write. This rests on every read of
  \<open>auth.json\<close> during a refresh succeeding and every rotation reaching its process and being
  written; the lock, the exchange and any other call may fail.\<close>

theorem no_refresh_token_replayed:
  assumes "codec_ok K" and "dc_store C = Some dir"
    and "holds K dir s d" and "refresh_token d = Some r"
    and "ops_ok (event_ok K C) (world_step K C) evs (fresh_world s r)"
  shows "let w = run_ops (world_step K C) evs (fresh_world s r) in
    \<not> w_replayed w \<and> (\<exists>t. holds K dir (w_fs w) t \<and> refresh_token t = Some (w_live w))"
  using processes.run_invar [of K C dir "fresh_world s r" evs] fresh_world_inv [OF assms(3,4)] assms(1,2,5)
  by (simp add: world_inv_def)

text \<open>Two processes with one session: a codec, a server that rotates to a given token, and the files.\<close>

definition demo_dir :: path where "demo_dir = [lit ''h'']"

definition demo_device :: device_config where
  "demo_device = \<lparr>dc_store = Some demo_dir, dc_client_id = [], dc_region = [], dc_device_instance_id = None\<rparr>"

definition session_token :: "rstr \<Rightarrow> token" where
  "session_token r = attach demo_device (demo_token 9 (Some r))"

definition demo_codec :: token_codec where
  "demo_codec =
     \<lparr>tk_to_json = (\<lambda>t. case refresh_token t of
          None \<Rightarrow> None
        | Some r \<Rightarrow> if t = session_token r \<and> is_str r then Some r else None),
      tk_from_json = (\<lambda>j. Some (session_token j)), profile_text = (\<lambda>_. [])\<rparr>"

definition rotating_to :: "rstr \<Rightarrow> outside" where
  "rotating_to r =
     \<lparr>o_env = demo_env, lock_joined = True,
      o_decoders = \<lparr>as_json = (\<lambda>_. None), as_error = (\<lambda>_. Inl []),
        as_token = (\<lambda>body. Some \<lparr>rp_access_token = lit ''bearer'', rp_token_type = lit ''Bearer'',
          rp_expires_in = 9, rp_refresh_token = Some body\<rparr>)\<rparr>,
      o_now = 0, o_post_form = (\<lambda>_. Some \<lparr>hr_status = 200, hr_body = r\<rparr>), o_url_error = None\<rparr>"

definition session_files :: "rstr \<Rightarrow> fs" where
  "session_files r = [[] \<mapsto> Dir, demo_dir \<mapsto> Dir, lock_file demo_dir \<mapsto> File [] 420,
     token_path demo_dir \<mapsto> new_file demo_env r TOKEN_MODE]"

lemma demo_codec_ok: "codec_ok demo_codec"
  by (auto simp: codec_ok_def demo_codec_def split: option.splits if_splits)

lemma session_token_refresh [simp]: "refresh_token (session_token r) = Some r"
  by (simp add: session_token_def demo_token_def)

lemma session_files_ok:
  "set_up demo_dir (session_files r)" "session_files r (tmp_path demo_env (token_path demo_dir)) = None"
  "(session_files r)(token_path demo_dir \<mapsto> new_file demo_env r' TOKEN_MODE) = session_files r'"
  by (simp_all add: set_up_def session_files_def demo_dir_def lock_file_def token_path_def is_file_def ancestors_def
      new_file_def tmp_path_def TOKEN_FILENAME_def lit_def fun_upd_twist)

lemma session_files_hold: "is_str r \<Longrightarrow> holds demo_codec demo_dir (session_files r) (session_token r)"
  by (simp add: holds_def session_files_def new_file_def from_utf8_as_bytes demo_codec_def)

lemma demo_env_fault: "fault demo_env c = None"
  by (simp add: demo_env_def)

lemma demo_exchange:
  "exchanged demo_device (rotating_to r) c = Inr (demo_token 9 (Some r))" "refresh_token (demo_token 9 x) = x"
  "fault (o_env (rotating_to r)) k = None" "lock_joined (rotating_to r)" "o_env (rotating_to r) = demo_env"
  by (simp_all add: rotating_to_def demo_env_def exchanged_def refresh_with_def is_success_def token_of_response_def
      demo_token_def)

lemma demo_refresh:
  assumes "is_str r" "is_str r'"
  shows "device_refresh demo_codec demo_device (rotating_to r') c (session_files r) =
    (if c = r then (Inr (session_token r'), Presented, session_files r') else (Inr (session_token r), Unused, session_files r))"
proof -
  have "tk_to_json demo_codec (attach demo_device (demo_token 9 (Some r'))) = Some r'"
    using assms(2) by (simp add: demo_codec_def demo_token_def session_token_def)
  from refresh_without_faults [where W = "rotating_to r'", OF demo_exchange(3,4) _ session_files_ok(1) _ session_files_hold [OF assms(1)] session_token_refresh demo_exchange(1) this]
  show ?thesis by (simp add: demo_exchange session_files_ok demo_device_def session_token_def)
qed

theorem no_refresh_token_replayed_witness:
  "let evs = [Reads 0 demo_env, Reads 1 demo_env, Refreshes 0 (rotating_to [50]) 5, Refreshes 1 (rotating_to [51]) 6];
       w = run_ops (world_step demo_codec demo_device) evs (fresh_world (session_files [49]) [49])
   in \<not> w_replayed w \<and> w_live w = [50] \<and> w_spent w = {[49]}
      \<and> Option.bind (s_token (w_mem w 1)) refresh_token = Some [50]
      \<and> (\<exists>t. holds demo_codec demo_dir (w_fs w) t \<and> refresh_token t = Some [50])"
proof -
  let ?evs = "[Reads 0 demo_env, Reads 1 demo_env, Refreshes 0 (rotating_to [50]) 5, Refreshes 1 (rotating_to [51]) 6]"
  let ?w = "run_ops (world_step demo_codec demo_device) ?evs (fresh_world (session_files [49]) [49])"
  have str: "is_str [49]" "is_str [50]" "is_str [51]" by (simp_all add: is_str_def is_scalar_def)
  have dir: "dc_store demo_device = Some demo_dir" by (simp add: demo_device_def)
  have load: "load_session demo_codec demo_device demo_env (session_files r) = Some (session_token r)" if "is_str r" for r
  proof -
    have "fst (store_load demo_env (tk_from_json demo_codec) demo_dir TOKEN_FILENAME (session_files r)) = Inr (session_token r)"
      using session_files_hold [OF that] by (simp add: load_holds demo_env_def)
    then show ?thesis by (simp add: load_session_def dir)
  qed
  note eval = world_step_def event_ok_def fresh_world_def state_new_def device_try engine_step_def demo_refresh load str
    install_refreshed_token_def server_step_def rotates_afresh_def store_failed_def session_files_ok demo_exchange
  have ok: "ops_ok (event_ok demo_codec demo_device) (world_step demo_codec demo_device) ?evs (fresh_world (session_files [49]) [49])"
    by (simp add: eval dir demo_env_fault)
  have "w_live ?w = [50] \<and> w_spent ?w = {[49]} \<and> Option.bind (s_token (w_mem ?w 1)) refresh_token = Some [50]"
    by (simp add: eval)
  then show ?thesis
    using no_refresh_token_replayed [OF demo_codec_ok dir session_files_hold [OF str(1)] session_token_refresh ok]
    unfolding Let_def by simp
qed

text \<open>
  The error that marks a credential as spent is reported exactly when it is: a refresh
  fails with a store error if and only if the exchange succeeded and writing its result
  failed, so the engine gives up a credential only when the server has consumed it.\<close>

theorem store_error_iff_spent:
  "store_failed (fst (device_refresh K C W credential s)) \<longleftrightarrow>
    (\<exists>s1 t. acquire_refresh_lock K C W s = (Inr (), s1)
      \<and> load_freshly_refreshed_token K C W credential s1 = None
      \<and> exchanged C W credential = Inr t
      \<and> \<not> is_ok (fst (persist_refreshed K C W (attach C t) s1)))"
proof -
  have "store_failed (Inl e)" if "persist_refreshed K C W t s1 = (Inl e, s2)" for t s1 e s2
    using that by (auto simp: persist_refreshed_def store_failed_def credential_consumed_def split: option.splits prod.splits sum.splits)
  then show ?thesis
    using acquire_error [of K C W s] exchanged_error [of C W credential]
    by (auto simp: device_refresh_def is_ok_def store_failed_def split: prod.splits sum.splits option.splits)
qed

end
