(* ===== verification/Surface_Order.thy ===== *)
theory Surface_Order
  imports Rust_Str "HOL-Library.List_Lexorder"
begin

text \<open>
  The install order of the EQL surface, \<open>packages/eql/crates/eql-codegen/src/ordering.rs\<close>: the
  \<open>REQUIRE\<close> directives of a file, the checks on their targets, and the deterministic
  topological sort. A \<open>BTreeSet\<close> of paths is a sorted list without repetition, the in-degrees
  are a function, and the min-heap is a list kept sorted. The walk over the directory, which
  yields the files with their bodies, is the input.
\<close>

section \<open>Directives\<close>

text \<open>\<open>str::lines\<close>: pieces between line feeds, a carriage return before a line feed dropped, and
  no last empty piece.\<close>

definition strip_cr :: "rstr \<Rightarrow> rstr" where
  "strip_cr l = (if l \<noteq> [] \<and> last l = 13 then butlast l else l)"

definition lines :: "rstr \<Rightarrow> rstr list" where
  "lines s =
     (let ps = split_on 10 s
      in map strip_cr (butlast ps) @ (if last ps = [] then [] else [last ps]))"

definition trim_start :: "rstr \<Rightarrow> rstr" where
  "trim_start s = dropWhile is_whitespace s"

definition strip_prefix :: "rstr \<Rightarrow> rstr \<Rightarrow> rstr option" where
  "strip_prefix p s = (if starts_with p s then Some (drop (length p) s) else None)"

text \<open>\<open>split_whitespace\<close>: the runs of characters that are not whitespace; \<open>w\<close> is the run being read.\<close>

fun split_ws :: "rstr \<Rightarrow> rstr \<Rightarrow> rstr list" where
  "split_ws w [] = (if w = [] then [] else [rev w])"
| "split_ws w (c # cs) =
     (if is_whitespace c then (if w = [] then split_ws [] cs else rev w # split_ws [] cs) else split_ws (c # w) cs)"

definition requires_of :: "rstr \<Rightarrow> rstr list" where
  "requires_of body =
     concat (map (split_ws []) (List.map_filter (\<lambda>l. strip_prefix (lit ''-- REQUIRE:'') (trim_start l)) (lines body)))"

section \<open>The sort\<close>

type_synonym sql_file = "rstr \<times> rstr list"

definition nodes :: "sql_file list \<Rightarrow> rstr list" where
  "nodes files = sort (remdups (map fst files))"

text \<open>The in-degree of every path and the dependents of every path.\<close>

type_synonym graph = "(rstr \<Rightarrow> nat) \<times> (rstr \<Rightarrow> rstr list)"

definition add_edge :: "sql_file list \<Rightarrow> rstr \<Rightarrow> rstr \<Rightarrow> graph \<Rightarrow> graph" where
  "add_edge files p dep g =
     (if dep \<noteq> p \<and> dep \<in> set (nodes files)
      then ((fst g)(p := fst g p + 1), (snd g)(dep := snd g dep @ [p]))
      else g)"

definition build_graph :: "sql_file list \<Rightarrow> graph" where
  "build_graph files =
     fold (\<lambda>(p, reqs) g. fold (\<lambda>dep g. add_edge files p dep g) reqs g) files (\<lambda>_. 0, \<lambda>_. [])"

text \<open>One dependent of a path that was just placed.\<close>

definition relax :: "rstr \<Rightarrow> (rstr \<Rightarrow> nat) \<times> rstr list \<Rightarrow> (rstr \<Rightarrow> nat) \<times> rstr list" where
  "relax d s =
     (let e = fst s d - 1
      in ((fst s)(d := e), if e = 0 then insort d (snd s) else snd s))"

text \<open>The loop, with a bound on its iterations: \<open>None\<close> is running out of it, which it does not.\<close>

fun kahn :: "nat \<Rightarrow> (rstr \<Rightarrow> rstr list) \<Rightarrow> (rstr \<Rightarrow> nat) \<Rightarrow> rstr list \<Rightarrow> rstr list \<Rightarrow> rstr list option" where
  "kahn fuel dependents indeg [] order = Some order"
| "kahn 0 dependents indeg (n # ready) order = None"
| "kahn (Suc fuel) dependents indeg (n # ready) order =
     (let (indeg, ready) = fold relax (dependents n) (indeg, ready)
      in kahn fuel dependents indeg ready (order @ [n]))"

definition topo_order :: "sql_file list \<Rightarrow> (rstr list, rstr list) result option" where
  "topo_order files =
     (let (indeg, dependents) = build_graph files;
          ready = filter (\<lambda>p. indeg p = 0) (nodes files)
      in map_option
           (\<lambda>order. if length order \<noteq> length (nodes files)
                    then Inl (filter (\<lambda>n. n \<notin> set order) (nodes files)) else Inr order)
           (kahn (length (nodes files)) dependents indeg ready []))"

section \<open>The checks\<close>

datatype order_error =
    UnknownTargets "(rstr \<times> rstr) list"
  | OutsideSurface "(rstr \<times> rstr) list"
  | SelfEdge "rstr list"
  | Cycle "rstr list"

definition SURFACE_ROOT :: rstr where
  "SURFACE_ROOT = lit ''src/v3''"

definition edges :: "sql_file list \<Rightarrow> (rstr \<times> rstr) list" where
  "edges files = concat (map (\<lambda>(p, reqs). map (\<lambda>dep. (p, dep)) reqs) files)"

definition in_surface :: "rstr \<Rightarrow> bool" where
  "in_surface dep = starts_with (SURFACE_ROOT @ lit ''/'') dep"

text \<open>\<open>Vec::dedup\<close>: consecutive repetitions are removed.\<close>

fun dedup :: "'a list \<Rightarrow> 'a list" where
  "dedup [] = []"
| "dedup [x] = [x]"
| "dedup (x # y # xs) = (if x = y then dedup (y # xs) else x # dedup (y # xs))"

definition surface_order :: "sql_file list \<Rightarrow> (order_error, rstr list) result option" where
  "surface_order files =
     (let outside = filter (\<lambda>(p, dep). \<not> in_surface dep) (edges files);
          unknown = filter (\<lambda>(p, dep). in_surface dep \<and> dep \<notin> set (nodes files)) (edges files);
          self_edges = map fst (filter (\<lambda>(p, dep). in_surface dep \<and> dep \<in> set (nodes files) \<and> dep = p) (edges files))
      in if outside \<noteq> [] then Some (Inl (OutsideSurface outside))
         else if unknown \<noteq> [] then Some (Inl (UnknownTargets unknown))
         else if self_edges \<noteq> [] then Some (Inl (SelfEdge (dedup self_edges)))
         else map_option (map_sum Cycle id) (topo_order files))"

section \<open>What the graph holds\<close>

text \<open>The targets of a path that count: those of its directives that are paths and not itself.\<close>

definition deps :: "sql_file list \<Rightarrow> rstr \<Rightarrow> rstr list" where
  "deps files v = map snd (filter (\<lambda>(p, dep). p = v \<and> dep \<noteq> v \<and> dep \<in> set (nodes files)) (edges files))"

lemma set_nodes: "set (nodes files) = fst ` set files"
  by (simp add: nodes_def)

lemma distinct_nodes [simp]: "distinct (nodes files)"
  by (simp add: nodes_def)

lemma sorted_nodes: "sorted (nodes files)"
  by (simp add: nodes_def)

lemma build_as_edges:
  "fold (\<lambda>(p, reqs) g. fold (\<lambda>dep g. add_edge files p dep g) reqs g) fs g
     = fold (\<lambda>(p, dep) g. add_edge files p dep g) (edges fs) g"
proof (induction fs arbitrary: g)
  case (Cons f fs)
  obtain p reqs where f: "f = (p, reqs)" by fastforce
  have "fold (\<lambda>(p, dep) g. add_edge files p dep g) (map (\<lambda>dep. (p, dep)) reqs) h
      = fold (\<lambda>dep g. add_edge files p dep g) reqs h" for h
    by (simp add: fold_map o_def)
  with Cons f show ?case by (simp add: edges_def)
qed (simp add: edges_def)

lemma fold_edges:
  "fst (fold (\<lambda>(p, dep) g. add_edge files p dep g) es g) v
     = fst g v + length (filter (\<lambda>(p, dep). p = v \<and> dep \<noteq> v \<and> dep \<in> set (nodes files)) es)"
  "snd (fold (\<lambda>(p, dep) g. add_edge files p dep g) es g) n
     = snd g n @ map fst (filter (\<lambda>(p, dep). dep = n \<and> dep \<noteq> p \<and> dep \<in> set (nodes files)) es)"
proof (induction es arbitrary: g)
  case (Cons e es)
  obtain p dep where e: "e = (p, dep)" by fastforce
  { case 1
    show ?case using Cons(1) [of "add_edge files p dep g"] by (simp add: e add_edge_def) }
  { case 2
    show ?case using Cons(2) [of "add_edge files p dep g"] by (simp add: e add_edge_def) }
qed simp_all

lemma indeg_built: "fst (build_graph files) v = length (deps files v)"
  unfolding build_graph_def build_as_edges by (simp add: fold_edges deps_def)

lemma dependents_built:
  "snd (build_graph files) n = map fst (filter (\<lambda>(p, dep). dep = n \<and> dep \<noteq> p \<and> dep \<in> set (nodes files)) (edges files))"
  unfolding build_graph_def build_as_edges by (simp add: fold_edges)

text \<open>A path is among the dependents of another as often as it requires it.\<close>

lemma count_dependents: "count_list (snd (build_graph files) n) v = count_list (deps files v) n"
proof -
  have "count_list (map fst (filter (\<lambda>(p, dep). dep = n \<and> dep \<noteq> p \<and> dep \<in> set (nodes files)) es)) v
      = count_list (map snd (filter (\<lambda>(p, dep). p = v \<and> dep \<noteq> v \<and> dep \<in> set (nodes files)) es)) n" for es
    by (induction es) auto
  then show ?thesis by (simp add: dependents_built deps_def)
qed

section \<open>The loop\<close>

lemma relax_fold:
  assumes "\<forall>v. count_list ds v \<le> f v" "distinct rd" "\<forall>v \<in> set ds. v \<notin> set rd" "sorted rd"
  shows "\<exists>rd'. fold relax ds (f, rd) = (\<lambda>v. f v - count_list ds v, rd')
    \<and> distinct rd' \<and> sorted rd' \<and> set rd' = set rd \<union> {v \<in> set ds. f v = count_list ds v}"
  using assms
proof (induction ds arbitrary: f rd)
  case Nil
  then show ?case by simp
next
  case (Cons d ds)
  let ?f = "f(d := f d - 1)"
  let ?rd = "if f d - 1 = 0 then insort d rd else rd"
  have fd: "1 \<le> f d" "count_list ds d \<le> f d - 1" using Cons.prems(1) [rule_format, of d] by simp_all
  have c: "\<forall>v. count_list ds v \<le> ?f v"
  proof
    fix v
    show "count_list ds v \<le> ?f v" using Cons.prems(1) [rule_format, of v] fd by (cases "v = d") auto
  qed
  have dz: "f d - 1 = 0 \<Longrightarrow> d \<notin> set ds" using fd(2) count_list_0_iff [of ds d] by auto
  have out: "\<forall>v \<in> set ds. v \<notin> set ?rd" using Cons.prems(3) dz by (auto simp: set_insort_key)
  have "distinct ?rd" "sorted ?rd"
    using Cons.prems(2-4) by (auto simp: distinct_insort sorted_insort)
  from Cons.IH [OF c this(1) out this(2)] obtain rd' where
    r: "fold relax ds (?f, ?rd) = (\<lambda>v. ?f v - count_list ds v, rd')" "distinct rd'" "sorted rd'"
       "set rd' = set ?rd \<union> {v \<in> set ds. ?f v = count_list ds v}" by blast
  have step: "fold relax (d # ds) (f, rd) = fold relax ds (?f, ?rd)" by (simp add: relax_def Let_def)
  have f': "(\<lambda>v. ?f v - count_list ds v) = (\<lambda>v. f v - count_list (d # ds) v)" by auto
  have "v \<in> set rd' \<longleftrightarrow> v \<in> set rd \<or> v \<in> set (d # ds) \<and> f v = count_list (d # ds) v" for v
  proof (cases "v = d")
    case True
    have "f d = Suc (count_list ds d) \<longleftrightarrow> f d - 1 = 0 \<or> d \<in> set ds \<and> f d - 1 = count_list ds d"
      using fd dz count_list_0_iff [of ds d] by fastforce
    with True eqset_imp_iff [OF r(4), of d] show ?thesis by (auto simp: set_insort_key)
  next
    case False
    with eqset_imp_iff [OF r(4), of v] show ?thesis by (simp add: set_insort_key)
  qed
  then have "set rd' = set rd \<union> {v \<in> set (d # ds). f v = count_list (d # ds) v}" by blast
  moreover have "fold relax (d # ds) (f, rd) = (\<lambda>v. f v - count_list (d # ds) v, rd')"
    by (rule trans [OF step trans [OF r(1)]]) (simp only: f')
  ultimately show ?case using r(2,3) by blast
qed

text \<open>
  The invariant of the loop: what is placed or ready is what has no unplaced requirement, and
  every placed path comes after what it requires.
\<close>

definition available :: "sql_file list \<Rightarrow> rstr list \<Rightarrow> rstr \<Rightarrow> bool" where
  "available files placed v \<longleftrightarrow> v \<in> set (nodes files) \<and> v \<notin> set placed \<and> set (deps files v) \<subseteq> set placed"

definition ordered :: "sql_file list \<Rightarrow> rstr list \<Rightarrow> bool" where
  "ordered files order \<longleftrightarrow>
     (\<forall>i < length order. available files (take i order) (order ! i)
        \<and> (\<forall>v. available files (take i order) v \<longrightarrow> order ! i \<le> v))"

definition unplaced :: "sql_file list \<Rightarrow> rstr list \<Rightarrow> rstr \<Rightarrow> nat" where
  "unplaced files order v = length (filter (\<lambda>d. d \<notin> set order) (deps files v))"

definition kahn_inv :: "sql_file list \<Rightarrow> (rstr \<Rightarrow> nat) \<Rightarrow> rstr list \<Rightarrow> rstr list \<Rightarrow> bool" where
  "kahn_inv files f ready order \<longleftrightarrow>
     distinct (order @ ready) \<and> sorted ready \<and> ordered files order
     \<and> (\<forall>v. f v = unplaced files order v)
     \<and> set (order @ ready) = {v \<in> set (nodes files). f v = 0}"

lemma deps_nodes: "set (deps files v) \<subseteq> set (nodes files)"
  by (auto simp: deps_def)

lemma deps_irrefl: "v \<notin> set (deps files v)"
  by (auto simp: deps_def)

lemma deps_of_node: "deps files v \<noteq> [] \<Longrightarrow> v \<in> set (nodes files)"
  by (force simp: deps_def edges_def filter_empty_conv set_nodes)

lemma unplaced_app: "n \<notin> set order \<Longrightarrow> unplaced files (order @ [n]) v = unplaced files order v - count_list (deps files v) n"
proof -
  assume n: "n \<notin> set order"
  have "length (filter (\<lambda>d. d \<notin> set (order @ [n])) xs) + count_list xs n = length (filter (\<lambda>d. d \<notin> set order) xs)" for xs
    using n by (induction xs) auto
  from this [of "deps files v"] show ?thesis by (simp add: unplaced_def)
qed

lemma ordered_app:
  "ordered files order \<Longrightarrow> available files order n \<Longrightarrow> (\<And>v. available files order v \<Longrightarrow> n \<le> v)
    \<Longrightarrow> ordered files (order @ [n])"
  by (auto simp: ordered_def nth_append less_Suc_eq)

lemma unplaced_0: "unplaced files order v = 0 \<longleftrightarrow> set (deps files v) \<subseteq> set order"
  by (auto simp: unplaced_def filter_empty_conv)

lemma kahn_step:
  assumes inv: "kahn_inv files f (n # ready) order"
    and fr: "fold relax (snd (build_graph files) n) (f, ready) = (f', ready')"
  shows "kahn_inv files f' ready' (order @ [n])"
proof -
  let ?ds = "snd (build_graph files) n"
  have dist: "distinct (order @ n # ready)" and srt: "sorted ready" and ord: "ordered files order"
    and f: "\<And>v. f v = unplaced files order v" and st: "set (order @ n # ready) = {v \<in> set (nodes files). f v = 0}"
    using inv by (auto simp: kahn_inv_def)
  have mem: "v \<in> set order \<or> v = n \<or> v \<in> set ready \<longleftrightarrow> v \<in> set (nodes files) \<and> f v = 0" for v
    using eqset_imp_iff [OF st, of v] by auto
  have n: "n \<notin> set order" "f n = 0" "n \<in> set (nodes files)" using dist mem [of n] by auto
  have cnt: "count_list ?ds v = count_list (deps files v) n" for v by (rule count_dependents)
  have le: "\<forall>v. count_list ?ds v \<le> f v"
  proof
    fix v
    have "count_list xs n \<le> length (filter (\<lambda>d. d \<notin> set order) xs)" for xs using n(1) by (induction xs) auto
    then show "count_list ?ds v \<le> f v" using f [of v] cnt by (simp add: unplaced_def)
  qed
  have pos: "0 < f v" if "v \<in> set ?ds" for v
    using le [rule_format, of v] count_list_0_iff [of ?ds v] that by (cases "count_list ?ds v") auto
  have "v \<notin> set ready" if "v \<in> set ?ds" for v using pos [OF that] mem [of v] by auto
  with relax_fold [OF le _ _ srt] dist fr have r: "f' = (\<lambda>v. f v - count_list ?ds v)" "distinct ready'" "sorted ready'"
    "set ready' = set ready \<union> {v \<in> set ?ds. f v = count_list ?ds v}" by auto
  have f': "f' v = unplaced files (order @ [n]) v" for v
    using r(1) f [of v] cnt [of v] unplaced_app [OF n(1), of files v] by simp
  have av: "available files order v \<longleftrightarrow> v \<in> set (n # ready)" for v
    using mem [of v] f [of v] dist by (auto simp: available_def unplaced_0)
  have "n \<le> v" if "v \<in> set (n # ready)" for v using that inv by (auto simp: kahn_inv_def)
  then have "ordered files (order @ [n])" using ordered_app [OF ord] av by auto
  moreover have "set (order @ [n] @ ready') = {v \<in> set (nodes files). f' v = 0}"
  proof -
    have "v \<in> set (nodes files)" if "v \<in> set ?ds" for v
      using that deps_of_node [of files v] cnt [of v] count_list_0_iff [of ?ds v] by (cases "deps files v") auto
    moreover have "f' v = 0 \<longleftrightarrow> f v = 0 \<or> v \<in> set ?ds \<and> f v = count_list ?ds v" for v
      using r(1) le [rule_format, of v] count_list_0_iff [of ?ds v] by auto
    ultimately have "v \<in> set (order @ [n] @ ready') \<longleftrightarrow> v \<in> set (nodes files) \<and> f' v = 0" for v
      using r(4) mem [of v] by auto
    then show ?thesis by blast
  qed
  moreover have "v \<notin> set ?ds" if "v \<in> set order \<or> v = n" for v using pos [of v] mem [of v] that by auto
  then have "distinct (order @ [n] @ ready')" using dist r(2,4) by auto
  ultimately show ?thesis using f' r(3) by (simp add: kahn_inv_def)
qed

lemma kahn_total:
  assumes "kahn_inv files f ready order" "length (nodes files) \<le> fuel + length order"
  shows "\<exists>order' f'. kahn fuel (snd (build_graph files)) f ready order = Some order' \<and> kahn_inv files f' [] order'"
  using assms
proof (induction fuel arbitrary: f ready order)
  case 0
  show ?case
  proof (cases ready)
    case Nil
    with 0 show ?thesis by auto
  next
    case (Cons n rd)
    have "set (order @ n # rd) \<subseteq> set (nodes files)" "distinct (order @ n # rd)"
      using 0(1) Cons by (auto simp: kahn_inv_def)
    then have "length (order @ n # rd) \<le> length (nodes files)"
      using card_mono [of "set (nodes files)" "set (order @ n # rd)"]
        distinct_card [of "order @ n # rd"] distinct_card [OF distinct_nodes [of files]] by simp
    with 0(2) show ?thesis by simp
  qed
next
  case (Suc fuel)
  show ?case
  proof (cases ready)
    case Nil
    with Suc show ?thesis by auto
  next
    case (Cons n rd)
    obtain f' rd' where r: "fold relax (snd (build_graph files) n) (f, rd) = (f', rd')" by fastforce
    have "kahn_inv files f' rd' (order @ [n])" using kahn_step [OF _ r] Suc.prems(1) Cons by simp
    from Suc.IH [OF this] Suc.prems(2) Cons r show ?thesis by simp
  qed
qed

lemma kahn_start: "kahn_inv files (fst (build_graph files)) (filter (\<lambda>p. fst (build_graph files) p = 0) (nodes files)) []"
  by (simp add: kahn_inv_def ordered_def indeg_built unplaced_def sorted_filter [where f = id, simplified] sorted_nodes)

text \<open>What the sort returns.\<close>

lemma topo_order_cases:
  obtains order where "topo_order files = Some (if length order \<noteq> length (nodes files)
      then Inl (filter (\<lambda>n. n \<notin> set order) (nodes files)) else Inr order)"
    "distinct order" "ordered files order"
    "\<forall>v. v \<in> set order \<longleftrightarrow> v \<in> set (nodes files) \<and> set (deps files v) \<subseteq> set order"
proof -
  obtain order f' where k: "kahn (length (nodes files)) (snd (build_graph files)) (fst (build_graph files))
      (filter (\<lambda>p. fst (build_graph files) p = 0) (nodes files)) [] = Some order" "kahn_inv files f' [] order"
    using kahn_total [OF kahn_start, of files "length (nodes files)"] by auto
  have i: "distinct order" "ordered files order" "\<And>v. f' v = unplaced files order v"
    and st: "set order = {v \<in> set (nodes files). f' v = 0}"
    using k(2) unfolding kahn_inv_def by (simp_all del: set_append)
  have "v \<in> set order \<longleftrightarrow> v \<in> set (nodes files) \<and> set (deps files v) \<subseteq> set order" for v
    using eqset_imp_iff [OF st, of v] i(3) [of v] unplaced_0 [of files order v] by auto
  moreover have "topo_order files = Some (if length order \<noteq> length (nodes files)
      then Inl (filter (\<lambda>n. n \<notin> set order) (nodes files)) else Inr order)"
    using k(1) by (cases "build_graph files") (simp add: topo_order_def)
  ultimately show thesis using that i(1,2) by blast
qed

lemma order_full: "distinct order \<Longrightarrow> set order \<subseteq> set (nodes files) \<Longrightarrow>
    length order = length (nodes files) \<longleftrightarrow> set order = set (nodes files)"
  using distinct_card [of order] distinct_card [OF distinct_nodes [of files]]
  by (metis card_subset_eq List.finite_set)

text \<open>An order in which every path comes once and after everything it requires.\<close>

definition valid_order :: "sql_file list \<Rightarrow> rstr list \<Rightarrow> bool" where
  "valid_order files order \<longleftrightarrow>
     distinct order \<and> set order = fst ` set files
     \<and> (\<forall>(p, reqs) \<in> set files. \<forall>dep \<in> set reqs. \<exists>xs ys. order = xs @ p # ys \<and> dep \<in> set xs)"

text \<open>The targets that pass the checks.\<close>

definition targets_ok :: "sql_file list \<Rightarrow> bool" where
  "targets_ok files \<longleftrightarrow>
     (\<forall>(p, reqs) \<in> set files. \<forall>dep \<in> set reqs. in_surface dep \<and> dep \<in> fst ` set files \<and> dep \<noteq> p)"

lemma in_edges: "(p, dep) \<in> set (edges files) \<longleftrightarrow> (\<exists>reqs. (p, reqs) \<in> set files \<and> dep \<in> set reqs)"
  by (force simp: edges_def)

lemma targets_ok_edges: "targets_ok files \<longleftrightarrow> (\<forall>(p, dep) \<in> set (edges files). in_surface dep \<and> dep \<in> set (nodes files) \<and> dep \<noteq> p)"
proof -
  have "targets_ok files \<longleftrightarrow> (\<forall>p dep. (\<exists>reqs. (p, reqs) \<in> set files \<and> dep \<in> set reqs) \<longrightarrow>
      in_surface dep \<and> dep \<in> fst ` set files \<and> dep \<noteq> p)"
    unfolding targets_ok_def by blast
  also have "\<dots> \<longleftrightarrow> (\<forall>p dep. (p, dep) \<in> set (edges files) \<longrightarrow> in_surface dep \<and> dep \<in> set (nodes files) \<and> dep \<noteq> p)"
    by (simp only: in_edges set_nodes)
  finally show ?thesis by (simp only: Ball_def split_paired_All prod.case)
qed

lemma deps_eq: "targets_ok files \<Longrightarrow> set (deps files v) = {dep. (v, dep) \<in> set (edges files)}"
proof -
  assume ok: "targets_ok files"
  have e: "dep \<noteq> v \<and> dep \<in> set (nodes files)" if "(v, dep) \<in> set (edges files)" for dep
    using ok that unfolding targets_ok_edges by blast
  have "dep \<in> set (deps files v) \<longleftrightarrow> (v, dep) \<in> set (edges files)" for dep
    unfolding deps_def using e [of dep] by (auto simp: image_iff)
  then show ?thesis by blast
qed

lemma surface_checks: "targets_ok files \<Longrightarrow> surface_order files = map_option (map_sum Cycle id) (topo_order files)"
proof -
  assume "targets_ok files"
  then have e: "in_surface dep \<and> dep \<in> set (nodes files) \<and> dep \<noteq> p" if "(p, dep) \<in> set (edges files)" for p dep
    using that by (auto simp: targets_ok_edges)
  then have "filter (\<lambda>(p, dep). \<not> in_surface dep) (edges files) = []"
    "filter (\<lambda>(p, dep). in_surface dep \<and> dep \<notin> set (nodes files)) (edges files) = []"
    "filter (\<lambda>(p, dep). in_surface dep \<and> dep \<in> set (nodes files) \<and> dep = p) (edges files) = []"
    by (auto simp: filter_empty_conv)
  then show ?thesis by (simp add: surface_order_def)
qed

lemma surface_refused: "\<not> targets_ok files \<Longrightarrow> \<exists>e. surface_order files = Some (Inl e) \<and> (\<nexists>c. e = Cycle c)"
proof -
  assume "\<not> targets_ok files"
  then obtain p dep where "(p, dep) \<in> set (edges files)" "\<not> in_surface dep \<or> dep \<notin> set (nodes files) \<or> dep = p"
    by (auto simp: targets_ok_edges)
  then have "filter (\<lambda>(p, dep). \<not> in_surface dep) (edges files) \<noteq> []
    \<or> filter (\<lambda>(p, dep). in_surface dep \<and> dep \<notin> set (nodes files)) (edges files) \<noteq> []
    \<or> filter (\<lambda>(p, dep). in_surface dep \<and> dep \<in> set (nodes files) \<and> dep = p) (edges files) \<noteq> []"
    by (cases "in_surface dep"; cases "dep \<in> set (nodes files)") (force simp: filter_empty_conv)+
  then show ?thesis by (auto simp: surface_order_def Let_def)
qed

lemma ordered_valid:
  assumes ok: "targets_ok files" and o: "ordered files order" "distinct order" "set order = set (nodes files)"
  shows "valid_order files order"
proof -
  have "\<exists>xs ys. order = xs @ p # ys \<and> dep \<in> set xs" if "(p, reqs) \<in> set files" "dep \<in> set reqs" for p reqs dep
  proof -
    have "p \<in> set order" using that(1) o(3) by (force simp: set_nodes)
    then obtain i where i: "i < length order" "order ! i = p" by (auto simp: in_set_conv_nth)
    have "dep \<in> set (deps files p)" using deps_eq [OF ok, of p] that in_edges by fastforce
    then have "dep \<in> set (take i order)" using o(1) i by (auto simp: ordered_def available_def)
    with i show ?thesis by (metis id_take_nth_drop)
  qed
  with o show ?thesis by (auto simp: valid_order_def set_nodes)
qed

text \<open>In a valid order the first path that the sort did not place has nothing left to wait for.\<close>

lemma valid_order_first:
  assumes ok: "targets_ok files" and v: "valid_order files order'"
    and closed: "\<forall>v. v \<in> S \<longleftrightarrow> v \<in> set (nodes files) \<and> set (deps files v) \<subseteq> S"
  shows "set (take n order') \<subseteq> S"
proof (induction n)
  case (Suc n)
  show ?case
  proof (cases "n < length order'")
    case True
    let ?p = "order' ! n"
    have "dep \<in> set (take n order')" if d: "dep \<in> set (deps files ?p)" for dep
    proof -
      obtain reqs where "(?p, reqs) \<in> set files" "dep \<in> set reqs" using d deps_eq [OF ok, of ?p] in_edges by auto
      with v obtain xs ys where xs: "order' = xs @ ?p # ys" "dep \<in> set xs" by (fastforce simp: valid_order_def)
      have "order' ! length xs = ?p" using arg_cong [OF xs(1), of "\<lambda>l. l ! length xs"] by simp
      moreover have "length xs < length order'" using arg_cong [OF xs(1), of length] by simp
      ultimately have "length xs = n" using v True nth_eq_iff_index_eq by (auto simp: valid_order_def)
      with xs show ?thesis by (metis append_eq_conv_conj)
    qed
    moreover have "?p \<in> set (nodes files)" using v True by (auto simp: valid_order_def set_nodes)
    ultimately have "?p \<in> S" using closed Suc.IH by blast
    with Suc.IH True show ?thesis by (simp add: take_Suc_conv_app_nth)
  qed (use Suc.IH in simp)
qed simp

lemma ordered_unique:
  assumes "ordered files o1" "ordered files o2" "length o1 = length o2"
  shows "o1 = o2"
proof -
  have "take n o1 = take n o2" if "n \<le> length o1" for n
    using that
  proof (induction n)
    case (Suc n)
    then have eq: "take n o1 = take n o2" and n: "n < length o1" "n < length o2" using assms(3) by simp_all
    have "o1 ! n \<le> o2 ! n" "o2 ! n \<le> o1 ! n" using assms(1,2) n eq unfolding ordered_def by metis+
    then show ?case using eq n by (simp add: take_Suc_conv_app_nth)
  qed simp
  from this [of "length o1"] assms(3) show ?thesis by simp
qed

lemma same_files:
  assumes "set files = set files'"
  shows "targets_ok files = targets_ok files'" "set (nodes files) = set (nodes files')"
    "valid_order files = valid_order files'" "ordered files = ordered files'"
proof -
  have n: "set (nodes files) = set (nodes files')" using assms by (simp add: set_nodes)
  have "set (edges files) = set (edges files')" using assms by (simp add: edges_def)
  then have "set (deps files v) = set (deps files' v)" for v using n by (simp add: deps_def)
  then have "available files = available files'" using n by (auto simp: available_def fun_eq_iff)
  then show "ordered files = ordered files'" by (simp add: ordered_def fun_eq_iff)
  show "set (nodes files) = set (nodes files')" using n .
  show "targets_ok files = targets_ok files'" "valid_order files = valid_order files'"
    using assms by (simp_all add: targets_ok_def valid_order_def fun_eq_iff)
qed

text \<open>Success and failure of the sort, on a surface that passes the checks.\<close>

lemma topo_order_ok:
  assumes "targets_ok files" "topo_order files = Some (Inr order)"
  shows "valid_order files order \<and> ordered files order"
proof (rule topo_order_cases [of files])
  fix o'
  assume o': "topo_order files = Some (if length o' \<noteq> length (nodes files)
      then Inl (filter (\<lambda>n. n \<notin> set o') (nodes files)) else Inr o')" "distinct o'" "ordered files o'"
    and m: "\<forall>v. v \<in> set o' \<longleftrightarrow> v \<in> set (nodes files) \<and> set (deps files v) \<subseteq> set o'"
  then have "o' = order" "length o' = length (nodes files)" using assms(2) by (auto split: if_splits)
  moreover have "set o' \<subseteq> set (nodes files)" using m by blast
  ultimately show ?thesis using ordered_valid [OF assms(1)] o' order_full [of o' files] by auto
qed

lemma topo_order_cycle:
  assumes "targets_ok files" "topo_order files = Some (Inl stuck)"
  shows "stuck \<noteq> [] \<and> (\<forall>v \<in> set stuck. \<exists>d \<in> set stuck. (v, d) \<in> set (edges files)) \<and> \<not> (\<exists>order. valid_order files order)"
proof (rule topo_order_cases [of files])
  fix o'
  assume o': "topo_order files = Some (if length o' \<noteq> length (nodes files)
      then Inl (filter (\<lambda>n. n \<notin> set o') (nodes files)) else Inr o')" "distinct o'"
    and m: "\<forall>v. v \<in> set o' \<longleftrightarrow> v \<in> set (nodes files) \<and> set (deps files v) \<subseteq> set o'"
  then have l: "length o' \<noteq> length (nodes files)" and stuck: "stuck = filter (\<lambda>n. n \<notin> set o') (nodes files)"
    using assms(2) by (auto split: if_splits)
  have sub: "set o' \<subseteq> set (nodes files)" using m by blast
  then have neq: "set o' \<noteq> set (nodes files)" using order_full [OF o'(2)] l by blast
  have "\<exists>d \<in> set stuck. (v, d) \<in> set (edges files)" if "v \<in> set stuck" for v
  proof -
    have "v \<in> set (nodes files)" "v \<notin> set o'" using that stuck by auto
    then obtain d where d: "d \<in> set (deps files v)" "d \<notin> set o'" using m by blast
    then have "d \<in> set stuck" using deps_nodes stuck by auto
    with d deps_eq [OF assms(1), of v] show ?thesis by auto
  qed
  moreover have "\<not> valid_order files order" for order
  proof
    assume v: "valid_order files order"
    have "set (take (length order) order) \<subseteq> set o'" by (rule valid_order_first [OF assms(1) v m])
    with v sub neq show False by (auto simp: valid_order_def set_nodes)
  qed
  moreover have "stuck \<noteq> []" using stuck sub neq by (auto simp: filter_empty_conv)
  ultimately show ?thesis by blast
qed

section \<open>Properties\<close>

text \<open>
  C21. The install order is right. The sort always ends. An order it returns lists every file
  of the surface once, each after everything it requires, and among the files that could come
  next always the least by name, so that the order of the walk does not matter. A reported
  cycle is one: every file in it requires another in it, and no order would do. And whenever
  the targets are in the surface and some order exists, one is returned.\<close>

theorem surface_order_correct:
  "\<exists>r. surface_order files = Some r
    \<and> (\<forall>order. r = Inr order \<longrightarrow> valid_order files order \<and> ordered files order
         \<and> (\<forall>files'. set files' = set files \<longrightarrow> surface_order files' = Some (Inr order)))
    \<and> (\<forall>stuck. r = Inl (Cycle stuck) \<longrightarrow> stuck \<noteq> []
         \<and> (\<forall>v \<in> set stuck. \<exists>d \<in> set stuck. (v, d) \<in> set (edges files)) \<and> \<not> (\<exists>order. valid_order files order))
    \<and> (targets_ok files \<and> (\<exists>order. valid_order files order) \<longrightarrow> (\<exists>order. r = Inr order))"
proof (cases "targets_ok files")
  case False
  with surface_refused [OF False] show ?thesis by auto
next
  case True
  obtain t where t: "topo_order files = Some t" by (rule topo_order_cases [of files]) auto
  have r: "surface_order files = Some (map_sum Cycle id t)" using surface_checks [OF True] t by simp
  show ?thesis
  proof (cases t)
    case (Inl stuck)
    with r topo_order_cycle [OF True t [unfolded Inl]] show ?thesis by simp
  next
    case (Inr order)
    note ok = topo_order_ok [OF True t [unfolded Inr]]
    have "surface_order files' = Some (Inr order)" if "set files' = set files" for files'
    proof -
      note same = same_files [OF that]
      have True': "targets_ok files'" using same(1) True by simp
      obtain t' where t': "topo_order files' = Some t'" by (rule topo_order_cases [of files']) auto
      have "valid_order files' order" using ok same by simp
      then obtain o' where o': "t' = Inr o'"
        using topo_order_cycle [OF True', of "projl t'"] t' by (cases t') auto
      have "valid_order files o'" "ordered files o'" using topo_order_ok [OF True' t' [unfolded o']] same by auto
      moreover have "length o' = length order"
        using ok \<open>valid_order files o'\<close> distinct_card [of o'] distinct_card [of order] by (simp add: valid_order_def)
      ultimately have "o' = order" using ordered_unique ok by blast
      with surface_checks [OF True'] t' o' show ?thesis by simp
    qed
    with r Inr ok show ?thesis by simp
  qed
qed

theorem surface_order_correct_witness:
  "surface_order [(lit ''src/v3/b'', [lit ''src/v3/a'']), (lit ''src/v3/a'', [])] = Some (Inr [lit ''src/v3/a'', lit ''src/v3/b''])
   \<and> surface_order [(lit ''src/v3/a'', []), (lit ''src/v3/b'', [lit ''src/v3/a''])] = Some (Inr [lit ''src/v3/a'', lit ''src/v3/b''])"
proof -
  let ?f = "[(lit ''src/v3/b'', [lit ''src/v3/a'']), (lit ''src/v3/a'', [])]"
  let ?o = "[lit ''src/v3/a'', lit ''src/v3/b'']"
  have "surface_order ?f = Some (Inr ?o)" by code_simp
  moreover have "set [(lit ''src/v3/a'', []), (lit ''src/v3/b'', [lit ''src/v3/a''])] = set ?f" by auto
  ultimately show ?thesis using surface_order_correct [of ?f] by (metis option.inject)
qed

end
