(* ===== verification/Dyn_Value.thy ===== *)
theory Dyn_Value
  imports Descriptor "HOL-Library.Code_Target_Nat"
begin

text \<open>
  Runtime values and what a declaration says of them, \<open>stack-encrypt/src/dynamic\<close>: the values a
  binding sends (\<open>FfiValue\<close> of the vitaminc crates, by the constructors the source matches), the
  errors with their reasons (\<open>mod.rs\<close>), contexts read from values (\<open>context.rs\<close>), indexes and
  their wire form (\<open>term.rs\<close>, \<open>target/index.rs\<close>, \<open>sem/mod.rs\<close>), and which kinds admit which
  indexes (\<open>kind.rs\<close>). A float is its bits. Which value is of which kind and which context is
  empty is vitaminc's to say and an argument here, and so is the width of \<open>usize\<close>.
\<close>

section \<open>Values and kinds\<close>

datatype ffi_value =
    FNull
  | FUndefined
  | FBool bool
  | FInt32 u32
  | FInt64 u64
  | FUInt32 u32
  | FUInt64 u64
  | FFloat32 u32
  | FFloat64 u64
  | FString bytes
  | FBytes bytes
  | FArray "ffi_value list"
  | FObject "(rstr \<times> ffi_value) list"
  | FPassthrough ffi_value

datatype value_kind =
    KBool | KInt32 | KInt64 | KUInt32 | KUInt64 | KFloat32 | KFloat64 | KString | KBytes | KArray | KObject

text \<open>A string leaf holds UTF-8 by vitaminc's invariant, which the source checks again.\<close>

definition utf8 :: "bytes \<Rightarrow> rstr option" where
  "utf8 s = from_utf8 s"

definition fstr :: "string \<Rightarrow> ffi_value" where
  "fstr s = FString (as_bytes (lit s))"

section \<open>Indexes\<close>

datatype tokenizer = Ngram nat | Standard

record match_options =
  mo_tokenizer :: tokenizer
  mo_downcase :: bool
  mo_k :: nat
  mo_m :: u32

definition default_options :: match_options where
  "default_options = \<lparr>mo_tokenizer = Ngram 3, mo_downcase = True, mo_k = 3, mo_m = 256\<rparr>"

datatype term_error =
    NgramLength
  | KOutOfRange
  | MNotPowerOfTwo

definition is_power_of_two :: "u32 \<Rightarrow> bool" where
  "is_power_of_two m \<longleftrightarrow> m \<in> set (map (\<lambda>i. push_bit i 1) [0..<32])"

text \<open>\<open>MatchOptions::validate\<close>: the mask that a position is reduced by.\<close>

definition validate :: "match_options \<Rightarrow> (term_error, u16) result" where
  "validate opts =
     (if mo_tokenizer opts = Ngram 0 then Inl NgramLength
      else if \<not> (3 \<le> mo_k opts \<and> mo_k opts \<le> 16) then Inl KOutOfRange
      else if \<not> is_power_of_two (mo_m opts) \<or> \<not> (32 \<le> mo_m opts \<and> mo_m opts \<le> 65536) then Inl MNotPowerOfTwo
      else Inr (ucast (mo_m opts - 1)))"

datatype index_spec =
    Equality
  | Match match_options
  | Ore
  | Ope

fun index_key :: "index_spec \<Rightarrow> rstr" where
  "index_key Equality = lit ''eq''"
| "index_key (Match _) = lit ''match''"
| "index_key Ore = lit ''ore''"
| "index_key Ope = lit ''ope''"

definition parse_index :: "rstr \<Rightarrow> index_spec option" where
  "parse_index key =
     (if key = lit ''eq'' then Some Equality
      else if key = lit ''match'' then Some (Match default_options)
      else if key = lit ''ore'' then Some Ore
      else if key = lit ''ope'' then Some Ope
      else None)"

section \<open>Errors\<close>

datatype reason =
    NotAnObject | ContextKind | ContextNotUtf8 | EmptyContext | ContextNotLabel | MixedContexts
  | NoFields | DuplicateFieldReason | UnknownKey | RepeatedKey | MissingContext | MissingOutputs
  | OutputsWithTarget | OutputsNotList | UnknownOutput | NoOutputs | DuplicateOutput
  | PassthroughWithOutputs | InvalidTarget | UnknownType | IndexNotAdmitted | SharedIdentityReason
  | NoSuchFieldReason | NotATarget | ContextFieldReason | Refused | FieldMissing | FieldRepeated
  | UnknownField | FieldTypeReason | PassthroughReason | OutputsNotMap | NoCiphertextNode
  | NoPassthroughNode | NoEqlNode | NotPassthrough

datatype target_error =
    NoTargets rstr
  | UnknownTarget rstr
  | Unproducible rstr rstr
  | NoQuery rstr
  | Extended rstr rstr
  | TargetContextField rstr rstr
  | TargetKind rstr rstr "value_kind option" value_kind
  | TargetColumn rstr rstr rstr
  | TargetPlaintext rstr rstr "value_kind option" "value_kind option"
  | TargetStored rstr rstr rstr
  | TargetOther rstr

text \<open>Refusals of the plan builder and of a run of its plan (\<open>plan/error.rs\<close>), those a plan from
  data can meet.\<close>

datatype plan_error =
    ContextLabel label_error
  | FieldLabel rstr label_error
  | IdentityWithoutField
  | DuplicateField rstr
  | SharedIdentity rstr rstr rstr
  | PassthroughIndexed rstr
  | DuplicateIndex rstr rstr
  | EmptyIndexes
  | NotInPlan rstr
  | NotInValue rstr
  | FieldType rstr rstr
  | NoSuchField rstr
  | MixedCiphers
  | IndexNotDeclared rstr rstr
  | IndexOptions rstr index_spec index_spec
  | TargetWithVerbs rstr
  | TwoContextSources rstr rstr
  | NoContext

datatype engine_error =
    PlanFailed plan_error
  | ContextMismatch rstr
  | ResponseShape
  | CipherFailed

datatype dyn_error =
    ContextError "rstr option" reason
  | TermUndefined "rstr option" index_spec
  | PlanError "rstr option" reason
  | UntypedIndex rstr
  | SourceError "rstr option" reason
  | RecordError "rstr option" reason
  | InternalError
  | TargetError target_error
  | CipherError engine_error

definition bad_context :: "reason \<Rightarrow> dyn_error" where
  "bad_context r = ContextError None r"

definition bad_plan :: "reason \<Rightarrow> dyn_error" where
  "bad_plan r = PlanError None r"

definition bad_source :: "reason \<Rightarrow> dyn_error" where
  "bad_source r = SourceError None r"

definition bad_record :: "reason \<Rightarrow> dyn_error" where
  "bad_record r = RecordError None r"

fun in_field :: "rstr \<Rightarrow> dyn_error \<Rightarrow> dyn_error" where
  "in_field name (ContextError None r) = ContextError (Some name) r"
| "in_field name (TermUndefined None kind) = TermUndefined (Some name) kind"
| "in_field name (PlanError None r) = PlanError (Some name) r"
| "in_field name (SourceError None r) = SourceError (Some name) r"
| "in_field name (RecordError None r) = RecordError (Some name) r"
| "in_field name e = e"

fun error_field :: "dyn_error \<Rightarrow> rstr option" where
  "error_field (ContextError f _) = f"
| "error_field (TermUndefined f _) = f"
| "error_field (PlanError f _) = f"
| "error_field (SourceError f _) = f"
| "error_field (RecordError f _) = f"
| "error_field (UntypedIndex f) = Some f"
| "error_field _ = None"

fun error_reason :: "dyn_error \<Rightarrow> reason option" where
  "error_reason (ContextError _ r) = Some r"
| "error_reason (PlanError _ r) = Some r"
| "error_reason (SourceError _ r) = Some r"
| "error_reason (RecordError _ r) = Some r"
| "error_reason _ = None"

section \<open>Contexts\<close>

fun piece_of :: "ffi_value \<Rightarrow> (dyn_error, context_piece) result" where
  "piece_of (FString s) =
     (case utf8 s of Some t \<Rightarrow> Inr (Text t) | None \<Rightarrow> Inl (bad_context ContextNotUtf8))"
| "piece_of (FBytes b) = Inr (Bytes b)"
| "piece_of (FInt32 v) = Inr (I32 v)"
| "piece_of (FInt64 v) = Inr (I64 v)"
| "piece_of (FUInt32 v) = Inr (U32 v)"
| "piece_of (FUInt64 v) = Inr (U64 v)"
| "piece_of (FArray items) = map_sum id List (collect piece_of items)"
| "piece_of _ = Inl (bad_context ContextKind)"

definition dyn_context :: "(context_piece \<Rightarrow> bool) \<Rightarrow> ffi_value \<Rightarrow> (dyn_error, context_piece) result" where
  "dyn_context is_empty value =
     and_then (piece_of value) (\<lambda>p. if is_empty p then Inl (bad_context EmptyContext) else Inr p)"

section \<open>The wire form of an index\<close>

text \<open>\<open>integer\<close>: a non-negative integer leaf of any width below \<open>lim\<close>, the target type's bound.\<close>

definition wide :: "ffi_value \<Rightarrow> nat option" where
  "wide value =
     (case value of
        FInt32 v \<Rightarrow> if 0 \<le> sint v then Some (nat (sint v)) else None
      | FInt64 v \<Rightarrow> if 0 \<le> sint v then Some (nat (sint v)) else None
      | FUInt32 v \<Rightarrow> Some (unat v)
      | FUInt64 v \<Rightarrow> Some (unat v)
      | _ \<Rightarrow> None)"

definition integer :: "nat \<Rightarrow> ffi_value \<Rightarrow> (dyn_error, nat) result" where
  "integer lim value =
     (case wide value of
        Some v \<Rightarrow> if v < lim then Inr v else Inl (bad_plan UnknownOutput)
      | None \<Rightarrow> Inl (bad_plan UnknownOutput))"

definition read_tokenizer :: "nat \<Rightarrow> ffi_value \<Rightarrow> (dyn_error, tokenizer) result" where
  "read_tokenizer usize value =
     (case value of
        FString s \<Rightarrow> if utf8 s = Some (lit ''standard'') then Inr Standard else Inl (bad_plan UnknownOutput)
      | FObject [(name, len)] \<Rightarrow>
          if name = lit ''ngram'' then map_sum id Ngram (integer usize len) else Inl (bad_plan UnknownOutput)
      | _ \<Rightarrow> Inl (bad_plan UnknownOutput))"

definition read_option :: "nat \<Rightarrow> rstr \<Rightarrow> ffi_value \<Rightarrow> match_options \<Rightarrow> (dyn_error, match_options) result" where
  "read_option usize key value opts =
     (if key = lit ''tokenizer'' then map_sum id (\<lambda>t. opts\<lparr>mo_tokenizer := t\<rparr>) (read_tokenizer usize value)
      else if key = lit ''downcase'' then
        (case value of FBool b \<Rightarrow> Inr (opts\<lparr>mo_downcase := b\<rparr>) | _ \<Rightarrow> Inl (bad_plan UnknownOutput))
      else if key = lit ''k'' then map_sum id (\<lambda>k. opts\<lparr>mo_k := k\<rparr>) (integer usize value)
      else if key = lit ''m'' then map_sum id (\<lambda>m. opts\<lparr>mo_m := of_nat m\<rparr>) (integer (2 ^ 32) value)
      else Inl (bad_plan UnknownOutput))"

fun read_options ::
  "nat \<Rightarrow> rstr list \<Rightarrow> (rstr \<times> ffi_value) list \<Rightarrow> match_options \<Rightarrow> (dyn_error, match_options) result" where
  "read_options usize seen [] opts = Inr opts"
| "read_options usize seen ((key, value) # entries) opts =
     (if key \<in> set seen then Inl (bad_plan RepeatedKey)
      else and_then (read_option usize key value opts) (read_options usize (key # seen) entries))"

definition read_match_options :: "nat \<Rightarrow> (rstr \<times> ffi_value) list \<Rightarrow> (dyn_error, match_options) result" where
  "read_match_options usize entries =
     and_then (read_options usize [] entries default_options) (\<lambda>opts.
       if is_ok (validate opts) then Inr opts else Inl (bad_plan UnknownOutput))"

definition index_from_value :: "nat \<Rightarrow> ffi_value \<Rightarrow> (dyn_error, index_spec) result" where
  "index_from_value usize value =
     (case value of
        FString s \<Rightarrow> and_then (ok_or (utf8 s) (bad_plan UnknownOutput)) (\<lambda>t. ok_or (parse_index t) (bad_plan UnknownOutput))
      | FObject [(key, FObject options)] \<Rightarrow>
          if key = lit ''match'' then map_sum id Match (read_match_options usize options) else Inl (bad_plan UnknownOutput)
      | _ \<Rightarrow> Inl (bad_plan UnknownOutput))"

definition index_to_value :: "index_spec \<Rightarrow> ffi_value" where
  "index_to_value spec =
     (case spec of
        Match options \<Rightarrow>
          if options \<noteq> default_options then
            FObject [(lit ''match'', FObject
              [(lit ''tokenizer'', case mo_tokenizer options of
                   Standard \<Rightarrow> fstr ''standard''
                 | Ngram len \<Rightarrow> FObject [(lit ''ngram'', FUInt64 (of_nat len))]),
               (lit ''downcase'', FBool (mo_downcase options)),
               (lit ''k'', FUInt64 (of_nat (mo_k options))),
               (lit ''m'', FUInt64 (ucast (mo_m options)))])]
          else FString (as_bytes (index_key spec))
      | _ \<Rightarrow> FString (as_bytes (index_key spec)))"

section \<open>Scalars and kinds\<close>

datatype scalar =
    SBool bool | SI32 u32 | SI64 u64 | SU32 u32 | SU64 u64 | SF32 u32 | SF64 u64 | SText rstr | SBytes bytes

definition scalar_of :: "ffi_value \<Rightarrow> index_spec \<Rightarrow> (dyn_error, scalar) result" where
  "scalar_of value kind =
     (case value of
        FBool v \<Rightarrow> Inr (SBool v)
      | FInt32 v \<Rightarrow> Inr (SI32 v)
      | FInt64 v \<Rightarrow> Inr (SI64 v)
      | FUInt32 v \<Rightarrow> Inr (SU32 v)
      | FUInt64 v \<Rightarrow> Inr (SU64 v)
      | FFloat32 v \<Rightarrow> Inr (SF32 v)
      | FFloat64 v \<Rightarrow> Inr (SF64 v)
      | FString s \<Rightarrow> map_sum id SText (ok_or (utf8 s) (TermUndefined None kind))
      | FBytes b \<Rightarrow> Inr (SBytes b)
      | _ \<Rightarrow> Inl (TermUndefined None kind))"

definition supports :: "index_spec \<Rightarrow> scalar \<Rightarrow> bool" where
  "supports spec s =
     (case spec of
        Equality \<Rightarrow> (case s of SBool _ \<Rightarrow> False | SF32 _ \<Rightarrow> False | SF64 _ \<Rightarrow> False | _ \<Rightarrow> True)
      | Match _ \<Rightarrow> (case s of SText _ \<Rightarrow> True | _ \<Rightarrow> False)
      | _ \<Rightarrow> True)"

definition admits :: "value_kind \<Rightarrow> index_spec \<Rightarrow> bool" where
  "admits kind spec =
     (case spec of
        Equality \<Rightarrow> kind \<in> {KInt32, KInt64, KUInt32, KUInt64, KString, KBytes}
      | Match _ \<Rightarrow> kind = KString
      | _ \<Rightarrow> kind \<noteq> KArray \<and> kind \<noteq> KObject)"

section \<open>Facts on the wire form\<close>

lemma is_str_lit: "is_str (lit s)"
proof -
  have "is_scalar (of_char c)" for c :: char
    using nat_of_char_less_256 [of c] unfolding is_scalar_def by linarith
  then show ?thesis by (simp add: is_str_def lit_def list_all_iff)
qed

lemma utf8_lit [simp]: "utf8 (as_bytes (lit s)) = Some (lit s)"
  by (simp add: utf8_def from_utf8_as_bytes is_str_lit)

text \<open>The options a match index may be declared with, on a platform whose \<open>usize\<close> is below \<open>lim\<close>.\<close>

definition options_valid :: "nat \<Rightarrow> match_options \<Rightarrow> bool" where
  "options_valid lim opts \<longleftrightarrow> is_ok (validate opts) \<and> mo_k opts < lim
     \<and> (case mo_tokenizer opts of Ngram len \<Rightarrow> len < lim | Standard \<Rightarrow> True)"

fun index_valid :: "nat \<Rightarrow> index_spec \<Rightarrow> bool" where
  "index_valid lim (Match opts) = options_valid lim opts"
| "index_valid lim _ = True"

lemma integer_bound: "integer lim v = Inr n \<Longrightarrow> n < lim"
  by (simp add: integer_def split: option.splits if_splits)

lemma integer_u64: "n < 2 ^ 64 \<Longrightarrow> n < lim \<Longrightarrow> integer lim (FUInt64 (of_nat n)) = Inr n"
  by (simp add: integer_def wide_def unsigned_of_nat take_bit_nat_eq_self)

definition bounded :: "nat \<Rightarrow> match_options \<Rightarrow> bool" where
  "bounded lim opts \<longleftrightarrow> mo_k opts < lim \<and> (case mo_tokenizer opts of Ngram len \<Rightarrow> len < lim | Standard \<Rightarrow> True)"

lemma read_tokenizer_bound: "read_tokenizer lim v = Inr t \<Longrightarrow> (case t of Ngram len \<Rightarrow> len < lim | Standard \<Rightarrow> True)"
  by (auto simp: read_tokenizer_def map_sum_Inr_iff
      split: ffi_value.splits if_splits list.splits prod.splits dest: integer_bound)

lemma read_option_bounded: "read_option lim key v opts = Inr opts' \<Longrightarrow> bounded lim opts \<Longrightarrow> bounded lim opts'"
  by (auto simp: read_option_def bounded_def map_sum_Inr_iff split: if_splits ffi_value.splits
      dest: integer_bound read_tokenizer_bound)

lemma read_options_bounded: "read_options lim seen entries opts = Inr opts' \<Longrightarrow> bounded lim opts \<Longrightarrow> bounded lim opts'"
proof (induction entries arbitrary: seen opts)
  case (Cons e entries)
  then show ?case
    by (cases e) (fastforce simp: and_then_Inr_iff split: if_splits dest: read_option_bounded)
qed simp

lemma read_match_valid:
  assumes "3 < lim" and "read_match_options lim entries = Inr opts"
  shows "options_valid lim opts"
proof -
  have "bounded lim default_options" using assms(1) by (simp add: bounded_def default_options_def)
  then show ?thesis using assms(2) read_options_bounded [of lim "[]" entries default_options opts]
    by (auto simp: read_match_options_def and_then_Inr_iff options_valid_def bounded_def split: if_splits)
qed

lemma lit_keys [simp]:
  "lit ''tokenizer'' \<noteq> lit ''downcase''" "lit ''tokenizer'' \<noteq> lit ''k''" "lit ''tokenizer'' \<noteq> lit ''m''"
  "lit ''downcase'' \<noteq> lit ''k''" "lit ''downcase'' \<noteq> lit ''m''" "lit ''k'' \<noteq> lit ''m''"
  "lit ''downcase'' \<noteq> lit ''tokenizer''" "lit ''k'' \<noteq> lit ''tokenizer''" "lit ''m'' \<noteq> lit ''tokenizer''"
  "lit ''k'' \<noteq> lit ''downcase''" "lit ''m'' \<noteq> lit ''downcase''" "lit ''m'' \<noteq> lit ''k''"
  by (simp_all add: lit_def)

lemma read_written_tokenizer:
  assumes "case t of Ngram len \<Rightarrow> len < lim | Standard \<Rightarrow> True" and "lim \<le> 2 ^ 64"
  shows "read_tokenizer lim (case t of Standard \<Rightarrow> fstr ''standard''
    | Ngram len \<Rightarrow> FObject [(lit ''ngram'', FUInt64 (of_nat len))]) = Inr t"
  using assms by (cases t) (auto simp: read_tokenizer_def fstr_def integer_u64)

lemma integer_ucast: "integer (2 ^ 32) (FUInt64 (ucast (m :: u32))) = Inr (unat m)"
proof -
  have "unat m < 2 ^ 32" using unsigned_less [of m, where 'a = nat] by simp
  then show ?thesis by (simp add: integer_def wide_def unsigned_ucast_eq take_bit_nat_eq_self)
qed

lemma read_written_options:
  assumes "bounded lim opts" and "lim \<le> 2 ^ 64"
  shows "read_options lim []
    [(lit ''tokenizer'', case mo_tokenizer opts of Standard \<Rightarrow> fstr ''standard''
        | Ngram len \<Rightarrow> FObject [(lit ''ngram'', FUInt64 (of_nat len))]),
     (lit ''downcase'', FBool (mo_downcase opts)),
     (lit ''k'', FUInt64 (of_nat (mo_k opts))),
     (lit ''m'', FUInt64 (ucast (mo_m opts)))] default_options = Inr opts"
proof -
  have t: "case mo_tokenizer opts of Ngram len \<Rightarrow> len < lim | Standard \<Rightarrow> True" and k: "mo_k opts < lim" "mo_k opts < 2 ^ 64"
    using assms by (auto simp: bounded_def split: tokenizer.splits)
  note rt = read_written_tokenizer [OF t assms(2)]
  show ?thesis
    by (simp add: read_option_def rt integer_ucast [simplified] integer_u64 [OF k(2,1)])
qed

lemma parse_keys:
  "parse_index (lit ''eq'') = Some Equality" "parse_index (lit ''match'') = Some (Match default_options)"
  "parse_index (lit ''ore'') = Some Ore" "parse_index (lit ''ope'') = Some Ope"
  by (simp_all add: parse_index_def lit_def)

lemma index_from_key: "index_from_value lim (FString (as_bytes (lit s))) = ok_or (parse_index (lit s)) (bad_plan UnknownOutput)"
  by (simp add: index_from_value_def)

lemma index_from_written:
  assumes "lim \<le> 2 ^ 64" and "index_valid lim spec"
  shows "index_from_value lim (index_to_value spec) = Inr spec"
proof (cases spec)
  case (Match opts)
  show ?thesis
  proof (cases "opts = default_options")
    case True
    then show ?thesis using Match by (simp add: index_to_value_def index_from_key parse_keys)
  next
    case False
    have b: "bounded lim opts" and v: "is_ok (validate opts)"
      using assms(2) Match by (auto simp: options_valid_def bounded_def)
    note r = read_written_options [OF b assms(1)]
    show ?thesis using Match False v
      by (simp add: index_to_value_def index_from_value_def read_match_options_def r del: read_options.simps)
  qed
qed (simp_all add: index_to_value_def index_from_key parse_keys)

lemma default_valid: "3 < lim \<Longrightarrow> options_valid lim default_options"
proof -
  have "is_ok (validate default_options)" by code_simp
  then show "3 < lim \<Longrightarrow> options_valid lim default_options" by (simp add: options_valid_def default_options_def)
qed

lemma index_read_valid:
  assumes "3 < lim" and "index_from_value lim v = Inr spec"
  shows "index_valid lim spec"
proof (cases spec)
  case (Match opts)
  consider (key) t where "parse_index t = Some spec"
    | (options) entries where "read_match_options lim entries = Inr opts"
    using assms(2) Match
    by (auto simp: index_from_value_def and_then_Inr_iff ok_or_Inr_iff map_sum_Inr_iff
        split: ffi_value.splits list.splits prod.splits if_splits)
  then show ?thesis
  proof cases
    case key
    then have "opts = default_options" using Match by (simp add: parse_index_def split: if_splits)
    then show ?thesis using Match default_valid [OF assms(1)] by simp
  next
    case options
    then show ?thesis using Match read_match_valid [OF assms(1)] by simp
  qed
qed simp_all

section \<open>Properties\<close>

text \<open>
  Indexes cross the wire unchanged. Whatever value a binding sends, an index read from it
  has options the scheme accepts; and every index with such options is written to a value that
  reads back to that very index, options included.\<close>

theorem index_wire_round_trip:
  assumes "3 < lim" and "lim \<le> 2 ^ 64"
  shows "(index_from_value lim v = Inr spec \<longrightarrow> index_valid lim spec)
    \<and> (index_valid lim spec \<longrightarrow> index_from_value lim (index_to_value spec) = Inr spec)"
  using index_read_valid [OF assms(1)] index_from_written [OF assms(2)] by blast

text \<open>The mask of valid options loses nothing: it is one below the size of the filter.\<close>

lemma mask_exact:
  assumes "validate opts = Inr msk"
  shows "unat msk = unat (mo_m opts) - 1" and "unat (mo_m opts) \<le> 65536"
proof -
  have m: "32 \<le> mo_m opts" "mo_m opts \<le> 65536" and mask: "msk = ucast (mo_m opts - 1)"
    using assms by (auto simp: validate_def split: if_splits)
  have b: "32 \<le> unat (mo_m opts)" "unat (mo_m opts) \<le> 65536" using m by (simp_all add: word_le_nat_alt)
  then have "unat (mo_m opts - 1) = unat (mo_m opts) - 1" by (simp add: unat_sub word_le_nat_alt)
  then show "unat msk = unat (mo_m opts) - 1"
    using b mask by (simp add: unsigned_ucast_eq take_bit_nat_eq_self)
  show "unat (mo_m opts) \<le> 65536" by (rule b(2))
qed

end
