(* ===== verification/Plan_Builder.thy ===== *)
theory Plan_Builder
  imports Dyn_Value
begin

text \<open>
  The plan builder and a run of its plan, \<open>stack-encrypt/src/plan/build.rs\<close> and \<open>values.rs\<close>, for the
  plans a declaration from data lowers to: every field's plaintext type is \<open>Value\<close> and the value
  taken apart is a \<open>FieldValues\<close>, which has no schema. Pickers, field types and typed targets
  belong to plans written in Rust and are left out. The operations on one field (sealing a
  value under a context, opening it, deriving its terms) are an argument; what a run's pending
  resolves to is its result, first what fails before any key is requested, then the sealing.
\<close>

section \<open>Records of fields\<close>

text \<open>A stored tree. \<open>'l\<close> is a sealed leaf; a passthrough carries a value or something else.\<close>

datatype 'l ciphertext =
    Single 'l
  | NoneCt 'l
  | EmptySequence 'l
  | EmptyMap 'l
  | Sequence "'l ciphertext list"
  | MapCt "(rstr \<times> 'l ciphertext) list"
  | PassthroughCt "ffi_value option"

datatype 'l slot =
    SlotValue ffi_value
  | SlotCiphertext "'l ciphertext"
  | SlotEncrypted "'l ciphertext" "bytes list"
  | SlotTerms "bytes list"

type_synonym 'l field_values = "(rstr \<times> 'l slot) list"

fun fv_insert :: "rstr \<Rightarrow> 'l slot \<Rightarrow> 'l field_values \<Rightarrow> 'l field_values" where
  "fv_insert name s [] = [(name, s)]"
| "fv_insert name s ((have, old) # rest) =
     (if have = name then (have, s) # rest else (have, old) # fv_insert name s rest)"

definition fv_slot :: "rstr \<Rightarrow> 'l field_values \<Rightarrow> 'l slot option" where
  "fv_slot name fv = map_of fv name"

definition fv_names :: "'l field_values \<Rightarrow> rstr list" where
  "fv_names fv = map fst fv"

fun fv_take_slot :: "rstr \<Rightarrow> 'l field_values \<Rightarrow> 'l slot option \<times> 'l field_values" where
  "fv_take_slot name [] = (None, [])"
| "fv_take_slot name ((have, s) # rest) =
     (if have = name then (Some s, rest) else (let (r, rest) = fv_take_slot name rest in (r, (have, s) # rest)))"

section \<open>The builder\<close>

text \<open>\<open>EncryptInto\<close> is declared by plans written in Rust only.\<close>

datatype field_kind = Encrypt | EncryptIndex | IndexOnly | Passthrough | ContextField

definition keys_nothing :: "field_kind \<Rightarrow> bool" where
  "keys_nothing kind \<longleftrightarrow> kind = Passthrough \<or> kind = ContextField"

record declared =
  d_name :: rstr
  d_identity :: "rstr option"
  d_kind :: field_kind
  d_indexes :: "index_spec list"

datatype context_source = FromPlan "(label_error, label) result" | FromField rstr

record fields_builder =
  b_sources :: "context_source list"
  b_fields :: "declared list"
  b_identity_without_field :: bool

definition plan_fields :: fields_builder where
  "plan_fields = \<lparr>b_sources = [], b_fields = [], b_identity_without_field = False\<rparr>"

definition with_context :: "(label_error, label) result \<Rightarrow> fields_builder \<Rightarrow> fields_builder" where
  "with_context ctx b = b\<lparr>b_sources := b_sources b @ [FromPlan ctx]\<rparr>"

definition declare_field :: "rstr \<Rightarrow> field_kind \<Rightarrow> index_spec list \<Rightarrow> fields_builder \<Rightarrow> fields_builder" where
  "declare_field name kind indexes b =
     b\<lparr>b_fields := b_fields b @ [\<lparr>d_name = name, d_identity = None, d_kind = kind, d_indexes = indexes\<rparr>]\<rparr>"

definition context_field :: "rstr \<Rightarrow> fields_builder \<Rightarrow> fields_builder" where
  "context_field name b =
     (let b = declare_field name ContextField [] b in b\<lparr>b_sources := b_sources b @ [FromField name]\<rparr>)"

definition pin_identity :: "rstr \<Rightarrow> fields_builder \<Rightarrow> fields_builder" where
  "pin_identity ident b =
     (if b_fields b = [] then b\<lparr>b_identity_without_field := True\<rparr>
      else b\<lparr>b_fields := butlast (b_fields b) @ [(last (b_fields b))\<lparr>d_identity := Some ident\<rparr>]\<rparr>)"

section \<open>Building\<close>

record field_plan =
  bf_name :: rstr
  bf_identity :: rstr
  bf_label :: "label option"
  bf_kind :: field_kind
  bf_indexes :: "index_spec list"

datatype plan_source = SrcPlan label | SrcCall | SrcField rstr

record built_plan =
  bp_source :: plan_source
  bp_fields :: "field_plan list"

definition FROM_PLAN :: rstr where "FROM_PLAN = lit ''the plan''"

definition FROM_CALL :: rstr where "FROM_CALL = lit ''the call''"

definition FROM_FIELD :: rstr where "FROM_FIELD = lit ''a context field''"

fun declared_what :: "context_source \<Rightarrow> rstr" where
  "declared_what (FromPlan _) = FROM_PLAN"
| "declared_what (FromField _) = FROM_FIELD"

fun source_what :: "plan_source \<Rightarrow> rstr" where
  "source_what (SrcPlan _) = FROM_PLAN"
| "source_what SrcCall = FROM_CALL"
| "source_what (SrcField _) = FROM_FIELD"

definition join :: "label \<Rightarrow> rstr \<Rightarrow> (label_error, label) result" where
  "join ctx ident = label_new (ctx @ [ident])"

definition identity_of :: "declared \<Rightarrow> rstr" where
  "identity_of f = (case d_identity f of Some i \<Rightarrow> i | None \<Rightarrow> d_name f)"

fun check_indexes :: "rstr \<Rightarrow> rstr list \<Rightarrow> index_spec list \<Rightarrow> (plan_error, unit) result" where
  "check_indexes at seen [] = Inr ()"
| "check_indexes at seen (ix # rest) =
     (if index_key ix \<in> set seen then Inl (DuplicateIndex at (index_key ix))
      else check_indexes at (index_key ix # seen) rest)"

text \<open>With no typed target declared, a name given twice is never a target beside verbs.\<close>

definition check_pair :: "declared \<Rightarrow> declared \<Rightarrow> (plan_error, unit) result" where
  "check_pair earlier f =
     (if d_name earlier = d_name f then
        (let passthrough = (\<lambda>f. d_kind f = Passthrough);
             indexed = (\<lambda>f. d_indexes f \<noteq> [])
         in if passthrough earlier \<and> indexed f \<or> indexed earlier \<and> passthrough f
            then Inl (PassthroughIndexed (d_name f))
            else Inl (DuplicateField (d_name f)))
      else if keys_nothing (d_kind earlier) \<or> keys_nothing (d_kind f) then Inr ()
      else if identity_of earlier = identity_of f
      then Inl (SharedIdentity (identity_of f) (d_name earlier) (d_name f))
      else Inr ())"

definition freeze_source :: "context_source list \<Rightarrow> (plan_error, plan_source) result" where
  "freeze_source sources =
     (case sources of
        [] \<Rightarrow> Inr SrcCall
      | [FromPlan l] \<Rightarrow> map_sum ContextLabel SrcPlan l
      | [FromField name] \<Rightarrow> Inr (SrcField name)
      | a # b # _ \<Rightarrow> Inl (TwoContextSources (declared_what a) (declared_what b)))"

definition freeze_label :: "plan_source \<Rightarrow> declared \<Rightarrow> (plan_error, label option) result" where
  "freeze_label src f =
     map_sum (FieldLabel (d_name f)) id
       (if keys_nothing (d_kind f) then Inr None
        else (case src of
                SrcPlan ctx \<Rightarrow> map_sum id Some (join ctx (identity_of f))
              | _ \<Rightarrow> map_sum id (\<lambda>_. None) (label_new [identity_of f])))"

fun freeze_fields :: "plan_source \<Rightarrow> declared list \<Rightarrow> declared list \<Rightarrow> (plan_error, field_plan list) result" where
  "freeze_fields src earlier [] = Inr []"
| "freeze_fields src earlier (f # rest) =
     and_then (check_indexes (d_name f) [] (d_indexes f)) (\<lambda>_.
     and_then (freeze_label src f) (\<lambda>l.
     and_then (collect (\<lambda>e. check_pair e f) earlier) (\<lambda>_.
     and_then (freeze_fields src (earlier @ [f]) rest) (\<lambda>fs.
       Inr (\<lparr>bf_name = d_name f, bf_identity = identity_of f, bf_label = l, bf_kind = d_kind f,
             bf_indexes = d_indexes f\<rparr> # fs)))))"

definition build :: "fields_builder \<Rightarrow> (plan_error, built_plan) result" where
  "build b =
     and_then (freeze_source (b_sources b)) (\<lambda>src.
       if b_identity_without_field b then Inl IdentityWithoutField
       else map_sum id (\<lambda>fs. \<lparr>bp_source = src, bp_fields = fs\<rparr>) (freeze_fields src [] (b_fields b)))"

section \<open>Contexts of a run\<close>

text \<open>\<open>DeclaredContext::under\<close>: a label extended by the call's parts, nested to the left.\<close>

definition under :: "context_piece list \<Rightarrow> label \<Rightarrow> context_piece" where
  "under ext l = fold (\<lambda>part ctx. List [ctx, part]) ext (label_to_context l)"

text \<open>\<open>IntoLabel for Value\<close>.\<close>

definition value_label :: "ffi_value \<Rightarrow> (label_error, label) result" where
  "value_label v =
     (case v of
        FString s \<Rightarrow> (case utf8 s of Some text \<Rightarrow> label_parse text | None \<Rightarrow> Inl NotText)
      | _ \<Rightarrow> Inl NotText)"

definition VALUE_TYPE :: rstr where
  "VALUE_TYPE = lit ''stack_encrypt::dynamic::value::Value''"

definition picked :: "rstr \<Rightarrow> 'l field_values \<Rightarrow> (plan_error, ffi_value) result" where
  "picked name source =
     (case fv_slot name source of Some (SlotValue v) \<Rightarrow> Inr v | _ \<Rightarrow> Inl (FieldType name VALUE_TYPE))"

definition of_value :: "rstr \<Rightarrow> 'l field_values \<Rightarrow> (plan_error, label) result" where
  "of_value name source = and_then (picked name source) (\<lambda>v. map_sum ContextLabel id (value_label v))"

definition resolve_context :: "label option \<Rightarrow> label option \<Rightarrow> (plan_error, label) result" where
  "resolve_context plan call =
     (case (plan, call) of
        (Some plan, None) \<Rightarrow> Inr plan
      | (None, Some call) \<Rightarrow> Inr call
      | (Some _, Some _) \<Rightarrow> Inl (TwoContextSources FROM_PLAN FROM_CALL)
      | (None, None) \<Rightarrow> Inl NoContext)"

datatype base = BaseLabel label | BaseField rstr

definition plan_base :: "built_plan \<Rightarrow> label option \<Rightarrow> (plan_error, base) result" where
  "plan_base plan call =
     (case (bp_source plan, call) of
        (SrcPlan l, None) \<Rightarrow> Inr (BaseLabel l)
      | (SrcCall, Some l) \<Rightarrow> Inr (BaseLabel l)
      | (SrcField f, None) \<Rightarrow> Inr (BaseField f)
      | (SrcCall, None) \<Rightarrow> Inl NoContext
      | (src, Some _) \<Rightarrow> Inl (TwoContextSources (source_what src) FROM_CALL))"

text \<open>Asked once of a batch, so that an empty one is refused too.\<close>

definition check_call :: "built_plan \<Rightarrow> label option \<Rightarrow> (plan_error, unit) result" where
  "check_call plan call = map_sum id (\<lambda>_. ()) (plan_base plan call)"

definition plan_names :: "built_plan \<Rightarrow> rstr list" where
  "plan_names plan = map bf_name (bp_fields plan)"

definition check_names :: "rstr list \<Rightarrow> rstr list \<Rightarrow> (plan_error, unit) result" where
  "check_names have names =
     (case List.find (\<lambda>n. n \<notin> set names) have of
        Some extra \<Rightarrow> Inl (NotInPlan extra)
      | None \<Rightarrow> (case List.find (\<lambda>p. p \<notin> set have) names of
                   Some missing \<Rightarrow> Inl (NotInValue missing)
                 | None \<Rightarrow> Inr ()))"

text \<open>\<open>Plan::check_value\<close>.\<close>

definition check_value :: "built_plan \<Rightarrow> 'l field_values \<Rightarrow> label option \<Rightarrow> (plan_error, unit) result" where
  "check_value plan source call =
     and_then (plan_base plan call) (\<lambda>base.
     and_then (check_names (fv_names source) (plan_names plan)) (\<lambda>_.
     and_then (collect (\<lambda>f. picked (bf_name f) source) (bp_fields plan)) (\<lambda>_.
       case base of BaseLabel _ \<Rightarrow> Inr () | BaseField f \<Rightarrow> map_sum id (\<lambda>_. ()) (of_value f source))))"

section \<open>A run\<close>

text \<open>The operations on one field: seal a value, open a ciphertext, derive the terms of a value.\<close>

record 'l engine =
  e_seal :: "context_piece \<Rightarrow> ffi_value \<Rightarrow> (engine_error, 'l ciphertext) result"
  e_open :: "context_piece \<Rightarrow> 'l ciphertext \<Rightarrow> (engine_error, ffi_value) result"
  e_terms :: "context_piece \<Rightarrow> ffi_value \<Rightarrow> index_spec list \<Rightarrow> (engine_error, bytes list) result"

definition field_base :: "base \<Rightarrow> field_plan \<Rightarrow> 'l field_values \<Rightarrow> (plan_error, label) result" where
  "field_base base f source =
     and_then (case base of BaseLabel l \<Rightarrow> Inr l | BaseField name \<Rightarrow> of_value name source) (\<lambda>ctx.
       if keys_nothing (bf_kind f) then Inr ctx
       else map_sum (FieldLabel (bf_name f)) id (join ctx (bf_identity f)))"

text \<open>A field before any key is requested: its context, its value, and its terms.\<close>

definition prepare ::
  "'l engine \<Rightarrow> context_piece list \<Rightarrow> base \<Rightarrow> 'l field_values \<Rightarrow> field_plan
     \<Rightarrow> (engine_error, field_plan \<times> context_piece \<times> ffi_value \<times> bytes list) result" where
  "prepare E ext base source f =
     and_then (map_sum PlanFailed (under ext) (field_base base f source)) (\<lambda>ctx.
     and_then (map_sum PlanFailed id (picked (bf_name f) source)) (\<lambda>v.
     and_then (if bf_indexes f = [] then Inr [] else e_terms E ctx v (bf_indexes f)) (\<lambda>terms.
       Inr (f, ctx, v, terms))))"

definition produce ::
  "'l engine \<Rightarrow> field_plan \<times> context_piece \<times> ffi_value \<times> bytes list \<Rightarrow> (engine_error, rstr \<times> 'l slot) result" where
  "produce E job =
     (case job of (f, ctx, v, terms) \<Rightarrow> map_sum id (Pair (bf_name f))
       (case bf_kind f of
          Encrypt \<Rightarrow> map_sum id SlotCiphertext (e_seal E ctx v)
        | EncryptIndex \<Rightarrow> map_sum id (\<lambda>c. SlotEncrypted c terms) (e_seal E ctx v)
        | IndexOnly \<Rightarrow> Inr (SlotTerms terms)
        | _ \<Rightarrow> Inr (SlotValue v)))"

text \<open>\<open>Plan::encryption\<close>, run.\<close>

definition run_encryption ::
  "'l engine \<Rightarrow> built_plan \<Rightarrow> 'l field_values \<Rightarrow> label option \<Rightarrow> context_piece list \<Rightarrow> (engine_error, 'l field_values) result" where
  "run_encryption E plan source call ext =
     and_then (map_sum PlanFailed id (plan_base plan call)) (\<lambda>base.
     and_then (map_sum PlanFailed id (check_names (fv_names source) (plan_names plan))) (\<lambda>_.
     and_then (collect (prepare E ext base source) (bp_fields plan)) (\<lambda>jobs.
       collect (produce E) jobs)))"

section \<open>Opening\<close>

text \<open>The type an opening reads, or \<open>None\<close> for a field that does not come back.\<close>

definition CIPHERTEXT_TYPE :: rstr where
  "CIPHERTEXT_TYPE = lit ''stack_encrypt::StackCipherText''"

definition opener_holds :: "field_plan \<Rightarrow> 'l slot \<Rightarrow> (rstr, unit) result" where
  "opener_holds f s =
     (case bf_kind f of
        Encrypt \<Rightarrow> (case s of SlotCiphertext _ \<Rightarrow> Inr () | _ \<Rightarrow> Inl CIPHERTEXT_TYPE)
      | EncryptIndex \<Rightarrow> (case s of SlotCiphertext _ \<Rightarrow> Inr () | SlotEncrypted _ _ \<Rightarrow> Inr () | _ \<Rightarrow> Inl CIPHERTEXT_TYPE)
      | _ \<Rightarrow> (case s of SlotValue _ \<Rightarrow> Inr () | _ \<Rightarrow> Inl VALUE_TYPE))"

definition comes_back :: "field_plan \<Rightarrow> bool" where
  "comes_back f \<longleftrightarrow> bf_kind f \<noteq> IndexOnly"

definition check_field_slot :: "'l field_values \<Rightarrow> field_plan \<Rightarrow> (plan_error, unit) result" where
  "check_field_slot record f =
     (if \<not> comes_back f then Inr ()
      else case fv_slot (bf_name f) record of
             None \<Rightarrow> Inl (NotInValue (bf_name f))
           | Some s \<Rightarrow> map_sum (FieldType (bf_name f)) id (opener_holds f s))"

text \<open>\<open>Plan::check_record\<close>.\<close>

definition check_stored :: "built_plan \<Rightarrow> 'l field_values \<Rightarrow> (plan_error, unit) result" where
  "check_stored plan record =
     (case List.find (\<lambda>n. n \<notin> set (plan_names plan)) (fv_names record) of
        Some extra \<Rightarrow> Inl (NotInPlan extra)
      | None \<Rightarrow> map_sum id (\<lambda>_. ()) (collect (check_field_slot record) (bp_fields plan)))"

text \<open>\<open>ContextField::stored\<close> with \<open>ExpectedContext::validate\<close>; a label is never empty.\<close>

definition stored_context ::
  "(bytes \<Rightarrow> rstr) \<Rightarrow> rstr \<Rightarrow> 'l field_values \<Rightarrow> label option \<Rightarrow> (engine_error, label) result" where
  "stored_context b64 name record expected =
     (case fv_slot name record of
        None \<Rightarrow> Inl (PlanFailed (NotInValue name))
      | Some s \<Rightarrow>
          and_then (map_sum PlanFailed id
              (case s of SlotValue v \<Rightarrow> map_sum ContextLabel id (value_label v) | _ \<Rightarrow> Inl (FieldType name VALUE_TYPE)))
            (\<lambda>stored. case expected of
               Some e \<Rightarrow> if e \<noteq> stored then Inl (ContextMismatch (label_descriptor b64 stored)) else Inr stored
             | None \<Rightarrow> Inr stored))"

definition opening_base ::
  "(bytes \<Rightarrow> rstr) \<Rightarrow> built_plan \<Rightarrow> 'l field_values \<Rightarrow> label option \<Rightarrow> (engine_error, label) result" where
  "opening_base b64 plan record call =
     (case bp_source plan of
        SrcField f \<Rightarrow> stored_context b64 f record call
      | SrcPlan l \<Rightarrow> map_sum PlanFailed id (resolve_context (Some l) call)
      | SrcCall \<Rightarrow> map_sum PlanFailed id (resolve_context None call))"

definition check_opening ::
  "(bytes \<Rightarrow> rstr) \<Rightarrow> built_plan \<Rightarrow> 'l field_values \<Rightarrow> label option \<Rightarrow> (engine_error, unit) result" where
  "check_opening b64 plan record call =
     and_then (map_sum PlanFailed id (check_stored plan record)) (\<lambda>_.
       map_sum id (\<lambda>_. ()) (opening_base b64 plan record call))"

text \<open>One field's opening before any key is requested: what is opened, and under which context.\<close>

datatype 'l open_job = OpenSealed context_piece "'l ciphertext" | OpenReady ffi_value

definition field_opening ::
  "context_piece list \<Rightarrow> label \<Rightarrow> field_plan \<Rightarrow> 'l slot option \<Rightarrow> (plan_error, rstr \<times> 'l open_job) result" where
  "field_opening ext base f slot =
     (case slot of
        None \<Rightarrow> Inl (NotInValue (bf_name f))
      | Some s \<Rightarrow>
          and_then (if keys_nothing (bf_kind f) then Inr base
                    else map_sum (FieldLabel (bf_name f)) id (join base (bf_identity f))) (\<lambda>l.
            map_sum id (Pair (bf_name f))
             (case (bf_kind f, s) of
                (Encrypt, SlotCiphertext c) \<Rightarrow> Inr (OpenSealed (under ext l) c)
              | (EncryptIndex, SlotCiphertext c) \<Rightarrow> Inr (OpenSealed (under ext l) c)
              | (EncryptIndex, SlotEncrypted c _) \<Rightarrow> Inr (OpenSealed (under ext l) c)
              | (Encrypt, _) \<Rightarrow> Inl (FieldType (bf_name f) CIPHERTEXT_TYPE)
              | (EncryptIndex, _) \<Rightarrow> Inl (FieldType (bf_name f) CIPHERTEXT_TYPE)
              | (_, SlotValue v) \<Rightarrow> Inr (OpenReady v)
              | _ \<Rightarrow> Inl (FieldType (bf_name f) VALUE_TYPE))))"

definition open_one :: "'l engine \<Rightarrow> rstr \<times> 'l open_job \<Rightarrow> (engine_error, rstr \<times> 'l slot) result" where
  "open_one E job =
     (case job of
        (name, OpenSealed ctx c) \<Rightarrow> map_sum id (\<lambda>v. (name, SlotValue v)) (e_open E ctx c)
      | (name, OpenReady v) \<Rightarrow> Inr (name, SlotValue v))"

text \<open>\<open>Plan::decryption\<close>, run: the loop takes each field's slot out of the record.\<close>

fun openings ::
  "context_piece list \<Rightarrow> label \<Rightarrow> field_plan list \<Rightarrow> 'l field_values \<Rightarrow> (plan_error, (rstr \<times> 'l open_job) list) result" where
  "openings ext base [] record = Inr []"
| "openings ext base (f # fs) record =
     (let (slot, record) = fv_take_slot (bf_name f) record
      in if \<not> comes_back f then openings ext base fs record
         else and_then (field_opening ext base f slot) (\<lambda>job.
              map_sum id (Cons job) (openings ext base fs record)))"

definition run_decryption ::
  "(bytes \<Rightarrow> rstr) \<Rightarrow> 'l engine \<Rightarrow> built_plan \<Rightarrow> 'l field_values \<Rightarrow> label option \<Rightarrow> context_piece list
     \<Rightarrow> (engine_error, 'l field_values) result" where
  "run_decryption b64 E plan record call ext =
     and_then (map_sum PlanFailed id (check_stored plan record)) (\<lambda>_.
     and_then (opening_base b64 plan record call) (\<lambda>base.
     and_then (map_sum PlanFailed id (openings ext base (bp_fields plan) record)) (\<lambda>jobs.
       collect (open_one E) jobs)))"

section \<open>Queries\<close>

definition plan_field :: "built_plan \<Rightarrow> rstr \<Rightarrow> (plan_error, field_plan) result" where
  "plan_field plan name = ok_or (List.find (\<lambda>f. bf_name f = name) (bp_fields plan)) (NoSuchField name)"

definition check_declared :: "rstr \<Rightarrow> index_spec list \<Rightarrow> index_spec \<Rightarrow> (plan_error, unit) result" where
  "check_declared at declared index =
     (if index \<in> set declared then Inr ()
      else case List.find (\<lambda>have. index_key have = index_key index) declared of
             Some have \<Rightarrow> Inl (IndexOptions at have index)
           | None \<Rightarrow> Inl (IndexNotDeclared at (index_key index)))"

text \<open>The label a query is derived under; a query's plaintext is of the one type \<open>Value\<close>.\<close>

definition query_label :: "field_plan \<Rightarrow> index_spec \<Rightarrow> label option \<Rightarrow> (plan_error, label) result" where
  "query_label f index call =
     and_then (check_declared (bf_name f) (bf_indexes f) index) (\<lambda>_.
       case bf_label f of
         Some l \<Rightarrow> resolve_context (Some l) call
       | None \<Rightarrow> and_then (ok_or call NoContext) (\<lambda>ctx.
           map_sum (FieldLabel (bf_name f)) id (join ctx (bf_identity f))))"

lemma frozen_label:
  assumes "freeze_fields src earlier ds = Inr fs" and "f \<in> set fs" and "\<not> keys_nothing (bf_kind f)"
  shows "case src of SrcPlan ctx \<Rightarrow> \<exists>l. join ctx (bf_identity f) = Inr l \<and> bf_label f = Some l | _ \<Rightarrow> bf_label f = None"
  using assms
proof (induction ds arbitrary: earlier fs)
  case (Cons d ds)
  obtain l rest where l: "freeze_label src d = Inr l" and rest: "freeze_fields src (earlier @ [d]) ds = Inr rest"
    and fs: "fs = \<lparr>bf_name = d_name d, bf_identity = identity_of d, bf_label = l, bf_kind = d_kind d, bf_indexes = d_indexes d\<rparr> # rest"
    using Cons.prems(1) by (auto simp: and_then_Inr_iff)
  show ?case
  proof (cases "f \<in> set rest")
    case True
    then show ?thesis using Cons.IH [OF rest] Cons.prems(3) by blast
  next
    case False
    then show ?thesis using Cons.prems(2,3) fs l
      by (cases src) (auto simp: freeze_label_def map_sum_Inr_iff)
  qed
qed simp

lemma find_found: "List.find P xs = Some x \<Longrightarrow> x \<in> set xs \<and> P x"
  by (auto simp: find_Some_iff)

section \<open>Properties\<close>

text \<open>
  C20. A query finds what a run stored. The label a query of a field is derived under is the label the
  run derives that field's terms under, whatever the plan takes its context from: its own,
  the call's, or, for a plan with a context field, the context the record was stored
  under. An index the field never declared, or declared with other options, is refused.\<close>

theorem query_label_is_stored_label:
  assumes "build B = Inr plan" and "f \<in> set (bp_fields plan)" and "\<not> keys_nothing (bf_kind f)"
    and "plan_base plan call = Inr base" and "field_base base f source = Inr l"
  shows "query_label f index (case base of BaseField name \<Rightarrow> Some (projr (of_value name source)) | BaseLabel _ \<Rightarrow> call)
     = (if index \<in> set (bf_indexes f) then Inr l
        else if \<exists>have \<in> set (bf_indexes f). index_key have = index_key index
        then Inl (IndexOptions (bf_name f) (the (List.find (\<lambda>have. index_key have = index_key index) (bf_indexes f))) index)
        else Inl (IndexNotDeclared (bf_name f) (index_key index)))"
proof -
  obtain fs where fs: "freeze_fields (bp_source plan) [] (b_fields B) = Inr fs" "bp_fields plan = fs"
    using assms(1) by (auto simp: build_def and_then_Inr_iff map_sum_Inr_iff split: if_splits)
  note lab = frozen_label [OF fs(1) assms(2) [unfolded fs(2)] assms(3)]
  have "(case bf_label f of Some l \<Rightarrow> resolve_context (Some l) c
      | None \<Rightarrow> and_then (ok_or c NoContext) (\<lambda>ctx. map_sum (FieldLabel (bf_name f)) id (join ctx (bf_identity f)))) = Inr l"
    if "c = (case base of BaseField name \<Rightarrow> Some (projr (of_value name source)) | BaseLabel _ \<Rightarrow> call)" for c
    using assms(3-5) lab that
    by (cases "bp_source plan"; cases call)
      (auto simp: plan_base_def field_base_def resolve_context_def and_then_Inr_iff map_sum_Inr_iff ok_or_def)
  moreover have "check_declared (bf_name f) (bf_indexes f) index = (if index \<in> set (bf_indexes f) then Inr ()
        else if \<exists>have \<in> set (bf_indexes f). index_key have = index_key index
        then Inl (IndexOptions (bf_name f) (the (List.find (\<lambda>have. index_key have = index_key index) (bf_indexes f))) index)
        else Inl (IndexNotDeclared (bf_name f) (index_key index)))"
    by (auto simp: check_declared_def find_None_iff dest: find_found split: option.splits)
  ultimately show ?thesis by (auto simp: query_label_def)
qed

definition demo_builder :: fields_builder where
  "demo_builder = declare_field (lit ''email'') EncryptIndex [Equality] (context_field (lit ''tenant'') plan_fields)"

definition demo_values :: "unit field_values" where
  "demo_values = [(lit ''tenant'', SlotValue (fstr ''acme'')), (lit ''email'', SlotValue (fstr ''bob''))]"

theorem query_label_is_stored_label_witness:
  "query_label (bp_fields (projr (build demo_builder)) ! 1) Equality (Some [lit ''acme'']) = Inr [lit ''acme'', lit ''email'']"
proof -
  let ?p = "projr (build demo_builder)" and ?b = "BaseField (lit ''tenant'')"
  have "is_ok (build demo_builder)" by code_simp
  then have b: "build demo_builder = Inr ?p" by (cases "build demo_builder") simp_all
  have "1 < length (bp_fields ?p)" by code_simp
  then have f: "bp_fields ?p ! 1 \<in> set (bp_fields ?p)" by simp
  have k: "\<not> keys_nothing (bf_kind (bp_fields ?p ! 1))" by code_simp
  have base: "plan_base ?p None = Inr ?b" by code_simp
  have l: "field_base ?b (bp_fields ?p ! 1) demo_values = Inr [lit ''acme'', lit ''email'']" by code_simp
  have "Equality \<in> set (bf_indexes (bp_fields ?p ! 1))" "projr (of_value (lit ''tenant'') demo_values) = [lit ''acme'']" by code_simp+
  then show ?thesis using query_label_is_stored_label [OF b f k base l, of Equality] by simp
qed

end
