(* ===== verification/Record_Plan.thy ===== *)
theory Record_Plan
  imports Plan_Builder
begin

text \<open>
  Record plans declared as data, \<open>stack-encrypt/src/dynamic/record.rs\<close>: the fields of a declaration
  with their checks, the plan they make and its lowering into the plan builder, and the parser
  of a declaration. The resolver of EQL types (\<open>target.rs\<close>) is an argument, as it is in the source;
  the vocabulary of kinds and the emptiness of contexts, which are vitaminc's, are gathered in
  \<open>vitaminc\<close>.
\<close>

section \<open>Outputs and verbs\<close>

record vitaminc =
  v_holds :: "value_kind \<Rightarrow> ffi_value \<Rightarrow> bool"
  v_kind_name :: "value_kind \<Rightarrow> rstr"
  v_parse_kind :: "rstr \<Rightarrow> value_kind option"
  v_is_empty :: "context_piece \<Rightarrow> bool"

definition EQL_KEY :: rstr where "EQL_KEY = lit ''eql''"

datatype plan_output = Ciphertext | TermOut index_spec | PassthroughOut

fun output_key :: "plan_output \<Rightarrow> rstr" where
  "output_key Ciphertext = lit ''c''"
| "output_key (TermOut spec) = index_key spec"
| "output_key PassthroughOut = lit ''passthrough''"

definition output_from_value :: "nat \<Rightarrow> ffi_value \<Rightarrow> (dyn_error, plan_output) result" where
  "output_from_value usize value =
     (case value of
        FString s \<Rightarrow>
          if utf8 s = Some (lit ''c'') then Inr Ciphertext
          else if utf8 s = Some (lit ''passthrough'') then Inr PassthroughOut
          else map_sum id TermOut (index_from_value usize value)
      | _ \<Rightarrow> map_sum id TermOut (index_from_value usize value))"

datatype verb = EncryptVerb | EncryptIndexVerb | IndexVerb | PassthroughVerb | TargetVerb

section \<open>Fields\<close>

record fieldp =
  fp_name :: rstr
  fp_context :: context_piece
  fp_label :: label
  fp_extension :: "context_piece list"
  fp_outputs :: "plan_output list"
  fp_target :: "rstr option"
  fp_type :: "value_kind option"

fun text_of :: "context_piece \<Rightarrow> rstr option" where
  "text_of (Text t) = Some t"
| "text_of _ = None"

fun is_list :: "context_piece \<Rightarrow> bool" where
  "is_list (List _) = True"
| "is_list _ = False"

fun split_context :: "context_piece \<Rightarrow> (label \<times> context_piece list) option" where
  "split_context (List parts) =
     (case those (map text_of parts) of
        Some (s # segs) \<Rightarrow>
          (case label_new (s # segs) of Inr l \<Rightarrow> Some (l, []) | Inl _ \<Rightarrow> None)
      | _ \<Rightarrow>
          (case parts of
             [inner, part] \<Rightarrow>
               if is_list part then None
               else (case split_context inner of
                       Some (l, ext) \<Rightarrow> Some (l, ext @ [part])
                     | None \<Rightarrow> None)
           | _ \<Rightarrow> None))"
| "split_context _ = None"

definition field_context :: "rstr \<Rightarrow> context_piece \<Rightarrow> (dyn_error, label \<times> context_piece list) result" where
  "field_context name p = ok_or (split_context p) (PlanError (Some name) ContextNotLabel)"

definition outputs_repeat :: "plan_output list \<Rightarrow> bool" where
  "outputs_repeat outs \<longleftrightarrow> \<not> distinct (map output_key outs)"

definition field_new :: "rstr \<Rightarrow> context_piece \<Rightarrow> plan_output list \<Rightarrow> (dyn_error, fieldp) result" where
  "field_new name ctx outputs =
     (if outputs = [] then Inl (PlanError (Some name) NoOutputs)
      else if outputs_repeat outputs then Inl (PlanError (Some name) DuplicateOutput)
      else if PassthroughOut \<in> set outputs \<and> length outputs > 1 then Inl (PlanError (Some name) PassthroughWithOutputs)
      else and_then (field_context name ctx) (\<lambda>(l, ext).
        Inr \<lparr>fp_name = name, fp_context = ctx, fp_label = l, fp_extension = ext, fp_outputs = outputs,
             fp_target = None, fp_type = None\<rparr>))"

definition field_with_target :: "rstr \<Rightarrow> context_piece \<Rightarrow> rstr \<Rightarrow> (dyn_error, fieldp) result" where
  "field_with_target name ctx target =
     (if target = [] then Inl (PlanError (Some name) InvalidTarget)
      else and_then (field_context name ctx) (\<lambda>(l, ext).
        Inr \<lparr>fp_name = name, fp_context = ctx, fp_label = l, fp_extension = ext, fp_outputs = [],
             fp_target = Some target, fp_type = None\<rparr>))"

definition indexes :: "fieldp \<Rightarrow> index_spec list" where
  "indexes f = List.map_filter (\<lambda>out. case out of TermOut ix \<Rightarrow> Some ix | _ \<Rightarrow> None) (fp_outputs f)"

definition with_type :: "value_kind \<Rightarrow> fieldp \<Rightarrow> (dyn_error, fieldp) result" where
  "with_type kind f =
     (if \<exists>ix \<in> set (indexes f). \<not> admits kind ix then Inl (PlanError (Some (fp_name f)) IndexNotAdmitted)
      else Inr (f\<lparr>fp_type := Some kind\<rparr>))"

definition fp_identity :: "fieldp \<Rightarrow> rstr" where
  "fp_identity f = (if fp_label f = [] then [] else last (fp_label f))"

definition is_target :: "fieldp \<Rightarrow> bool" where
  "is_target f \<longleftrightarrow> fp_target f \<noteq> None"

definition fp_verb :: "fieldp \<Rightarrow> verb" where
  "fp_verb f =
     (if is_target f then TargetVerb
      else if PassthroughOut \<in> set (fp_outputs f) then PassthroughVerb
      else if Ciphertext \<in> set (fp_outputs f) then (if indexes f = [] then EncryptVerb else EncryptIndexVerb)
      else IndexVerb)"

definition opens :: "fieldp \<Rightarrow> bool" where
  "opens f \<longleftrightarrow> fp_verb f \<noteq> IndexVerb"

definition fp_prefix :: "fieldp \<Rightarrow> (dyn_error, label) result" where
  "fp_prefix f =
     (if fp_label f = [] then Inl InternalError
      else map_sum (\<lambda>_. PlanError (Some (fp_name f)) ContextNotLabel) id (label_new (butlast (fp_label f))))"

section \<open>Plans\<close>

datatype plan_context = CtxLabel label | CtxField rstr

record dplan =
  p_context :: plan_context
  p_extension :: "context_piece list"
  p_fields :: "fieldp list"

fun refusal :: "plan_error \<Rightarrow> rstr option \<times> reason" where
  "refusal (ContextLabel _) = (None, ContextNotLabel)"
| "refusal (FieldLabel f _) = (Some f, ContextNotLabel)"
| "refusal (DuplicateField f) = (Some f, DuplicateFieldReason)"
| "refusal (SharedIdentity _ _ second) = (Some second, SharedIdentityReason)"
| "refusal (PassthroughIndexed f) = (Some f, PassthroughWithOutputs)"
| "refusal (DuplicateIndex at _) = (Some at, DuplicateOutput)"
| "refusal EmptyIndexes = (None, NoOutputs)"
| "refusal (NotInPlan f) = (Some f, UnknownField)"
| "refusal (NotInValue f) = (Some f, FieldMissing)"
| "refusal (FieldType f _) = (Some f, FieldTypeReason)"
| "refusal (NoSuchField f) = (Some f, NoSuchFieldReason)"
| "refusal (TargetWithVerbs f) = (Some f, OutputsWithTarget)"
| "refusal (IndexNotDeclared f _) = (Some f, Refused)"
| "refusal (IndexOptions f _ _) = (Some f, Refused)"
| "refusal IdentityWithoutField = (None, Refused)"
| "refusal MixedCiphers = (None, Refused)"
| "refusal (TwoContextSources _ _) = (None, Refused)"
| "refusal NoContext = (None, Refused)"

definition declare_verb :: "fieldp \<Rightarrow> fields_builder \<Rightarrow> fields_builder" where
  "declare_verb f b =
     (case fp_verb f of
        EncryptVerb \<Rightarrow> declare_field (fp_name f) Encrypt [] b
      | EncryptIndexVerb \<Rightarrow> declare_field (fp_name f) EncryptIndex (indexes f) b
      | IndexVerb \<Rightarrow> declare_field (fp_name f) IndexOnly (indexes f) b
      | PassthroughVerb \<Rightarrow> declare_field (fp_name f) Passthrough [] b
      | TargetVerb \<Rightarrow> b)"

fun plan_context_field :: "plan_context \<Rightarrow> rstr option" where
  "plan_context_field (CtxField name) = Some name"
| "plan_context_field (CtxLabel _) = None"

definition lower_field :: "plan_context \<Rightarrow> fieldp \<Rightarrow> fields_builder \<Rightarrow> fields_builder" where
  "lower_field ctx f b =
     (if plan_context_field ctx = Some (fp_name f) \<or> is_target f then b
      else let b = declare_verb f b
           in if fp_identity f \<noteq> fp_name f then pin_identity (fp_identity f) b else b)"

definition lower :: "dplan \<Rightarrow> (plan_error, built_plan) result" where
  "lower plan =
     (let b = (case p_context plan of
                 CtxLabel l \<Rightarrow> with_context (Inr l) plan_fields
               | CtxField name \<Rightarrow> context_field name plan_fields)
      in build (fold (lower_field (p_context plan)) (p_fields plan) b))"

fun check_fields :: "context_piece list \<Rightarrow> fieldp list \<Rightarrow> fieldp list \<Rightarrow> (dyn_error, unit) result" where
  "check_fields ext earlier [] = Inr ()"
| "check_fields ext earlier (f # rest) =
     (if fp_name f \<in> set (map fp_name earlier) then Inl (PlanError (Some (fp_name f)) DuplicateFieldReason)
      else if fp_extension f \<noteq> ext then Inl (PlanError (Some (fp_name f)) MixedContexts)
      else if \<not> is_target f \<and> indexes f \<noteq> [] \<and> fp_type f = None then Inl (UntypedIndex (fp_name f))
      else if is_target f \<and> (\<exists>p \<in> set earlier. fp_identity p = fp_identity f)
      then Inl (PlanError (Some (fp_name f)) SharedIdentityReason)
      else if \<not> is_target f \<and> (\<exists>p \<in> set earlier. is_target p \<and> fp_identity p = fp_identity f)
      then Inl (PlanError (Some (fp_name f)) SharedIdentityReason)
      else check_fields ext (earlier @ [f]) rest)"

definition plan_build :: "plan_context \<Rightarrow> fieldp list \<Rightarrow> (dyn_error, dplan) result" where
  "plan_build ctx fds =
     (case fds of
        [] \<Rightarrow> Inl (bad_plan NoFields)
      | first # _ \<Rightarrow>
          and_then (check_fields (fp_extension first) [] fds) (\<lambda>_.
            let plan = \<lparr>p_context = ctx, p_extension = fp_extension first, p_fields = fds\<rparr>
            in and_then (map_sum (\<lambda>e. case refusal e of (f, r) \<Rightarrow> PlanError f r) id (lower plan)) (\<lambda>_. Inr plan)))"

section \<open>Targets\<close>

record target_descriptor =
  td_name :: rstr
  td_plaintext :: "value_kind option"
  td_producible :: bool
  td_reason :: "rstr option"

record resolver =
  r_targets :: "target_descriptor list"
  r_encrypt :: "rstr \<Rightarrow> label \<Rightarrow> ffi_value \<Rightarrow> (target_error, (engine_error, bytes) result) result"
  r_decrypt :: "rstr \<Rightarrow> label \<Rightarrow> bytes \<Rightarrow> (target_error, (engine_error, ffi_value) result) result"
  r_query :: "rstr \<Rightarrow> label \<Rightarrow> ffi_value \<Rightarrow> (target_error, (engine_error, bytes) result) result"

definition resolve_name :: "resolver \<Rightarrow> rstr \<Rightarrow> (target_error, target_descriptor) result" where
  "resolve_name R name =
     (if r_targets R = [] then Inl (NoTargets name)
      else case List.find (\<lambda>t. td_name t = name) (r_targets R) of
             None \<Rightarrow> Inl (UnknownTarget name)
           | Some t \<Rightarrow>
               if \<not> td_producible t
               then Inl (Unproducible (td_name t) (case td_reason t of Some r \<Rightarrow> r | None \<Rightarrow> lit ''no reason recorded''))
               else Inr t)"

definition no_targets :: resolver where
  "no_targets = \<lparr>r_targets = [], r_encrypt = (\<lambda>name _ _. Inl (NoTargets name)), r_decrypt = (\<lambda>name _ _. Inl (NoTargets name)),
     r_query = (\<lambda>name _ _. Inl (NoTargets name))\<rparr>"

definition resolve_target :: "resolver \<Rightarrow> context_piece list \<Rightarrow> fieldp \<Rightarrow> (dyn_error, fieldp) result" where
  "resolve_target R ext f =
     (case fp_target f of
        None \<Rightarrow> Inr f
      | Some name \<Rightarrow>
          and_then (map_sum TargetError id (resolve_name R name)) (\<lambda>t.
            if ext \<noteq> [] then Inl (TargetError (Extended (fp_name f) (label_display (fp_label f))))
            else if length (fp_label f) \<noteq> 2
            then Inl (TargetError (TargetColumn (fp_name f) (label_display (fp_label f))
                   (lit ''an EQL column is a two-segment label: table and column'')))
            else case fp_type f of
                   Some declared \<Rightarrow>
                     if td_plaintext t \<noteq> Some declared
                     then Inl (TargetError (TargetKind (fp_name f) name (td_plaintext t) declared))
                     else Inr f
                 | None \<Rightarrow> Inr (f\<lparr>fp_type := td_plaintext t\<rparr>)))"

definition plan_new_with :: "resolver \<Rightarrow> fieldp list \<Rightarrow> (dyn_error, dplan) result" where
  "plan_new_with R fds =
     (case fds of
        [] \<Rightarrow> Inl (bad_plan NoFields)
      | first # _ \<Rightarrow>
          and_then (fp_prefix first) (\<lambda>ctx.
          and_then (collect (\<lambda>f. and_then (fp_prefix f) (\<lambda>p.
              if p \<noteq> ctx then Inl (PlanError (Some (fp_name f)) MixedContexts) else Inr ())) fds) (\<lambda>_.
          and_then (collect (resolve_target R (fp_extension first)) fds) (\<lambda>fds.
            plan_build (CtxLabel ctx) fds))))"

definition with_context_field :: "rstr \<Rightarrow> fieldp list \<Rightarrow> (dyn_error, dplan) result" where
  "with_context_field cf fds =
     (case List.find (\<lambda>f. fp_name f = cf) fds of
        None \<Rightarrow> Inl (PlanError (Some cf) NoSuchFieldReason)
      | Some f \<Rightarrow>
          if fp_outputs f \<noteq> [PassthroughOut] \<or> (fp_type f \<noteq> None \<and> fp_type f \<noteq> Some KString)
          then Inl (PlanError (Some cf) ContextFieldReason)
          else case List.find (\<lambda>f. length (fp_label f) \<noteq> 1) fds of
                 Some f \<Rightarrow> Inl (PlanError (Some (fp_name f)) ContextNotLabel)
               | None \<Rightarrow>
                   (case List.find is_target fds of
                      Some t \<Rightarrow> Inl (TargetError (TargetContextField (fp_name t) cf))
                    | None \<Rightarrow>
                        plan_build (CtxField cf)
                          (map (\<lambda>f. if fp_name f = cf then f\<lparr>fp_type := Some KString\<rparr> else f) fds)))"

section \<open>The parser\<close>

record spec_acc =
  sa_context :: "context_piece option"
  sa_outputs :: "plan_output list option"
  sa_target :: "rstr option"
  sa_type :: "value_kind option"

definition read_spec_key ::
  "vitaminc \<Rightarrow> nat \<Rightarrow> rstr \<Rightarrow> rstr \<Rightarrow> ffi_value \<Rightarrow> spec_acc \<Rightarrow> (dyn_error, spec_acc) result" where
  "read_spec_key V usize name key value acc =
     (if key = lit ''context'' \<and> sa_context acc = None then
        map_sum (in_field name) (\<lambda>c. acc\<lparr>sa_context := Some c\<rparr>) (dyn_context (v_is_empty V) value)
      else if key = lit ''target'' \<and> sa_target acc = None then
        (case value of
           FString s \<Rightarrow> (case utf8 s of Some t \<Rightarrow> Inr (acc\<lparr>sa_target := Some t\<rparr>)
                                 | None \<Rightarrow> Inl (PlanError (Some name) InvalidTarget))
         | _ \<Rightarrow> Inl (PlanError (Some name) InvalidTarget))
      else if key = lit ''outputs'' \<and> sa_outputs acc = None then
        (case value of
           FArray items \<Rightarrow> map_sum (in_field name) (\<lambda>outs. acc\<lparr>sa_outputs := Some outs\<rparr>) (collect (output_from_value usize) items)
         | _ \<Rightarrow> Inl (PlanError (Some name) OutputsNotList))
      else if key = lit ''type'' \<and> sa_type acc = None then
        (case value of
           FString s \<Rightarrow> (case Option.bind (utf8 s) (v_parse_kind V) of
                            Some k \<Rightarrow> Inr (acc\<lparr>sa_type := Some k\<rparr>)
                          | None \<Rightarrow> Inl (PlanError (Some name) UnknownType))
         | _ \<Rightarrow> Inl (PlanError (Some name) UnknownType))
      else if key \<in> {lit ''context'', lit ''target'', lit ''outputs'', lit ''type''}
      then Inl (PlanError (Some name) RepeatedKey)
      else Inl (PlanError (Some name) UnknownKey))"

fun read_spec ::
  "vitaminc \<Rightarrow> nat \<Rightarrow> rstr \<Rightarrow> (rstr \<times> ffi_value) list \<Rightarrow> spec_acc \<Rightarrow> (dyn_error, spec_acc) result" where
  "read_spec V usize name [] acc = Inr acc"
| "read_spec V usize name ((key, value) # rest) acc =
     and_then (read_spec_key V usize name key value acc) (read_spec V usize name rest)"

definition read_field :: "vitaminc \<Rightarrow> nat \<Rightarrow> rstr \<Rightarrow> ffi_value \<Rightarrow> (dyn_error, fieldp) result" where
  "read_field V usize name spec =
     (case spec of
        FObject entries \<Rightarrow>
          and_then (read_spec V usize name entries
              \<lparr>sa_context = None, sa_outputs = None, sa_target = None, sa_type = None\<rparr>) (\<lambda>acc.
          and_then (ok_or (sa_context acc) (PlanError (Some name) MissingContext)) (\<lambda>ctx.
          and_then (case (sa_outputs acc, sa_target acc) of
                      (Some outs, None) \<Rightarrow> field_new name ctx outs
                    | (None, Some t) \<Rightarrow> field_with_target name ctx t
                    | (Some _, Some _) \<Rightarrow> Inl (PlanError (Some name) OutputsWithTarget)
                    | (None, None) \<Rightarrow> Inl (PlanError (Some name) MissingOutputs)) (\<lambda>f.
            case sa_type acc of Some k \<Rightarrow> with_type k f | None \<Rightarrow> Inr f)))
      | _ \<Rightarrow> Inl (PlanError (Some name) NotAnObject))"

fun read_entries ::
  "vitaminc \<Rightarrow> nat \<Rightarrow> (rstr \<times> ffi_value) list \<Rightarrow> fieldp list \<Rightarrow> rstr option
     \<Rightarrow> (dyn_error, fieldp list \<times> rstr option) result" where
  "read_entries V usize [] fds cf = Inr (fds, cf)"
| "read_entries V usize ((name, spec) # rest) fds cf =
     (if name = lit ''context_field'' then
        (if cf \<noteq> None then Inl (bad_plan RepeatedKey)
         else case spec of
                FString s \<Rightarrow> (case utf8 s of
                                Some t \<Rightarrow> read_entries V usize rest fds (Some t)
                              | None \<Rightarrow> Inl (bad_plan ContextFieldReason))
              | _ \<Rightarrow> Inl (bad_plan ContextFieldReason))
      else and_then (read_field V usize name spec) (\<lambda>f. read_entries V usize rest (fds @ [f]) cf))"

definition plan_with :: "vitaminc \<Rightarrow> nat \<Rightarrow> resolver \<Rightarrow> ffi_value \<Rightarrow> (dyn_error, dplan) result" where
  "plan_with V usize R value =
     (case value of
        FObject entries \<Rightarrow>
          and_then (read_entries V usize entries [] None) (\<lambda>(fds, cf).
            case cf of Some name \<Rightarrow> with_context_field name fds | None \<Rightarrow> plan_new_with R fds)
      | _ \<Rightarrow> Inl (bad_plan NotAnObject))"

section \<open>What a field holds\<close>

text \<open>The invariant of a field plan, which its constructors establish.\<close>

definition field_ok :: "fieldp \<Rightarrow> bool" where
  "field_ok f \<longleftrightarrow>
     split_context (fp_context f) = Some (fp_label f, fp_extension f)
   \<and> (is_target f \<longleftrightarrow> fp_outputs f = [])
   \<and> distinct (map output_key (fp_outputs f))
   \<and> (PassthroughOut \<in> set (fp_outputs f) \<longrightarrow> fp_outputs f = [PassthroughOut])
   \<and> (\<forall>k. fp_type f = Some k \<longrightarrow> (\<forall>ix \<in> set (indexes f). admits k ix))"

lemma split_context_cases:
  assumes "split_context p = Some (l, ext)"
  obtains (label) "ext = []" "p = List (map Text l)" "label_new l = Inr l"
    | (part) inner part ext' where "p = List [inner, part]" "\<not> is_list part" "split_context inner = Some (l, ext')" "ext = ext' @ [part]"
proof (cases p)
  case (List parts)
  have texts: "parts = map Text segs" if "those (map text_of parts) = Some segs" for segs
    using that
  proof (induction parts arbitrary: segs)
    case (Cons p ps)
    then show ?case by (cases p) (auto split: option.splits)
  qed simp
  show ?thesis
  proof (cases "those (map text_of parts)")
    case None
    then obtain inner part where "parts = [inner, part]" "\<not> is_list part"
        "\<exists>e. split_context inner = Some (l, e) \<and> ext = e @ [part]"
      using assms List by (auto split: list.splits option.splits if_splits)
    then show ?thesis using part List by blast
  next
    case (Some segs)
    then show ?thesis using assms List texts [OF Some]
      by (cases segs) (auto split: sum.splits simp: label_new_ok intro!: label)
  qed
qed (use assms in auto)

lemma split_label: "split_context p = Some (l, ext) \<Longrightarrow> label_new l = Inr l"
proof (induction "size p" arbitrary: p ext rule: less_induct)
  case less
  from less(2) show ?case
  proof (cases rule: split_context_cases)
    case (part inner p' ext')
    then show ?thesis using less(1) [of inner ext'] by simp
  qed simp
qed

lemma label_context: "label_to_context l = (case l of [s] \<Rightarrow> Text s | [] \<Rightarrow> Text [] | _ \<Rightarrow> List (map Text l))"
proof -
  have "foldl then_text d rest = d\<lparr>d_rest := d_rest d @ map Text rest\<rparr>" for d rest
    by (induction rest arbitrary: d) (simp_all add: then_text_def desc_then_def)
  then show ?thesis
    by (auto simp: label_to_context_def label_describe_def desc_into_context_def desc_text_def desc_part_def
        split: list.splits)
qed

lemma under_snoc: "under (ext @ [part]) l = List [under ext l, part]"
  by (simp add: under_def)

text \<open>A declared context is what the engine seals under: the label, extended.\<close>

lemma split_under: "split_context p = Some (l, ext) \<Longrightarrow> length l \<ge> 2 \<Longrightarrow> under ext l = p"
proof (induction "size p" arbitrary: p ext rule: less_induct)
  case less
  from less(2) show ?case
  proof (cases rule: split_context_cases)
    case label
    then show ?thesis using less(3)
      by (auto simp: under_def label_context split: list.splits)
  next
    case (part inner p' ext')
    then show ?thesis using less(1) [of inner ext'] less(3) by (simp add: under_snoc)
  qed
qed

lemma set_indexes: "ix \<in> set (indexes f) \<longleftrightarrow> TermOut ix \<in> set (fp_outputs f)"
proof -
  have "ix \<in> set (List.map_filter (\<lambda>out. case out of TermOut ix \<Rightarrow> Some ix | _ \<Rightarrow> None) outs) \<longleftrightarrow> TermOut ix \<in> set outs" for outs
    by (induction outs) (auto simp: map_filter_simps split: plan_output.splits option.splits)
  then show ?thesis by (simp add: indexes_def)
qed

lemma only_member: "x \<in> set xs \<Longrightarrow> \<not> Suc 0 < length xs \<Longrightarrow> xs = [x]"
  by (cases xs) auto

lemma field_new_ok: "field_new name ctx outs = Inr f \<Longrightarrow> field_ok f \<and> fp_name f = name \<and> fp_type f = None"
  by (auto simp: field_new_def and_then_Inr_iff field_context_def ok_or_Inr_iff field_ok_def is_target_def outputs_repeat_def
      split: if_splits dest: only_member)

lemma field_with_target_ok: "field_with_target name ctx t = Inr f \<Longrightarrow> field_ok f \<and> fp_name f = name \<and> fp_type f = None"
  by (auto simp: field_with_target_def and_then_Inr_iff field_context_def ok_or_Inr_iff field_ok_def is_target_def
      indexes_def map_filter_def split: if_splits)

lemma with_type_ok: "with_type k f = Inr g \<Longrightarrow> field_ok f \<Longrightarrow> field_ok g"
  by (auto simp: with_type_def field_ok_def is_target_def indexes_def split: if_splits)

lemma read_field_ok: "read_field V usize name spec = Inr f \<Longrightarrow> field_ok f"
  by (auto simp: read_field_def and_then_Inr_iff split: ffi_value.splits option.splits
      dest!: field_new_ok field_with_target_ok with_type_ok)

lemma read_entries_ok:
  "read_entries V usize entries fs cf = Inr (fs', cf') \<Longrightarrow> list_all field_ok fs \<Longrightarrow> list_all field_ok fs'"
proof (induction entries arbitrary: fs cf)
  case (Cons e entries)
  obtain name spec where e: "e = (name, spec)" by (cases e)
  show ?case
  proof (cases "name = lit ''context_field''")
    case True
    then show ?thesis using Cons e by (auto split: if_splits ffi_value.splits option.splits)
  next
    case False
    then obtain f where "read_field V usize name spec = Inr f" "read_entries V usize entries (fs @ [f]) cf = Inr (fs', cf')"
      using Cons.prems e by (auto simp: and_then_Inr_iff)
    then show ?thesis using Cons.IH Cons.prems read_field_ok by fastforce
  qed
qed simp

lemma resolve_target_ok:
  assumes "resolve_target R ext f = Inr g" and "field_ok f"
  shows "field_ok g" and "fp_label g = fp_label f" and "fp_name g = fp_name f" and "fp_extension g = fp_extension f"
    and "is_target g = is_target f" and "is_target f \<Longrightarrow> ext = [] \<and> length (fp_label f) = 2"
  using assms
  by (auto simp: resolve_target_def and_then_Inr_iff field_ok_def is_target_def indexes_def map_filter_def
      split: option.splits if_splits)

section \<open>What lowering declares\<close>

definition kind_of_verb :: "verb \<Rightarrow> field_kind" where
  "kind_of_verb v =
     (case v of EncryptVerb \<Rightarrow> Encrypt | EncryptIndexVerb \<Rightarrow> EncryptIndex | IndexVerb \<Rightarrow> IndexOnly | _ \<Rightarrow> Passthrough)"

definition decl_of :: "fieldp \<Rightarrow> declared" where
  "decl_of f = \<lparr>d_name = fp_name f, d_identity = (if fp_identity f \<noteq> fp_name f then Some (fp_identity f) else None),
     d_kind = kind_of_verb (fp_verb f),
     d_indexes = (if fp_verb f = EncryptIndexVerb \<or> fp_verb f = IndexVerb then indexes f else [])\<rparr>"

definition lowered :: "plan_context \<Rightarrow> fieldp \<Rightarrow> bool" where
  "lowered ctx f \<longleftrightarrow> plan_context_field ctx \<noteq> Some (fp_name f) \<and> \<not> is_target f"

definition keyed :: "fieldp \<Rightarrow> bool" where
  "keyed f \<longleftrightarrow> fp_verb f \<noteq> PassthroughVerb"

lemma identity_decl [simp]: "identity_of (decl_of f) = fp_identity f"
  by (simp add: identity_of_def decl_of_def)

lemma decl_of_simps [simp]: "d_name (decl_of f) = fp_name f" "d_kind (decl_of f) = kind_of_verb (fp_verb f)"
  by (simp_all add: decl_of_def)

lemma verb_target: "\<not> is_target f \<Longrightarrow> fp_verb f \<noteq> TargetVerb"
  by (simp add: fp_verb_def)

lemma keys_nothing_verb: "\<not> is_target f \<Longrightarrow> keys_nothing (kind_of_verb (fp_verb f)) \<longleftrightarrow> \<not> keyed f"
  using verb_target [of f] by (cases "fp_verb f") (auto simp: keys_nothing_def kind_of_verb_def keyed_def)

lemma lower_field_eq:
  "lower_field ctx f b = (if lowered ctx f then b\<lparr>b_fields := b_fields b @ [decl_of f]\<rparr> else b)"
  by (auto simp: lower_field_def lowered_def Let_def declare_verb_def declare_field_def pin_identity_def decl_of_def
      kind_of_verb_def fp_verb_def)

lemma fold_lower_field:
  "fold (lower_field ctx) fs b = b\<lparr>b_fields := b_fields b @ map decl_of (filter (lowered ctx) fs)\<rparr>"
  by (induction fs arbitrary: b) (simp_all add: lower_field_eq)

lemma lower_label:
  "p_context plan = CtxLabel l \<Longrightarrow>
   lower plan = map_sum id (\<lambda>fs. \<lparr>bp_source = SrcPlan l, bp_fields = fs\<rparr>)
     (freeze_fields (SrcPlan l) [] (map decl_of (filter (lowered (CtxLabel l)) (p_fields plan))))"
  by (simp add: lower_def fold_lower_field with_context_def plan_fields_def build_def freeze_source_def)

definition context_decl :: "rstr \<Rightarrow> declared" where
  "context_decl name = \<lparr>d_name = name, d_identity = None, d_kind = ContextField, d_indexes = []\<rparr>"

lemma lower_context_field:
  "p_context plan = CtxField name \<Longrightarrow>
   lower plan = map_sum id (\<lambda>fs. \<lparr>bp_source = SrcField name, bp_fields = fs\<rparr>)
     (freeze_fields (SrcField name) [] (context_decl name # map decl_of (filter (lowered (CtxField name)) (p_fields plan))))"
  by (simp add: lower_def fold_lower_field context_field_def plan_fields_def build_def freeze_source_def Let_def
      declare_field_def context_decl_def)

lemma freeze_pairs:
  "freeze_fields src earlier fs = Inr r \<Longrightarrow>
   (\<forall>e \<in> set earlier. \<forall>f \<in> set fs. check_pair e f = Inr ()) \<and> sorted_wrt (\<lambda>e f. check_pair e f = Inr ()) fs"
proof (induction fs arbitrary: earlier r)
  case (Cons f fs)
  obtain us r' where us: "collect (\<lambda>e. check_pair e f) earlier = Inr us" and r': "freeze_fields src (earlier @ [f]) fs = Inr r'"
    using Cons.prems by (auto simp: and_then_Inr_iff)
  have "check_pair e f = Inr ()" if "e \<in> set earlier" for e
    using collect_Inr_all_ok [OF us that] by (cases "check_pair e f") auto
  with Cons.IH [OF r'] show ?case by auto
qed simp

lemma sorted_wrt_filter_iff:
  "sorted_wrt P (filter Q xs) \<longleftrightarrow> sorted_wrt (\<lambda>x y. Q x \<and> Q y \<longrightarrow> P x y) xs"
  by (induction xs) auto

lemma sorted_wrt_both: "sorted_wrt P xs \<Longrightarrow> sorted_wrt Q xs \<Longrightarrow> (\<And>x y. x \<in> set xs \<Longrightarrow> y \<in> set xs \<Longrightarrow> P x y \<Longrightarrow> Q x y \<Longrightarrow> R x y) \<Longrightarrow> sorted_wrt R xs"
  by (induction xs) auto

lemma distinct_map_sorted_wrt: "distinct (map g xs) \<longleftrightarrow> sorted_wrt (\<lambda>x y. g x \<noteq> g y) xs"
  by (induction xs) auto

lemma check_fields_pairs:
  "check_fields ext earlier fs = Inr () \<Longrightarrow>
     sorted_wrt (\<lambda>p f. fp_name p \<noteq> fp_name f \<and> (is_target f \<or> is_target p \<longrightarrow> fp_identity p \<noteq> fp_identity f)) fs
   \<and> (\<forall>p \<in> set earlier. \<forall>f \<in> set fs. fp_name p \<noteq> fp_name f \<and> (is_target f \<or> is_target p \<longrightarrow> fp_identity p \<noteq> fp_identity f))
   \<and> (\<forall>f \<in> set fs. fp_extension f = ext \<and> (is_target f \<or> indexes f = [] \<or> fp_type f \<noteq> None))"
proof (induction fs arbitrary: earlier)
  case (Cons f fs)
  then have "check_fields ext (earlier @ [f]) fs = Inr ()" by (auto split: if_splits)
  note IH = Cons.IH [OF this]
  have "fp_name f \<notin> fp_name ` set earlier" using Cons.prems by (auto split: if_splits)
  then have names: "fp_name p \<noteq> fp_name f" if "p \<in> set earlier" for p
    using imageI [OF that, of fp_name] by metis
  have "is_target f \<or> is_target p \<longrightarrow> fp_identity p \<noteq> fp_identity f" if "p \<in> set earlier" for p
    using Cons.prems that by (auto split: if_splits)
  moreover have "fp_extension f = ext \<and> (is_target f \<or> indexes f = [] \<or> fp_type f \<noteq> None)"
    using Cons.prems by (auto split: if_splits)
  ultimately show ?case using IH names by simp
qed simp

section \<open>What a plan holds\<close>

definition context_ok :: "dplan \<Rightarrow> bool" where
  "context_ok plan \<longleftrightarrow>
     (case p_context plan of
        CtxLabel l \<Rightarrow> l \<noteq> [] \<and> (\<forall>f \<in> set (p_fields plan). fp_label f = l @ [fp_identity f]
          \<and> (is_target f \<longrightarrow> p_extension plan = [] \<and> length l = 1))
      | CtxField cf \<Rightarrow> (\<forall>f \<in> set (p_fields plan). fp_label f = [fp_identity f] \<and> \<not> is_target f)
          \<and> (\<exists>f \<in> set (p_fields plan). fp_name f = cf \<and> fp_outputs f = [PassthroughOut] \<and> fp_type f = Some KString))"

definition plan_ok :: "dplan \<Rightarrow> bool" where
  "plan_ok plan \<longleftrightarrow>
     p_fields plan \<noteq> [] \<and> list_all field_ok (p_fields plan)
   \<and> distinct (map fp_name (p_fields plan))
   \<and> (\<forall>f \<in> set (p_fields plan). fp_extension f = p_extension plan)
   \<and> (\<forall>f \<in> set (p_fields plan). is_target f \<or> indexes f = [] \<or> fp_type f \<noteq> None)
   \<and> distinct (map fp_identity (filter keyed (p_fields plan)))
   \<and> context_ok plan \<and> is_ok (lower plan)"

lemma plan_buildD:
  assumes "plan_build ctx fs = Inr plan"
  shows "p_context plan = ctx" "p_fields plan = fs" "fs \<noteq> []" "is_ok (lower plan)"
    "check_fields (p_extension plan) [] fs = Inr ()" "p_extension plan = fp_extension (hd fs)"
  using assms by (auto simp: plan_build_def and_then_Inr_iff map_sum_Inr_iff Let_def split: list.splits simp del: check_fields.simps)

text \<open>The builder keeps the identities of lowered fields apart, the plan's own checks those of targets.\<close>

lemma identities_apart:
  assumes "check_fields ext [] fs = Inr ()"
    and "sorted_wrt (\<lambda>e f. check_pair e f = Inr ()) (map decl_of (filter (lowered ctx) fs))"
    and "\<And>f. f \<in> set fs \<Longrightarrow> keyed f \<Longrightarrow> plan_context_field ctx \<noteq> Some (fp_name f)"
  shows "distinct (map fp_identity (filter keyed fs))"
proof -
  note S1 = conjunct1 [OF check_fields_pairs [OF assms(1)]]
  have S2: "sorted_wrt (\<lambda>e f. lowered ctx e \<and> lowered ctx f \<longrightarrow> check_pair (decl_of e) (decl_of f) = Inr ()) fs"
    using assms(2) by (simp add: sorted_wrt_map sorted_wrt_filter_iff)
  have "sorted_wrt (\<lambda>e f. keyed e \<and> keyed f \<longrightarrow> fp_identity e \<noteq> fp_identity f) fs"
  proof (rule sorted_wrt_both [OF S1 S2])
    fix e f
    assume m: "e \<in> set fs" "f \<in> set fs"
      and a: "fp_name e \<noteq> fp_name f \<and> (is_target f \<or> is_target e \<longrightarrow> fp_identity e \<noteq> fp_identity f)"
      and b: "lowered ctx e \<and> lowered ctx f \<longrightarrow> check_pair (decl_of e) (decl_of f) = Inr ()"
    show "keyed e \<and> keyed f \<longrightarrow> fp_identity e \<noteq> fp_identity f"
    proof
      assume k: "keyed e \<and> keyed f"
      show "fp_identity e \<noteq> fp_identity f"
      proof (cases "is_target e \<or> is_target f")
        case False
        then have "lowered ctx e \<and> lowered ctx f" using assms(3) m k by (simp add: lowered_def)
        then have "check_pair (decl_of e) (decl_of f) = Inr ()" using b by blast
        then show ?thesis using a k False keys_nothing_verb [of e] keys_nothing_verb [of f]
          by (auto simp: check_pair_def split: if_splits)
      qed (use a in blast)
    qed
  qed
  then show ?thesis by (simp add: distinct_map_sorted_wrt sorted_wrt_filter_iff)
qed

lemma lower_pairs:
  assumes "is_ok (lower plan)"
  shows "sorted_wrt (\<lambda>e f. check_pair e f = Inr ()) (map decl_of (filter (lowered (p_context plan)) (p_fields plan)))"
proof (cases "p_context plan")
  case (CtxLabel l)
  then obtain r where "freeze_fields (SrcPlan l) [] (map decl_of (filter (lowered (CtxLabel l)) (p_fields plan))) = Inr r"
    using assms by (cases "freeze_fields (SrcPlan l) [] (map decl_of (filter (lowered (CtxLabel l)) (p_fields plan)))")
      (auto simp: lower_label)
  from freeze_pairs [OF this] CtxLabel show ?thesis by simp
next
  case (CtxField cf)
  let ?ds = "context_decl cf # map decl_of (filter (lowered (CtxField cf)) (p_fields plan))"
  obtain r where "freeze_fields (SrcField cf) [] ?ds = Inr r"
    using assms CtxField by (cases "freeze_fields (SrcField cf) [] ?ds") (auto simp: lower_context_field)
  from freeze_pairs [OF this] CtxField show ?thesis by simp
qed

lemma plan_build_ok:
  assumes "plan_build ctx fs = Inr plan" and "list_all field_ok fs" and "context_ok plan"
    and "\<And>f. f \<in> set fs \<Longrightarrow> keyed f \<Longrightarrow> plan_context_field ctx \<noteq> Some (fp_name f)"
  shows "plan_ok plan"
proof -
  note D = plan_buildD [OF assms(1)]
  note pairs = check_fields_pairs [OF D(5)]
  have "distinct (map fp_name fs)"
    unfolding distinct_map_sorted_wrt using conjunct1 [OF pairs] by (rule sorted_wrt_mono_rel [rotated]) simp
  moreover have "distinct (map fp_identity (filter keyed fs))"
    using identities_apart [OF D(5), of ctx] lower_pairs [OF D(4)] assms(4) D(1,2) by simp
  ultimately show ?thesis using conjunct2 [OF conjunct2 [OF pairs]] assms(2,3) D(3,4)
    unfolding plan_ok_def D(2) by blast
qed

lemma plan_new_with_ok:
  assumes "plan_new_with R fs = Inr plan" and "list_all field_ok fs"
  shows "plan_ok plan"
proof -
  obtain first rest where fs: "fs = first # rest" using assms(1) by (cases fs) (auto simp: plan_new_with_def)
  obtain ctx us fs' where ctx: "fp_prefix first = Inr ctx"
    and us: "collect (\<lambda>f. and_then (fp_prefix f) (\<lambda>p. if p \<noteq> ctx then Inl (PlanError (Some (fp_name f)) MixedContexts) else Inr ())) fs = Inr us"
    and fs': "collect (resolve_target R (fp_extension first)) fs = Inr fs'" and b: "plan_build (CtxLabel ctx) fs' = Inr plan"
    using assms(1) fs by (auto simp: plan_new_with_def and_then_Inr_iff simp del: collect.simps)
  note D = plan_buildD [OF b]
  have rt: "list_all2 (\<lambda>f g. resolve_target R (fp_extension first) f = Inr g) fs fs'"
    using fs' by (simp add: collect_Inr_iff)
  have each: "\<exists>f \<in> set fs. resolve_target R (fp_extension first) f = Inr g" if "g \<in> set fs'" for g
    using rt that by (auto simp: in_set_conv_nth list_all2_conv_all_nth) (metis nth_mem)
  have ok: "list_all field_ok fs'" unfolding list_all_iff
    using each resolve_target_ok(1) assms(2) by (metis list_all_iff)
  have ext: "p_extension plan = fp_extension first"
  proof -
    obtain g gs where g: "fs' = g # gs" "resolve_target R (fp_extension first) first = Inr g"
      using rt fs by (auto simp: list_all2_Cons1)
    have "field_ok first" using assms(2) fs by simp
    from resolve_target_ok(4) [OF g(2) this] show ?thesis using D(6) g(1) by simp
  qed
  have lab: "fp_label g = ctx @ [fp_identity g] \<and> (is_target g \<longrightarrow> p_extension plan = [] \<and> length ctx = 1)"
    if g: "g \<in> set fs'" for g
  proof -
    obtain f where f: "f \<in> set fs" "resolve_target R (fp_extension first) f = Inr g" using each [OF g] by blast
    have fok: "field_ok f" using assms(2) f(1) by (simp add: list_all_iff)
    have "is_ok (and_then (fp_prefix f) (\<lambda>p. if p \<noteq> ctx then Inl (PlanError (Some (fp_name f)) MixedContexts) else Inr ()))"
      using collect_Inr_all_ok [OF us f(1)] by simp
    then have "fp_prefix f = Inr ctx" by (cases "fp_prefix f") (auto split: if_splits)
    then have "fp_label f \<noteq> []" "butlast (fp_label f) = ctx"
      by (auto simp: fp_prefix_def map_sum_Inr_iff label_new_ok split: if_splits)
    then have "fp_label f = ctx @ [last (fp_label f)]" using append_butlast_last_id by metis
    note l = this resolve_target_ok(2) [OF f(2) fok]
    have "fp_label g = ctx @ [fp_identity g]" using l \<open>fp_label f \<noteq> []\<close> by (simp add: fp_identity_def)
    moreover have "is_target g \<longrightarrow> fp_extension first = [] \<and> length (fp_label f) = 2"
      using resolve_target_ok(5,6) [OF f(2) fok] by blast
    moreover have "length (fp_label f) = Suc (length ctx)" using l(1) by (metis length_append_singleton)
    ultimately show ?thesis using ext by simp
  qed
  have "ctx \<noteq> []" using ctx by (auto simp: fp_prefix_def map_sum_Inr_iff label_new_ok split: if_splits)
  then have "context_ok plan" using lab D(1,2) by (simp add: context_ok_def)
  then show ?thesis using plan_build_ok [OF b ok] by simp
qed

lemma find_None_all: "List.find P xs = None \<Longrightarrow> x \<in> set xs \<Longrightarrow> \<not> P x"
  by (auto simp: find_None_iff)

lemma with_context_field_ok:
  assumes "with_context_field cf fs = Inr plan" and "list_all field_ok fs"
  shows "plan_ok plan"
proof -
  let ?ty = "\<lambda>f. if fp_name f = cf then f\<lparr>fp_type := Some KString\<rparr> else f"
  obtain c where c: "List.find (\<lambda>f. fp_name f = cf) fs = Some c" and outs: "fp_outputs c = [PassthroughOut]"
    and one: "List.find (\<lambda>f. length (fp_label f) \<noteq> 1) fs = None" and tg: "List.find is_target fs = None"
    and b: "plan_build (CtxField cf) (map ?ty fs) = Inr plan"
    using assms(1) by (auto simp: with_context_field_def split: option.splits if_splits)
  note D = plan_buildD [OF b]
  have cm: "c \<in> set fs" "fp_name c = cf" using c by (auto simp: find_Some_iff)
  have only: "f = c" if "f \<in> set fs" "fp_name f = cf" for f
  proof -
    have "distinct (map fp_name (map ?ty fs))"
      unfolding distinct_map_sorted_wrt using conjunct1 [OF check_fields_pairs [OF D(5)]]
      by (rule sorted_wrt_mono_rel [rotated]) simp
    moreover have "map fp_name (map ?ty fs) = map fp_name fs" by simp
    ultimately have "distinct (map fp_name fs)" by argo
    then have "inj_on fp_name (set fs)" by (simp add: distinct_map)
    then show ?thesis using that cm by (auto dest: inj_onD)
  qed
  have ok: "list_all field_ok (map ?ty fs)"
    using assms(2) only outs by (auto simp: list_all_iff field_ok_def is_target_def indexes_def map_filter_simps)
  have ty: "fp_label (?ty f) = fp_label f" "fp_identity (?ty f) = fp_identity f" "is_target (?ty f) = is_target f" for f
    by (simp_all add: fp_identity_def is_target_def)
  have "fp_label f = [fp_identity f] \<and> \<not> is_target f" if "f \<in> set fs" for f
    using find_None_all [OF one that] find_None_all [OF tg that] by (auto simp: fp_identity_def length_Suc_conv)
  then have "\<forall>f \<in> set fs. fp_label (?ty f) = [fp_identity (?ty f)] \<and> \<not> is_target (?ty f)" unfolding ty by blast
  then have lab: "\<forall>f \<in> set (map ?ty fs). fp_label f = [fp_identity f] \<and> \<not> is_target f"
    unfolding set_map by blast
  have "c\<lparr>fp_type := Some KString\<rparr> \<in> set (map ?ty fs)" using cm by force
  then have "\<exists>f \<in> set (map ?ty fs). fp_name f = cf \<and> fp_outputs f = [PassthroughOut] \<and> fp_type f = Some KString"
    by (rule bexI [rotated]) (simp add: outs cm(2))
  then have "context_ok plan" using lab unfolding context_ok_def D(1,2) plan_context.case by blast
  moreover have "plan_context_field (CtxField cf) \<noteq> Some (fp_name f)" if m: "f \<in> set (map ?ty fs)" and k: "keyed f" for f
  proof
    assume "plan_context_field (CtxField cf) = Some (fp_name f)"
    obtain g where g: "g \<in> set fs" "f = ?ty g" using m unfolding set_map by blast
    then have "g = c" using only \<open>plan_context_field (CtxField cf) = Some (fp_name f)\<close> by (simp split: if_splits)
    then have "fp_outputs f = [PassthroughOut]" using g outs by simp
    moreover have "\<not> is_target f" using lab m by blast
    ultimately show False using k by (simp add: keyed_def fp_verb_def)
  qed
  ultimately show ?thesis using plan_build_ok [OF b ok] by simp
qed

lemma plan_with_ok:
  assumes "plan_with V usize R v = Inr plan"
  shows "plan_ok plan"
proof -
  obtain entries fs cf where e: "read_entries V usize entries [] None = Inr (fs, cf)"
    and p: "(case cf of Some name \<Rightarrow> with_context_field name fs | None \<Rightarrow> plan_new_with R fs) = Inr plan"
    using assms by (auto simp: plan_with_def and_then_Inr_iff split: ffi_value.splits)
  have "list_all field_ok fs" using read_entries_ok [OF e] by simp
  then show ?thesis using p with_context_field_ok plan_new_with_ok by (cases cf) auto
qed

section \<open>Properties\<close>

text \<open>
  C19. A plan in hand is a plan that holds its rules, whatever value it was read from: it has
  fields and no two share a name; every field is well formed and carries the plan's extension;
  every field with an index declares a type, which admits each of its indexes; no two fields
  that are sealed, indexed or targets are keyed under one identity; every label is the plan's
  context followed by the field's identity, and under a context field the identity alone; and
  the whole lowers to a plan that builds.\<close>

theorem parsed_plans_hold_their_rules:
  assumes "plan_with V usize R v = Inr plan"
  shows "plan_ok plan"
  using assms by (rule plan_with_ok)

definition demo_vitaminc :: vitaminc where
  "demo_vitaminc = \<lparr>
     v_holds = (\<lambda>k v. case v of FString _ \<Rightarrow> k = KString | FUInt32 _ \<Rightarrow> k = KUInt32 | _ \<Rightarrow> False),
     v_kind_name = (\<lambda>_. lit ''kind''),
     v_parse_kind = (\<lambda>s. if s = lit ''uint32'' then Some KUInt32 else if s = lit ''string'' then Some KString else None),
     v_is_empty = (\<lambda>p. p = Text [])\<rparr>"

definition demo_field :: "string \<Rightarrow> ffi_value list \<Rightarrow> string \<Rightarrow> rstr \<times> ffi_value" where
  "demo_field name outs ty = (lit name, FObject
     [(lit ''context'', FArray [fstr ''users'', fstr name]), (lit ''outputs'', FArray outs), (lit ''type'', fstr ty)])"

definition demo_plan_value :: ffi_value where
  "demo_plan_value = FObject [demo_field ''age'' [fstr ''c'', fstr ''eq''] ''uint32'', demo_field ''note'' [fstr ''c''] ''string'']"

definition demo_plan :: dplan where
  "demo_plan = projr (plan_with demo_vitaminc 256 no_targets demo_plan_value)"

lemma demo_plan_parses: "plan_with demo_vitaminc 256 no_targets demo_plan_value = Inr demo_plan"
proof -
  have "is_ok (plan_with demo_vitaminc 256 no_targets demo_plan_value)" by code_simp
  then show ?thesis by (cases "plan_with demo_vitaminc 256 no_targets demo_plan_value") (auto simp: demo_plan_def)
qed

theorem parsed_plans_hold_their_rules_witness: "plan_ok demo_plan"
  by (rule parsed_plans_hold_their_rules [OF demo_plan_parses])

end
