(* ===== verification/Record_Rows.thy ===== *)
theory Record_Rows
  imports Record_Plan "HOL-Library.Multiset"
begin

text \<open>
  Records under a plan, the second half of \<open>stack-encrypt/src/dynamic/record.rs\<close>: the source row and
  the stored row read against the plan, the stored shape written and read, and the two entry
  points with their preflight checks. What a run of the lowered plan and the resolver's pendings
  resolve to are results (\<open>Plan_Builder\<close>); where several fail the first in the order of the merge
  is reported.
\<close>

section \<open>The trees\<close>

definition source_misfit :: "rstr \<Rightarrow> reason \<Rightarrow> dyn_error" where
  "source_misfit f r = SourceError (Some f) r"

definition record_misfit :: "rstr \<Rightarrow> reason \<Rightarrow> dyn_error" where
  "record_misfit f r = RecordError (Some f) r"

definition keys_are_unique :: "(rstr \<times> 'a) list \<Rightarrow> bool" where
  "keys_are_unique entries = distinct (map fst entries)"

definition discard :: "('e, 'a) result \<Rightarrow> ('e, unit) result" where
  "discard r = map_sum id (\<lambda>_. ()) r"

fun check_source_tree :: "rstr \<Rightarrow> ffi_value \<Rightarrow> (dyn_error, unit) result" where
  "check_source_tree f (FPassthrough _) = Inl (source_misfit f PassthroughReason)"
| "check_source_tree f (FArray items) = discard (collect (check_source_tree f) items)"
| "check_source_tree f (FObject entries) =
     (if \<not> keys_are_unique entries then Inl (source_misfit f RepeatedKey)
      else discard (collect (\<lambda>e. check_source_tree f (snd e)) entries))"
| "check_source_tree f _ = Inr ()"

fun check_stored_tree :: "rstr \<Rightarrow> 'l ciphertext \<Rightarrow> (dyn_error, unit) result" where
  "check_stored_tree f (PassthroughCt _) = Inl (record_misfit f PassthroughReason)"
| "check_stored_tree f (Sequence items) = discard (collect (check_stored_tree f) items)"
| "check_stored_tree f (MapCt entries) =
     (if \<not> keys_are_unique entries then Inl (record_misfit f RepeatedKey)
      else discard (collect (\<lambda>e. check_stored_tree f (snd e)) entries))"
| "check_stored_tree f _ = Inr ()"

text \<open>\<open>Vec::swap_remove\<close>: the last entry takes the place of the one removed.\<close>

definition swap_remove :: "nat \<Rightarrow> 'a list \<Rightarrow> 'a list" where
  "swap_remove i xs = (if Suc i = length xs then butlast xs else (butlast xs)[i := last xs])"

definition take_entry :: "rstr \<Rightarrow> (rstr \<times> 'a) list \<Rightarrow> ('a \<times> (rstr \<times> 'a) list) option" where
  "take_entry name row =
     (case filter (\<lambda>i. fst (row ! i) = name) [0..<length row] of
        [at] \<Rightarrow> Some (snd (row ! at), swap_remove at row)
      | _ \<Rightarrow> None)"

definition absence :: "(rstr \<times> 'a) list \<Rightarrow> rstr \<Rightarrow> reason \<Rightarrow> reason \<Rightarrow> reason" where
  "absence entries name missing repeated = (if name \<in> set (map fst entries) then repeated else missing)"

section \<open>The source\<close>

record 'l row =
  row_values :: "'l field_values"
  row_targets :: "ffi_value list"

definition check_output :: "vitaminc \<Rightarrow> ffi_value \<Rightarrow> fieldp \<Rightarrow> plan_output \<Rightarrow> (dyn_error, unit) result" where
  "check_output V value f out =
     (case out of
        Ciphertext \<Rightarrow> check_source_tree (fp_name f) value
      | TermOut kind \<Rightarrow>
          and_then (map_sum (in_field (fp_name f)) id (scalar_of value kind)) (\<lambda>s.
            if supports kind s then Inr () else Inl (TermUndefined (Some (fp_name f)) kind))
      | PassthroughOut \<Rightarrow> Inr ())"

definition check_field :: "vitaminc \<Rightarrow> ffi_value \<Rightarrow> fieldp \<Rightarrow> (dyn_error, unit) result" where
  "check_field V value f =
     (if (case fp_type f of Some declared \<Rightarrow> \<not> v_holds V declared value | None \<Rightarrow> False)
      then Inl (source_misfit (fp_name f) FieldTypeReason)
      else and_then (if is_target f then check_source_tree (fp_name f) value else Inr ()) (\<lambda>_.
           discard (collect (check_output V value f) (fp_outputs f))))"

fun source_loop :: "vitaminc \<Rightarrow> fieldp list \<Rightarrow> (rstr \<times> ffi_value) list \<Rightarrow> 'l row \<Rightarrow> (dyn_error, (rstr \<times> ffi_value) list \<times> 'l row) result" where
  "source_loop V [] row acc = Inr (row, acc)"
| "source_loop V (f # fs) row acc =
     (case take_entry (fp_name f) row of
        None \<Rightarrow> Inl (source_misfit (fp_name f) (absence row (fp_name f) FieldMissing FieldRepeated))
      | Some (value, row) \<Rightarrow>
          and_then (check_field V value f) (\<lambda>_.
            source_loop V fs row
              (if is_target f then acc\<lparr>row_targets := row_targets acc @ [value]\<rparr>
               else acc\<lparr>row_values := fv_insert (fp_name f) (SlotValue value) (row_values acc)\<rparr>)))"

definition source_row :: "vitaminc \<Rightarrow> dplan \<Rightarrow> (rstr \<times> ffi_value) list \<Rightarrow> (dyn_error, 'l row) result" where
  "source_row V plan row =
     and_then (source_loop V (p_fields plan) row \<lparr>row_values = [], row_targets = []\<rparr>) (\<lambda>(row, acc).
       case row of
         (extra, _) # _ \<Rightarrow> Inl (source_misfit extra UnknownField)
       | [] \<Rightarrow> Inr acc)"

datatype 'r rows = One 'r | Batch "'r list"

definition source_rows :: "vitaminc \<Rightarrow> dplan \<Rightarrow> ffi_value \<Rightarrow> (dyn_error, 'l row rows) result" where
  "source_rows V plan source =
     (case source of
        FObject row \<Rightarrow> map_sum id One (source_row V plan row)
      | FArray items \<Rightarrow> map_sum id Batch (collect (\<lambda>item.
          case item of FObject row \<Rightarrow> source_row V plan row | _ \<Rightarrow> Inl (bad_source NotAnObject)) items)
      | _ \<Rightarrow> Inl (bad_source NotAnObject))"

section \<open>The stored shape\<close>

record field_shape =
  fs_name :: rstr
  fs_verb :: verb
  fs_keys :: "rstr list"
  fs_kind :: "value_kind option"

definition shape_of :: "fieldp \<Rightarrow> field_shape" where
  "shape_of f = \<lparr>fs_name = fp_name f, fs_verb = fp_verb f, fs_keys = map index_key (indexes f), fs_kind = fp_type f\<rparr>"

definition plan_shape :: "dplan \<Rightarrow> field_shape list" where
  "plan_shape plan = map shape_of (p_fields plan)"

definition byte_node :: "bytes \<Rightarrow> 'l ciphertext" where
  "byte_node b = PassthroughCt (Some (FBytes b))"

definition keyed_terms :: "bytes list \<Rightarrow> rstr list \<Rightarrow> (engine_error, (rstr \<times> 'l ciphertext) list) result" where
  "keyed_terms terms keys =
     (if length terms \<noteq> length keys then Inl ResponseShape
      else Inr (map (\<lambda>(key, t). (key, byte_node t)) (zip keys terms)))"

text \<open>One field's output map; the values of target fields are taken from the front of \<open>eql\<close>.\<close>

definition shape_field ::
  "'l field_values \<Rightarrow> bytes list \<Rightarrow> field_shape
     \<Rightarrow> (engine_error, (rstr \<times> 'l ciphertext) list \<times> 'l field_values \<times> bytes list) result" where
  "shape_field values eql f =
     (case fs_verb f of
        TargetVerb \<Rightarrow>
          (case eql of v # eql \<Rightarrow> Inr ([(EQL_KEY, byte_node v)], values, eql) | [] \<Rightarrow> Inl ResponseShape)
      | EncryptVerb \<Rightarrow>
          (case fv_take_slot (fs_name f) values of
             (Some (SlotCiphertext c), rest) \<Rightarrow> Inr ([(lit ''c'', c)], rest, eql)
           | _ \<Rightarrow> Inl ResponseShape)
      | EncryptIndexVerb \<Rightarrow>
          (case fv_take_slot (fs_name f) values of
             (Some (SlotEncrypted c terms), rest) \<Rightarrow>
               map_sum id (\<lambda>ts. ((lit ''c'', c) # ts, rest, eql)) (keyed_terms terms (fs_keys f))
           | _ \<Rightarrow> Inl ResponseShape)
      | IndexVerb \<Rightarrow>
          (case fv_take_slot (fs_name f) values of
             (Some (SlotTerms terms), rest) \<Rightarrow> map_sum id (\<lambda>ts. (ts, rest, eql)) (keyed_terms terms (fs_keys f))
           | _ \<Rightarrow> Inl ResponseShape)
      | PassthroughVerb \<Rightarrow>
          (case fv_take_slot (fs_name f) values of
             (Some (SlotValue v), rest) \<Rightarrow> Inr ([(lit ''passthrough'', PassthroughCt (Some v))], rest, eql)
           | _ \<Rightarrow> Inl ResponseShape))"

fun shape_loop ::
  "'l field_values \<Rightarrow> bytes list \<Rightarrow> field_shape list \<Rightarrow> (engine_error, (rstr \<times> 'l ciphertext) list) result" where
  "shape_loop values eql [] = Inr []"
| "shape_loop values eql (f # fs) =
     and_then (shape_field values eql f) (\<lambda>(outs, values, eql).
       map_sum id (Cons (fs_name f, MapCt outs)) (shape_loop values eql fs))"

definition shape_record ::
  "'l field_values \<Rightarrow> bytes list \<Rightarrow> field_shape list \<Rightarrow> (engine_error, 'l ciphertext) result" where
  "shape_record values eql shape = map_sum id MapCt (shape_loop values eql shape)"

fun open_loop ::
  "vitaminc \<Rightarrow> 'l field_values \<Rightarrow> ffi_value list \<Rightarrow> field_shape list \<Rightarrow> (engine_error, (rstr \<times> ffi_value) list) result" where
  "open_loop V values eql [] = Inr []"
| "open_loop V values eql (f # fs) =
     (if fs_verb f = IndexVerb then open_loop V values eql fs
      else and_then
        (if fs_verb f = TargetVerb
         then (case eql of v # eql \<Rightarrow> Inr (v, values, eql) | [] \<Rightarrow> Inl ResponseShape)
         else (case fv_take_slot (fs_name f) values of
                 (Some (SlotValue v), rest) \<Rightarrow> Inr (v, rest, eql)
               | _ \<Rightarrow> Inl ResponseShape)) (\<lambda>(v, values, eql).
        if (case fs_kind f of Some k \<Rightarrow> \<not> v_holds V k v | None \<Rightarrow> False)
        then Inl (PlanFailed (FieldType (fs_name f) (v_kind_name V (the (fs_kind f)))))
        else map_sum id (Cons (fs_name f, v)) (open_loop V values eql fs)))"

definition open_record ::
  "vitaminc \<Rightarrow> 'l field_values \<Rightarrow> ffi_value list \<Rightarrow> field_shape list \<Rightarrow> (engine_error, ffi_value) result" where
  "open_record V values eql shape = map_sum id FObject (open_loop V values eql shape)"

section \<open>The stored tree\<close>

record 'l stored_row =
  st_values :: "'l field_values"
  st_targets :: "bytes list"

definition node_of :: "rstr \<Rightarrow> (rstr \<times> 'l ciphertext) list \<Rightarrow> rstr \<Rightarrow> reason \<Rightarrow> (dyn_error, 'l ciphertext) result" where
  "node_of name outs key missing =
     (case take_entry key outs of
        Some (node, _) \<Rightarrow> Inr node
      | None \<Rightarrow> Inl (record_misfit name (absence outs key missing RepeatedKey)))"

definition stored_field ::
  "vitaminc \<Rightarrow> fieldp \<Rightarrow> (rstr \<times> 'l ciphertext) list \<Rightarrow> 'l stored_row \<Rightarrow> (dyn_error, 'l stored_row) result" where
  "stored_field V f outs acc =
     (case fp_verb f of
        TargetVerb \<Rightarrow>
          and_then (node_of (fp_name f) outs EQL_KEY NoEqlNode) (\<lambda>node.
            case node of
              PassthroughCt (Some (FBytes b)) \<Rightarrow> Inr (acc\<lparr>st_targets := st_targets acc @ [b]\<rparr>)
            | _ \<Rightarrow> Inl (record_misfit (fp_name f) NotPassthrough))
      | PassthroughVerb \<Rightarrow>
          and_then (node_of (fp_name f) outs (lit ''passthrough'') NoPassthroughNode) (\<lambda>node.
            case node of
              PassthroughCt (Some v) \<Rightarrow>
                if (case fp_type f of Some k \<Rightarrow> \<not> v_holds V k v | None \<Rightarrow> False)
                then Inl (record_misfit (fp_name f) FieldTypeReason)
                else Inr (acc\<lparr>st_values := fv_insert (fp_name f) (SlotValue v) (st_values acc)\<rparr>)
            | _ \<Rightarrow> Inl (record_misfit (fp_name f) NotPassthrough))
      | _ \<Rightarrow>
          and_then (node_of (fp_name f) outs (lit ''c'') NoCiphertextNode) (\<lambda>node.
          and_then (check_stored_tree (fp_name f) node) (\<lambda>_.
            Inr (acc\<lparr>st_values := fv_insert (fp_name f) (SlotCiphertext node) (st_values acc)\<rparr>))))"

fun record_loop ::
  "vitaminc \<Rightarrow> fieldp list \<Rightarrow> (rstr \<times> 'l ciphertext) list \<Rightarrow> 'l stored_row \<Rightarrow> (dyn_error, 'l stored_row) result" where
  "record_loop V [] row acc = Inr acc"
| "record_loop V (f # fs) row acc =
     (case take_entry (fp_name f) row of
        None \<Rightarrow> Inl (record_misfit (fp_name f) (absence row (fp_name f) FieldMissing FieldRepeated))
      | Some (MapCt outs, row) \<Rightarrow> and_then (stored_field V f outs acc) (record_loop V fs row)
      | Some _ \<Rightarrow> Inl (record_misfit (fp_name f) OutputsNotMap))"

definition record_row :: "vitaminc \<Rightarrow> dplan \<Rightarrow> (rstr \<times> 'l ciphertext) list \<Rightarrow> (dyn_error, 'l stored_row) result" where
  "record_row V plan row =
     record_loop V (filter opens (p_fields plan)) row \<lparr>st_values = [], st_targets = []\<rparr>"

definition record_rows :: "vitaminc \<Rightarrow> dplan \<Rightarrow> 'l ciphertext \<Rightarrow> (dyn_error, 'l stored_row rows) result" where
  "record_rows V plan tree =
     (case tree of
        MapCt row \<Rightarrow> map_sum id One (record_row V plan row)
      | Sequence items \<Rightarrow> map_sum id Batch (collect (\<lambda>item.
          case item of MapCt row \<Rightarrow> record_row V plan row | _ \<Rightarrow> Inl (bad_record NotAnObject)) items)
      | _ \<Rightarrow> Inl (bad_record NotAnObject))"

section \<open>Encrypting and decrypting\<close>

fun name_target :: "rstr \<Rightarrow> target_error \<Rightarrow> target_error" where
  "name_target f (TargetColumn _ l r) = TargetColumn f l r"
| "name_target f (TargetPlaintext _ t e g) = TargetPlaintext f t e g"
| "name_target f (TargetStored _ t r) = TargetStored f t r"
| "name_target f e = e"

definition target_fields :: "dplan \<Rightarrow> fieldp list" where
  "target_fields plan = filter is_target (p_fields plan)"

definition seal_targets ::
  "resolver \<Rightarrow> dplan \<Rightarrow> ffi_value list \<Rightarrow> (dyn_error, (engine_error, bytes) result list) result" where
  "seal_targets R plan vs =
     collect (\<lambda>(f, v). map_sum (\<lambda>e. TargetError (name_target (fp_name f) e)) id
       (r_encrypt R (case fp_target f of Some n \<Rightarrow> n | None \<Rightarrow> []) (fp_label f) v)) (zip (target_fields plan) vs)"

definition open_targets ::
  "resolver \<Rightarrow> dplan \<Rightarrow> bytes list \<Rightarrow> (dyn_error, (engine_error, ffi_value) result list) result" where
  "open_targets R plan bs =
     collect (\<lambda>(f, b). map_sum (\<lambda>e. TargetError (name_target (fp_name f) e)) id
       (r_decrypt R (case fp_target f of Some n \<Rightarrow> n | None \<Rightarrow> []) (fp_label f) b)) (zip (target_fields plan) bs)"

text \<open>One row: the lowered plan's record and the targets' values, shaped.\<close>

definition encrypt_row ::
  "'l engine \<Rightarrow> built_plan \<Rightarrow> dplan \<Rightarrow> 'l field_values \<Rightarrow> (engine_error, bytes) result list \<Rightarrow> (engine_error, 'l ciphertext) result" where
  "encrypt_row E b plan values eql =
     and_then (run_encryption E b values None (p_extension plan)) (\<lambda>values.
     and_then (collect id eql) (\<lambda>eql. shape_record values eql (plan_shape plan)))"

definition decrypt_row ::
  "(bytes \<Rightarrow> rstr) \<Rightarrow> 'l engine \<Rightarrow> vitaminc \<Rightarrow> built_plan \<Rightarrow> dplan \<Rightarrow> label option \<Rightarrow> 'l field_values
     \<Rightarrow> (engine_error, ffi_value) result list \<Rightarrow> (engine_error, ffi_value) result" where
  "decrypt_row b64 E V b plan expected values eql =
     and_then (run_decryption b64 E b values expected (p_extension plan)) (\<lambda>values.
     and_then (collect id eql) (\<lambda>eql. open_record V values eql (plan_shape plan)))"

definition encrypt_with ::
  "'l engine \<Rightarrow> vitaminc \<Rightarrow> resolver \<Rightarrow> dplan \<Rightarrow> ffi_value \<Rightarrow> (dyn_error, (engine_error, 'l ciphertext) result) result" where
  "encrypt_with E V R plan source =
     and_then (source_rows V plan source) (\<lambda>rows.
     and_then (map_sum (\<lambda>_. InternalError) id (lower plan)) (\<lambda>b.
       case rows of
         One row \<Rightarrow>
           and_then (seal_targets R plan (row_targets row)) (\<lambda>eql.
             Inr (encrypt_row E b plan (row_values row) eql))
       | Batch rows \<Rightarrow>
           and_then (collect (\<lambda>row. seal_targets R plan (row_targets row)) rows) (\<lambda>eqls.
             Inr (and_then (map_sum PlanFailed id (check_call b None)) (\<lambda>_. map_sum id Sequence
               (collect (\<lambda>(row, eql). encrypt_row E b plan (row_values row) eql) (zip rows eqls)))))))"

text \<open>The query operand of a target field.\<close>

definition query ::
  "vitaminc \<Rightarrow> resolver \<Rightarrow> dplan \<Rightarrow> rstr \<Rightarrow> ffi_value \<Rightarrow> (dyn_error, (engine_error, bytes) result) result" where
  "query V R plan name value =
     and_then (ok_or (List.find (\<lambda>f. fp_name f = name) (p_fields plan)) (PlanError (Some name) NoSuchFieldReason)) (\<lambda>f.
     and_then (ok_or (fp_target f) (PlanError (Some (fp_name f)) NotATarget)) (\<lambda>target.
     and_then (check_field V value f) (\<lambda>_.
       map_sum (\<lambda>e. TargetError (name_target (fp_name f) e)) id (r_query R target (fp_label f) value))))"

text \<open>\<open>check_opening_call\<close>: asked once of a batch, so that an empty one is refused too.\<close>

definition check_opening_call :: "built_plan \<Rightarrow> label option \<Rightarrow> (engine_error, unit) result" where
  "check_opening_call b call =
     (case bp_source b of
        SrcField _ \<Rightarrow> Inr ()
      | SrcPlan l \<Rightarrow> map_sum PlanFailed (\<lambda>_. ()) (resolve_context (Some l) call)
      | SrcCall \<Rightarrow> map_sum PlanFailed (\<lambda>_. ()) (resolve_context None call))"

definition decrypt_with ::
  "(bytes \<Rightarrow> rstr) \<Rightarrow> 'l engine \<Rightarrow> vitaminc \<Rightarrow> resolver \<Rightarrow> dplan \<Rightarrow> label option \<Rightarrow> 'l ciphertext
     \<Rightarrow> (dyn_error, (engine_error, ffi_value) result) result" where
  "decrypt_with b64 E V R plan expected tree =
     and_then (record_rows V plan tree) (\<lambda>rows.
     and_then (map_sum (\<lambda>_. InternalError) id (lower plan)) (\<lambda>b.
       case rows of
         One row \<Rightarrow>
           and_then (open_targets R plan (st_targets row)) (\<lambda>eql.
             Inr (decrypt_row b64 E V b plan expected (st_values row) eql))
       | Batch rows \<Rightarrow>
           and_then (collect (\<lambda>row. open_targets R plan (st_targets row)) rows) (\<lambda>eqls.
             Inr (and_then (check_opening_call b expected) (\<lambda>_. map_sum id FArray
               (collect (\<lambda>(row, eql). decrypt_row b64 E V b plan expected (st_values row) eql) (zip rows eqls)))))))"

definition rows_list :: "'r rows \<Rightarrow> 'r list" where
  "rows_list rs = (case rs of One r \<Rightarrow> [r] | Batch rs \<Rightarrow> rs)"

definition check_source :: "vitaminc \<Rightarrow> dplan \<Rightarrow> ffi_value \<Rightarrow> (dyn_error, unit) result" where
  "check_source V plan source =
     and_then (source_rows V plan source) (\<lambda>rows :: unit row rows.
     and_then (map_sum (\<lambda>_. InternalError) id (lower plan)) (\<lambda>b.
       discard (collect (\<lambda>row. map_sum (\<lambda>e. case refusal e of (f, r) \<Rightarrow> SourceError f r) id
         (check_value b (row_values row) None)) (rows_list rows))))"

definition check_record_tree ::
  "(bytes \<Rightarrow> rstr) \<Rightarrow> vitaminc \<Rightarrow> dplan \<Rightarrow> label option \<Rightarrow> 'l ciphertext \<Rightarrow> (dyn_error, unit) result" where
  "check_record_tree b64 V plan expected tree =
     and_then (record_rows V plan tree) (\<lambda>rows.
     and_then (map_sum (\<lambda>_. InternalError) id (lower plan)) (\<lambda>b.
       discard (collect (\<lambda>row. map_sum (\<lambda>e. case e of
             ContextMismatch s \<Rightarrow> CipherError (ContextMismatch s)
           | PlanFailed p \<Rightarrow> (case refusal p of (f, r) \<Rightarrow> RecordError f r)
           | _ \<Rightarrow> RecordError None Refused) id
         (check_opening b64 b (st_values row) expected)) (rows_list rows))))"

section \<open>Entries of a row\<close>

definition entries :: "rstr \<Rightarrow> (rstr \<times> 'a) list \<Rightarrow> 'a list" where
  "entries name row = map snd (filter (\<lambda>e. fst e = name) row)"

lemma mset_swap_remove: "i < length xs \<Longrightarrow> mset (swap_remove i xs) = mset xs - {#xs ! i#}"
proof (cases "Suc i = length xs")
  case True
  then have "xs \<noteq> []" "i = length xs - 1" by auto
  then have "xs = butlast xs @ [xs ! i]" by (metis append_butlast_last_id last_conv_nth)
  then have "mset xs = add_mset (xs ! i) (mset (butlast xs))" by (metis mset_append mset.simps(2) union_mset_add_mset_right mset.simps(1) add.right_neutral)
  with True show ?thesis by (simp add: swap_remove_def)
next
  case False
  assume i: "i < length xs"
  with False have ne: "xs \<noteq> []" and ib: "i < length (butlast xs)" by auto
  have "mset ((butlast xs)[i := last xs]) = add_mset (last xs) (mset (butlast xs) - {#butlast xs ! i#})"
    using ib by (simp add: mset_update)
  moreover have "butlast xs ! i = xs ! i" using ib by (simp add: nth_butlast)
  moreover have "mset xs = add_mset (last xs) (mset (butlast xs))"
    using ne by (metis add_mset_add_single append_butlast_last_id mset_append mset_single_iff_right mset_single_iff)
  moreover have "butlast xs ! i \<in># mset (butlast xs)" using ib nth_mem by (simp add: in_set_conv_nth) blast
  ultimately show ?thesis using False by (simp add: swap_remove_def)
qed

lemma mset_entries: "mset (entries name row) = image_mset snd (filter_mset (\<lambda>e. fst e = name) (mset row))"
  by (simp add: entries_def)

lemma filter_nth: "filter P xs = map ((!) xs) (filter (\<lambda>i. P (xs ! i)) [0..<length xs])"
proof -
  have "filter P xs = filter P (map ((!) xs) [0..<length xs])" by (simp add: map_nth)
  also have "\<dots> = map ((!) xs) (filter (P \<circ> (!) xs) [0..<length xs])" by (rule filter_map)
  finally show ?thesis by (simp add: comp_def)
qed

lemma take_entry_Some:
  assumes "take_entry name row = Some (v, row')"
  shows "entries name row = [v]" and "mset row = add_mset (name, v) (mset row')"
proof -
  obtain at where at: "filter (\<lambda>i. fst (row ! i) = name) [0..<length row] = [at]"
    and v: "v = snd (row ! at)" and r: "row' = swap_remove at row"
    using assms by (auto simp: take_entry_def split: list.splits)
  have "at \<in> set (filter (\<lambda>i. fst (row ! i) = name) [0..<length row])" by (simp add: at)
  then have m: "at < length row" "row ! at = (name, v)" using v by (auto simp: prod_eq_iff)
  show "entries name row = [v]" using filter_nth [of "\<lambda>e. fst e = name" row] at v by (simp add: entries_def)
  have "row ! at \<in># mset row" using m(1) by simp
  then show "mset row = add_mset (name, v) (mset row')" using mset_swap_remove [OF m(1)] m(2) r by simp
qed

lemma take_entry_ok:
  assumes "entries name row = [v]"
  obtains row' where "take_entry name row = Some (v, row')"
proof -
  have "map snd (map ((!) row) (filter (\<lambda>i. fst (row ! i) = name) [0..<length row])) = [v]"
    using assms filter_nth [of "\<lambda>e. fst e = name" row] by (simp add: entries_def)
  then obtain at where "filter (\<lambda>i. fst (row ! i) = name) [0..<length row] = [at]" "v = snd (row ! at)" by auto
  then have "take_entry name row = Some (v, swap_remove at row)" by (simp add: take_entry_def)
  then show ?thesis by (rule that)
qed

lemma take_entry_other:
  assumes "take_entry name row = Some (v, row')" and "n \<noteq> name"
  shows "entries n row' = [x] \<longleftrightarrow> entries n row = [x]"
proof -
  have "mset (entries n row) = mset (entries n row')"
    using take_entry_Some(2) [OF assms(1)] assms(2) by (simp add: mset_entries)
  then show ?thesis by (metis mset_single_iff_right)
qed

lemma fv_insert_fresh: "name \<notin> fst ` set fv \<Longrightarrow> fv_insert name s fv = fv @ [(name, s)]"
  by (induction fv rule: fv_insert.induct) auto

section \<open>What a source row gives\<close>

text \<open>The value a row has for a field.\<close>

definition field_value :: "(rstr \<times> ffi_value) list \<Rightarrow> fieldp \<Rightarrow> ffi_value" where
  "field_value row f = hd (entries (fp_name f) row)"

definition values_of :: "fieldp list \<Rightarrow> (rstr \<times> ffi_value) list \<Rightarrow> 'l field_values" where
  "values_of fs row = map (\<lambda>f. (fp_name f, SlotValue (field_value row f))) (filter (\<lambda>f. \<not> is_target f) fs)"

definition targets_of :: "fieldp list \<Rightarrow> (rstr \<times> ffi_value) list \<Rightarrow> ffi_value list" where
  "targets_of fs row = map (field_value row) (filter is_target fs)"

lemma source_loop_spec:
  assumes "source_loop V fs row acc = Inr (rest, out)" and "distinct (map fp_name fs)"
    and "fst ` set (row_values acc) \<inter> fp_name ` set fs = {}"
  shows "(\<forall>f \<in> set fs. entries (fp_name f) row = [field_value row f] \<and> check_field V (field_value row f) f = Inr ())
    \<and> mset row = mset rest + mset (map (\<lambda>f. (fp_name f, field_value row f)) fs)
    \<and> row_values out = row_values acc @ values_of fs row
    \<and> row_targets out = row_targets acc @ targets_of fs row"
  using assms
proof (induction fs arbitrary: row acc)
  case Nil
  then show ?case by (simp add: values_of_def targets_of_def)
next
  case (Cons f fs)
  obtain v row' where t: "take_entry (fp_name f) row = Some (v, row')" and c: "check_field V v f = Inr ()"
    and l: "source_loop V fs row' (if is_target f then acc\<lparr>row_targets := row_targets acc @ [v]\<rparr>
               else acc\<lparr>row_values := fv_insert (fp_name f) (SlotValue v) (row_values acc)\<rparr>) = Inr (rest, out)"
    using Cons.prems(1) by (auto split: option.splits simp: and_then_Inr_iff)
  note e = take_entry_Some [OF t]
  have v: "v = field_value row f" using e(1) by (simp add: field_value_def)
  have fresh: "fp_name f \<notin> fst ` set (row_values acc)" using Cons.prems(3) by auto
  note IH = Cons.IH [OF l]
  have IH: "(\<forall>g \<in> set fs. entries (fp_name g) row' = [field_value row' g] \<and> check_field V (field_value row' g) g = Inr ())
    \<and> mset row' = mset rest + mset (map (\<lambda>f. (fp_name f, field_value row' f)) fs)
    \<and> row_values out = row_values acc @ (if is_target f then [] else [(fp_name f, SlotValue v)]) @ values_of fs row'
    \<and> row_targets out = row_targets acc @ (if is_target f then [v] else []) @ targets_of fs row'"
    using IH Cons.prems(2,3) fresh by (auto simp: fv_insert_fresh split: if_splits)
  have same: "entries (fp_name g) row = [field_value row g] \<and> field_value row g = field_value row' g" if "g \<in> set fs" for g
  proof -
    have "fp_name g \<noteq> fp_name f" using Cons.prems(2) that by (metis distinct.simps(2) imageI list.set_map list.simps(9))
    then have "entries (fp_name g) row = [field_value row' g]"
      using take_entry_other [OF t] IH that by blast
    then show ?thesis by (simp add: field_value_def)
  qed
  then have "image_mset (\<lambda>f. (fp_name f, field_value row' f)) (mset fs) = image_mset (\<lambda>f. (fp_name f, field_value row f)) (mset fs)"
    by (intro image_mset_cong) auto
  moreover have "values_of fs row' = values_of fs row" "targets_of fs row' = targets_of fs row"
    using same by (simp_all add: values_of_def targets_of_def)
  ultimately show ?case using IH e c v same by (simp add: values_of_def targets_of_def)
qed

lemma source_row_spec:
  assumes "plan_ok plan" and "source_row V plan row = Inr r"
  shows "r = \<lparr>row_values = values_of (p_fields plan) row, row_targets = targets_of (p_fields plan) row\<rparr>"
    and "mset row = mset (map (\<lambda>f. (fp_name f, field_value row f)) (p_fields plan))"
    and "f \<in> set (p_fields plan) \<Longrightarrow> entries (fp_name f) row = [field_value row f] \<and> check_field V (field_value row f) f = Inr ()"
proof -
  obtain rest acc where "source_loop V (p_fields plan) row \<lparr>row_values = [], row_targets = []\<rparr> = Inr (rest, acc)"
      "(case rest of (extra, _) # _ \<Rightarrow> Inl (source_misfit extra UnknownField) | [] \<Rightarrow> Inr acc) = Inr r"
    using assms(2) by (auto simp: source_row_def and_then_Inr_iff)
  then have "source_loop V (p_fields plan) row \<lparr>row_values = [], row_targets = []\<rparr> = Inr ([], r)"
    by (cases rest) auto
  from source_loop_spec [OF this] assms(1) show "r = \<lparr>row_values = values_of (p_fields plan) row, row_targets = targets_of (p_fields plan) row\<rparr>"
    "mset row = mset (map (\<lambda>f. (fp_name f, field_value row f)) (p_fields plan))"
    "f \<in> set (p_fields plan) \<Longrightarrow> entries (fp_name f) row = [field_value row f] \<and> check_field V (field_value row f) f = Inr ()"
    by (auto simp: plan_ok_def)
qed

end
