(* ===== verification/Record_Roundtrip.thy ===== *)
theory Record_Roundtrip
  imports Record_Rows
begin

text \<open>
  What the record path guarantees: a stored record is read only when every sealed field has one
  sealed tree, and what is encrypted under a plan decrypts under it to the fields that come back.
\<close>

lemma disjoint_extended: "A' = A \<union> B \<Longrightarrow> B \<subseteq> {x} \<Longrightarrow> x \<notin> C \<Longrightarrow> A \<inter> C = {} \<Longrightarrow> A' \<inter> C = {}"
  by blast

lemma list_all2_pair: "list_all2 P xs ys \<Longrightarrow> x \<in> set xs \<Longrightarrow> \<exists>y. (x, y) \<in> set (zip xs ys) \<and> P x y"
  by (induction xs ys rule: list_all2_induct) auto

section \<open>The stored tree\<close>

text \<open>A tree that is sealed throughout: no passthrough anywhere, and no key twice in a map.\<close>

fun sealed_tree :: "'l ciphertext \<Rightarrow> bool" where
  "sealed_tree (PassthroughCt _) = False"
| "sealed_tree (Sequence items) = list_all sealed_tree items"
| "sealed_tree (MapCt es) = (keys_are_unique es \<and> list_all (\<lambda>e. sealed_tree (snd e)) es)"
| "sealed_tree _ = True"

lemma discard_Inr [simp]: "discard r = Inr () \<longleftrightarrow> is_ok r"
  by (cases r) (simp_all add: discard_def)

lemma is_ok_unit: "is_ok (r :: ('e, unit) result) \<longleftrightarrow> r = Inr ()"
  by (cases r) simp_all

lemma is_ok_collect: "is_ok (collect f xs) \<longleftrightarrow> list_all (\<lambda>x. is_ok (f x)) xs"
  by (induction xs) (auto split: sum.splits)

lemma check_stored_tree_iff: "check_stored_tree f c = Inr () \<longleftrightarrow> sealed_tree c"
  by (induction f c rule: check_stored_tree.induct)
    (auto simp: is_ok_collect is_ok_unit list_all_iff)

text \<open>What is read of one field's outputs: the slot of a field the lowered plan opens, or the bytes
  of a target.\<close>

definition read_stored :: "vitaminc \<Rightarrow> fieldp \<Rightarrow> (rstr \<times> 'l ciphertext) list \<Rightarrow> ('l slot + bytes) \<Rightarrow> bool" where
  "read_stored V f outs item \<longleftrightarrow>
     (case fp_verb f of
        TargetVerb \<Rightarrow> (\<exists>b. entries EQL_KEY outs = [PassthroughCt (Some (FBytes b))] \<and> item = Inr b)
      | PassthroughVerb \<Rightarrow> (\<exists>v. entries (lit ''passthrough'') outs = [PassthroughCt (Some v)]
          \<and> (\<forall>k. fp_type f = Some k \<longrightarrow> v_holds V k v) \<and> item = Inl (SlotValue v))
      | _ \<Rightarrow> (\<exists>c. entries (lit ''c'') outs = [c] \<and> sealed_tree c \<and> item = Inl (SlotCiphertext c)))"

definition add_item :: "fieldp \<Rightarrow> ('l slot + bytes) \<Rightarrow> 'l stored_row \<Rightarrow> 'l stored_row" where
  "add_item f item acc =
     (case item of
        Inl s \<Rightarrow> acc\<lparr>st_values := fv_insert (fp_name f) s (st_values acc)\<rparr>
      | Inr b \<Rightarrow> acc\<lparr>st_targets := st_targets acc @ [b]\<rparr>)"

lemma node_of_Inr: "node_of name outs key missing = Inr c \<longleftrightarrow> entries key outs = [c]"
proof
  assume "node_of name outs key missing = Inr c"
  then obtain row' where "take_entry key outs = Some (c, row')" by (auto simp: node_of_def split: option.splits)
  then show "entries key outs = [c]" by (rule take_entry_Some(1))
next
  assume "entries key outs = [c]"
  then show "node_of name outs key missing = Inr c" by (rule take_entry_ok) (simp add: node_of_def)
qed

lemma bytes_node_iff:
  "(case node of PassthroughCt (Some (FBytes b)) \<Rightarrow> Inr (g b) | _ \<Rightarrow> Inl e) = Inr x
     \<longleftrightarrow> (\<exists>b. node = PassthroughCt (Some (FBytes b)) \<and> x = g b)"
  by (auto split: ciphertext.splits option.splits ffi_value.splits)

lemma value_node_iff:
  "(case node of PassthroughCt (Some v) \<Rightarrow> if P v then Inl e' else Inr (g v) | _ \<Rightarrow> Inl e) = Inr x
     \<longleftrightarrow> (\<exists>v. node = PassthroughCt (Some v) \<and> \<not> P v \<and> x = g v)"
  by (auto split: ciphertext.splits option.splits if_splits)

lemma kind_ok_iff: "\<not> (case t of Some k \<Rightarrow> \<not> P k | None \<Rightarrow> False) \<longleftrightarrow> (\<forall>k. t = Some k \<longrightarrow> P k)"
  by (cases t) auto

lemma stored_field_iff: "stored_field V f outs acc = Inr acc' \<longleftrightarrow> (\<exists>item. read_stored V f outs item \<and> acc' = add_item f item acc)"
  by (cases "fp_verb f")
    (auto simp: stored_field_def read_stored_def and_then_Inr_iff node_of_Inr add_item_def check_stored_tree_iff
      bytes_node_iff value_node_iff kind_ok_iff)

definition read_field_of :: "vitaminc \<Rightarrow> (rstr \<times> 'l ciphertext) list \<Rightarrow> fieldp \<Rightarrow> ('l slot + bytes) \<Rightarrow> bool" where
  "read_field_of V row f item \<longleftrightarrow> (\<exists>outs. entries (fp_name f) row = [MapCt outs] \<and> read_stored V f outs item)"

lemma record_loop_iff:
  "distinct (map fp_name fs) \<Longrightarrow>
   record_loop V fs row acc = Inr out \<longleftrightarrow>
     (\<exists>items. list_all2 (read_field_of V row) fs items \<and> out = fold (\<lambda>(f, i). add_item f i) (zip fs items) acc)"
proof (induction fs arbitrary: row acc)
  case (Cons f fs)
  have other: "list_all2 (read_field_of V row') fs items = list_all2 (read_field_of V row) fs items"
    if "take_entry (fp_name f) row = Some (v, row')" for v row' items
  proof (rule list.rel_cong [OF refl refl])
    fix g i assume "g \<in> set fs"
    then have "fp_name g \<noteq> fp_name f" using Cons.prems by (metis distinct.simps(2) imageI list.set_map list.simps(9))
    from take_entry_other [OF that this] show "read_field_of V row' g i = read_field_of V row g i"
      by (simp add: read_field_of_def)
  qed
  have d: "distinct (map fp_name fs)" using Cons.prems by simp
  show ?case
  proof
    assume "record_loop V (f # fs) row acc = Inr out"
    then obtain outs row' acc' where t: "take_entry (fp_name f) row = Some (MapCt outs, row')"
      and s: "stored_field V f outs acc = Inr acc'" and l: "record_loop V fs row' acc' = Inr out"
      by (auto simp: and_then_Inr_iff split: option.splits ciphertext.splits)
    obtain item where "read_stored V f outs item" "acc' = add_item f item acc" using s by (auto simp: stored_field_iff)
    moreover obtain items where "list_all2 (read_field_of V row) fs items"
        "out = fold (\<lambda>(f, i). add_item f i) (zip fs items) acc'"
      using l Cons.IH [OF d] other [OF t] by auto
    ultimately show "\<exists>items. list_all2 (read_field_of V row) (f # fs) items \<and> out = fold (\<lambda>(f, i). add_item f i) (zip (f # fs) items) acc"
      using take_entry_Some(1) [OF t] by (intro exI [of _ "item # items"]) (auto simp: read_field_of_def)
  next
    assume "\<exists>items. list_all2 (read_field_of V row) (f # fs) items \<and> out = fold (\<lambda>(f, i). add_item f i) (zip (f # fs) items) acc"
    then obtain item items outs where e: "entries (fp_name f) row = [MapCt outs]" and r: "read_stored V f outs item"
      and l: "list_all2 (read_field_of V row) fs items" and o: "out = fold (\<lambda>(f, i). add_item f i) (zip fs items) (add_item f item acc)"
      by (auto simp: list_all2_Cons1 read_field_of_def)
    obtain row' where t: "take_entry (fp_name f) row = Some (MapCt outs, row')" using e by (rule take_entry_ok)
    have "stored_field V f outs acc = Inr (add_item f item acc)" using r by (auto simp: stored_field_iff)
    moreover have "record_loop V fs row' (add_item f item acc) = Inr out"
      using Cons.IH [OF d] other [OF t] l o by blast
    ultimately show "record_loop V (f # fs) row acc = Inr out" using t by simp
  qed
qed auto

text \<open>The slots and the bytes that a list of items makes.\<close>

definition item_slots :: "(fieldp \<times> ('l slot + bytes)) list \<Rightarrow> 'l field_values" where
  "item_slots fis = List.map_filter (\<lambda>(f, i). case i of Inl s \<Rightarrow> Some (fp_name f, s) | Inr _ \<Rightarrow> None) fis"

definition item_bytes :: "(fieldp \<times> ('l slot + bytes)) list \<Rightarrow> bytes list" where
  "item_bytes fis = List.map_filter (\<lambda>(f, i). case i of Inr b \<Rightarrow> Some b | Inl _ \<Rightarrow> None) fis"

lemma fold_add_items:
  "distinct (map fp_name (map fst fis)) \<Longrightarrow> fst ` set (st_values acc) \<inter> fp_name ` fst ` set fis = {} \<Longrightarrow>
   fold (\<lambda>(f, i). add_item f i) fis acc
     = acc\<lparr>st_values := st_values acc @ item_slots fis, st_targets := st_targets acc @ item_bytes fis\<rparr>"
proof (induction fis arbitrary: acc)
  case (Cons fi fis)
  obtain f i where fi: "fi = (f, i)" by (cases fi)
  have fresh: "fp_name f \<notin> fst ` set (st_values acc)" using Cons.prems(2) fi by auto
  let ?acc = "add_item f i acc"
  have acc: "?acc = acc\<lparr>st_values := st_values acc @ item_slots [(f, i)], st_targets := st_targets acc @ item_bytes [(f, i)]\<rparr>"
    using fresh by (cases i) (simp_all add: add_item_def fv_insert_fresh item_slots_def item_bytes_def map_filter_simps)
  have "fst ` set (st_values ?acc) \<inter> fp_name ` fst ` set fis = {}"
  proof -
    have a: "fst ` set (item_slots [(f, i)]) \<subseteq> {fp_name f}" by (cases i) (simp_all add: item_slots_def map_filter_simps)
    have b: "fp_name f \<notin> fp_name ` fst ` set fis" using Cons.prems(1) fi by (auto simp: image_iff)
    have c: "fst ` set (st_values acc) \<inter> fp_name ` fst ` set fis = {}" using Cons.prems(2) fi by auto
    have e: "fst ` set (st_values ?acc) = fst ` set (st_values acc) \<union> fst ` set (item_slots [(f, i)])"
      unfolding acc by (simp add: image_Un)
    show ?thesis by (rule disjoint_extended [OF e a b c])
  qed
  moreover have "item_slots (fi # fis) = item_slots [(f, i)] @ item_slots fis" "item_bytes (fi # fis) = item_bytes [(f, i)] @ item_bytes fis"
    using fi by (cases i; simp add: item_slots_def item_bytes_def map_filter_simps)+
  ultimately show ?case using Cons.IH [of ?acc] Cons.prems fi by (simp add: acc)
qed (simp add: item_slots_def item_bytes_def map_filter_simps)


lemma item_slot_of:
  assumes "distinct (map fp_name fs)" and "length fs = length items" and "(f, Inl s) \<in> set (zip fs items)"
  shows "fv_slot (fp_name f) (item_slots (zip fs items)) = Some s"
proof -
  have keys: "(n, t) \<in> set (item_slots fis) \<longleftrightarrow> (\<exists>f. (f, Inl t) \<in> set fis \<and> n = fp_name f)" for n t fis
    by (induction fis) (auto simp: item_slots_def map_filter_simps split: sum.splits)
  have dist: "distinct (map fst (item_slots fis))" if "distinct (map fp_name (map fst fis))" for fis :: "(fieldp \<times> ('a slot + bytes)) list"
    using that
  proof (induction fis)
    case (Cons fi fis)
    obtain g i where fi: "fi = (g, i)" by (cases fi)
    have "item_slots (fi # fis) = (case i of Inl t \<Rightarrow> [(fp_name g, t)] | Inr _ \<Rightarrow> []) @ item_slots fis"
      using fi by (simp add: item_slots_def map_filter_simps split: sum.splits)
    moreover have "fp_name g \<notin> fst ` set (item_slots fis)"
    proof
      assume "fp_name g \<in> fst ` set (item_slots fis)"
      then obtain t h where "(h, Inl t) \<in> set fis" "fp_name g = fp_name h" using keys by fastforce
      then have "fp_name g \<in> fp_name ` fst ` set fis" by force
      with Cons.prems fi show False by (simp add: image_image)
    qed
    ultimately show ?case using Cons by (cases i) simp_all
  qed (simp add: item_slots_def map_filter_simps)
  have "distinct (map fst (item_slots (zip fs items)))" by (rule dist) (simp add: assms(1,2) del: map_map)
  moreover have "(fp_name f, s) \<in> set (item_slots (zip fs items))" using assms(3) keys by blast
  ultimately show ?thesis by (simp add: fv_slot_def)
qed

lemma record_row_iff:
  assumes "plan_ok plan"
  shows "record_row V plan row = Inr out \<longleftrightarrow>
    (\<exists>items. list_all2 (read_field_of V row) (filter opens (p_fields plan)) items
       \<and> out = \<lparr>st_values = item_slots (zip (filter opens (p_fields plan)) items),
                st_targets = item_bytes (zip (filter opens (p_fields plan)) items)\<rparr>)"
proof -
  let ?fs = "filter opens (p_fields plan)"
  have d: "distinct (map fp_name ?fs)" using assms by (simp add: plan_ok_def distinct_map_filter)
  have "fold (\<lambda>(f, i). add_item f i) (zip ?fs items) \<lparr>st_values = [], st_targets = []\<rparr>
      = \<lparr>st_values = item_slots (zip ?fs items), st_targets = item_bytes (zip ?fs items)\<rparr>"
    if "list_all2 (read_field_of V row) ?fs items" for items :: "('a slot + bytes) list"
    using fold_add_items [of "zip ?fs items" "\<lparr>st_values = [], st_targets = []\<rparr>"] d list_all2_lengthD [OF that] by simp
  then show ?thesis unfolding record_row_def record_loop_iff [OF d] by metis
qed

section \<open>Properties of stored records\<close>

text \<open>
  C12. A forged or ambiguous stored record is refused before anything is opened. If a stored row
  is read at all, every sealed or passthrough field is in it exactly once; a sealed field has exactly
  one \<open>c\<close> node, which is sealed throughout (no passthrough at any depth, no key twice), and that
  node and nothing else is what the engine is given to open; a passthrough carries a value of
  the declared kind. A field with an EQL target is not covered, and an index-only field is not
  read.\<close>

theorem stored_forgeries_refused:
  assumes "plan_ok plan" and "record_row V plan row = Inr out" and "f \<in> set (p_fields plan)"
  shows "(fp_verb f = EncryptVerb \<or> fp_verb f = EncryptIndexVerb \<longrightarrow>
      (\<exists>outs c. entries (fp_name f) row = [MapCt outs] \<and> entries (lit ''c'') outs = [c] \<and> sealed_tree c
         \<and> fv_slot (fp_name f) (st_values out) = Some (SlotCiphertext c)))
    \<and> (fp_verb f = PassthroughVerb \<longrightarrow>
      (\<exists>outs v. entries (fp_name f) row = [MapCt outs] \<and> entries (lit ''passthrough'') outs = [PassthroughCt (Some v)]
         \<and> (\<forall>k. fp_type f = Some k \<longrightarrow> v_holds V k v) \<and> fv_slot (fp_name f) (st_values out) = Some (SlotValue v)))"
proof (cases "opens f \<and> fp_verb f \<noteq> TargetVerb")
  case True
  let ?fs = "filter opens (p_fields plan)"
  obtain items where it: "list_all2 (read_field_of V row) ?fs items"
    and out: "st_values out = item_slots (zip ?fs items)"
    using assms(1,2) by (auto simp: record_row_iff)
  have d: "distinct (map fp_name ?fs)" using assms(1) by (simp add: plan_ok_def distinct_map_filter)
  obtain i where fi: "(f, i) \<in> set (zip ?fs items)" "read_field_of V row f i"
    using list_all2_pair [OF it, of f] True assms(3) by auto
  obtain outs where o: "entries (fp_name f) row = [MapCt outs]" "read_stored V f outs i" using fi(2) by (auto simp: read_field_of_def)
  obtain s where s: "i = Inl s" using o(2) True by (cases "fp_verb f") (auto simp: read_stored_def opens_def)
  have "fv_slot (fp_name f) (item_slots (zip ?fs items)) = Some s"
    using item_slot_of [OF d _ fi(1) [unfolded s]] list_all2_lengthD [OF it] by simp
  then show ?thesis using o s out by (cases "fp_verb f") (auto simp: read_stored_def)
next
  case False
  then show ?thesis by (auto simp: opens_def)
qed

section \<open>The lowered plan\<close>

text \<open>A field of the built plan and the declared field it comes from.\<close>

definition built_as :: "plan_context \<Rightarrow> fieldp \<Rightarrow> field_plan \<Rightarrow> bool" where
  "built_as ctx f bf \<longleftrightarrow> bf_name bf = fp_name f \<and>
     (if plan_context_field ctx = Some (fp_name f) then bf_kind bf = ContextField \<and> bf_indexes bf = []
      else bf_identity bf = fp_identity f \<and> bf_kind bf = kind_of_verb (fp_verb f) \<and> bf_indexes bf = d_indexes (decl_of f))"

definition same_field :: "declared \<Rightarrow> field_plan \<Rightarrow> bool" where
  "same_field d b \<longleftrightarrow> bf_name b = d_name d \<and> bf_identity b = identity_of d \<and> bf_kind b = d_kind d \<and> bf_indexes b = d_indexes d"

lemma freeze_same: "freeze_fields src earlier ds = Inr bs \<Longrightarrow> list_all2 same_field ds bs"
  by (induction ds arbitrary: earlier bs) (auto simp: and_then_Inr_iff same_field_def)

lemma same_field_names: "list_all2 same_field ds bs \<Longrightarrow> map bf_name bs = map d_name ds"
  by (induction ds bs rule: list_all2_induct) (auto simp: same_field_def)

lemma list_all2_left: "list_all2 P xs ys \<Longrightarrow> x \<in> set xs \<Longrightarrow> \<exists>y \<in> set ys. P x y"
  by (induction xs ys rule: list_all2_induct) auto

lemma list_all2_right: "list_all2 P xs ys \<Longrightarrow> y \<in> set ys \<Longrightarrow> \<exists>x \<in> set xs. P x y"
  by (induction xs ys rule: list_all2_induct) auto

lemma same_decl_built: "lowered ctx f \<Longrightarrow> same_field (decl_of f) b \<longleftrightarrow> built_as ctx f b"
  by (simp add: lowered_def same_field_def built_as_def)

lemma low_built:
  assumes "list_all2 same_field (map decl_of (filter (lowered ctx) fs)) bs"
  shows "bf \<in> set bs \<Longrightarrow> \<exists>f \<in> set fs. lowered ctx f \<and> built_as ctx f bf"
    and "f \<in> set fs \<Longrightarrow> lowered ctx f \<Longrightarrow> \<exists>bf \<in> set bs. built_as ctx f bf"
proof -
  assume "bf \<in> set bs"
  from list_all2_right [OF assms this] obtain f where "f \<in> set fs" "lowered ctx f" "same_field (decl_of f) bf" by auto
  then show "\<exists>f \<in> set fs. lowered ctx f \<and> built_as ctx f bf" using same_decl_built by blast
next
  assume "f \<in> set fs" and l: "lowered ctx f"
  then have "decl_of f \<in> set (map decl_of (filter (lowered ctx) fs))" by simp
  from list_all2_left [OF assms this] show "\<exists>bf \<in> set bs. built_as ctx f bf" using same_decl_built [OF l] by blast
qed

lemma lower_built:
  assumes "plan_ok plan" and "lower plan = Inr b"
  shows "\<forall>bf \<in> set (bp_fields b). \<exists>f \<in> set (p_fields plan). \<not> is_target f \<and> built_as (p_context plan) f bf"
    and "\<forall>f \<in> set (p_fields plan). \<not> is_target f \<longrightarrow> (\<exists>bf \<in> set (bp_fields b). built_as (p_context plan) f bf)"
    and "distinct (map bf_name (bp_fields b))"
    and "bp_source b = (case p_context plan of CtxLabel l \<Rightarrow> SrcPlan l | CtxField n \<Rightarrow> SrcField n)"
proof -
  let ?low = "filter (lowered (p_context plan)) (p_fields plan)"
  have dn: "distinct (map fp_name (p_fields plan))" using assms(1) by (simp add: plan_ok_def)
  then have dl: "distinct (map fp_name ?low)" by (rule distinct_map_filter)
  have "(\<forall>bf \<in> set (bp_fields b). \<exists>f \<in> set (p_fields plan). \<not> is_target f \<and> built_as (p_context plan) f bf)
    \<and> (\<forall>f \<in> set (p_fields plan). \<not> is_target f \<longrightarrow> (\<exists>bf \<in> set (bp_fields b). built_as (p_context plan) f bf))
    \<and> distinct (map bf_name (bp_fields b))
    \<and> bp_source b = (case p_context plan of CtxLabel l \<Rightarrow> SrcPlan l | CtxField n \<Rightarrow> SrcField n)"
  proof (cases "p_context plan")
    case (CtxLabel l)
    then obtain bs where bs: "freeze_fields (SrcPlan l) [] (map decl_of ?low) = Inr bs" and b: "b = \<lparr>bp_source = SrcPlan l, bp_fields = bs\<rparr>"
      using assms(2) by (auto simp: lower_label map_sum_Inr_iff)
    have same: "list_all2 same_field (map decl_of ?low) bs" by (rule freeze_same [OF bs])
    have low: "lowered (p_context plan) f \<longleftrightarrow> \<not> is_target f" for f using CtxLabel by (simp add: lowered_def)
    have "map bf_name bs = map fp_name ?low" using same_field_names [OF same] by simp
    moreover have "\<exists>f \<in> set (p_fields plan). \<not> is_target f \<and> built_as (p_context plan) f bf" if "bf \<in> set bs" for bf
      using low_built(1) [OF same that] low by blast
    moreover have "\<exists>bf \<in> set bs. built_as (p_context plan) f bf" if "f \<in> set (p_fields plan)" "\<not> is_target f" for f
      using low_built(2) [OF same that(1)] low that(2) by blast
    ultimately show ?thesis using b dl CtxLabel by simp
  next
    case (CtxField cf)
    then obtain bs where bs: "freeze_fields (SrcField cf) [] (context_decl cf # map decl_of ?low) = Inr bs"
      and b: "b = \<lparr>bp_source = SrcField cf, bp_fields = bs\<rparr>"
      using assms(2) by (auto simp: lower_context_field map_sum_Inr_iff)
    obtain c bs' where c: "bs = c # bs'" "same_field (context_decl cf) c" and same: "list_all2 same_field (map decl_of ?low) bs'"
      using freeze_same [OF bs] by (auto simp: list_all2_Cons1)
    obtain g where g: "g \<in> set (p_fields plan)" "fp_name g = cf" "\<not> is_target g"
      using assms(1) CtxField by (auto simp: plan_ok_def context_ok_def)
    have gc: "built_as (p_context plan) f c" if "fp_name f = cf" for f
      using that c(2) CtxField by (simp add: built_as_def same_field_def context_decl_def)
    have low: "lowered (p_context plan) f \<longleftrightarrow> \<not> is_target f \<and> fp_name f \<noteq> cf" for f
      using CtxField by (auto simp: lowered_def)
    have names: "map bf_name bs' = map fp_name ?low" using same_field_names [OF same] by simp
    moreover have "cf \<notin> fp_name ` set ?low" using low by auto
    moreover have "bf_name c = cf" using c(2) by (simp add: same_field_def context_decl_def)
    ultimately have "distinct (map bf_name bs)" using c(1) dl by (metis distinct.simps(2) list.set_map list.simps(9))
    moreover have "\<exists>f \<in> set (p_fields plan). \<not> is_target f \<and> built_as (p_context plan) f bf" if m: "bf \<in> set bs" for bf
    proof (cases "bf = c")
      case True
      then show ?thesis using g gc by blast
    next
      case False
      then show ?thesis using m c(1) low_built(1) [OF same, of bf] low by auto
    qed
    moreover have "\<exists>bf \<in> set bs. built_as (p_context plan) f bf" if f: "f \<in> set (p_fields plan)" "\<not> is_target f" for f
    proof (cases "fp_name f = cf")
      case True
      then show ?thesis using gc c(1) by auto
    next
      case False
      then show ?thesis using low_built(2) [OF same f(1)] f(2) low c(1) by auto
    qed
    ultimately show ?thesis using b CtxField by simp
  qed
  then show "\<forall>bf \<in> set (bp_fields b). \<exists>f \<in> set (p_fields plan). \<not> is_target f \<and> built_as (p_context plan) f bf"
    "\<forall>f \<in> set (p_fields plan). \<not> is_target f \<longrightarrow> (\<exists>bf \<in> set (bp_fields b). built_as (p_context plan) f bf)"
    "distinct (map bf_name (bp_fields b))"
    "bp_source b = (case p_context plan of CtxLabel l \<Rightarrow> SrcPlan l | CtxField n \<Rightarrow> SrcField n)" by blast+
qed

section \<open>Slots\<close>

lemma take_slot_fst: "fst (fv_take_slot name fv) = fv_slot name fv"
  by (induction fv) (auto simp: fv_slot_def split: prod.splits)

lemma take_slot_other: "n \<noteq> name \<Longrightarrow> fv_slot n (snd (fv_take_slot name fv)) = fv_slot n fv"
  by (induction fv) (auto simp: fv_slot_def split: prod.splits)

lemma take_slot_Some: "fv_take_slot name fv = (Some s, rest) \<Longrightarrow> fv_slot name fv = Some s \<and> (\<forall>n. n \<noteq> name \<longrightarrow> fv_slot n rest = fv_slot n fv)"
  using take_slot_fst [of name fv] take_slot_other [of _ name fv] by auto

lemma take_slot_ok: "fv_slot name fv = Some s \<Longrightarrow> fv_take_slot name fv = (Some s, snd (fv_take_slot name fv))"
  using take_slot_fst [of name fv] by (metis prod.collapse)

lemma openings_ok:
  assumes "distinct (map bf_name fs)"
    and "\<And>bf. bf \<in> set fs \<Longrightarrow> comes_back bf \<Longrightarrow> field_opening ext base bf (fv_slot (bf_name bf) rec) = Inr (job bf)"
  shows "openings ext base fs rec = Inr (map job (filter comes_back fs))"
  using assms
proof (induction fs arbitrary: rec)
  case (Cons f fs)
  obtain slot rec' where t: "fv_take_slot (bf_name f) rec = (slot, rec')" by fastforce
  have slot: "slot = fv_slot (bf_name f) rec" using take_slot_fst [of "bf_name f" rec] t by simp
  have "fv_slot (bf_name bf) rec' = fv_slot (bf_name bf) rec" if "bf \<in> set fs" for bf
  proof -
    have "bf_name bf \<noteq> bf_name f" using Cons.prems(1) that by (metis distinct.simps(2) imageI list.set_map list.simps(9))
    then show ?thesis using take_slot_other [of "bf_name bf" "bf_name f" rec] t by simp
  qed
  then have "openings ext base fs rec' = Inr (map job (filter comes_back fs))" using Cons by simp
  then show ?case using t slot Cons.prems(2) [of f] by simp
qed simp

text \<open>The outputs a field's slot is stored as.\<close>

definition field_outs :: "'l field_values \<Rightarrow> (fieldp \<Rightarrow> bytes) \<Rightarrow> fieldp \<Rightarrow> (rstr \<times> 'l ciphertext) list \<Rightarrow> bool" where
  "field_outs vals g f outs \<longleftrightarrow>
     (case fp_verb f of
        TargetVerb \<Rightarrow> outs = [(EQL_KEY, byte_node (g f))]
      | EncryptVerb \<Rightarrow> (\<exists>c. fv_slot (fp_name f) vals = Some (SlotCiphertext c) \<and> outs = [(lit ''c'', c)])
      | EncryptIndexVerb \<Rightarrow> (\<exists>c ts nodes. fv_slot (fp_name f) vals = Some (SlotEncrypted c ts)
          \<and> keyed_terms ts (map index_key (indexes f)) = Inr nodes \<and> outs = (lit ''c'', c) # nodes)
      | IndexVerb \<Rightarrow> (\<exists>ts. fv_slot (fp_name f) vals = Some (SlotTerms ts) \<and> keyed_terms ts (map index_key (indexes f)) = Inr outs)
      | PassthroughVerb \<Rightarrow> (\<exists>v. fv_slot (fp_name f) vals = Some (SlotValue v) \<and> outs = [(lit ''passthrough'', PassthroughCt (Some v))]))"

lemma shape_of_simps [simp]: "fs_verb (shape_of f) = fp_verb f" "fs_name (shape_of f) = fp_name f" "fs_kind (shape_of f) = fp_type f"
  "fs_keys (shape_of f) = map index_key (indexes f)"
  by (simp_all add: shape_of_def)

lemma target_verb: "is_target f \<longleftrightarrow> fp_verb f = TargetVerb"
  by (simp add: fp_verb_def)

lemma shape_field_step:
  assumes "shape_field vals eql (shape_of f) = Inr (outs, vals', eql')" and "is_target f \<longrightarrow> (\<exists>rest. eql = g f # rest)"
  shows "field_outs vals g f outs \<and> eql' = (if is_target f then tl eql else eql)
    \<and> (\<forall>n. n \<noteq> fp_name f \<longrightarrow> fv_slot n vals' = fv_slot n vals)"
  using assms
  by (cases "fp_verb f")
    (auto simp: shape_field_def target_verb field_outs_def map_sum_Inr_iff
      split: list.splits prod.splits option.splits slot.splits dest!: take_slot_Some)

lemma shape_loop_spec:
  assumes "shape_loop vals (map g (filter is_target fs)) (map shape_of fs) = Inr row" and "distinct (map fp_name fs)"
  shows "list_all2 (\<lambda>f e. fst e = fp_name f \<and> (\<exists>outs. snd e = MapCt outs \<and> field_outs vals g f outs)) fs row"
  using assms
proof (induction fs arbitrary: vals row)
  case (Cons f fs)
  obtain outs vals' eql' row' where s: "shape_field vals (map g (filter is_target (f # fs))) (shape_of f) = Inr (outs, vals', eql')"
    and l: "shape_loop vals' eql' (map shape_of fs) = Inr row'" and row: "row = (fp_name f, MapCt outs) # row'"
    using Cons.prems(1) by (auto simp: and_then_Inr_iff map_sum_Inr_iff)
  have "is_target f \<longrightarrow> (\<exists>rest. map g (filter is_target (f # fs)) = g f # rest)" by simp
  note st = shape_field_step [where g = g, OF s this]
  have "eql' = map g (filter is_target fs)" using st by (simp split: if_splits)
  then have IH: "list_all2 (\<lambda>f e. fst e = fp_name f \<and> (\<exists>outs. snd e = MapCt outs \<and> field_outs vals' g f outs)) fs row'"
    using Cons.IH l Cons.prems(2) by simp
  have "list_all2 (\<lambda>f e. fst e = fp_name f \<and> (\<exists>outs. snd e = MapCt outs \<and> field_outs vals g f outs)) fs row'"
  proof (rule list.rel_mono_strong [OF IH])
    fix h e assume h: "h \<in> set fs" and e: "fst e = fp_name h \<and> (\<exists>outs. snd e = MapCt outs \<and> field_outs vals' g h outs)"
    have "fp_name h \<noteq> fp_name f" using Cons.prems(2) h by (metis distinct.simps(2) imageI list.set_map list.simps(9))
    then have "fv_slot (fp_name h) vals' = fv_slot (fp_name h) vals" using st by blast
    then have "field_outs vals' g h = field_outs vals g h" by (intro ext) (simp only: field_outs_def)
    then show "fst e = fp_name h \<and> (\<exists>outs. snd e = MapCt outs \<and> field_outs vals g h outs)" using e by simp
  qed
  then show ?case using st row by auto
qed simp

lemma open_loop_ok:
  assumes "distinct (map fp_name fs)"
    and "\<And>f. f \<in> set fs \<Longrightarrow> opens f \<Longrightarrow> \<not> is_target f \<Longrightarrow> fv_slot (fp_name f) vals = Some (SlotValue (h f))"
    and "\<And>f k. f \<in> set fs \<Longrightarrow> fp_type f = Some k \<Longrightarrow> v_holds V k (h f)"
  shows "open_loop V vals (map h (filter is_target fs)) (map shape_of fs) = Inr (map (\<lambda>f. (fp_name f, h f)) (filter opens fs))"
  using assms
proof (induction fs arbitrary: vals)
  case (Cons f fs)
  have kind: "\<not> (case fp_type f of Some k \<Rightarrow> \<not> v_holds V k (h f) | None \<Rightarrow> False)" using Cons.prems(3) [of f] by (simp split: option.splits)
  have ne: "fp_name g \<noteq> fp_name f" if "g \<in> set fs" for g
    using Cons.prems(1) that by (metis distinct.simps(2) imageI list.set_map list.simps(9))
  consider (index) "fp_verb f = IndexVerb" | (target) "fp_verb f = TargetVerb" | (slot) "fp_verb f \<noteq> IndexVerb" "fp_verb f \<noteq> TargetVerb" by blast
  then show ?case
  proof cases
    case index
    then show ?thesis using Cons by (simp add: opens_def target_verb)
  next
    case target
    then show ?thesis using Cons kind by (simp add: opens_def target_verb)
  next
    case slot
    have sl: "fv_slot (fp_name f) vals = Some (SlotValue (h f))" using Cons.prems(2) [of f] slot by (simp add: opens_def target_verb)
    let ?rest = "snd (fv_take_slot (fp_name f) vals)"
    have "open_loop V ?rest (map h (filter is_target fs)) (map shape_of fs) = Inr (map (\<lambda>f. (fp_name f, h f)) (filter opens fs))"
      using Cons ne take_slot_other [of _ "fp_name f" vals] by simp
    then show ?thesis using slot kind take_slot_fst [of "fp_name f" vals] sl target_verb [of f]
      by (cases "fp_type f") (simp_all add: opens_def [of f] split_beta)
  qed
qed simp

section \<open>A run, field by field\<close>

definition made :: "'l engine \<Rightarrow> field_plan \<Rightarrow> context_piece \<Rightarrow> ffi_value \<Rightarrow> 'l slot \<Rightarrow> bool" where
  "made E bf ctx v slot \<longleftrightarrow> (\<exists>terms. produce E (bf, ctx, v, terms) = Inr (bf_name bf, slot))"

lemma map_of_list_all2:
  assumes "list_all2 (\<lambda>x e. \<exists>y. e = (g x, y) \<and> P x y) xs out" and "distinct (map g xs)" and "x \<in> set xs"
  shows "\<exists>y. map_of out (g x) = Some y \<and> P x y"
  using assms by (induction xs out rule: list_all2_induct) (auto simp: image_iff)

lemma list_all2_keys: "list_all2 (\<lambda>x e. \<exists>y. e = (g x, y) \<and> P x y) xs out \<Longrightarrow> map fst out = map g xs"
  by (induction xs out rule: list_all2_induct) auto

lemma produce_name: "produce E (bf, ctx, v, terms) = Inr e \<Longrightarrow> fst e = bf_name bf"
  by (auto simp: produce_def map_sum_Inr_iff)

lemma run_encryption_spec:
  assumes "run_encryption E b source None ext = Inr out" and "distinct (map bf_name (bp_fields b))"
  shows "\<exists>base. plan_base b None = Inr base \<and>
    (\<forall>bf \<in> set (bp_fields b). \<exists>l v slot. field_base base bf source = Inr l \<and> picked (bf_name bf) source = Inr v
       \<and> made E bf (under ext l) v slot \<and> fv_slot (bf_name bf) out = Some slot)"
proof -
  obtain base jobs where b: "plan_base b None = Inr base" and jobs: "collect (prepare E ext base source) (bp_fields b) = Inr jobs"
    and out: "collect (produce E) jobs = Inr out"
    using assms(1) by (auto simp: run_encryption_def and_then_Inr_iff map_sum_Inr_iff)
  let ?P = "\<lambda>bf slot. \<exists>l v. field_base base bf source = Inr l \<and> picked (bf_name bf) source = Inr v \<and> made E bf (under ext l) v slot"
  have step: "\<exists>slot. e = (bf_name bf, slot) \<and> ?P bf slot"
    if pj: "prepare E ext base source bf = Inr job" and pe: "produce E job = Inr e" for bf job e
  proof -
    obtain l v terms where "field_base base bf source = Inr l" "picked (bf_name bf) source = Inr v" "job = (bf, under ext l, v, terms)"
      using pj by (auto simp: prepare_def and_then_Inr_iff map_sum_Inr_iff)
    moreover from this pe have "e = (bf_name bf, snd e)" using produce_name by (metis prod.collapse)
    ultimately show ?thesis using pe unfolding made_def by metis
  qed
  have "list_all2 (\<lambda>bf e. \<exists>slot. e = (bf_name bf, slot) \<and> ?P bf slot) (bp_fields b) out"
    using list_all2_trans [of "\<lambda>bf job. prepare E ext base source bf = Inr job" "\<lambda>job e. produce E job = Inr e"
        "\<lambda>bf e. \<exists>slot. e = (bf_name bf, slot) \<and> ?P bf slot"] step jobs out
    by (simp add: collect_Inr_iff)
  from map_of_list_all2 [OF this assms(2)] have "\<forall>bf \<in> set (bp_fields b). \<exists>slot. fv_slot (bf_name bf) out = Some slot \<and> ?P bf slot"
    unfolding fv_slot_def by blast
  with b show ?thesis by blast
qed

lemma field_base_label:
  assumes "field_base base bf source = Inr l"
  shows "\<exists>bl. (case base of BaseLabel l \<Rightarrow> Inr l | BaseField name \<Rightarrow> of_value name source) = Inr bl
    \<and> l = (if keys_nothing (bf_kind bf) then bl else bl @ [bf_identity bf])
    \<and> (\<not> keys_nothing (bf_kind bf) \<longrightarrow> join bl (bf_identity bf) = Inr l)"
  using assms by (auto simp: field_base_def and_then_Inr_iff map_sum_Inr_iff join_def label_new_ok split: if_splits)

section \<open>From the source to the stored row\<close>

text \<open>What the record path relies on: a value with no passthrough and no repeated key seals to a tree
  that is sealed throughout and opens, under the same context, to that value; and an EQL value
  opens to what it was made from.\<close>

definition engine_laws :: "'l engine \<Rightarrow> bool" where
  "engine_laws E \<longleftrightarrow> (\<forall>f ctx v c. check_source_tree f v = Inr () \<longrightarrow> e_seal E ctx v = Inr c \<longrightarrow> e_open E ctx c = Inr v \<and> sealed_tree c)"

definition resolver_laws :: "resolver \<Rightarrow> bool" where
  "resolver_laws R \<longleftrightarrow> (\<forall>n l v b. r_encrypt R n l v = Inr (Inr b) \<longrightarrow> r_decrypt R n l b = Inr (Inr v))"

lemma built_kind:
  assumes "plan_ok plan" and "f \<in> set (p_fields plan)" and "\<not> is_target f" and "built_as (p_context plan) f bf"
  shows "keys_nothing (bf_kind bf) \<longleftrightarrow> \<not> keyed f" and "keyed f \<Longrightarrow> bf_identity bf = fp_identity f \<and> bf_kind bf = kind_of_verb (fp_verb f)"
    and "comes_back bf \<longleftrightarrow> opens f"
proof -
  have "(keys_nothing (bf_kind bf) \<longleftrightarrow> \<not> keyed f) \<and> (keyed f \<longrightarrow> bf_identity bf = fp_identity f \<and> bf_kind bf = kind_of_verb (fp_verb f))
    \<and> (comes_back bf \<longleftrightarrow> opens f)"
  proof (cases "plan_context_field (p_context plan) = Some (fp_name f)")
    case True
    then have cf: "p_context plan = CtxField (fp_name f)" by (cases "p_context plan") auto
    then obtain g where g: "g \<in> set (p_fields plan)" "fp_name g = fp_name f" "fp_outputs g = [PassthroughOut]"
      using assms(1) by (auto simp: plan_ok_def context_ok_def)
    have "inj_on fp_name (set (p_fields plan))" using assms(1) by (simp add: plan_ok_def distinct_map)
    then have "g = f" using g assms(2) by (auto dest: inj_onD)
    then have "fp_verb f = PassthroughVerb" using g assms(3) by (simp add: fp_verb_def)
    then show ?thesis using assms(4) True by (simp add: built_as_def keys_nothing_def keyed_def comes_back_def opens_def)
  next
    case False
    then show ?thesis using assms(3,4) keys_nothing_verb [of f] verb_target [of f]
      by (cases "fp_verb f") (auto simp: built_as_def comes_back_def opens_def kind_of_verb_def)
  qed
  then show "keys_nothing (bf_kind bf) \<longleftrightarrow> \<not> keyed f" "keyed f \<Longrightarrow> bf_identity bf = fp_identity f \<and> bf_kind bf = kind_of_verb (fp_verb f)"
    "comes_back bf \<longleftrightarrow> opens f" by blast+
qed

text \<open>The context a field is sealed under, given the base label of the run.\<close>

definition seal_context :: "context_piece list \<Rightarrow> label \<Rightarrow> fieldp \<Rightarrow> context_piece" where
  "seal_context ext bl f = under ext (if keyed f then bl @ [fp_identity f] else bl)"

definition slot_for :: "'l engine \<Rightarrow> context_piece \<Rightarrow> ffi_value \<Rightarrow> fieldp \<Rightarrow> 'l slot \<Rightarrow> bool" where
  "slot_for E ctx v f slot \<longleftrightarrow>
     (case fp_verb f of
        EncryptVerb \<Rightarrow> (\<exists>c. e_seal E ctx v = Inr c \<and> slot = SlotCiphertext c)
      | EncryptIndexVerb \<Rightarrow> (\<exists>c ts. e_seal E ctx v = Inr c \<and> slot = SlotEncrypted c ts)
      | IndexVerb \<Rightarrow> (\<exists>ts. slot = SlotTerms ts)
      | _ \<Rightarrow> slot = SlotValue v)"

lemma made_slot:
  assumes "plan_ok plan" and "f \<in> set (p_fields plan)" and "\<not> is_target f" and "built_as (p_context plan) f bf"
    and "made E bf ctx v slot"
  shows "slot_for E ctx v f slot"
proof (cases "keyed f")
  case True
  then have "bf_kind bf = kind_of_verb (fp_verb f)" using built_kind(2) [OF assms(1-4)] by blast
  then show ?thesis using assms(3,5) True verb_target [of f]
    by (cases "fp_verb f") (auto simp: made_def produce_def slot_for_def kind_of_verb_def map_sum_Inr_iff keyed_def)
next
  case False
  then have "keys_nothing (bf_kind bf)" using built_kind(1) [OF assms(1-4)] by blast
  then show ?thesis using assms(5) False
    by (auto simp: made_def produce_def slot_for_def keys_nothing_def keyed_def map_sum_Inr_iff)
qed

lemma values_slot:
  assumes "plan_ok plan" and "f \<in> set (p_fields plan)" and "\<not> is_target f"
  shows "fv_slot (fp_name f) (values_of (p_fields plan) row :: 'l field_values) = Some (SlotValue (field_value row f))"
proof -
  let ?vals = "values_of (p_fields plan) row :: 'l field_values"
  have "distinct (map fst ?vals)"
    using assms(1) by (simp add: values_of_def plan_ok_def comp_def distinct_map_filter)
  moreover have "(fp_name f, SlotValue (field_value row f)) \<in> set ?vals"
    using assms(2,3) by (auto simp: values_of_def)
  ultimately show ?thesis by (simp add: fv_slot_def)
qed

lemma picked_value:
  assumes "plan_ok plan" and "f \<in> set (p_fields plan)" and "\<not> is_target f"
  shows "picked (fp_name f) (values_of (p_fields plan) row :: 'l field_values) = Inr (field_value row f)"
  by (simp add: picked_def values_slot [OF assms])

text \<open>The slots a run over a source row produces, and the base label it sealed them under.\<close>

lemma run_slots:
  fixes E :: "'l engine"
  assumes ok: "plan_ok plan" and low: "lower plan = Inr b"
    and run: "run_encryption E b (values_of (p_fields plan) row) None (p_extension plan) = Inr out"
  obtains bl where
    "case p_context plan of CtxLabel l \<Rightarrow> bl = l
       | CtxField cf \<Rightarrow> \<exists>g \<in> set (p_fields plan). fp_name g = cf \<and> fp_verb g = PassthroughVerb \<and> value_label (field_value row g) = Inr bl"
    and "\<And>f. f \<in> set (p_fields plan) \<Longrightarrow> \<not> is_target f \<Longrightarrow> \<exists>slot. fv_slot (fp_name f) out = Some slot
       \<and> slot_for E (seal_context (p_extension plan) bl f) (field_value row f) f slot \<and> (keyed f \<longrightarrow> join bl (fp_identity f) = Inr (bl @ [fp_identity f]))"
proof -
  let ?vals = "values_of (p_fields plan) row :: 'l field_values"
  note L = lower_built [OF ok low]
  obtain base where base: "plan_base b None = Inr base"
    and each: "\<forall>bf \<in> set (bp_fields b). \<exists>l v slot. field_base base bf ?vals = Inr l \<and> picked (bf_name bf) ?vals = Inr v
       \<and> made E bf (under (p_extension plan) l) v slot \<and> fv_slot (bf_name bf) out = Some slot"
    using run_encryption_spec [OF run L(3)] by blast
  let ?bl = "(case base of BaseLabel l \<Rightarrow> Inr l | BaseField name \<Rightarrow> of_value name ?vals) :: (plan_error, label) result"
  have bl: "\<exists>bl. ?bl = Inr bl \<and> (case p_context plan of CtxLabel l \<Rightarrow> bl = l
       | CtxField cf \<Rightarrow> \<exists>g \<in> set (p_fields plan). fp_name g = cf \<and> fp_verb g = PassthroughVerb \<and> value_label (field_value row g) = Inr bl)"
  proof (cases "p_context plan")
    case (CtxLabel l)
    then show ?thesis using base L(4) by (auto simp: plan_base_def)
  next
    case (CtxField cf)
    then obtain g where g: "g \<in> set (p_fields plan)" "fp_name g = cf" "fp_outputs g = [PassthroughOut]" "\<not> is_target g"
      using ok by (auto simp: plan_ok_def context_ok_def)
    obtain bf where bf: "bf \<in> set (bp_fields b)" "built_as (p_context plan) g bf" using L(2) g by blast
    obtain l where "field_base base bf ?vals = Inr l" using each bf(1) by blast
    then obtain bl where b1: "?bl = Inr bl" using field_base_label by blast
    have "base = BaseField cf" using base L(4) CtxField by (simp add: plan_base_def)
    then have "value_label (field_value row g) = Inr bl"
      using b1 by (simp add: of_value_def picked_value [OF ok g(1,4), unfolded g(2)] map_sum_Inr_iff)
    moreover have "fp_verb g = PassthroughVerb" using g(3,4) by (simp add: fp_verb_def)
    ultimately show ?thesis unfolding CtxField plan_context.case using b1 g(1,2) by blast
  qed
  then obtain bl where b1: "?bl = Inr bl" and b2: "case p_context plan of CtxLabel l \<Rightarrow> bl = l
       | CtxField cf \<Rightarrow> \<exists>g \<in> set (p_fields plan). fp_name g = cf \<and> fp_verb g = PassthroughVerb \<and> value_label (field_value row g) = Inr bl"
    by blast
  have "\<exists>slot. fv_slot (fp_name f) out = Some slot
       \<and> slot_for E (seal_context (p_extension plan) bl f) (field_value row f) f slot \<and> (keyed f \<longrightarrow> join bl (fp_identity f) = Inr (bl @ [fp_identity f]))"
    if f: "f \<in> set (p_fields plan)" "\<not> is_target f" for f
  proof -
    obtain bf where bf: "bf \<in> set (bp_fields b)" "built_as (p_context plan) f bf" using L(2) f by blast
    then obtain l v slot where l: "field_base base bf ?vals = Inr l" and v: "picked (bf_name bf) ?vals = Inr v"
      and m: "made E bf (under (p_extension plan) l) v slot" and o: "fv_slot (bf_name bf) out = Some slot" using each by blast
    have nm: "bf_name bf = fp_name f" using bf(2) by (simp add: built_as_def)
    have "v = field_value row f" using v nm by (simp add: picked_value [OF ok f])
    moreover have "l = (if keyed f then bl @ [fp_identity f] else bl)" "keyed f \<longrightarrow> join bl (fp_identity f) = Inr l"
      using field_base_label [OF l] b1 built_kind [OF ok f bf(2)] by auto
    ultimately show ?thesis using made_slot [OF ok f bf(2) m] o nm by (auto simp: seal_context_def)
  qed
  then show thesis using that b2 by blast
qed

lemma entries_of_shape:
  assumes "list_all2 (\<lambda>f e. fst e = fp_name f \<and> Q f (snd e)) fs row" and "distinct (map fp_name fs)" and "f \<in> set fs"
  shows "\<exists>x. entries (fp_name f) row = [x] \<and> Q f x"
  using assms
proof (induction rule: list_all2_induct)
  case (Cons g fs e row)
  from Cons.hyps(2) have names: "map fst row = map fp_name fs"
    by (induction rule: list_all2_induct) auto
  have none: "entries n row = []" if n: "n \<notin> fp_name ` set fs" for n
  proof -
    have "fst ` set row = fp_name ` set fs" using names by (metis list.set_map)
    then show ?thesis using n by (auto simp: entries_def filter_empty_conv)
  qed
  show ?case
  proof (cases "fp_name f = fp_name g")
    case True
    then have "f = g" using Cons.prems by (auto simp: image_iff)
    then show ?thesis using Cons none [of "fp_name g"] by (auto simp: entries_def)
  next
    case False
    then show ?thesis using Cons by (auto simp: entries_def)
  qed
qed simp

lemma index_key_not_c: "index_key ix \<noteq> lit ''c''"
  by (cases ix) (simp_all add: lit_def)

lemma keyed_terms_entries: "keyed_terms ts (map index_key ixs) = Inr nodes \<Longrightarrow> entries (lit ''c'') nodes = []"
  by (auto simp: keyed_terms_def entries_def filter_empty_conv set_zip index_key_not_c index_key_not_c [symmetric] split: if_splits)

lemma check_fieldD:
  assumes "check_field V v f = Inr ()"
  shows "fp_type f = Some k \<Longrightarrow> v_holds V k v" and "Ciphertext \<in> set (fp_outputs f) \<Longrightarrow> check_source_tree (fp_name f) v = Inr ()"
proof -
  show "fp_type f = Some k \<Longrightarrow> v_holds V k v" using assms by (simp add: check_field_def split: if_splits)
  have "is_ok (collect (check_output V v f) (fp_outputs f))"
    using assms by (auto simp: check_field_def and_then_Inr_iff split: if_splits)
  then show "check_source_tree (fp_name f) v = Inr ()" if "Ciphertext \<in> set (fp_outputs f)"
    using that by (auto simp: is_ok_collect list_all_iff check_output_def is_ok_unit)
qed

text \<open>What is stored for a field that comes back opens to the field's value.\<close>

definition opens_to :: "'l engine \<Rightarrow> context_piece \<Rightarrow> ffi_value \<Rightarrow> fieldp \<Rightarrow> 'l slot \<Rightarrow> bool" where
  "opens_to E ctx v f s \<longleftrightarrow>
     (if fp_verb f = PassthroughVerb then s = SlotValue v
      else \<exists>c. s = SlotCiphertext c \<and> e_open E ctx c = Inr v)"

lemma stored_opens:
  assumes "engine_laws E" and "check_field V v f = Inr ()" and "opens f" and "\<not> is_target f"
    and "fv_slot (fp_name f) out = Some slot" and "slot_for E ctx v f slot" and "field_outs out g f outs"
  shows "\<exists>s. read_stored V f outs (Inl s) \<and> opens_to E ctx v f s"
proof -
  have sealed: "e_open E ctx c = Inr v \<and> sealed_tree c" if "fp_verb f = EncryptVerb \<or> fp_verb f = EncryptIndexVerb" "e_seal E ctx v = Inr c" for c
  proof -
    have "Ciphertext \<in> set (fp_outputs f)" using that(1) by (auto simp: fp_verb_def split: if_splits)
    then show ?thesis using check_fieldD(2) [OF assms(2)] assms(1) that(2) unfolding engine_laws_def by blast
  qed
  have c1: "entries (lit ''c'') ((lit ''c'', c) # nodes) = c # entries (lit ''c'') nodes" for c :: "'a ciphertext" and nodes
    by (simp add: entries_def)
  have nil: "entries n [] = ([] :: 'b list)" for n by (simp add: entries_def)
  show ?thesis
  proof (cases "fp_verb f")
    case EncryptVerb
    then show ?thesis using assms(5-7) sealed by (auto simp: slot_for_def field_outs_def read_stored_def opens_to_def c1 nil)
  next
    case EncryptIndexVerb
    then show ?thesis using assms(5-7) sealed
      by (auto simp: slot_for_def field_outs_def read_stored_def opens_to_def c1 keyed_terms_entries)
  next
    case PassthroughVerb
    then show ?thesis using assms(5-7) check_fieldD(1) [OF assms(2)]
      by (auto simp: slot_for_def field_outs_def read_stored_def opens_to_def entries_def)
  qed (use assms(3,4) in \<open>auto simp: opens_def target_verb\<close>)
qed

lemma stored_target:
  assumes "is_target f" and "field_outs out g f outs"
  shows "read_stored V f outs (Inr (g f))"
  using assms by (auto simp: target_verb field_outs_def read_stored_def entries_def byte_node_def)

text \<open>What a shaped record is read back as.\<close>

lemma shaped_reads_back:
  assumes ok: "plan_ok plan" and E: "engine_laws E"
    and chk: "\<And>f. f \<in> set (p_fields plan) \<Longrightarrow> check_field V (val f) f = Inr ()"
    and slots: "\<And>f. f \<in> set (p_fields plan) \<Longrightarrow> \<not> is_target f \<Longrightarrow> \<exists>slot. fv_slot (fp_name f) out = Some slot \<and> slot_for E (ctx f) (val f) f slot"
    and shape: "shape_record out (map g (target_fields plan)) (plan_shape plan) = Inr tree"
  obtains srow sl where "tree = MapCt srow"
    and "record_row V plan srow = Inr \<lparr>st_values = map (\<lambda>f. (fp_name f, sl f)) (filter (\<lambda>f. opens f \<and> \<not> is_target f) (p_fields plan)),
           st_targets = map g (target_fields plan)\<rparr>"
    and "\<And>f. f \<in> set (p_fields plan) \<Longrightarrow> opens f \<Longrightarrow> \<not> is_target f \<Longrightarrow> opens_to E (ctx f) (val f) f (sl f)"
proof -
  let ?fs = "p_fields plan"
  have d: "distinct (map fp_name ?fs)" using ok by (simp add: plan_ok_def)
  obtain srow where tree: "tree = MapCt srow" and l: "shape_loop out (map g (filter is_target ?fs)) (map shape_of ?fs) = Inr srow"
    using shape by (auto simp: shape_record_def target_fields_def plan_shape_def map_sum_Inr_iff)
  have outs: "\<exists>os. entries (fp_name f) srow = [MapCt os] \<and> field_outs out g f os" if "f \<in> set ?fs" for f
    using entries_of_shape [OF shape_loop_spec [OF l d] d that] by auto
  have "\<exists>s. read_field_of V srow f (Inl s) \<and> opens_to E (ctx f) (val f) f s" if f: "f \<in> set ?fs" "opens f" "\<not> is_target f" for f
  proof -
    obtain os where os: "entries (fp_name f) srow = [MapCt os]" "field_outs out g f os" using outs f(1) by blast
    obtain slot where sl: "fv_slot (fp_name f) out = Some slot" "slot_for E (ctx f) (val f) f slot" using slots f(1,3) by blast
    from stored_opens [OF E chk [OF f(1)] f(2,3) sl os(2)] os(1) show ?thesis unfolding read_field_of_def by blast
  qed
  then obtain sl where sl: "\<And>f. f \<in> set ?fs \<Longrightarrow> opens f \<Longrightarrow> \<not> is_target f \<Longrightarrow> read_field_of V srow f (Inl (sl f)) \<and> opens_to E (ctx f) (val f) f (sl f)"
    by metis
  define item where "item f = (if is_target f then Inr (g f) else Inl (sl f))" for f
  let ?ofs = "filter opens ?fs"
  have "read_field_of V srow f (item f)" if f: "f \<in> set ?ofs" for f
  proof (cases "is_target f")
    case True
    then show ?thesis using outs [of f] stored_target [OF True] f by (auto simp: read_field_of_def item_def)
  next
    case False
    then show ?thesis using sl [of f] f by (simp add: item_def)
  qed
  then have items: "list_all2 (read_field_of V srow) ?ofs (map item ?ofs)"
    unfolding list.rel_map by (intro list.rel_refl_strong) blast
  have slots_eq: "item_slots (zip fs (map item fs)) = map (\<lambda>f. (fp_name f, sl f)) (filter (\<lambda>f. \<not> is_target f) fs)" for fs
    by (induction fs) (auto simp: item_slots_def map_filter_simps item_def)
  have bytes_eq: "item_bytes (zip fs (map item fs)) = map g (filter is_target fs)" for fs
    by (induction fs) (auto simp: item_bytes_def map_filter_simps item_def)
  have to: "filter is_target ?ofs = target_fields plan"
    by (auto simp: target_fields_def opens_def target_verb intro: filter_cong)
  have "record_row V plan srow = Inr \<lparr>st_values = map (\<lambda>f. (fp_name f, sl f)) (filter (\<lambda>f. opens f \<and> \<not> is_target f) ?fs),
           st_targets = map g (target_fields plan)\<rparr>"
    unfolding record_row_iff [OF ok] using items slots_eq [of ?ofs] bytes_eq [of ?ofs] to
    by (intro exI [of _ "map item ?ofs"]) (simp add: conj_commute)
  then show thesis using that tree sl by blast
qed

section \<open>Opening what was stored\<close>

text \<open>The run's base label, as the plan's context gives it.\<close>

definition base_of :: "dplan \<Rightarrow> (rstr \<times> ffi_value) list \<Rightarrow> label \<Rightarrow> bool" where
  "base_of plan row bl \<longleftrightarrow> (case p_context plan of CtxLabel l \<Rightarrow> bl = l
     | CtxField cf \<Rightarrow> \<exists>g \<in> set (p_fields plan). fp_name g = cf \<and> fp_verb g = PassthroughVerb \<and> value_label (field_value row g) = Inr bl)"

lemma c_entries: "entries (lit ''c'') [] = []" "entries (lit ''c'') ((lit ''c'', c) # nodes) = c # entries (lit ''c'') nodes"
  by (simp_all add: entries_def)

lemma opener_ok:
  assumes "plan_ok plan" and "f \<in> set (p_fields plan)" and "\<not> is_target f" and "built_as (p_context plan) f bf" and "opens f"
    and "opens_to E ctx v f s"
  shows "opener_holds bf s = Inr ()"
proof (cases "keyed f")
  case True
  then show ?thesis using built_kind(2) [OF assms(1-4)] assms(3,5,6) verb_target [of f]
    by (cases "fp_verb f") (auto simp: opener_holds_def opens_to_def kind_of_verb_def keyed_def opens_def)
next
  case False
  then have "keys_nothing (bf_kind bf)" using built_kind(1) [OF assms(1-4)] by blast
  then show ?thesis using False assms(6) by (auto simp: opener_holds_def opens_to_def keys_nothing_def keyed_def)
qed

lemma field_opens:
  assumes "plan_ok plan" and "f \<in> set (p_fields plan)" and "\<not> is_target f" and "built_as (p_context plan) f bf" and "opens f"
    and "opens_to E (seal_context ext bl f) v f s" and "keyed f \<longrightarrow> join bl (fp_identity f) = Inr (bl @ [fp_identity f])"
  shows "\<exists>job. field_opening ext bl bf (Some s) = Inr job \<and> open_one E job = Inr (bf_name bf, SlotValue v)"
proof (cases "keyed f")
  case True
  have nk: "\<not> keys_nothing (bf_kind bf)" using built_kind(1) [OF assms(1-4)] True by blast
  show ?thesis using built_kind(2) [OF assms(1-4) True] nk assms(3,5-7) True verb_target [of f]
    by (cases "fp_verb f")
      (auto simp: field_opening_def open_one_def opens_to_def kind_of_verb_def keyed_def opens_def seal_context_def)
next
  case False
  then have "keys_nothing (bf_kind bf)" using built_kind(1) [OF assms(1-4)] by blast
  then show ?thesis using False assms(6)
    by (auto simp: field_opening_def open_one_def opens_to_def keys_nothing_def keyed_def)
qed

lemma run_decryption_opens:
  fixes E :: "'l engine"
  assumes ok: "plan_ok plan" and low: "lower plan = Inr b" and bl: "base_of plan row bl"
    and joins: "\<And>f. f \<in> set (p_fields plan) \<Longrightarrow> keyed f \<Longrightarrow> \<not> is_target f \<Longrightarrow> join bl (fp_identity f) = Inr (bl @ [fp_identity f])"
    and sl: "\<And>f. f \<in> set (p_fields plan) \<Longrightarrow> opens f \<Longrightarrow> \<not> is_target f
        \<Longrightarrow> opens_to E (seal_context (p_extension plan) bl f) (field_value row f) f (sl f)"
  shows "\<exists>out. run_decryption b64 E b (map (\<lambda>f. (fp_name f, sl f)) (filter (\<lambda>f. opens f \<and> \<not> is_target f) (p_fields plan))) None (p_extension plan) = Inr out
     \<and> (\<forall>f \<in> set (p_fields plan). opens f \<longrightarrow> \<not> is_target f \<longrightarrow> fv_slot (fp_name f) out = Some (SlotValue (field_value row f)))"
proof -
  let ?sv = "map (\<lambda>f. (fp_name f, sl f)) (filter (\<lambda>f. opens f \<and> \<not> is_target f) (p_fields plan))"
  note L = lower_built [OF ok low]
  have slot: "fv_slot (fp_name f) ?sv = Some (sl f)" if f: "f \<in> set (p_fields plan)" "opens f" "\<not> is_target f" for f
  proof -
    have "distinct (map fst ?sv)" using ok by (simp add: plan_ok_def comp_def distinct_map_filter)
    moreover have "(fp_name f, sl f) \<in> set ?sv" using f by auto
    ultimately show ?thesis by (simp add: fv_slot_def)
  qed
  obtain src where src: "\<And>bf. bf \<in> set (bp_fields b) \<Longrightarrow> src bf \<in> set (p_fields plan) \<and> \<not> is_target (src bf) \<and> built_as (p_context plan) (src bf) bf"
    using L(1) by metis
  have nm: "bf_name bf = fp_name (src bf)" and op: "comes_back bf \<longleftrightarrow> opens (src bf)" if "bf \<in> set (bp_fields b)" for bf
    using src [OF that] built_kind(3) [OF ok] by (auto simp: built_as_def)
  have "check_field_slot ?sv bf = Inr ()" if bf: "bf \<in> set (bp_fields b)" for bf
  proof (cases "comes_back bf")
    case True
    then have o: "opens (src bf)" using op [OF bf] by blast
    have "opener_holds bf (sl (src bf)) = Inr ()"
      using opener_ok [OF ok _ _ _ o sl] src [OF bf] o by blast
    then show ?thesis using src [OF bf] nm [OF bf] o slot by (simp add: check_field_slot_def)
  qed (simp add: check_field_slot_def)
  then have each: "is_ok (collect (check_field_slot ?sv) (bp_fields b))"
    by (simp add: is_ok_collect list_all_iff)
  have known: "n \<in> set (plan_names b)" if "n \<in> set (fv_names ?sv)" for n
  proof -
    obtain f where f: "f \<in> set (p_fields plan)" "\<not> is_target f" "n = fp_name f" using \<open>n \<in> set (fv_names ?sv)\<close> by (auto simp: fv_names_def)
    then obtain bf where "bf \<in> set (bp_fields b)" "built_as (p_context plan) f bf" using L(2) by blast
    moreover from this have "bf_name bf = n" using f(3) by (simp add: built_as_def)
    ultimately show ?thesis by (auto simp: plan_names_def)
  qed
  have stored: "check_stored b ?sv = Inr ()"
    using known each by (auto simp: check_stored_def find_None_iff is_ok_def map_sum_Inr_iff split: option.splits sum.splits)
  have base: "opening_base b64 b ?sv None = Inr bl"
  proof (cases "p_context plan")
    case (CtxLabel l)
    then show ?thesis using bl L(4) by (simp add: opening_base_def base_of_def resolve_context_def)
  next
    case (CtxField cf)
    then obtain g where g: "g \<in> set (p_fields plan)" "fp_name g = cf" "fp_verb g = PassthroughVerb" "value_label (field_value row g) = Inr bl"
      using bl by (auto simp: base_of_def)
    have "opens g" "\<not> is_target g" using g(3) by (simp_all add: opens_def target_verb)
    from slot [OF g(1) this] sl [OF g(1) this] g show ?thesis
      using L(4) CtxField by (simp add: opening_base_def stored_context_def opens_to_def)
  qed
  have "\<exists>job. field_opening (p_extension plan) bl bf (fv_slot (bf_name bf) ?sv) = Inr job
      \<and> open_one E job = Inr (bf_name bf, SlotValue (field_value row (src bf)))" if bf: "bf \<in> set (bp_fields b)" "comes_back bf" for bf
  proof -
    have s: "src bf \<in> set (p_fields plan)" "\<not> is_target (src bf)" "built_as (p_context plan) (src bf) bf" using src [OF bf(1)] by simp_all
    have o: "opens (src bf)" using op [OF bf(1)] bf(2) by blast
    have "fv_slot (bf_name bf) ?sv = Some (sl (src bf))" using slot [OF s(1) o s(2)] nm [OF bf(1)] by simp
    then show ?thesis using field_opens [OF ok s o sl [OF s(1) o s(2)]] joins [OF s(1) _ s(2)] by simp
  qed
  then have "\<forall>bf. \<exists>job. bf \<in> set (bp_fields b) \<and> comes_back bf \<longrightarrow> field_opening (p_extension plan) bl bf (fv_slot (bf_name bf) ?sv) = Inr job
      \<and> open_one E job = Inr (bf_name bf, SlotValue (field_value row (src bf)))" by blast
  from choice [OF this] obtain job where job: "\<And>bf. bf \<in> set (bp_fields b) \<Longrightarrow> comes_back bf \<Longrightarrow> field_opening (p_extension plan) bl bf (fv_slot (bf_name bf) ?sv) = Inr (job bf)
      \<and> open_one E (job bf) = Inr (bf_name bf, SlotValue (field_value row (src bf)))" by blast
  let ?opened = "filter comes_back (bp_fields b)"
  have "openings (p_extension plan) bl (bp_fields b) ?sv = Inr (map job ?opened)"
    using openings_ok [OF L(3)] job by blast
  moreover have "collect (open_one E) (map job ?opened) = Inr (map (\<lambda>bf. (bf_name bf, SlotValue (field_value row (src bf)))) ?opened)"
    unfolding collect_Inr_iff list.rel_map using job by (intro list.rel_refl_strong) simp
  ultimately have run: "run_decryption b64 E b ?sv None (p_extension plan) = Inr (map (\<lambda>bf. (bf_name bf, SlotValue (field_value row (src bf)))) ?opened)"
    by (simp add: run_decryption_def stored base)
  have "fv_slot (fp_name f) (map (\<lambda>bf. (bf_name bf, SlotValue (field_value row (src bf)))) ?opened) = Some (SlotValue (field_value row f) :: 'l slot)"
    if f: "f \<in> set (p_fields plan)" "opens f" "\<not> is_target f" for f
  proof -
    obtain bf where bf: "bf \<in> set (bp_fields b)" "built_as (p_context plan) f bf" using L(2) f by blast
    have "fp_name (src bf) = fp_name f" using nm [OF bf(1)] bf(2) by (simp add: built_as_def)
    moreover have "inj_on fp_name (set (p_fields plan))" using ok by (simp add: plan_ok_def distinct_map)
    ultimately have sf: "src bf = f" using src [OF bf(1)] f(1) by (auto dest: inj_onD)
    have "bf \<in> set ?opened" using bf f(2) op [OF bf(1)] sf by simp
    then have "(bf_name bf, SlotValue (field_value row (src bf)) :: 'l slot) \<in> set (map (\<lambda>bf. (bf_name bf, SlotValue (field_value row (src bf)))) ?opened)"
      unfolding set_map by blast
    moreover have "distinct (map bf_name ?opened)" using L(3) by (rule distinct_map_filter)
    then have "distinct (map fst (map (\<lambda>bf. (bf_name bf, SlotValue (field_value row (src bf)) :: 'l slot)) ?opened))" by (simp add: comp_def)
    ultimately show ?thesis unfolding fv_slot_def using sf nm [OF bf(1)] by (metis map_of_is_SomeI)
  qed
  with run show ?thesis by blast
qed

lemma targets_sealed:
  assumes "seal_targets R plan (targets_of (p_fields plan) row) = Inr eql" and "collect id eql = Inr bs"
  shows "list_all2 (\<lambda>f b. r_encrypt R (case fp_target f of Some n \<Rightarrow> n | None \<Rightarrow> []) (fp_label f) (field_value row f) = Inr (Inr b)) (target_fields plan) bs"
proof -
  have z: "zip (target_fields plan) (targets_of (p_fields plan) row) = map (\<lambda>f. (f, field_value row f)) (target_fields plan)"
    by (simp add: target_fields_def targets_of_def zip_map2 zip_same_conv_map)
  have "list_all2 (\<lambda>f r. r_encrypt R (case fp_target f of Some n \<Rightarrow> n | None \<Rightarrow> []) (fp_label f) (field_value row f) = Inr r) (target_fields plan) eql"
    using assms(1) by (simp add: seal_targets_def z collect_Inr_iff list.rel_map map_sum_Inr_iff)
  moreover have "list_all2 (\<lambda>r b. r = Inr b) eql bs" using assms(2) by (simp add: collect_Inr_iff)
  ultimately show ?thesis by (rule list_all2_trans [rotated]) simp
qed

lemma targets_open:
  assumes "resolver_laws R"
    and "list_all2 (\<lambda>f b. r_encrypt R (case fp_target f of Some n \<Rightarrow> n | None \<Rightarrow> []) (fp_label f) (field_value row f) = Inr (Inr b)) (target_fields plan) bs"
  shows "open_targets R plan bs = Inr (map (\<lambda>f. Inr (field_value row f)) (target_fields plan))"
proof -
  have "list_all2 (\<lambda>(f, b) v. map_sum (\<lambda>e. TargetError (name_target (fp_name f) e)) id
       (r_decrypt R (case fp_target f of Some n \<Rightarrow> n | None \<Rightarrow> []) (fp_label f) b) = Inr v) (zip fs bs) (map (\<lambda>f. Inr (field_value row f)) fs)"
    if "list_all2 (\<lambda>f b. r_encrypt R (case fp_target f of Some n \<Rightarrow> n | None \<Rightarrow> []) (fp_label f) (field_value row f) = Inr (Inr b)) fs bs" for fs
    using that assms(1) by (induction fs bs rule: list_all2_induct) (auto simp: resolver_laws_def)
  from this [OF assms(2)] show ?thesis unfolding open_targets_def collect_Inr_iff by (simp add: case_prod_unfold)
qed

text \<open>The bytes a target's field is sealed to.\<close>

definition target_bytes :: "resolver \<Rightarrow> (rstr \<times> ffi_value) list \<Rightarrow> fieldp \<Rightarrow> bytes" where
  "target_bytes R row f = projr (projr (r_encrypt R (case fp_target f of Some n \<Rightarrow> n | None \<Rightarrow> []) (fp_label f) (field_value row f)))"

lemma targets_are_bytes:
  "list_all2 (\<lambda>f b. r_encrypt R (case fp_target f of Some n \<Rightarrow> n | None \<Rightarrow> []) (fp_label f) (field_value row f) = Inr (Inr b)) fs bs
     \<Longrightarrow> bs = map (target_bytes R row) fs"
  by (induction fs bs rule: list_all2_induct) (simp_all add: target_bytes_def)

text \<open>The fields of a row that come back, in the plan's order.\<close>

definition returned :: "dplan \<Rightarrow> (rstr \<times> ffi_value) list \<Rightarrow> (rstr \<times> ffi_value) list" where
  "returned plan row = map (\<lambda>f. (fp_name f, field_value row f)) (filter opens (p_fields plan))"

lemma collect_id_Inr: "collect id (map (\<lambda>x. Inr (h x)) xs) = Inr (map h xs)"
  by (induction xs) simp_all

lemma row_round_trip:
  fixes E :: "'l engine"
  assumes ok: "plan_ok plan" and E: "engine_laws E" and R: "resolver_laws R" and low: "lower plan = Inr b"
    and src: "source_row V plan row = Inr r" and eql: "seal_targets R plan (row_targets r) = Inr eql"
    and enc: "encrypt_row E b plan (row_values r) eql = Inr tree"
  shows "\<exists>srow st eql'. tree = MapCt srow \<and> record_row V plan srow = Inr st \<and> open_targets R plan (st_targets st) = Inr eql'
    \<and> decrypt_row b64 E V b plan None (st_values st) eql' = Inr (FObject (returned plan row))"
proof -
  note S = source_row_spec [OF ok src]
  obtain out bs where run: "run_encryption E b (values_of (p_fields plan) row) None (p_extension plan) = Inr out"
    and bs: "collect id eql = Inr bs" and shape: "shape_record out bs (plan_shape plan) = Inr tree"
    using enc by (auto simp: encrypt_row_def and_then_Inr_iff S(1))
  have sealed: "list_all2 (\<lambda>f b. r_encrypt R (case fp_target f of Some n \<Rightarrow> n | None \<Rightarrow> []) (fp_label f) (field_value row f) = Inr (Inr b)) (target_fields plan) bs"
    using targets_sealed [OF _ bs] eql by (simp add: S(1))
  obtain bl where bl: "base_of plan row bl"
    and slots: "\<And>f. f \<in> set (p_fields plan) \<Longrightarrow> \<not> is_target f \<Longrightarrow> \<exists>slot. fv_slot (fp_name f) out = Some slot
       \<and> slot_for E (seal_context (p_extension plan) bl f) (field_value row f) f slot \<and> (keyed f \<longrightarrow> join bl (fp_identity f) = Inr (bl @ [fp_identity f]))"
    using run_slots [OF ok low run] unfolding base_of_def by blast
  have slots': "\<exists>slot. fv_slot (fp_name f) out = Some slot \<and> slot_for E (seal_context (p_extension plan) bl f) (field_value row f) f slot"
    if "f \<in> set (p_fields plan)" "\<not> is_target f" for f using slots [OF that] by blast
  have chk: "check_field V (field_value row f) f = Inr ()" if "f \<in> set (p_fields plan)" for f using S(3) [OF that] by blast
  obtain srow sl where tree: "tree = MapCt srow"
    and read: "record_row V plan srow = Inr \<lparr>st_values = map (\<lambda>f. (fp_name f, sl f)) (filter (\<lambda>f. opens f \<and> \<not> is_target f) (p_fields plan)),
           st_targets = map (target_bytes R row) (target_fields plan)\<rparr>"
    and sl: "\<And>f. f \<in> set (p_fields plan) \<Longrightarrow> opens f \<Longrightarrow> \<not> is_target f
        \<Longrightarrow> opens_to E (seal_context (p_extension plan) bl f) (field_value row f) f (sl f)"
    using shaped_reads_back [OF ok E chk slots' shape [unfolded targets_are_bytes [OF sealed]]] by blast
  have joins: "join bl (fp_identity f) = Inr (bl @ [fp_identity f])" if "f \<in> set (p_fields plan)" "keyed f" "\<not> is_target f" for f
    using slots [OF that(1,3)] that(2) by blast
  obtain vals where vals: "run_decryption b64 E b (map (\<lambda>f. (fp_name f, sl f)) (filter (\<lambda>f. opens f \<and> \<not> is_target f) (p_fields plan))) None (p_extension plan) = Inr vals"
    and at: "\<And>f. f \<in> set (p_fields plan) \<Longrightarrow> opens f \<Longrightarrow> \<not> is_target f \<Longrightarrow> fv_slot (fp_name f) vals = Some (SlotValue (field_value row f))"
    using run_decryption_opens [OF ok low bl joins sl] by blast
  have opened: "open_targets R plan (map (target_bytes R row) (target_fields plan)) = Inr (map (\<lambda>f. Inr (field_value row f)) (target_fields plan))"
    by (rule targets_open [OF R sealed, unfolded targets_are_bytes [OF sealed]])
  have d: "distinct (map fp_name (p_fields plan))" using ok by (simp add: plan_ok_def)
  have "open_loop V vals (map (field_value row) (filter is_target (p_fields plan))) (map shape_of (p_fields plan))
      = Inr (map (\<lambda>f. (fp_name f, field_value row f)) (filter opens (p_fields plan)))"
    by (rule open_loop_ok [OF d]) (blast intro: at check_fieldD(1) [OF chk])+
  then have "open_record V vals (map (field_value row) (target_fields plan)) (plan_shape plan) = Inr (FObject (returned plan row))"
    by (simp add: open_record_def plan_shape_def target_fields_def returned_def)
  then have "decrypt_row b64 E V b plan None (map (\<lambda>f. (fp_name f, sl f)) (filter (\<lambda>f. opens f \<and> \<not> is_target f) (p_fields plan)))
      (map (\<lambda>f. Inr (field_value row f)) (target_fields plan)) = Inr (FObject (returned plan row))"
    by (simp add: decrypt_row_def vals collect_id_Inr)
  then show ?thesis using tree read opened by (intro exI conjI) (assumption | simp)+
qed

definition returned_item :: "dplan \<Rightarrow> ffi_value \<Rightarrow> ffi_value" where
  "returned_item plan item = (case item of FObject row \<Rightarrow> FObject (returned plan row) | _ \<Rightarrow> item)"

definition returned_source :: "dplan \<Rightarrow> ffi_value \<Rightarrow> ffi_value" where
  "returned_source plan source = (case source of FArray items \<Rightarrow> FArray (map (returned_item plan) items) | _ \<Rightarrow> returned_item plan source)"

definition read_item :: "vitaminc \<Rightarrow> dplan \<Rightarrow> 'l ciphertext \<Rightarrow> (dyn_error, 'l stored_row) result" where
  "read_item V plan item = (case item of MapCt row \<Rightarrow> record_row V plan row | _ \<Rightarrow> Inl (bad_record NotAnObject))"

lemma read_item_map: "read_item V plan (MapCt row) = record_row V plan row"
  by (simp add: read_item_def)

lemma collect_ConsE:
  assumes "collect f (x # xs) = Inr ys"
  obtains y zs where "ys = y # zs" and "f x = Inr y" and "collect f xs = Inr zs"
  using assms by (auto split: sum.splits)

lemma source_item_iff:
  "(case item of FObject row \<Rightarrow> source_row V plan row | _ \<Rightarrow> Inl e) = Inr r \<longleftrightarrow> (\<exists>row. item = FObject row \<and> source_row V plan row = Inr r)"
  by (auto split: ffi_value.splits)

lemma batch_round_trip:
  fixes E :: "'l engine"
  assumes ok: "plan_ok plan" and E: "engine_laws E" and R: "resolver_laws R" and low: "lower plan = Inr b"
    and "list_all2 (\<lambda>item r. \<exists>row. item = FObject row \<and> source_row V plan row = Inr r) items rs"
    and "collect (\<lambda>r. seal_targets R plan (row_targets r)) rs = Inr eqls"
    and "collect (\<lambda>(r, eql). encrypt_row E b plan (row_values r) eql) (zip rs eqls) = Inr trees"
  shows "\<exists>sts eqls'. collect (read_item V plan) trees = Inr sts \<and> collect (\<lambda>st. open_targets R plan (st_targets st)) sts = Inr eqls'
    \<and> collect (\<lambda>(st, eql). decrypt_row b64 E V b plan None (st_values st) eql) (zip sts eqls') = Inr (map (returned_item plan) items)"
  using assms(5-7)
proof (induction arbitrary: eqls trees rule: list_all2_induct)
  case (Cons item items r rs)
  obtain row where row: "item = FObject row" "source_row V plan row = Inr r" using Cons.hyps(1) by blast
  obtain eql eqls0 where eqls: "eqls = eql # eqls0" "seal_targets R plan (row_targets r) = Inr eql"
      "collect (\<lambda>r. seal_targets R plan (row_targets r)) rs = Inr eqls0"
    by (rule collect_ConsE [OF Cons.prems(1)])
  obtain t ts where trees: "trees = t # ts" "encrypt_row E b plan (row_values r) eql = Inr t"
      "collect (\<lambda>(r, eql). encrypt_row E b plan (row_values r) eql) (zip rs eqls0) = Inr ts"
    using Cons.prems(2) unfolding eqls(1) zip_Cons_Cons by (rule collect_ConsE) simp
  obtain srow st eql' where one: "t = MapCt srow" "record_row V plan srow = Inr st" "open_targets R plan (st_targets st) = Inr eql'"
      "decrypt_row b64 E V b plan None (st_values st) eql' = Inr (FObject (returned plan row))"
    using row_round_trip [OF ok E R low row(2) eqls(2) trees(2)] by blast
  obtain sts eqls' where "collect (read_item V plan) ts = Inr sts" "collect (\<lambda>st. open_targets R plan (st_targets st)) sts = Inr eqls'"
      "collect (\<lambda>(st, eql). decrypt_row b64 E V b plan None (st_values st) eql) (zip sts eqls') = Inr (map (returned_item plan) items)"
    using Cons.IH [OF eqls(3) trees(3)] by blast
  then show ?case using one row(1) trees(1)
    by (intro exI [of _ "st # sts"] exI [of _ "eql' # eqls'"]) (simp add: read_item_map returned_item_def)
qed simp

lemma opening_call_ok: "plan_ok plan \<Longrightarrow> lower plan = Inr b \<Longrightarrow> check_opening_call b None = Inr ()"
  using lower_built(4) [of plan b] by (simp add: check_opening_call_def resolve_context_def split: plan_context.splits)

text \<open>
  C10. What a plan encrypts, it decrypts. If a source (one object, or a list of them) encrypts under
  a plan, then decrypting the stored record under the same plan succeeds and gives back, row by
  row and in the plan's order, every field that comes back, with the value the source had;
  a field that keeps only index terms is the one thing left out. The cipher is an argument: it must
  open what it sealed under the same context, and an EQL value must open to what it was made from.\<close>

theorem encrypt_then_decrypt:
  fixes E :: "'l engine"
  assumes ok: "plan_ok plan" and E: "engine_laws E" and R: "resolver_laws R"
    and enc: "encrypt_with E V R plan source = Inr (Inr tree)"
  shows "decrypt_with b64 E V R plan None tree = Inr (Inr (returned_source plan source))"
proof -
  obtain rows :: "'l row rows" and b where rows: "source_rows V plan source = Inr rows" and low: "lower plan = Inr b"
    using enc by (auto simp: encrypt_with_def and_then_Inr_iff map_sum_Inr_iff)
  show ?thesis
  proof (cases rows)
    case (One r)
    then obtain row where row: "source = FObject row" "source_row V plan row = Inr r"
      using rows by (auto simp: source_rows_def map_sum_Inr_iff split: ffi_value.splits)
    obtain eql where eql: "seal_targets R plan (row_targets r) = Inr eql" "encrypt_row E b plan (row_values r) eql = Inr tree"
      using enc rows low One by (auto simp: encrypt_with_def and_then_Inr_iff)
    from row_round_trip [OF ok E R low row(2) eql, of b64] show ?thesis
      using row(1) low by (auto simp: decrypt_with_def record_rows_def returned_source_def returned_item_def)
  next
    case (Batch rs)
    then obtain items where items: "source = FArray items"
        "list_all2 (\<lambda>item r. \<exists>row. item = FObject row \<and> source_row V plan row = Inr r) items rs"
      using rows by (auto simp: source_rows_def map_sum_Inr_iff collect_Inr_iff source_item_iff split: ffi_value.splits)
    obtain eqls trees where eqls: "collect (\<lambda>r. seal_targets R plan (row_targets r)) rs = Inr eqls"
        "collect (\<lambda>(r, eql). encrypt_row E b plan (row_values r) eql) (zip rs eqls) = Inr trees" and tree: "tree = Sequence trees"
      using enc rows low Batch by (auto simp: encrypt_with_def and_then_Inr_iff map_sum_Inr_iff)
    from batch_round_trip [OF ok E R low items(2) eqls, of b64] obtain sts eqls' where
      opened: "collect (read_item V plan) trees = Inr sts" "collect (\<lambda>st. open_targets R plan (st_targets st)) sts = Inr eqls'"
      "collect (\<lambda>(st, eql). decrypt_row b64 E V b plan None (st_values st) eql) (zip sts eqls') = Inr (map (returned_item plan) items)" by blast
    have "record_rows V plan tree = Inr (Batch sts)" using opened(1) tree by (simp add: record_rows_def read_item_def [abs_def])
    then show ?thesis using opened(2,3) low opening_call_ok [OF ok low] items(1) by (simp add: decrypt_with_def returned_source_def)
  qed
qed

section \<open>A run\<close>

definition demo_open :: "context_piece \<Rightarrow> (context_piece \<times> ffi_value) ciphertext \<Rightarrow> (engine_error, ffi_value) result" where
  "demo_open ctx c = (case c of Single sealed \<Rightarrow> if fst sealed = ctx then Inr (snd sealed) else Inl ResponseShape | _ \<Rightarrow> Inl ResponseShape)"

definition demo_engine :: "(context_piece \<times> ffi_value) engine" where
  "demo_engine = \<lparr>e_seal = (\<lambda>ctx v. Inr (Single (ctx, v))), e_open = demo_open, e_terms = (\<lambda>ctx v ixs. Inr (map (\<lambda>_. []) ixs))\<rparr>"

lemma demo_engine_laws: "engine_laws demo_engine"
  by (auto simp: engine_laws_def demo_engine_def demo_open_def)

lemma no_targets_laws: "resolver_laws no_targets"
  by (simp add: resolver_laws_def no_targets_def)

definition demo_source :: ffi_value where
  "demo_source = FArray [FObject [(lit ''note'', fstr ''hi''), (lit ''age'', FUInt32 41)], FObject [(lit ''age'', FUInt32 7), (lit ''note'', fstr ''yo'')]]"

definition demo_row :: "(rstr \<times> (context_piece \<times> ffi_value) ciphertext) list" where
  "demo_row = (case encrypt_with demo_engine demo_vitaminc no_targets demo_plan demo_source of
     Inr (Inr (Sequence (MapCt row # _))) \<Rightarrow> row | _ \<Rightarrow> [])"

definition encrypts :: "(dyn_error, (engine_error, 'l ciphertext) result) result \<Rightarrow> bool" where
  "encrypts r = (case r of Inr r \<Rightarrow> is_ok r | Inl _ \<Rightarrow> False)"

lemma demo_encrypts: "encrypts (encrypt_with demo_engine demo_vitaminc no_targets demo_plan demo_source)"
  by code_simp

lemma encryptsD: "encrypts r \<Longrightarrow> r = Inr (Inr (projr (projr r)))"
  by (cases r; cases "projr r") (simp_all add: encrypts_def)

theorem encrypt_then_decrypt_witness:
  "decrypt_with (\<lambda>_. []) demo_engine demo_vitaminc no_targets demo_plan None
      (projr (projr (encrypt_with demo_engine demo_vitaminc no_targets demo_plan demo_source)))
    = Inr (Inr (FArray [FObject [(lit ''age'', FUInt32 41), (lit ''note'', fstr ''hi'')], FObject [(lit ''age'', FUInt32 7), (lit ''note'', fstr ''yo'')]]))"
proof -
  have "plan_ok demo_plan" using plan_with_ok [OF demo_plan_parses] .
  note D = encrypt_then_decrypt [OF this demo_engine_laws no_targets_laws encryptsD [OF demo_encrypts]]
  have "returned_source demo_plan demo_source
      = FArray [FObject [(lit ''age'', FUInt32 41), (lit ''note'', fstr ''hi'')], FObject [(lit ''age'', FUInt32 7), (lit ''note'', fstr ''yo'')]]"
    by code_simp
  with D show ?thesis by simp
qed

theorem stored_forgeries_refused_witness:
  "\<exists>outs c. entries (lit ''note'') demo_row = [MapCt outs] \<and> entries (lit ''c'') outs = [c] \<and> sealed_tree c"
proof -
  let ?f = "p_fields demo_plan ! 1"
  have ok: "plan_ok demo_plan" using plan_with_ok [OF demo_plan_parses] .
  have "is_ok (record_row demo_vitaminc demo_plan demo_row)" by code_simp
  then obtain out where out: "record_row demo_vitaminc demo_plan demo_row = Inr out"
    by (cases "record_row demo_vitaminc demo_plan demo_row") auto
  have f: "?f \<in> set (p_fields demo_plan)" by (rule nth_mem) code_simp
  have "fp_verb ?f = EncryptVerb" "fp_name ?f = lit ''note''" by code_simp+
  with stored_forgeries_refused [OF ok out f] show ?thesis by auto
qed

text \<open>What a row's sealed fields are stored as.\<close>

lemma row_sealed:
  fixes E :: "'l engine"
  assumes ok: "plan_ok plan" and low: "lower plan = Inr b" and src: "source_row V plan row = Inr r"
    and eql: "seal_targets R plan (row_targets r) = Inr eql" and enc: "encrypt_row E b plan (row_values r) eql = Inr tree"
  obtains bl srow where "tree = MapCt srow" and "base_of plan row bl"
    and "\<And>f. f \<in> set (p_fields plan) \<Longrightarrow> fp_verb f = EncryptVerb \<or> fp_verb f = EncryptIndexVerb \<Longrightarrow>
      \<exists>outs c. entries (fp_name f) srow = [MapCt outs] \<and> entries (lit ''c'') outs = [c] \<and> e_seal E (seal_context (p_extension plan) bl f) (field_value row f) = Inr c"
proof -
  note S = source_row_spec [OF ok src]
  obtain out bs where run: "run_encryption E b (values_of (p_fields plan) row) None (p_extension plan) = Inr out"
    and bs: "collect id eql = Inr bs" and shape: "shape_record out bs (plan_shape plan) = Inr tree"
    using enc by (auto simp: encrypt_row_def and_then_Inr_iff S(1))
  have sealed: "list_all2 (\<lambda>f b. r_encrypt R (case fp_target f of Some n \<Rightarrow> n | None \<Rightarrow> []) (fp_label f) (field_value row f) = Inr (Inr b)) (target_fields plan) bs"
    using targets_sealed [OF _ bs] eql by (simp add: S(1))
  obtain bl where bl: "base_of plan row bl"
    and slots: "\<And>f. f \<in> set (p_fields plan) \<Longrightarrow> \<not> is_target f \<Longrightarrow> \<exists>slot. fv_slot (fp_name f) out = Some slot
       \<and> slot_for E (seal_context (p_extension plan) bl f) (field_value row f) f slot \<and> (keyed f \<longrightarrow> join bl (fp_identity f) = Inr (bl @ [fp_identity f]))"
    using run_slots [OF ok low run] unfolding base_of_def by blast
  have d: "distinct (map fp_name (p_fields plan))" using ok by (simp add: plan_ok_def)
  obtain srow where tree: "tree = MapCt srow"
    and l: "shape_loop out (map (target_bytes R row) (filter is_target (p_fields plan))) (map shape_of (p_fields plan)) = Inr srow"
    using shape unfolding targets_are_bytes [OF sealed] by (auto simp: shape_record_def target_fields_def plan_shape_def map_sum_Inr_iff)
  have "\<exists>outs c. entries (fp_name f) srow = [MapCt outs] \<and> entries (lit ''c'') outs = [c] \<and> e_seal E (seal_context (p_extension plan) bl f) (field_value row f) = Inr c"
    if f: "f \<in> set (p_fields plan)" and v: "fp_verb f = EncryptVerb \<or> fp_verb f = EncryptIndexVerb" for f
  proof -
    have nt: "\<not> is_target f" using v by (auto simp: target_verb)
    obtain os where os: "entries (fp_name f) srow = [MapCt os]" "field_outs out (target_bytes R row) f os"
      using entries_of_shape [OF shape_loop_spec [OF l d] d f] by auto
    obtain slot where "fv_slot (fp_name f) out = Some slot" "slot_for E (seal_context (p_extension plan) bl f) (field_value row f) f slot"
      using slots [OF f nt] by blast
    then have "\<exists>c. entries (lit ''c'') os = [c] \<and> e_seal E (seal_context (p_extension plan) bl f) (field_value row f) = Inr c"
      using os(2) v keyed_terms_entries by (auto simp: slot_for_def field_outs_def c_entries)
    then show ?thesis using os(1) by blast
  qed
  then show thesis using that tree bl by blast
qed

section \<open>Sealed apart\<close>

lemma split_text:
  "split_context p = Some (l, ext) \<Longrightarrow> piece_ok p \<Longrightarrow> list_all is_str l"
proof (induction "size p" arbitrary: p ext rule: less_induct)
  case less
  from less(2) show ?case
  proof (cases rule: split_context_cases)
    case label
    then show ?thesis using less(3) by (simp add: list_all_iff)
  next
    case (part inner p' ext')
    then show ?thesis using less(1) [of inner ext'] less(3) by simp
  qed
qed

lemma norm_under: "norm_of (under ext l) = norm_of (under ext m) \<Longrightarrow> norm_of (label_to_context l) = norm_of (label_to_context m)"
  by (induction ext rule: rev_induct) (simp_all add: under_def)

lemma norm_label_last:
  assumes "norm_of (label_to_context (bl @ [s])) = norm_of (label_to_context (bl @ [t]))" and "is_str s" and "is_str t"
  shows "s = t"
proof -
  have "map norm_of (map Text (bl @ [s])) = map norm_of (map Text (bl @ [t])) \<or> bl = [] \<and> as_bytes s = as_bytes t"
    using assms(1) by (cases bl; cases "tl bl") (simp_all add: label_context split: list.splits)
  then have "as_bytes s = as_bytes t" by auto
  then show ?thesis using as_bytes_inj assms(2,3) by blast
qed

lemma contexts_apart:
  assumes "b64_ok b64" and "is_str (fp_identity f)" and "is_str (fp_identity g)" and "fp_identity f \<noteq> fp_identity g"
    and "keyed f" and "keyed g"
  shows "from_piece b64 (seal_context ext bl f) \<noteq> from_piece b64 (seal_context ext bl g)"
proof
  assume "from_piece b64 (seal_context ext bl f) = from_piece b64 (seal_context ext bl g)"
  then have "norm_of (seal_context ext bl f) = norm_of (seal_context ext bl g)"
    using root_str_inj [OF assms(1)] by (auto simp: from_piece_def render_out)
  then have "fp_identity f = fp_identity g"
    using norm_under norm_label_last assms(2,3,5,6) unfolding seal_context_def by (metis (full_types))
  with assms(4) show False by blast
qed

lemma identity_text:
  assumes "plan_ok plan" and "f \<in> set (p_fields plan)" and "piece_ok (fp_context f)"
  shows "is_str (fp_identity f)"
proof -
  have "split_context (fp_context f) = Some (fp_label f, fp_extension f)"
    using assms(1,2) by (simp add: plan_ok_def list_all_iff field_ok_def)
  from split_text [OF this assms(3)] show ?thesis
    by (auto simp: fp_identity_def list_all_iff is_str_def)
qed

lemma declared_context:
  assumes "plan_ok plan" and "f \<in> set (p_fields plan)" and "p_context plan = CtxLabel bl" and "keyed f"
  shows "seal_context (p_extension plan) bl f = fp_context f"
proof -
  have s: "split_context (fp_context f) = Some (fp_label f, p_extension plan)"
    using assms(1,2) unfolding plan_ok_def list_all_iff field_ok_def by metis
  have "fp_label f = bl @ [fp_identity f]" "bl \<noteq> []" using assms(1-3) by (auto simp: plan_ok_def context_ok_def)
  then show ?thesis using split_under [OF s] assms(4) by (cases bl) (simp_all add: seal_context_def)
qed

text \<open>
  C11. Every field is sealed under a context of its own. When a row encrypts under a plan, there is
  one context per sealed or indexed field such that the stored \<open>c\<close> node of a sealed field is what the
  cipher made of the row's value under that field's context; no two of those contexts have the
  same descriptor, so no key and no ciphertext of one field serves another; and in a plan
  whose context is declared, each is exactly the context the plan wrote for the field.\<close>

theorem fields_sealed_apart:
  fixes E :: "'l engine"
  assumes ok: "plan_ok plan" and b64: "b64_ok b64" and strs: "\<forall>f \<in> set (p_fields plan). piece_ok (fp_context f)"
    and enc: "encrypt_with E V R plan (FObject row) = Inr (Inr tree)"
  shows "\<exists>ctx srow. tree = MapCt srow
    \<and> (\<forall>f \<in> set (p_fields plan). fp_verb f = EncryptVerb \<or> fp_verb f = EncryptIndexVerb \<longrightarrow>
         (\<exists>outs c. entries (fp_name f) srow = [MapCt outs] \<and> entries (lit ''c'') outs = [c] \<and> e_seal E (ctx f) (field_value row f) = Inr c))
    \<and> (\<forall>f \<in> set (p_fields plan). \<forall>g \<in> set (p_fields plan). f \<noteq> g \<longrightarrow> keyed f \<longrightarrow> keyed g \<longrightarrow> from_piece b64 (ctx f) \<noteq> from_piece b64 (ctx g))
    \<and> (\<forall>l. p_context plan = CtxLabel l \<longrightarrow> (\<forall>f \<in> set (p_fields plan). keyed f \<longrightarrow> ctx f = fp_context f))"
proof -
  obtain r :: "'l row" and b eql where src: "source_row V plan row = Inr r" and low: "lower plan = Inr b"
    and eql: "seal_targets R plan (row_targets r) = Inr eql" and e: "encrypt_row E b plan (row_values r) eql = Inr tree"
    using enc by (auto simp: encrypt_with_def source_rows_def and_then_Inr_iff map_sum_Inr_iff)
  obtain bl srow where tree: "tree = MapCt srow" and bl: "base_of plan row bl"
    and stored: "\<And>f. f \<in> set (p_fields plan) \<Longrightarrow> fp_verb f = EncryptVerb \<or> fp_verb f = EncryptIndexVerb \<Longrightarrow>
      \<exists>outs c. entries (fp_name f) srow = [MapCt outs] \<and> entries (lit ''c'') outs = [c] \<and> e_seal E (seal_context (p_extension plan) bl f) (field_value row f) = Inr c"
    using row_sealed [OF ok low src eql e] by blast
  have "fp_identity f \<noteq> fp_identity g" if "f \<in> set (p_fields plan)" "g \<in> set (p_fields plan)" "f \<noteq> g" "keyed f" "keyed g" for f g
  proof -
    have "inj_on fp_identity (set (filter keyed (p_fields plan)))" using ok by (simp add: plan_ok_def distinct_map)
    then show ?thesis using that by (auto dest: inj_onD)
  qed
  then have apart: "from_piece b64 (seal_context (p_extension plan) bl f) \<noteq> from_piece b64 (seal_context (p_extension plan) bl g)"
    if "f \<in> set (p_fields plan)" "g \<in> set (p_fields plan)" "f \<noteq> g" "keyed f" "keyed g" for f g
    using contexts_apart [OF b64] identity_text [OF ok] strs that by blast
  have "seal_context (p_extension plan) bl f = fp_context f" if "p_context plan = CtxLabel l" "f \<in> set (p_fields plan)" "keyed f" for l f
    using declared_context [OF ok that(2) _ that(3), of bl] bl that(1) by (simp add: base_of_def)
  with tree stored apart show ?thesis
    by (intro exI [of _ "seal_context (p_extension plan) bl"] exI [of _ srow]) blast
qed

definition demo_object :: "(rstr \<times> ffi_value) list" where
  "demo_object = [(lit ''note'', fstr ''hi''), (lit ''age'', FUInt32 41)]"

theorem fields_sealed_apart_witness:
  "\<exists>srow outs. encrypt_with demo_engine demo_vitaminc no_targets demo_plan (FObject demo_object) = Inr (Inr (MapCt srow))
     \<and> entries (lit ''note'') srow = [MapCt outs]
     \<and> entries (lit ''c'') outs = [Single (List [Text (lit ''users''), Text (lit ''note'')], fstr ''hi'')]"
proof -
  let ?f = "p_fields demo_plan ! 1" and ?e = "encrypt_with demo_engine demo_vitaminc no_targets demo_plan (FObject demo_object)"
  have ok: "plan_ok demo_plan" using plan_with_ok [OF demo_plan_parses] .
  have strs: "\<forall>f \<in> set (p_fields demo_plan). piece_ok (fp_context f)" by code_simp
  have "encrypts ?e" by code_simp
  then have e: "?e = Inr (Inr (projr (projr ?e)))" by (rule encryptsD)
  have f: "?f \<in> set (p_fields demo_plan)" by (rule nth_mem) code_simp
  have F: "fp_verb ?f = EncryptVerb" "fp_name ?f = lit ''note''" "fp_context ?f = List [Text (lit ''users''), Text (lit ''note'')]"
      "field_value demo_object ?f = fstr ''hi''" "p_context demo_plan = CtxLabel [lit ''users'']"
    by code_simp+
  have "keyed ?f" unfolding keyed_def F(1) by simp
  with fields_sealed_apart [OF ok hex_ok strs e] f F obtain srow outs c where
    "projr (projr ?e) = MapCt srow" "entries (lit ''note'') srow = [MapCt outs]" "entries (lit ''c'') outs = [c]"
    "e_seal demo_engine (fp_context ?f) (field_value demo_object ?f) = Inr c" by metis
  then show ?thesis using e F(3,4) by (auto simp: demo_engine_def)
qed

end
