(* ===== verification/Sealed_Tree.thy ===== *)
theory Sealed_Tree
  imports Key_Source Plan_Builder
begin

text \<open>
  The cipher of \<open>packages/stack-encrypt/src/cipher.rs\<close> and its execution in
  \<open>target/core.rs\<close>: a value is driven into a tree of leaves that await a data key, the tree
  is sealed with one key per leaf, and a stored tree is bound to the keys retrieved for it
  and opened. The AES cipher, the derivations of additional data (both vitaminc's) and
  the encoding of a UUID are arguments; what is relied on of them is \<open>aead_laws\<close>
  and \<open>uuid_laws\<close>.
\<close>

section \<open>Leaves\<close>

record sealed_value =
  sv_keyset :: uuid
  sv_iv :: iv
  sv_tag :: bytes
  sv_ciphertext :: bytes

datatype leaf_bytes_error = UnknownVersion u8 | Truncated | TagTooLong nat

record uuid_codec =
  uuid_bytes :: "uuid \<Rightarrow> bytes"
  uuid_from_slice :: "bytes \<Rightarrow> uuid option"

definition uuid_laws :: "uuid_codec \<Rightarrow> bool" where
  "uuid_laws U \<longleftrightarrow> (\<forall>u. length (uuid_bytes U u) = 16)
     \<and> (\<forall>b u. uuid_from_slice U b = Some u \<longleftrightarrow> b = uuid_bytes U u)
     \<and> (\<forall>b. length b = 16 \<longrightarrow> uuid_from_slice U b \<noteq> None)"

definition FORMAT_VERSION :: u8 where
  "FORMAT_VERSION = 1"

definition IV_LEN :: nat where
  "IV_LEN = 16"

definition u16_le :: "nat \<Rightarrow> bytes" where
  "u16_le n = [of_nat (n mod 256), of_nat (n div 256)]"

definition u16_of_le :: "u8 \<Rightarrow> u8 \<Rightarrow> nat" where
  "u16_of_le lo hi = unat lo + 256 * unat hi"

text \<open>A tag whose length does not fit is written with the largest length, which no constructor
  lets happen.\<close>

definition to_bytes :: "uuid_codec \<Rightarrow> sealed_value \<Rightarrow> bytes" where
  "to_bytes U v =
     (let tag_len = (if length (sv_tag v) < 2 ^ 16 then length (sv_tag v) else 2 ^ 16 - 1)
      in FORMAT_VERSION # uuid_bytes U (sv_keyset v) @ sv_iv v @ u16_le tag_len @ sv_tag v @ sv_ciphertext v)"

definition from_bytes :: "uuid_codec \<Rightarrow> bytes \<Rightarrow> (leaf_bytes_error, sealed_value) result" where
  "from_bytes U bs =
     (case bs of
        [] \<Rightarrow> Inl Truncated
      | version # rest \<Rightarrow>
          if version \<noteq> FORMAT_VERSION then Inl (UnknownVersion version)
          else if length rest < 16 + IV_LEN + 2 then Inl Truncated
          else (case uuid_from_slice U (take 16 rest) of
                  None \<Rightarrow> Inl Truncated
                | Some keyset_id \<Rightarrow>
                    (let rest = drop 16 rest;
                         v = take IV_LEN rest;
                         rest = drop IV_LEN rest;
                         tag_len = u16_of_le (rest ! 0) (rest ! 1);
                         rest = drop 2 rest
                     in if length rest < tag_len then Inl Truncated
                        else Inr \<lparr>sv_keyset = keyset_id, sv_iv = v, sv_tag = take tag_len rest,
                                  sv_ciphertext = drop tag_len rest\<rparr>)))"

definition tag_fits_length_field :: "bytes \<Rightarrow> (leaf_bytes_error, unit) result" where
  "tag_fits_length_field tag = (if length tag > 2 ^ 16 - 1 then Inl (TagTooLong (length tag)) else Inr ())"

definition from_parts :: "uuid \<Rightarrow> iv \<Rightarrow> bytes \<Rightarrow> bytes \<Rightarrow> (leaf_bytes_error, sealed_value) result" where
  "from_parts keyset_id v tag ct =
     and_then (tag_fits_length_field tag) (\<lambda>_.
       Inr \<lparr>sv_keyset = keyset_id, sv_iv = v, sv_tag = tag, sv_ciphertext = ct\<rparr>)"

text \<open>Every way of making a leaf keeps this: the \<open>iv\<close> is sixteen bytes by its type, and the tag
  fits.\<close>

definition leaf_ok :: "sealed_value \<Rightarrow> bool" where
  "leaf_ok v \<longleftrightarrow> length (sv_iv v) = IV_LEN \<and> length (sv_tag v) < 2 ^ 16"

lemma u16_round: "n < 2 ^ 16 \<Longrightarrow> u16_of_le (u16_le n ! 0) (u16_le n ! 1) = n"
  by (simp add: u16_le_def u16_of_le_def unat_of_nat take_bit_nat_def)

lemma u16_le_of: "u16_le (u16_of_le lo hi) = [lo, hi]"
proof -
  have "unat lo < 256" "unat hi < 256" using unsigned_less [where w = lo] unsigned_less [where w = hi] by simp_all
  then have "u16_of_le lo hi mod 256 = unat lo" "u16_of_le lo hi div 256 = unat hi" by (simp_all add: u16_of_le_def)
  then show ?thesis by (simp add: u16_le_def)
qed

lemma u16_bound: "u16_of_le lo hi < 2 ^ 16"
proof -
  have "unat lo < 256" "unat hi < 256" using unsigned_less [where w = lo] unsigned_less [where w = hi] by simp_all
  then show ?thesis by (simp add: u16_of_le_def)
qed

lemma from_bytes_to_bytes:
  assumes "uuid_laws U" and "leaf_ok v"
  shows "from_bytes U (to_bytes U v) = Inr v"
proof -
  have len: "length (uuid_bytes U (sv_keyset v)) = 16" "uuid_from_slice U (uuid_bytes U (sv_keyset v)) = Some (sv_keyset v)"
    using assms(1) by (simp_all add: uuid_laws_def)
  show ?thesis using assms(2) len u16_round [of "length (sv_tag v)"]
    by (simp add: from_bytes_def to_bytes_def leaf_ok_def Let_def IV_LEN_def u16_le_def nth_append)
qed

lemma from_bytes_Inr:
  assumes "uuid_laws U" and "from_bytes U bs = Inr v"
  shows "leaf_ok v" and "to_bytes U v = bs"
proof -
  obtain rest where bs: "bs = FORMAT_VERSION # rest" and len: "16 + IV_LEN + 2 \<le> length rest"
    using assms(2) by (auto simp: from_bytes_def Let_def split: list.splits if_splits)
  obtain k where k: "uuid_from_slice U (take 16 rest) = Some k"
    using assms(2) bs len by (auto simp: from_bytes_def Let_def split: if_splits option.splits)
  obtain a b c where r: "rest = a @ b @ c" "length a = 16" "length b = IV_LEN" "2 \<le> length c"
  proof (rule that)
    show "rest = take 16 rest @ take IV_LEN (drop 16 rest) @ drop IV_LEN (drop 16 rest)" by (simp only: append_take_drop_id)
  qed (use len in simp_all)
  then obtain lo hi d where c: "c = lo # hi # d" by (cases c; cases "tl c") auto
  let ?n = "u16_of_le lo hi"
  have v: "?n \<le> length d" "v = \<lparr>sv_keyset = k, sv_iv = b, sv_tag = take ?n d, sv_ciphertext = drop ?n d\<rparr>"
    using assms(2) bs r c k by (auto simp: from_bytes_def Let_def IV_LEN_def split: if_splits)
  have "take 16 rest = uuid_bytes U k" using k assms(1) by (simp add: uuid_laws_def)
  then have "a = uuid_bytes U k" using r by simp
  then show "leaf_ok v" "to_bytes U v = bs"
    using v r c bs u16_bound [of lo hi] u16_le_of [of lo hi] by (simp_all add: leaf_ok_def to_bytes_def Let_def)
qed

section \<open>The cipher's arguments\<close>

datatype unspecified = Unspecified


text \<open>The derivations of additional data, the AES cipher of one key, and the encoding of a context.
  A nonce is drawn per leaf.\<close>

record aead =
  aad_of :: "context_piece \<Rightarrow> bytes"
  pae :: "bytes list \<Rightarrow> bytes"
  for_sequence_element :: "bytes \<Rightarrow> bytes"
  for_empty_sequence :: "bytes \<Rightarrow> bytes"
  for_map_entry :: "bytes \<Rightarrow> rstr \<Rightarrow> bytes"
  for_empty_map :: "bytes \<Rightarrow> bytes"
  for_none :: "bytes \<Rightarrow> bytes"
  aes_seal :: "bytes \<Rightarrow> bytes \<Rightarrow> bytes \<Rightarrow> bytes \<Rightarrow> bytes option"
  aes_open :: "bytes \<Rightarrow> bytes \<Rightarrow> bytes \<Rightarrow> bytes option"

definition aead_laws :: "aead \<Rightarrow> bool" where
  "aead_laws A \<longleftrightarrow> (\<forall>nonce key aad text c. aes_seal A nonce key aad text = Some c \<longrightarrow> aes_open A key aad c = Some text)"

section \<open>The tree of a value, before its keys\<close>

datatype pending_ct =
    PdSingle bytes bytes
  | PdSequence "pending_ct list"
  | PdEmptySequence bytes
  | PdMap "(rstr \<times> pending_ct) list"
  | PdEmptyMap bytes
  | PdNone bytes
  | PdPassthrough "ffi_value option"

fun is_pd_passthrough :: "pending_ct \<Rightarrow> bool" where
  "is_pd_passthrough (PdPassthrough _) = True"
| "is_pd_passthrough _ = False"

fun key_count :: "pending_ct \<Rightarrow> nat" where
  "key_count (PdSequence items) = sum_list (map key_count items)"
| "key_count (PdMap es) = sum_list (map (\<lambda>e. key_count (snd e)) es)"
| "key_count (PdPassthrough _) = 0"
| "key_count _ = 1"

text \<open>\<open>PendingSeqCipher\<close>: an element arrives as the tree its own encryption made.\<close>

record seq_cipher =
  sq_items :: "pending_ct list"
  sq_aad :: bytes
  sq_element_aad :: bytes
  sq_encrypted :: bool

definition encrypt_seq :: "aead \<Rightarrow> bytes \<Rightarrow> seq_cipher" where
  "encrypt_seq A aad = \<lparr>sq_items = [], sq_aad = aad, sq_element_aad = for_sequence_element A aad, sq_encrypted = False\<rparr>"

definition encrypt_next :: "pending_ct \<Rightarrow> seq_cipher \<Rightarrow> seq_cipher" where
  "encrypt_next pending c =
     c\<lparr>sq_encrypted := sq_encrypted c \<or> \<not> is_pd_passthrough pending, sq_items := sq_items c @ [pending]\<rparr>"

definition passthrough_next :: "ffi_value option \<Rightarrow> seq_cipher \<Rightarrow> seq_cipher" where
  "passthrough_next v c = c\<lparr>sq_items := sq_items c @ [PdPassthrough v]\<rparr>"

definition seq_end :: "aead \<Rightarrow> seq_cipher \<Rightarrow> (unspecified, pending_ct) result" where
  "seq_end A c =
     (if sq_items c = [] then Inr (PdEmptySequence (for_empty_sequence A (sq_aad c)))
      else if \<not> sq_encrypted c then Inl Unspecified
      else Inr (PdSequence (sq_items c)))"

text \<open>\<open>PendingMapCipher\<close>.\<close>

record map_cipher =
  mc_entries :: "(rstr \<times> pending_ct) list"
  mc_seen :: "rstr list"
  mc_current :: "rstr option"
  mc_aad :: bytes
  mc_encrypted :: bool

definition encrypt_map :: "bytes \<Rightarrow> map_cipher" where
  "encrypt_map aad = \<lparr>mc_entries = [], mc_seen = [], mc_current = None, mc_aad = aad, mc_encrypted = False\<rparr>"

definition encrypt_key :: "rstr \<Rightarrow> map_cipher \<Rightarrow> (unspecified, map_cipher) result" where
  "encrypt_key key c =
     (if mc_current c \<noteq> None then Inl Unspecified
      else if key \<in> set (mc_seen c) then Inl Unspecified
      else Inr (c\<lparr>mc_seen := key # mc_seen c, mc_current := Some key\<rparr>))"

text \<open>The additional data the value of the current key is encrypted with, and its tree stored.\<close>

definition entry_aad :: "aead \<Rightarrow> map_cipher \<Rightarrow> (unspecified, bytes) result" where
  "entry_aad A c = map_sum id (for_map_entry A (mc_aad c)) (ok_or (mc_current c) Unspecified)"

definition encrypt_value :: "pending_ct \<Rightarrow> map_cipher \<Rightarrow> (unspecified, map_cipher) result" where
  "encrypt_value pending c =
     (case mc_current c of
        None \<Rightarrow> Inl Unspecified
      | Some key \<Rightarrow> Inr (c\<lparr>mc_current := None, mc_encrypted := mc_encrypted c \<or> \<not> is_pd_passthrough pending,
                            mc_entries := mc_entries c @ [(key, pending)]\<rparr>))"

definition passthrough_entry :: "rstr \<Rightarrow> ffi_value option \<Rightarrow> map_cipher \<Rightarrow> (unspecified, map_cipher) result" where
  "passthrough_entry key v c =
     (if mc_current c \<noteq> None then Inl Unspecified
      else if key \<in> set (mc_seen c) then Inl Unspecified
      else Inr (c\<lparr>mc_seen := key # mc_seen c, mc_entries := mc_entries c @ [(key, PdPassthrough v)]\<rparr>))"

definition map_end :: "aead \<Rightarrow> map_cipher \<Rightarrow> (unspecified, pending_ct) result" where
  "map_end A c =
     (if mc_current c \<noteq> None then Inl Unspecified
      else if mc_entries c = [] then Inr (PdEmptyMap (for_empty_map A (mc_aad c)))
      else if \<not> mc_encrypted c then Inl Unspecified
      else Inr (PdMap (mc_entries c)))"

text \<open>A value, as the calls its encryption makes: bytes, an absence, a sequence, a map, or a payload
  passed through.\<close>

datatype plain =
    PlBytes bytes
  | PlNone
  | PlSeq "plain list"
  | PlMap "(rstr \<times> plain) list"
  | PlPass "ffi_value option"

fun encrypt_with_aad :: "aead \<Rightarrow> plain \<Rightarrow> bytes \<Rightarrow> (unspecified, pending_ct) result"
  and encrypt_items :: "aead \<Rightarrow> plain list \<Rightarrow> seq_cipher \<Rightarrow> (unspecified, seq_cipher) result"
  and encrypt_entries :: "aead \<Rightarrow> (rstr \<times> plain) list \<Rightarrow> map_cipher \<Rightarrow> (unspecified, map_cipher) result" where
  "encrypt_with_aad A (PlBytes b) aad = Inr (PdSingle b aad)"
| "encrypt_with_aad A PlNone aad = Inr (PdNone (for_none A aad))"
| "encrypt_with_aad A (PlPass v) aad = Inr (PdPassthrough v)"
| "encrypt_with_aad A (PlSeq items) aad = and_then (encrypt_items A items (encrypt_seq A aad)) (seq_end A)"
| "encrypt_with_aad A (PlMap es) aad = and_then (encrypt_entries A es (encrypt_map aad)) (map_end A)"
| "encrypt_items A [] c = Inr c"
| "encrypt_items A (x # xs) c =
     and_then (encrypt_with_aad A x (sq_element_aad c)) (\<lambda>p. encrypt_items A xs (encrypt_next p c))"
| "encrypt_entries A [] c = Inr c"
| "encrypt_entries A (e # es) c =
     and_then (encrypt_key (fst e) c) (\<lambda>c.
     and_then (entry_aad A c) (\<lambda>aad.
     and_then (encrypt_with_aad A (snd e) aad) (\<lambda>p.
     and_then (encrypt_value p c) (encrypt_entries A es))))"

section \<open>Sealing\<close>

definition LEAF_AAD_DOMAIN :: bytes where
  "LEAF_AAD_DOMAIN = as_bytes (lit ''stack-encrypt/leaf'')"

definition leaf_aad :: "aead \<Rightarrow> uuid_codec \<Rightarrow> bytes \<Rightarrow> uuid \<Rightarrow> bytes \<Rightarrow> bytes" where
  "leaf_aad A U aad keyset_id tag = pae A [LEAF_AAD_DOMAIN, [FORMAT_VERSION], uuid_bytes U keyset_id, aad, tag]"

text \<open>A key comes with the nonce the leaf's cipher draws.\<close>

type_synonym draw = "data_key_with_tag \<times> bytes"

definition seal_leaf :: "aead \<Rightarrow> uuid_codec \<Rightarrow> bytes \<Rightarrow> bytes \<Rightarrow> uuid \<Rightarrow> draw \<Rightarrow> (unspecified, sealed_value) result" where
  "seal_leaf A U text aad keyset_id draw =
     (case draw of (key, nonce) \<Rightarrow>
       and_then (map_sum (\<lambda>_. Unspecified) id (tag_fits_length_field (kt_tag key))) (\<lambda>_.
       and_then (ok_or (aes_seal A nonce (dk_key (kt_key key)) (leaf_aad A U aad keyset_id (kt_tag key)) text) Unspecified) (\<lambda>c.
         Inr \<lparr>sv_keyset = keyset_id, sv_iv = dk_iv (kt_key key), sv_tag = kt_tag key, sv_ciphertext = c\<rparr>)))"

fun next_leaf ::
  "aead \<Rightarrow> uuid_codec \<Rightarrow> uuid \<Rightarrow> bytes \<Rightarrow> bytes \<Rightarrow> draw list \<Rightarrow> (unspecified, sealed_value \<times> draw list) result" where
  "next_leaf A U keyset_id text aad [] = Inl Unspecified"
| "next_leaf A U keyset_id text aad (key # keys) = map_sum id (\<lambda>v. (v, keys)) (seal_leaf A U text aad keyset_id key)"

fun seal_with ::
  "aead \<Rightarrow> uuid_codec \<Rightarrow> uuid \<Rightarrow> pending_ct \<Rightarrow> draw list \<Rightarrow> (unspecified, sealed_value ciphertext \<times> draw list) result"
  and seal_items ::
  "aead \<Rightarrow> uuid_codec \<Rightarrow> uuid \<Rightarrow> pending_ct list \<Rightarrow> draw list \<Rightarrow> (unspecified, sealed_value ciphertext list \<times> draw list) result"
  and seal_entries ::
  "aead \<Rightarrow> uuid_codec \<Rightarrow> uuid \<Rightarrow> (rstr \<times> pending_ct) list \<Rightarrow> draw list
     \<Rightarrow> (unspecified, (rstr \<times> sealed_value ciphertext) list \<times> draw list) result" where
  "seal_with A U k (PdSingle text aad) keys = map_sum id (map_prod Single id) (next_leaf A U k text aad keys)"
| "seal_with A U k (PdNone aad) keys = map_sum id (map_prod NoneCt id) (next_leaf A U k [] aad keys)"
| "seal_with A U k (PdEmptySequence aad) keys = map_sum id (map_prod EmptySequence id) (next_leaf A U k [] aad keys)"
| "seal_with A U k (PdEmptyMap aad) keys = map_sum id (map_prod EmptyMap id) (next_leaf A U k [] aad keys)"
| "seal_with A U k (PdSequence items) keys = map_sum id (map_prod Sequence id) (seal_items A U k items keys)"
| "seal_with A U k (PdMap es) keys = map_sum id (map_prod MapCt id) (seal_entries A U k es keys)"
| "seal_with A U k (PdPassthrough v) keys = Inr (PassthroughCt v, keys)"
| "seal_items A U k [] keys = Inr ([], keys)"
| "seal_items A U k (x # xs) keys =
     and_then (seal_with A U k x keys) (\<lambda>(t, keys).
       map_sum id (map_prod (Cons t) id) (seal_items A U k xs keys))"
| "seal_entries A U k [] keys = Inr ([], keys)"
| "seal_entries A U k (e # es) keys =
     and_then (seal_with A U k (snd e) keys) (\<lambda>(t, keys).
       map_sum id (map_prod (Cons (fst e, t)) id) (seal_entries A U k es keys))"

section \<open>Opening\<close>

record keyed_leaf =
  kl_leaf :: sealed_value
  kl_key :: data_key

fun bind_leaf :: "sealed_value \<Rightarrow> data_key list \<Rightarrow> (unspecified, keyed_leaf \<times> data_key list) result" where
  "bind_leaf leaf [] = Inl Unspecified"
| "bind_leaf leaf (key # keys) = Inr (\<lparr>kl_leaf = leaf, kl_key = key\<rparr>, keys)"

fun bind_keys :: "sealed_value ciphertext \<Rightarrow> data_key list \<Rightarrow> (unspecified, keyed_leaf ciphertext \<times> data_key list) result"
  and bind_items :: "sealed_value ciphertext list \<Rightarrow> data_key list \<Rightarrow> (unspecified, keyed_leaf ciphertext list \<times> data_key list) result"
  and bind_entries :: "(rstr \<times> sealed_value ciphertext) list \<Rightarrow> data_key list
     \<Rightarrow> (unspecified, (rstr \<times> keyed_leaf ciphertext) list \<times> data_key list) result" where
  "bind_keys (Single leaf) keys = map_sum id (map_prod Single id) (bind_leaf leaf keys)"
| "bind_keys (NoneCt leaf) keys = map_sum id (map_prod NoneCt id) (bind_leaf leaf keys)"
| "bind_keys (EmptySequence leaf) keys = map_sum id (map_prod EmptySequence id) (bind_leaf leaf keys)"
| "bind_keys (EmptyMap leaf) keys = map_sum id (map_prod EmptyMap id) (bind_leaf leaf keys)"
| "bind_keys (Sequence items) keys = map_sum id (map_prod Sequence id) (bind_items items keys)"
| "bind_keys (MapCt es) keys = map_sum id (map_prod MapCt id) (bind_entries es keys)"
| "bind_keys (PassthroughCt v) keys = Inr (PassthroughCt v, keys)"
| "bind_items [] keys = Inr ([], keys)"
| "bind_items (x # xs) keys =
     and_then (bind_keys x keys) (\<lambda>(t, keys). map_sum id (map_prod (Cons t) id) (bind_items xs keys))"
| "bind_entries [] keys = Inr ([], keys)"
| "bind_entries (e # es) keys =
     and_then (bind_keys (snd e) keys) (\<lambda>(t, keys). map_sum id (map_prod (Cons (fst e, t)) id) (bind_entries es keys))"

definition open_leaf :: "aead \<Rightarrow> uuid_codec \<Rightarrow> keyed_leaf \<Rightarrow> bytes \<Rightarrow> (unspecified, bytes) result" where
  "open_leaf A U keyed aad =
     ok_or (aes_open A (dk_key (kl_key keyed))
       (leaf_aad A U aad (sv_keyset (kl_leaf keyed)) (sv_tag (kl_leaf keyed))) (sv_ciphertext (kl_leaf keyed))) Unspecified"

definition verify_empty_marker :: "aead \<Rightarrow> uuid_codec \<Rightarrow> keyed_leaf \<Rightarrow> bytes \<Rightarrow> (unspecified, unit) result" where
  "verify_empty_marker A U keyed aad =
     and_then (open_leaf A U keyed aad) (\<lambda>text. if text = [] then Inr () else Inl Unspecified)"

fun is_passthrough :: "'l ciphertext \<Rightarrow> bool" where
  "is_passthrough (PassthroughCt _) = True"
| "is_passthrough _ = False"

text \<open>\<open>decrypt_any\<close>, driven by a value that takes whatever it finds: a map's entries are refused
  when a key repeats, and a container with nothing sealed in it is refused.\<close>

fun decrypt_any :: "aead \<Rightarrow> uuid_codec \<Rightarrow> keyed_leaf ciphertext \<Rightarrow> bytes \<Rightarrow> (unspecified, plain) result" where
  "decrypt_any A U (Single keyed) aad = map_sum id PlBytes (open_leaf A U keyed aad)"
| "decrypt_any A U (NoneCt keyed) aad = map_sum id (\<lambda>_. PlNone) (verify_empty_marker A U keyed (for_none A aad))"
| "decrypt_any A U (EmptySequence keyed) aad =
     map_sum id (\<lambda>_. PlSeq []) (verify_empty_marker A U keyed (for_empty_sequence A aad))"
| "decrypt_any A U (EmptyMap keyed) aad =
     map_sum id (\<lambda>_. PlMap []) (verify_empty_marker A U keyed (for_empty_map A aad))"
| "decrypt_any A U (Sequence items) aad =
     (if list_all is_passthrough items then Inl Unspecified
      else map_sum id PlSeq (collect (\<lambda>item. decrypt_any A U item (for_sequence_element A aad)) items))"
| "decrypt_any A U (MapCt es) aad =
     (if list_all (\<lambda>e. is_passthrough (snd e)) es then Inl Unspecified
      else if \<not> distinct (map fst es) then Inl Unspecified
      else map_sum id PlMap (collect (\<lambda>e. map_sum id (Pair (fst e)) (decrypt_any A U (snd e) (for_map_entry A aad (fst e)))) es))"
| "decrypt_any A U (PassthroughCt v) aad = Inr (PlPass v)"

section \<open>Driving a map's entries\<close>

text \<open>\<open>StackMapAccess\<close>: the entry whose key was handed out waits for its value to be opened.\<close>

record map_access =
  ma_entries :: "(rstr \<times> keyed_leaf ciphertext) list"
  ma_aad :: bytes
  ma_pending :: "(bytes \<times> keyed_leaf ciphertext) option"

definition next_key :: "aead \<Rightarrow> map_access \<Rightarrow> (unspecified, rstr option \<times> map_access) result" where
  "next_key A m =
     (if ma_pending m \<noteq> None then Inl Unspecified
      else case ma_entries m of
             (key, ct) # rest \<Rightarrow>
               Inr (Some key, m\<lparr>ma_entries := rest, ma_pending := Some (for_map_entry A (ma_aad m) key, ct)\<rparr>)
           | [] \<Rightarrow> Inr (None, m))"

definition next_value :: "map_access \<Rightarrow> (unspecified, (bytes \<times> keyed_leaf ciphertext) \<times> map_access) result" where
  "next_value m = map_sum id (\<lambda>e. (e, m\<lparr>ma_pending := None\<rparr>)) (ok_or (ma_pending m) Unspecified)"

definition next_passthrough :: "map_access \<Rightarrow> (unspecified, ffi_value option) result \<times> map_access" where
  "next_passthrough m =
     (case ma_pending m of
        Some (_, PassthroughCt v) \<Rightarrow> (Inr v, m\<lparr>ma_pending := None\<rparr>)
      | _ \<Rightarrow> (Inl Unspecified, m))"

text \<open>The loop of a value that reads every entry.\<close>

function visit_entries ::
  "aead \<Rightarrow> map_access \<Rightarrow> (unspecified, (rstr \<times> bytes \<times> keyed_leaf ciphertext) list) result" where
  "visit_entries A m =
     (case next_key A m of
        Inl e \<Rightarrow> Inl e
      | Inr (None, _) \<Rightarrow> Inr []
      | Inr (Some key, m') \<Rightarrow>
          (case next_value m' of
             Inl e \<Rightarrow> Inl e
           | Inr (e, m'') \<Rightarrow> map_sum id (Cons (key, e)) (visit_entries A m'')))"
  by pat_completeness auto
termination
  by (relation "measure (\<lambda>(A, m). length (ma_entries m))")
    (auto simp: next_key_def next_value_def map_sum_Inr_iff ok_or_Inr_iff split: if_splits list.splits)

declare visit_entries.simps [simp del]

lemma visit_entries_all:
  "ma_pending m = None \<Longrightarrow>
     visit_entries A m = Inr (map (\<lambda>(key, ct). (key, for_map_entry A (ma_aad m) key, ct)) (ma_entries m))"
proof (induction "ma_entries m" arbitrary: m)
  case Nil
  then show ?case by (simp add: visit_entries.simps [of A m] next_key_def split: list.splits)
next
  case (Cons e es)
  let ?m = "m\<lparr>ma_entries := es, ma_pending := None\<rparr>"
  have "visit_entries A ?m = Inr (map (\<lambda>(key, ct). (key, for_map_entry A (ma_aad m) key, ct)) es)"
    using Cons.hyps(1) [of ?m] by simp
  then show ?case using Cons.prems Cons.hyps(2) [symmetric]
    by (cases e) (simp add: visit_entries.simps [of A m] next_key_def next_value_def)
qed

text \<open>Opening a map is visiting its entries and opening each under its own additional data.\<close>

lemma decrypt_map_visits:
  "decrypt_any A U (MapCt es) aad =
     (if list_all (\<lambda>e. is_passthrough (snd e)) es \<or> \<not> distinct (map fst es) then Inl Unspecified
      else and_then (visit_entries A \<lparr>ma_entries = es, ma_aad = aad, ma_pending = None\<rparr>) (\<lambda>vs.
        map_sum id PlMap (collect (\<lambda>v. map_sum id (Pair (fst v)) (decrypt_any A U (snd (snd v)) (fst (snd v)))) vs)))"
  by (simp add: visit_entries_all collect_map case_prod_unfold)

section \<open>What the drivers build\<close>

lemma encrypt_items_spec:
  assumes "encrypt_items A xs c = Inr c'"
  shows "\<exists>ps. sq_items c' = sq_items c @ ps \<and> sq_aad c' = sq_aad c
    \<and> (sq_encrypted c' \<longleftrightarrow> sq_encrypted c \<or> \<not> list_all is_pd_passthrough ps)
    \<and> list_all2 (\<lambda>x p. encrypt_with_aad A x (sq_element_aad c) = Inr p) xs ps"
  using assms
proof (induction xs arbitrary: c)
  case (Cons x xs)
  obtain p where p: "encrypt_with_aad A x (sq_element_aad c) = Inr p" and r: "encrypt_items A xs (encrypt_next p c) = Inr c'"
    using Cons.prems by (auto simp: and_then_Inr_iff)
  obtain ps where ps: "sq_items c' = sq_items c @ p # ps" "sq_aad c' = sq_aad c"
    "sq_encrypted c' \<longleftrightarrow> (sq_encrypted c \<or> \<not> is_pd_passthrough p) \<or> \<not> list_all is_pd_passthrough ps"
    "list_all2 (\<lambda>x p. encrypt_with_aad A x (sq_element_aad c) = Inr p) xs ps"
    using Cons.IH [OF r] by (auto simp: encrypt_next_def)
  then show ?case using p by (intro exI [of _ "p # ps"]) auto
qed simp

lemma encrypt_entries_spec:
  assumes "encrypt_entries A es c = Inr c'" and "mc_current c = None"
  shows "\<exists>ps. mc_entries c' = mc_entries c @ ps \<and> mc_aad c' = mc_aad c \<and> mc_current c' = None
    \<and> (mc_encrypted c' \<longleftrightarrow> mc_encrypted c \<or> \<not> list_all (\<lambda>e. is_pd_passthrough (snd e)) ps)
    \<and> distinct (map fst es) \<and> set (map fst es) \<inter> set (mc_seen c) = {}
    \<and> list_all2 (\<lambda>e p. fst p = fst e \<and> encrypt_with_aad A (snd e) (for_map_entry A (mc_aad c) (fst e)) = Inr (snd p)) es ps"
  using assms
proof (induction es arbitrary: c)
  case (Cons e es)
  let ?c = "c\<lparr>mc_seen := fst e # mc_seen c, mc_current := Some (fst e)\<rparr>"
  have fresh: "fst e \<notin> set (mc_seen c)" and k: "encrypt_key (fst e) c = Inr ?c"
    using Cons.prems by (auto simp: and_then_Inr_iff encrypt_key_def split: if_splits)
  obtain p where p: "encrypt_with_aad A (snd e) (for_map_entry A (mc_aad c) (fst e)) = Inr p"
    and r: "encrypt_entries A es (?c\<lparr>mc_current := None, mc_encrypted := mc_encrypted c \<or> \<not> is_pd_passthrough p,
                            mc_entries := mc_entries c @ [(fst e, p)]\<rparr>) = Inr c'"
    using Cons.prems(1) k by (auto simp: and_then_Inr_iff entry_aad_def encrypt_value_def)
  obtain ps where ps: "mc_entries c' = mc_entries c @ (fst e, p) # ps" "mc_aad c' = mc_aad c" "mc_current c' = None"
    "mc_encrypted c' \<longleftrightarrow> (mc_encrypted c \<or> \<not> is_pd_passthrough p) \<or> \<not> list_all (\<lambda>e. is_pd_passthrough (snd e)) ps"
    "distinct (map fst es)" "set (map fst es) \<inter> set (fst e # mc_seen c) = {}"
    "list_all2 (\<lambda>e p. fst p = fst e \<and> encrypt_with_aad A (snd e) (for_map_entry A (mc_aad c) (fst e)) = Inr (snd p)) es ps"
    using Cons.IH [OF r] by auto
  then show ?case using p fresh by (intro exI [of _ "(fst e, p) # ps"]) auto
qed simp

text \<open>The tree of a sequence and of a map.\<close>

lemma encrypt_seq_tree:
  assumes "encrypt_with_aad A (PlSeq xs) aad = Inr t"
  shows "if xs = [] then t = PdEmptySequence (for_empty_sequence A aad)
    else \<exists>ps. t = PdSequence ps \<and> \<not> list_all is_pd_passthrough ps
      \<and> list_all2 (\<lambda>x p. encrypt_with_aad A x (for_sequence_element A aad) = Inr p) xs ps"
proof -
  obtain c where c: "encrypt_items A xs (encrypt_seq A aad) = Inr c" and t: "seq_end A c = Inr t"
    using assms by (auto simp: and_then_Inr_iff)
  show ?thesis using encrypt_items_spec [OF c] t
    by (auto simp: encrypt_seq_def seq_end_def split: if_splits)
qed

lemma encrypt_map_tree:
  assumes "encrypt_with_aad A (PlMap es) aad = Inr t"
  shows "if es = [] then t = PdEmptyMap (for_empty_map A aad)
    else \<exists>ps. t = PdMap ps \<and> \<not> list_all (\<lambda>e. is_pd_passthrough (snd e)) ps \<and> distinct (map fst es)
      \<and> list_all2 (\<lambda>e p. fst p = fst e \<and> encrypt_with_aad A (snd e) (for_map_entry A aad (fst e)) = Inr (snd p)) es ps"
proof -
  obtain c where c: "encrypt_entries A es (encrypt_map aad) = Inr c" and t: "map_end A c = Inr t"
    using assms by (auto simp: and_then_Inr_iff)
  have "mc_current (encrypt_map aad) = None" by (simp add: encrypt_map_def)
  from encrypt_entries_spec [OF c this] t show ?thesis
    by (auto simp: encrypt_map_def map_end_def split: if_splits)
qed

section \<open>Seal, bind, open\<close>

text \<open>The leaves of a tree in the order keys are drawn and requested.\<close>

fun leaves :: "'l ciphertext \<Rightarrow> 'l list" where
  "leaves (Single l) = [l]"
| "leaves (NoneCt l) = [l]"
| "leaves (EmptySequence l) = [l]"
| "leaves (EmptyMap l) = [l]"
| "leaves (Sequence items) = concat (map leaves items)"
| "leaves (MapCt es) = concat (map (\<lambda>e. leaves (snd e)) es)"
| "leaves (PassthroughCt _) = []"

definition drawn_key :: "draw \<Rightarrow> data_key" where
  "drawn_key d = kt_key (fst d)"

text \<open>A leaf that stores what its key is retrieved by.\<close>

definition stores :: "uuid \<Rightarrow> draw \<Rightarrow> sealed_value \<Rightarrow> bool" where
  "stores k d l \<longleftrightarrow> sv_keyset l = k \<and> sv_iv l = dk_iv (drawn_key d) \<and> sv_tag l = kt_tag (fst d) \<and> length (sv_tag l) < 2 ^ 16"

text \<open>A tree sealed with the draws \<open>used\<close>, and what it becomes once their keys are bound to it.\<close>

definition sealed_by :: "uuid \<Rightarrow> draw list \<Rightarrow> sealed_value ciphertext \<Rightarrow> keyed_leaf ciphertext \<Rightarrow> bool" where
  "sealed_by k used ct kt \<longleftrightarrow> list_all2 (stores k) used (leaves ct)
     \<and> (\<forall>ks. bind_keys ct (map drawn_key used @ ks) = Inr (kt, ks)) \<and> (is_passthrough kt \<longleftrightarrow> is_passthrough ct)"

definition sealed_items :: "uuid \<Rightarrow> draw list \<Rightarrow> sealed_value ciphertext list \<Rightarrow> keyed_leaf ciphertext list \<Rightarrow> bool" where
  "sealed_items k used cts kts \<longleftrightarrow> list_all2 (stores k) used (concat (map leaves cts))
     \<and> (\<forall>ks. bind_items cts (map drawn_key used @ ks) = Inr (kts, ks))"

definition sealed_entries ::
  "uuid \<Rightarrow> draw list \<Rightarrow> (rstr \<times> sealed_value ciphertext) list \<Rightarrow> (rstr \<times> keyed_leaf ciphertext) list \<Rightarrow> bool" where
  "sealed_entries k used cts kts \<longleftrightarrow> list_all2 (stores k) used (concat (map (\<lambda>e. leaves (snd e)) cts))
     \<and> (\<forall>ks. bind_entries cts (map drawn_key used @ ks) = Inr (kts, ks))"

lemma sealed_items_Cons:
  "sealed_by k used ct kt \<Longrightarrow> sealed_items k used' cts kts \<Longrightarrow> sealed_items k (used @ used') (ct # cts) (kt # kts)"
  by (simp add: sealed_by_def sealed_items_def list_all2_appendI)

lemma sealed_entries_Cons:
  "sealed_by k used ct kt \<Longrightarrow> sealed_entries k used' cts kts \<Longrightarrow> sealed_entries k (used @ used') ((n, ct) # cts) ((n, kt) # kts)"
  by (simp add: sealed_by_def sealed_entries_def list_all2_appendI)

text \<open>What sealing one tree achieves: it draws one key per leaf, and what is bound to those keys
  opens to the value.\<close>

definition reopens :: "aead \<Rightarrow> uuid_codec \<Rightarrow> uuid \<Rightarrow> plain \<Rightarrow> bytes \<Rightarrow> pending_ct \<Rightarrow> bool" where
  "reopens A U k v aad p \<longleftrightarrow> (\<forall>ds ct ds'. seal_with A U k p ds = Inr (ct, ds') \<longrightarrow>
     (\<exists>used kt. ds = used @ ds' \<and> length used = key_count p \<and> sealed_by k used ct kt
        \<and> decrypt_any A U kt aad = Inr v \<and> (is_passthrough kt \<longleftrightarrow> is_pd_passthrough p)))"

lemma leaf_reopens:
  assumes "aead_laws A" and "next_leaf A U k text aad ds = Inr (l, ds')"
  shows "\<exists>d. ds = d # ds' \<and> stores k d l \<and> open_leaf A U \<lparr>kl_leaf = l, kl_key = drawn_key d\<rparr> aad = Inr text"
proof -
  obtain key nonce where ds: "ds = (key, nonce) # ds'" and s: "seal_leaf A U text aad k (key, nonce) = Inr l"
    using assms(2) by (cases ds) (auto simp: map_sum_Inr_iff)
  then have "aes_open A (dk_key (kt_key key)) (leaf_aad A U aad k (kt_tag key)) (sv_ciphertext l) = Some text"
    using assms(1) by (auto simp: seal_leaf_def and_then_Inr_iff ok_or_Inr_iff aead_laws_def)
  then show ?thesis using ds s
    by (auto simp: seal_leaf_def and_then_Inr_iff stores_def open_leaf_def drawn_key_def tag_fits_length_field_def
        map_sum_Inr_iff split: if_splits)
qed

lemma reopens_leaf:
  assumes "aead_laws A"
  shows "reopens A U k (PlBytes b) aad (PdSingle b aad)"
    and "reopens A U k PlNone aad (PdNone (for_none A aad))"
    and "reopens A U k (PlSeq []) aad (PdEmptySequence (for_empty_sequence A aad))"
    and "reopens A U k (PlMap []) aad (PdEmptyMap (for_empty_map A aad))"
  using leaf_reopens [OF assms, of U k]
  by (fastforce simp: reopens_def map_sum_Inr_iff sealed_by_def drawn_key_def verify_empty_marker_def)+

lemma collect_ConsI: "f x = Inr y \<Longrightarrow> collect f xs = Inr ys \<Longrightarrow> collect f (x # xs) = Inr (y # ys)"
  by simp

lemma seal_items_reopens:
  assumes "list_all2 (\<lambda>x p. reopens A U k x aad p) xs ps" and "seal_items A U k ps ds = Inr (cts, ds')"
  shows "\<exists>used kts. ds = used @ ds' \<and> length used = sum_list (map key_count ps) \<and> sealed_items k used cts kts
    \<and> collect (\<lambda>t. decrypt_any A U t aad) kts = Inr xs \<and> map is_passthrough kts = map is_pd_passthrough ps"
  using assms
proof (induction arbitrary: ds cts rule: list_all2_induct)
  case Nil
  then show ?case by (auto simp: sealed_items_def)
next
  case (Cons x xs p ps)
  obtain ct ds1 cts1 where s: "seal_with A U k p ds = Inr (ct, ds1)" and r: "seal_items A U k ps ds1 = Inr (cts1, ds')"
    and cts: "cts = ct # cts1" using Cons.prems by (auto simp: and_then_Inr_iff map_sum_Inr_iff)
  obtain used kt where one: "ds = used @ ds1" "length used = key_count p" "sealed_by k used ct kt"
    "decrypt_any A U kt aad = Inr x" "is_passthrough kt \<longleftrightarrow> is_pd_passthrough p"
    using Cons.hyps(1) s unfolding reopens_def by blast
  obtain used' kts where more: "ds1 = used' @ ds'" "length used' = sum_list (map key_count ps)" "sealed_items k used' cts1 kts"
    "collect (\<lambda>t. decrypt_any A U t aad) kts = Inr xs" "map is_passthrough kts = map is_pd_passthrough ps"
    using Cons.IH [OF r] by blast
  show ?case using one more sealed_items_Cons [OF one(3) more(3)] cts
    by (intro exI [of _ "used @ used'"] exI [of _ "kt # kts"]) simp
qed

lemma seal_entries_reopens:
  assumes "list_all2 (\<lambda>e p. fst p = fst e \<and> reopens A U k (snd e) (for_map_entry A aad (fst e)) (snd p)) es ps"
    and "seal_entries A U k ps ds = Inr (cts, ds')"
  shows "\<exists>used kts. ds = used @ ds' \<and> length used = sum_list (map (\<lambda>e. key_count (snd e)) ps) \<and> sealed_entries k used cts kts
    \<and> collect (\<lambda>e. map_sum id (Pair (fst e)) (decrypt_any A U (snd e) (for_map_entry A aad (fst e)))) kts = Inr es
    \<and> map (\<lambda>e. (fst e, is_passthrough (snd e))) kts = map (\<lambda>p. (fst p, is_pd_passthrough (snd p))) ps"
  using assms
proof (induction arbitrary: ds cts rule: list_all2_induct)
  case Nil
  then show ?case by (auto simp: sealed_entries_def)
next
  case (Cons e es p ps)
  obtain n pd where p: "p = (n, pd)" "n = fst e" using Cons.hyps(1) by (cases p) simp
  obtain ct ds1 cts1 where s: "seal_with A U k pd ds = Inr (ct, ds1)" and r: "seal_entries A U k ps ds1 = Inr (cts1, ds')"
    and cts: "cts = (n, ct) # cts1" using Cons.prems p by (auto simp: and_then_Inr_iff map_sum_Inr_iff)
  obtain used kt where one: "ds = used @ ds1" "length used = key_count pd" "sealed_by k used ct kt"
    "decrypt_any A U kt (for_map_entry A aad n) = Inr (snd e)" "is_passthrough kt \<longleftrightarrow> is_pd_passthrough pd"
  proof -
    have "reopens A U k (snd e) (for_map_entry A aad n) pd" using Cons.hyps(1) p by simp
    then show thesis using that s unfolding reopens_def by blast
  qed
  obtain used' kts where more: "ds1 = used' @ ds'" "length used' = sum_list (map (\<lambda>e. key_count (snd e)) ps)"
    "sealed_entries k used' cts1 kts"
    "collect (\<lambda>e. map_sum id (Pair (fst e)) (decrypt_any A U (snd e) (for_map_entry A aad (fst e)))) kts = Inr es"
    "map (\<lambda>e. (fst e, is_passthrough (snd e))) kts = map (\<lambda>p. (fst p, is_pd_passthrough (snd p))) ps"
    using Cons.IH [OF r] by blast
  have "map_sum id (Pair n) (decrypt_any A U kt (for_map_entry A aad n)) = Inr e" using one(4) p(2) by simp
  then have "collect (\<lambda>e. map_sum id (Pair (fst e)) (decrypt_any A U (snd e) (for_map_entry A aad (fst e)))) ((n, kt) # kts) = Inr (e # es)"
    by (intro collect_ConsI more(4)) simp_all
  moreover have "ds = (used @ used') @ ds'" "length (used @ used') = sum_list (map (\<lambda>e. key_count (snd e)) (p # ps))"
    using one(1,2) more(1,2) p by simp_all
  moreover have "sealed_entries k (used @ used') cts ((n, kt) # kts)" using sealed_entries_Cons [OF one(3) more(3)] cts by simp
  moreover have "map (\<lambda>e. (fst e, is_passthrough (snd e))) ((n, kt) # kts) = map (\<lambda>p. (fst p, is_pd_passthrough (snd p))) (p # ps)"
    using one(5) more(5) p by simp
  ultimately show ?case by blast
qed


lemma passthrough_any: "list_all P xs = list_all (\<lambda>b. b) (map P xs)"
  by (induction xs) simp_all

lemma encrypted_reopens:
  assumes "aead_laws A" and "encrypt_with_aad A v aad = Inr p"
  shows "reopens A U k v aad p"
  using assms(2)
proof (induction v arbitrary: aad p)
  case (PlPass v)
  then show ?case by (auto simp: reopens_def sealed_by_def)
next
  case (PlSeq xs)
  show ?case
  proof (cases "xs = []")
    case True
    then show ?thesis using encrypt_seq_tree [OF PlSeq.prems] reopens_leaf(3) [OF assms(1)] by simp
  next
    case False
    then obtain ps where p: "p = PdSequence ps" "\<not> list_all is_pd_passthrough ps"
      and ps: "list_all2 (\<lambda>x p. encrypt_with_aad A x (for_sequence_element A aad) = Inr p) xs ps"
      using encrypt_seq_tree [OF PlSeq.prems] by auto
    have each: "list_all2 (\<lambda>x p. reopens A U k x (for_sequence_element A aad) p) xs ps"
      by (rule list.rel_mono_strong [OF ps]) (use PlSeq.IH in blast)
    have "\<exists>used kt. ds = used @ ds' \<and> length used = key_count p \<and> sealed_by k used ct kt
        \<and> decrypt_any A U kt aad = Inr (PlSeq xs) \<and> (is_passthrough kt \<longleftrightarrow> is_pd_passthrough p)"
      if s: "seal_with A U k p ds = Inr (ct, ds')" for ds ct ds'
    proof -
      obtain cts where "seal_items A U k ps ds = Inr (cts, ds')" and ct: "ct = Sequence cts"
        using s p(1) by (auto simp: map_sum_Inr_iff)
      from seal_items_reopens [OF each this(1)] obtain used kts where
        "ds = used @ ds'" "length used = sum_list (map key_count ps)" "sealed_items k used cts kts"
        "collect (\<lambda>t. decrypt_any A U t (for_sequence_element A aad)) kts = Inr xs"
        and pass: "map is_passthrough kts = map is_pd_passthrough ps" by blast
      moreover have "\<not> list_all is_passthrough kts" using p(2) unfolding passthrough_any [of _ kts] passthrough_any [of _ ps] pass .
      ultimately show ?thesis using ct p(1)
        by (intro exI [of _ used] exI [of _ "Sequence kts"]) (simp add: sealed_by_def sealed_items_def)
    qed
    then show ?thesis unfolding reopens_def by blast
  qed
next
  case (PlMap es)
  show ?case
  proof (cases "es = []")
    case True
    then show ?thesis using encrypt_map_tree [OF PlMap.prems] reopens_leaf(4) [OF assms(1)] by simp
  next
    case False
    then obtain ps where p: "p = PdMap ps" "\<not> list_all (\<lambda>e. is_pd_passthrough (snd e)) ps" and d: "distinct (map fst es)"
      and ps: "list_all2 (\<lambda>e p. fst p = fst e \<and> encrypt_with_aad A (snd e) (for_map_entry A aad (fst e)) = Inr (snd p)) es ps"
      using encrypt_map_tree [OF PlMap.prems] by auto
    have each: "list_all2 (\<lambda>e p. fst p = fst e \<and> reopens A U k (snd e) (for_map_entry A aad (fst e)) (snd p)) es ps"
      by (rule list.rel_mono_strong [OF ps]) (use PlMap.IH in \<open>auto simp: prod_set_simps intro: snds.intros\<close>)
    have names: "map fst es = map fst ps" using ps by (induction rule: list_all2_induct) auto
    have "\<exists>used kt. ds = used @ ds' \<and> length used = key_count p \<and> sealed_by k used ct kt
        \<and> decrypt_any A U kt aad = Inr (PlMap es) \<and> (is_passthrough kt \<longleftrightarrow> is_pd_passthrough p)"
      if s: "seal_with A U k p ds = Inr (ct, ds')" for ds ct ds'
    proof -
      obtain cts where "seal_entries A U k ps ds = Inr (cts, ds')" and ct: "ct = MapCt cts"
        using s p(1) by (auto simp: map_sum_Inr_iff)
      from seal_entries_reopens [OF each this(1)] obtain used kts where
        "ds = used @ ds'" "length used = sum_list (map (\<lambda>e. key_count (snd e)) ps)" "sealed_entries k used cts kts"
        "collect (\<lambda>e. map_sum id (Pair (fst e)) (decrypt_any A U (snd e) (for_map_entry A aad (fst e)))) kts = Inr es"
        and both: "map (\<lambda>e. (fst e, is_passthrough (snd e))) kts = map (\<lambda>p. (fst p, is_pd_passthrough (snd p))) ps" by blast
      moreover have "map (\<lambda>e. is_passthrough (snd e)) kts = map (\<lambda>e. is_pd_passthrough (snd e)) ps" "map fst kts = map fst ps"
        using arg_cong [OF both, of "map snd"] arg_cong [OF both, of "map fst"] by (simp_all add: comp_def)
      then have "\<not> list_all (\<lambda>e. is_passthrough (snd e)) kts" "distinct (map fst kts)"
        using p(2) d names unfolding passthrough_any [of _ kts] passthrough_any [of _ ps] by simp_all
      ultimately show ?thesis using ct p(1)
        by (intro exI [of _ used] exI [of _ "MapCt kts"]) (simp add: sealed_by_def sealed_entries_def)
    qed
    then show ?thesis unfolding reopens_def by blast
  qed
qed (use reopens_leaf [OF assms(1)] in simp_all)


text \<open>Sealing draws one key per leaf, from the front.\<close>

lemma next_leaf_draws: "next_leaf A U k text aad ds = Inr (l, ds') \<Longrightarrow> ds' = drop 1 ds \<and> ds \<noteq> []"
  by (cases ds) (auto simp: map_sum_Inr_iff)

lemma sealed_draws:
  shows "seal_with A U k p ds = Inr (ct, ds') \<Longrightarrow> ds' = drop (key_count p) ds \<and> key_count p \<le> length ds"
    and "seal_items A U k ps ds = Inr (cts, ds') \<Longrightarrow> ds' = drop (sum_list (map key_count ps)) ds \<and> sum_list (map key_count ps) \<le> length ds"
    and "seal_entries A U k es ds = Inr (ects, ds') \<Longrightarrow>
      ds' = drop (sum_list (map (\<lambda>e. key_count (snd e)) es)) ds \<and> sum_list (map (\<lambda>e. key_count (snd e)) es) \<le> length ds"
  by (induction A U k p ds and A U k ps ds and A U k es ds arbitrary: ct ds' and cts ds' and ects ds'
      rule: seal_with_seal_items_seal_entries.induct)
    (fastforce simp: map_sum_Inr_iff and_then_Inr_iff dest: next_leaf_draws simp: Suc_le_eq add.commute)+

section \<open>Through the request carrier\<close>

definition drain_generated :: "responses \<Rightarrow> data_key_with_tag list \<times> responses" where
  "drain_generated rs = (generated rs, rs\<lparr>generated := []\<rparr>)"

definition drain_retrieved :: "responses \<Rightarrow> data_key list \<times> responses" where
  "drain_retrieved rs = (retrieved rs, rs\<lparr>retrieved := []\<rparr>)"

fun collect_retrieve_requests :: "sealed_value ciphertext \<Rightarrow> rstr \<Rightarrow> request list \<Rightarrow> request list" where
  "collect_retrieve_requests (Sequence items) d out = fold (\<lambda>item out. collect_retrieve_requests item d out) items out"
| "collect_retrieve_requests (MapCt es) d out = fold (\<lambda>e out. collect_retrieve_requests (snd e) d out) es out"
| "collect_retrieve_requests (PassthroughCt _) d out = out"
| "collect_retrieve_requests (Single l) d out = out @ [RetrieveDataKey (sv_iv l) (sv_tag l) d (sv_keyset l)]"
| "collect_retrieve_requests (NoneCt l) d out = out @ [RetrieveDataKey (sv_iv l) (sv_tag l) d (sv_keyset l)]"
| "collect_retrieve_requests (EmptySequence l) d out = out @ [RetrieveDataKey (sv_iv l) (sv_tag l) d (sv_keyset l)]"
| "collect_retrieve_requests (EmptyMap l) d out = out @ [RetrieveDataKey (sv_iv l) (sv_tag l) d (sv_keyset l)]"

definition retrieve_requests :: "sealed_value ciphertext \<Rightarrow> rstr \<Rightarrow> request list" where
  "retrieve_requests ct d = collect_retrieve_requests ct d []"

definition decipher_from_responses :: "sealed_value ciphertext \<Rightarrow> ('k, keyed_leaf ciphertext) fulfil" where
  "decipher_from_responses ct rs =
     (let (keys, rs) = drain_retrieved rs
      in case bind_keys ct keys of
           Inl _ \<Rightarrow> (Inl Pending.ResponseShape, rs)
         | Inr (kt, rest) \<Rightarrow> (if rest \<noteq> [] then Inl Pending.ResponseShape else Inr kt, rs))"

text \<open>A cipher bound to a keyset is the pair of the client and the keyset's id; \<open>nonce\<close> gives the
  nonces a sealing draws.\<close>

definition seal_pending ::
  "nat \<Rightarrow> aead \<Rightarrow> uuid_codec \<Rightarrow> (nat \<Rightarrow> bytes) \<Rightarrow> 'c \<times> uuid \<Rightarrow> pending_ct \<Rightarrow> rstr
     \<Rightarrow> ('c, 'k, sealed_value ciphertext) pending" where
  "seal_pending max_len A U nonce cipher tree d =
     (let scope = (fst cipher, Some (snd cipher)) in
      case check_descriptor max_len d of
        Inl e \<Rightarrow> ready scope (Inl (TooLong e))
      | Inr _ \<Rightarrow> pending_request scope (replicate (key_count tree) (GenerateDataKey d)) (\<lambda>rs.
          let (keys, rs) = drain_generated rs
          in (map_sum (\<lambda>_. Aead) fst (seal_with A U (snd cipher) tree (zip keys (map nonce [0..<length keys]))), rs)))"

definition decipher_pending ::
  "nat \<Rightarrow> 'c scope \<Rightarrow> sealed_value ciphertext \<Rightarrow> rstr \<Rightarrow> ('c, 'k, keyed_leaf ciphertext) pending" where
  "decipher_pending max_len scope ct d =
     (case check_descriptor max_len d of
        Inl e \<Rightarrow> ready scope (Inl (TooLong e))
      | Inr _ \<Rightarrow> pending_request scope (retrieve_requests ct d) (decipher_from_responses ct))"

definition encrypt_native ::
  "nat \<Rightarrow> (bytes \<Rightarrow> rstr) \<Rightarrow> aead \<Rightarrow> uuid_codec \<Rightarrow> (nat \<Rightarrow> bytes) \<Rightarrow> 'c \<times> uuid \<Rightarrow> plain \<Rightarrow> context_piece
     \<Rightarrow> ('c, 'k, sealed_value ciphertext) pending" where
  "encrypt_native max_len b64 A U nonce cipher v ctx =
     (let scope = (fst cipher, Some (snd cipher)); d = from_piece b64 ctx in
      case check_descriptor max_len d of
        Inl e \<Rightarrow> pending_failed scope (TooLong e)
      | Inr _ \<Rightarrow>
          (case encrypt_with_aad A v (aad_of A ctx) of
             Inr tree \<Rightarrow> seal_pending max_len A U nonce cipher tree d
           | Inl _ \<Rightarrow> ready scope (Inl Aead)))"

definition open_native ::
  "nat \<Rightarrow> (bytes \<Rightarrow> rstr) \<Rightarrow> aead \<Rightarrow> uuid_codec \<Rightarrow> 'c \<Rightarrow> sealed_value ciphertext \<Rightarrow> context_piece
     \<Rightarrow> ('c, 'k, plain) pending" where
  "open_native max_len b64 A U c ct ctx =
     (let d = from_piece b64 ctx in
      case check_descriptor max_len d of
        Inl e \<Rightarrow> ready (c, None) (Inl (TooLong e))
      | Inr _ \<Rightarrow> pending_request (c, None) (retrieve_requests ct d) (\<lambda>rs.
          case decipher_from_responses ct rs of
            (Inl e, rs) \<Rightarrow> (Inl e, rs)
          | (Inr kt, rs) \<Rightarrow> (map_sum (\<lambda>_. Aead) id (decrypt_any A U kt (aad_of A ctx)), rs)))"

text \<open>\<open>decrypt_through\<close>: retrieve the keys within a scope, then drive the value under the same context.\<close>

definition decrypt_through ::
  "nat \<Rightarrow> ('c \<Rightarrow> ('k, 's) key_source) \<Rightarrow> (bytes \<Rightarrow> rstr) \<Rightarrow> aead \<Rightarrow> uuid_codec \<Rightarrow> 'c scope \<Rightarrow> sealed_value ciphertext
     \<Rightarrow> context_piece \<Rightarrow> 's \<Rightarrow> ('k error, plain) result \<times> 's" where
  "decrypt_through max_len kms_of b64 A U scope ct ctx s =
     (case settle max_len kms_of (decipher_pending max_len scope ct (from_piece b64 ctx)) s of
        (Inl e, s) \<Rightarrow> (Inl e, s)
      | (Inr kt, s) \<Rightarrow> (map_sum (\<lambda>_. Aead) id (decrypt_any A U kt (aad_of A ctx)), s))"

lemma collect_retrieve_requests_eq:
  "collect_retrieve_requests ct d out = out @ map (\<lambda>l. RetrieveDataKey (sv_iv l) (sv_tag l) d (sv_keyset l)) (leaves ct)"
proof (induction ct d out rule: collect_retrieve_requests.induct)
  case (1 items d out)
  have "fold (\<lambda>item out. collect_retrieve_requests item d out) xs out
      = out @ map (\<lambda>l. RetrieveDataKey (sv_iv l) (sv_tag l) d (sv_keyset l)) (concat (map leaves xs))"
    if "set xs \<subseteq> set items" for xs out
    using that by (induction xs arbitrary: out) (simp_all add: 1)
  then show ?case by simp
next
  case (2 es d out)
  have "fold (\<lambda>e out. collect_retrieve_requests (snd e) d out) xs out
      = out @ map (\<lambda>l. RetrieveDataKey (sv_iv l) (sv_tag l) d (sv_keyset l)) (concat (map (\<lambda>e. leaves (snd e)) xs))"
    if "set xs \<subseteq> set es" for xs out
    using that by (induction xs arbitrary: out) (simp_all add: 2)
  then show ?case by simp
qed simp_all

lemma retrieve_requests_eq: "retrieve_requests ct d = map (\<lambda>l. RetrieveDataKey (sv_iv l) (sv_tag l) d (sv_keyset l)) (leaves ct)"
  by (simp add: retrieve_requests_def collect_retrieve_requests_eq)

lemma tally_generates: "tally (replicate n (GenerateDataKey d)) = (n, 0)"
  by (induction n) simp_all

lemma tally_retrieves: "tally (map request_of rs) = (0, length rs)"
  by (induction rs) (simp_all add: request_of_def)

lemma settle_request:
  fixes kms_of :: "'c \<Rightarrow> ('k, 's) key_source"
  assumes "\<forall>r \<in> set reqs. meets (snd scope) r" and "tally reqs = (g, r)"
  shows "settle max_len kms_of (pending_request scope reqs f) s =
    (case dispatch max_len (kms_of (fst scope)) (snd scope) reqs s of
       (Inl e, s) \<Rightarrow> (Inl e, s) | (Inr rs, s) \<Rightarrow> (fst (scoped_fulfil g r f rs), s))"
proof -
  have "check_scope (snd scope) reqs = (Inr () :: ('k error, unit) result)" using assms(1) check_scope_ok by blast
  then show ?thesis using assms(2) by (simp add: pending_request_def settle_def split: prod.split sum.split)
qed

lemma mints_count:
  assumes "dispatch max_len kms (Some k) (replicate n (GenerateDataKey d)) s = (Inr rs, s')" and "fits max_len d"
  shows "length (generated rs) = n" and "retrieved rs = []"
proof -
  have "replicate n (GenerateDataKey d) = map GenerateDataKey (replicate n d)" by simp
  then show "length (generated rs) = n" "retrieved rs = []"
    using assms by (auto simp: dispatch_def sort_requests_generates check_all_fits generate_batch_def group_retrieves_def list_all_length
        simp del: map_replicate split: prod.splits sum.splits if_splits)
qed


text \<open>What a sealing that settled was: the keys of one batch, drawn by the leaves of the tree in order.\<close>

lemma sealed_settled:
  fixes kms_of :: "'c \<Rightarrow> ('k, 's) key_source"
  assumes "settle max_len kms_of (encrypt_native max_len b64 A U nonce (c, k) v ctx) s = (Inr ct, s')"
  obtains tree rs where "fits max_len (from_piece b64 ctx)" and "encrypt_with_aad A v (aad_of A ctx) = Inr tree"
    and "dispatch max_len (kms_of c) (Some k) (replicate (key_count tree) (GenerateDataKey (from_piece b64 ctx))) s = (Inr rs, s')"
    and "seal_with A U k tree (zip (generated rs) (map nonce [0..<length (generated rs)])) = Inr (ct, [])"
proof -
  let ?d = "from_piece b64 ctx"
  have fit: "fits max_len ?d"
    using assms by (auto simp: encrypt_native_def check_descriptor_def Let_def settle_def pending_failed_def split: if_splits)
  obtain tree where t: "encrypt_with_aad A v (aad_of A ctx) = Inr tree"
    using assms fit by (cases "encrypt_with_aad A v (aad_of A ctx)")
      (simp_all add: encrypt_native_def check_descriptor_def ready_def settle_def pending_failed_def)
  let ?reqs = "replicate (key_count tree) (GenerateDataKey ?d)"
  let ?f = "\<lambda>rs. let (keys, rs) = drain_generated rs
          in (map_sum (\<lambda>_. Aead :: 'k error) fst (seal_with A U k tree (zip keys (map nonce [0..<length keys]))), rs)"
  have m: "\<forall>r \<in> set ?reqs. meets (snd (c, Some k)) r" by (auto simp: meets_def)
  have "settle max_len kms_of (pending_request (c, Some k) ?reqs ?f) s = (Inr ct, s')"
    using assms fit t by (simp add: encrypt_native_def seal_pending_def check_descriptor_def)
  then obtain rs where d: "dispatch max_len (kms_of c) (Some k) ?reqs s = (Inr rs, s')"
    and f: "fst (scoped_fulfil (key_count tree) 0 ?f rs) = Inr ct"
    using settle_request [OF m tally_generates, of max_len kms_of ?f s] by (auto split: prod.splits sum.splits)
  have len: "length (generated rs) = key_count tree" "retrieved rs = []" using mints_count [OF d fit] by simp_all
  obtain rest where seal: "seal_with A U k tree (zip (generated rs) (map nonce [0..<length (generated rs)])) = Inr (ct, rest)"
    using f len by (auto simp: scoped_fulfil_def split_front_def drain_generated_def is_exhausted_def map_sum_Inr_iff
        split: sum.splits prod.splits)
  have "rest = drop (key_count tree) (zip (generated rs) (map nonce [0..<length (generated rs)]))"
    using sealed_draws(1) [OF seal] by simp
  then have "rest = []" using len by simp
  then show thesis using that fit t d seal by simp
qed


text \<open>Opening it again: the requests a stored tree makes are answered with the keys it was sealed with.\<close>

lemma stored_requests:
  assumes "list_all2 (stores k) (zip gens ns) (leaves ct)" and "length ns = length gens"
  shows "retrieve_requests ct d = map request_of
    (map2 (\<lambda>d kt. \<lparr>rt_iv = dk_iv (kt_key kt), rt_tag = kt_tag kt, rt_descriptor = d, rt_keyset = k\<rparr>) (replicate (length gens) d) gens)"
proof -
  have "map (\<lambda>l. RetrieveDataKey (sv_iv l) (sv_tag l) d (sv_keyset l)) ls
      = map (\<lambda>kt. RetrieveDataKey (dk_iv (kt_key kt)) (kt_tag kt) d k) (map fst ds)"
    if "list_all2 (stores k) ds ls" for ds ls
    using that by (induction rule: list_all2_induct) (auto simp: stores_def drawn_key_def)
  from this [OF assms(1)] have "retrieve_requests ct d = map (\<lambda>kt. RetrieveDataKey (dk_iv (kt_key kt)) (kt_tag kt) d k) gens"
    using assms(2) by (simp add: retrieve_requests_eq)
  also have "\<dots> = map request_of
    (map2 (\<lambda>d kt. \<lparr>rt_iv = dk_iv (kt_key kt), rt_tag = kt_tag kt, rt_descriptor = d, rt_keyset = k\<rparr>) (replicate (length gens) d) gens)"
    by (induction gens) (simp_all add: request_of_def)
  finally show ?thesis .
qed

lemma settle_opening:
  fixes kms_of :: "'c \<Rightarrow> ('k, 's) key_source"
  assumes src: "sealing_source (kms_of c) answer" and A: "aead_laws A"
    and enc: "settle max_len kms_of (encrypt_native max_len b64 A U nonce (c, k) v ctx) s = (Inr ct, s')"
    and scope: "keyset = None \<or> keyset = Some k"
  obtains kt reqs rs where "fits max_len (from_piece b64 ctx)" and "retrieve_requests ct (from_piece b64 ctx) = reqs"
    and "dispatch max_len (kms_of c) keyset reqs s' = (Inr rs, s')" and "\<forall>r \<in> set reqs. meets keyset r"
    and "tally reqs = (0, length (retrieved rs))" and "generated rs = []" and "\<And>rs'. retrieved rs' = retrieved rs
      \<Longrightarrow> decipher_from_responses ct rs' = (Inr kt :: ('k error, keyed_leaf ciphertext) result, rs'\<lparr>retrieved := []\<rparr>)"
    and "decrypt_any A U kt (aad_of A ctx) = Inr v"
proof -
  let ?d = "from_piece b64 ctx"
  obtain tree rs where fit: "fits max_len ?d" and t: "encrypt_with_aad A v (aad_of A ctx) = Inr tree"
    and mint: "dispatch max_len (kms_of c) (Some k) (replicate (key_count tree) (GenerateDataKey ?d)) s = (Inr rs, s')"
    and seal: "seal_with A U k tree (zip (generated rs) (map nonce [0..<length (generated rs)])) = Inr (ct, [])"
    using sealed_settled [OF enc] by blast
  let ?n = "length (generated rs)" and ?ds = "zip (generated rs) (map nonce [0..<length (generated rs)])"
  have n: "key_count tree = ?n" using mints_count [OF mint fit] by simp
  obtain kt where kt: "sealed_by k ?ds ct kt" "decrypt_any A U kt (aad_of A ctx) = Inr v"
    using encrypted_reopens [OF A t, of U k] seal unfolding reopens_def by fastforce
  let ?rts = "map2 (\<lambda>d kt. \<lparr>rt_iv = dk_iv (kt_key kt), rt_tag = kt_tag kt, rt_descriptor = d, rt_keyset = k\<rparr>) (replicate ?n ?d) (generated rs)"
  let ?reqs = "map request_of ?rts"
  have reqs: "retrieve_requests ct ?d = ?reqs"
    using kt(1) stored_requests [of k "generated rs" "map nonce [0..<length (generated rs)]"] by (simp add: sealed_by_def)
  have "dispatch max_len (kms_of c) (Some k) (map GenerateDataKey (replicate ?n ?d)) s = (Inr rs, s')" using mint n by simp
  from reopen_minted [OF src _ this] have
    op: "dispatch max_len (kms_of c) keyset ?reqs s' = (Inr \<lparr>generated = [], retrieved = map kt_key (generated rs)\<rparr>, s')"
    using fit by (simp add: list_all_length)
  have m: "\<forall>r \<in> set ?reqs. meets keyset r" using scope by (auto simp: meets_def request_of_def dest!: in_set_zipE)
  let ?rs = "\<lparr>generated = [], retrieved = map kt_key (generated rs)\<rparr>"
  have tl: "tally ?reqs = (0, length (retrieved ?rs))" using tally_retrieves [of ?rts] by simp
  have "map drawn_key ?ds = map kt_key (generated rs)"
    by (rule nth_equalityI) (simp_all add: drawn_key_def)
  then have "bind_keys ct (map kt_key (generated rs)) = Inr (kt, [])"
    using kt(1) unfolding sealed_by_def by (metis append_Nil2)
  then have dc: "decipher_from_responses ct rs' = (Inr kt :: ('k error, keyed_leaf ciphertext) result, rs'\<lparr>retrieved := []\<rparr>)"
    if "retrieved rs' = retrieved ?rs" for rs'
    using that by (simp add: decipher_from_responses_def drain_retrieved_def)
  show thesis by (rule that [OF fit reqs op m tl _ dc kt(2)]) simp
qed

lemma split_all_retrieved:
  assumes "f \<lparr>generated = [], retrieved = ks\<rparr> = (Inr v, rs')" and "is_exhausted rs'"
  shows "fst (scoped_fulfil 0 (length ks) f \<lparr>generated = [], retrieved = ks\<rparr>) = Inr v"
  using assms by (simp add: scoped_fulfil_def split_front_def)

lemma settle_retrievals:
  fixes kms_of :: "'c \<Rightarrow> ('k, 's) key_source"
  assumes "dispatch max_len (kms_of c) keyset reqs s = (Inr rs, s)" and "\<forall>r \<in> set reqs. meets keyset r"
    and "tally reqs = (0, length (retrieved rs))" and "generated rs = []"
    and "f rs = (Inr v, rs')" and "is_exhausted rs'"
  shows "settle max_len kms_of (pending_request (c, keyset) reqs f) s = (Inr v, s)"
proof -
  have "rs = \<lparr>generated = [], retrieved = retrieved rs\<rparr>" using assms(4) by (cases rs) simp
  then have "fst (scoped_fulfil 0 (length (retrieved rs)) f rs) = Inr v"
    using assms(5,6) by (metis (no_types, lifting) split_all_retrieved)
  then show ?thesis using settle_request [of reqs "(c, keyset)", OF _ assms(3), of max_len kms_of f s] assms(1,2) by simp
qed


section \<open>A concrete codec, cipher and source\<close>

text \<open>A UUID is its sixteen bytes, the most significant first.\<close>

primrec be_bytes :: "nat \<Rightarrow> nat \<Rightarrow> bytes" where
  "be_bytes 0 n = []"
| "be_bytes (Suc w) n = be_bytes w (n div 256) @ [of_nat (n mod 256)]"

definition be_nat :: "bytes \<Rightarrow> nat" where
  "be_nat bs = foldl (\<lambda>n b. 256 * n + unat b) 0 bs"

definition be_uuid :: uuid_codec where
  "be_uuid = \<lparr>uuid_bytes = (\<lambda>u. be_bytes 16 (unat u)),
     uuid_from_slice = (\<lambda>b. if length b = 16 then Some (of_nat (be_nat b)) else None)\<rparr>"

lemma be_nat_simps: "be_nat [] = 0" "be_nat (bs @ [b]) = 256 * be_nat bs + unat b"
  by (simp_all add: be_nat_def)

lemma length_be_bytes: "length (be_bytes w n) = w"
  by (induction w arbitrary: n) simp_all

lemma be_nat_be_bytes: "be_nat (be_bytes w n) = n mod 256 ^ w"
proof (induction w arbitrary: n)
  case (Suc w)
  then show ?case using mod_mult2_eq [of n 256 "256 ^ w"] by (simp add: be_nat_simps unat_of_nat take_bit_nat_def)
qed (simp add: be_nat_simps)

lemma be_nat_bound: "be_nat bs < 256 ^ length bs"
proof (induction bs rule: rev_induct)
  case (snoc b bs)
  have "unat b < 256" using unsigned_less [where w = b] by simp
  with snoc show ?case by (simp add: be_nat_simps)
qed (simp add: be_nat_simps)

lemma be_bytes_be_nat: "be_bytes (length bs) (be_nat bs) = bs"
proof (induction bs rule: rev_induct)
  case (snoc b bs)
  have "unat b < 256" using unsigned_less [where w = b] by simp
  then have "(256 * be_nat bs + unat b) div 256 = be_nat bs" "(256 * be_nat bs + unat b) mod 256 = unat b" by simp_all
  then show ?case using snoc by (simp add: be_nat_simps del: of_nat_add)
qed simp

lemma be_uuid_laws: "uuid_laws be_uuid"
proof -
  have "(of_nat (be_nat b) = u) = (b = be_bytes 16 (unat u))" if "length b = 16" for b and u :: uuid
  proof
    have "unat (of_nat (be_nat b) :: uuid) = be_nat b"
      using be_nat_bound [of b] that by (simp add: unat_of_nat take_bit_nat_def)
    then show "of_nat (be_nat b) = u \<Longrightarrow> b = be_bytes 16 (unat u)" using be_bytes_be_nat [of b] that by auto
    have "unat u < 2 ^ 128" using unsigned_less [where w = u] by simp
    then show "b = be_bytes 16 (unat u) \<Longrightarrow> of_nat (be_nat b) = u" by (simp add: be_nat_be_bytes)
  qed
  then show ?thesis by (auto simp: uuid_laws_def be_uuid_def length_be_bytes)
qed

text \<open>A cipher that writes the additional data before the text, self-delimited, and additional data
  derived by a byte for each position.\<close>

definition framed :: "bytes \<Rightarrow> bytes" where
  "framed bs = concat (map (\<lambda>b. [1, b]) bs) @ [0]"

definition framing :: aead where
  "framing = \<lparr>aad_of = (\<lambda>ctx. as_bytes (from_piece (\<lambda>_. []) ctx)), pae = (\<lambda>pieces. concat (map framed pieces)),
     for_sequence_element = (#) 1, for_empty_sequence = (#) 2,
     for_map_entry = (\<lambda>aad key. 3 # framed (as_bytes key) @ aad), for_empty_map = (#) 4, for_none = (#) 5,
     aes_seal = (\<lambda>nonce key aad text. Some (framed aad @ text)),
     aes_open = (\<lambda>key aad c. if take (length (framed aad)) c = framed aad then Some (drop (length (framed aad)) c) else None)\<rparr>"

lemma framing_laws: "aead_laws framing"
  by (simp add: aead_laws_def framing_def)

text \<open>A source that hashes by truncation.\<close>

definition demo_kms :: "nat \<Rightarrow> (kms_error, u64) key_source" where
  "demo_kms c = det_source (\<lambda>b. take 32 (rev b)) [7]"

definition demo_value :: plain where
  "demo_value = PlMap [(lit ''a'', PlBytes [1]), (lit ''b'', PlSeq [PlNone, PlPass None]), (lit ''c'', PlMap [])]"

definition demo_sealed :: "(kms_error error, sealed_value ciphertext) result \<times> u64" where
  "demo_sealed = settle 100 demo_kms
     (encrypt_native 100 (\<lambda>_. []) framing be_uuid (\<lambda>_. []) (0, 7) demo_value (Text (lit ''users''))) 0"

section \<open>Properties\<close>

text \<open>
  C35. The frozen leaf encoding is exact. Every leaf a constructor lets exist encodes to bytes that
  decode to it; and whatever bytes decode, decode to such a leaf and are its encoding, so
  each leaf has one encoding and nothing but an encoding decodes.\<close>

theorem leaf_bytes_round_trip:
  assumes "uuid_laws U"
  shows "from_bytes U bs = Inr v \<longleftrightarrow> leaf_ok v \<and> to_bytes U v = bs"
  using from_bytes_to_bytes [OF assms] from_bytes_Inr [OF assms] by blast

definition demo_leaf :: sealed_value where
  "demo_leaf = \<lparr>sv_keyset = 7, sv_iv = replicate 16 1, sv_tag = [2, 3], sv_ciphertext = [4]\<rparr>"

theorem leaf_bytes_round_trip_witness:
  "from_bytes be_uuid (to_bytes be_uuid demo_leaf) = Inr demo_leaf"
proof -
  have "leaf_ok demo_leaf" by (simp add: leaf_ok_def demo_leaf_def IV_LEN_def)
  then show ?thesis using leaf_bytes_round_trip [OF be_uuid_laws, of "to_bytes be_uuid demo_leaf" demo_leaf] by simp
qed

text \<open>
  C1. What is encrypted decrypts. If a value encrypted under a context, with one batch of data keys
  minted by the source and one key drawn per leaf, settles to a stored tree, then opening that tree
  under the same context settles to the value: through the client, through its keyset, and with
  the target layer's opening. Only the cipher that opens what it sealed and a source that
  retrieves what it generated are relied on.\<close>

theorem native_round_trip:
  fixes kms_of :: "'c \<Rightarrow> ('k, 's) key_source"
  assumes "sealing_source (kms_of c) answer" and "aead_laws A"
    and "settle max_len kms_of (encrypt_native max_len b64 A U nonce (c, k) v ctx) s = (Inr ct, s')"
  shows "settle max_len kms_of (open_native max_len b64 A U c ct ctx) s' = (Inr v, s')
    \<and> decrypt_through max_len kms_of b64 A U (c, None) ct ctx s' = (Inr v, s')
    \<and> decrypt_through max_len kms_of b64 A U (c, Some k) ct ctx s' = (Inr v, s')"
proof -
  have op: "settle max_len kms_of (open_native max_len b64 A U c ct ctx) s' = (Inr v, s')"
  proof (rule settle_opening [OF assms, of None])
    fix kt reqs rs
    assume "fits max_len (from_piece b64 ctx)" "retrieve_requests ct (from_piece b64 ctx) = reqs"
      and d: "dispatch max_len (kms_of c) None reqs s' = (Inr rs, s')" "\<forall>r \<in> set reqs. meets None r"
        "tally reqs = (0, length (retrieved rs))" "generated rs = []"
      and b: "\<And>rs'. retrieved rs' = retrieved rs
        \<Longrightarrow> decipher_from_responses ct rs' = (Inr kt :: ('k error, keyed_leaf ciphertext) result, rs'\<lparr>retrieved := []\<rparr>)"
      and "decrypt_any A U kt (aad_of A ctx) = Inr v"
    then show ?thesis
      by (simp add: open_native_def check_descriptor_def is_exhausted_def settle_retrievals [where kms_of = kms_of and c = c, OF d] b [OF refl])
  qed simp
  have "decrypt_through max_len kms_of b64 A U (c, keyset) ct ctx s' = (Inr v, s')" if "keyset = None \<or> keyset = Some k" for keyset
  proof (rule settle_opening [OF assms that])
    fix kt reqs rs
    assume "fits max_len (from_piece b64 ctx)" "retrieve_requests ct (from_piece b64 ctx) = reqs"
      and d: "dispatch max_len (kms_of c) keyset reqs s' = (Inr rs, s')" "\<forall>r \<in> set reqs. meets keyset r"
        "tally reqs = (0, length (retrieved rs))" "generated rs = []"
      and b: "\<And>rs'. retrieved rs' = retrieved rs
        \<Longrightarrow> decipher_from_responses ct rs' = (Inr kt :: ('k error, keyed_leaf ciphertext) result, rs'\<lparr>retrieved := []\<rparr>)"
      and "decrypt_any A U kt (aad_of A ctx) = Inr v"
    then show ?thesis
      by (simp add: decrypt_through_def decipher_pending_def check_descriptor_def is_exhausted_def settle_retrievals [where kms_of = kms_of and c = c, OF d] b [OF refl])
  qed
  with op show ?thesis by blast
qed

lemma demo_sealed_ok: "isl (fst demo_sealed) = False"
  by code_simp

theorem native_round_trip_witness:
  "settle 100 demo_kms (open_native 100 (\<lambda>_. []) framing be_uuid 0 (projr (fst demo_sealed)) (Text (lit ''users''))) (snd demo_sealed)
     = (Inr demo_value, snd demo_sealed)"
proof -
  have src: "sealing_source (demo_kms 0) (det_answer (\<lambda>b. take 32 (rev b)) [7])"
    unfolding demo_kms_def by (rule det.sealing_source_axioms)
  have "settle 100 demo_kms
     (encrypt_native 100 (\<lambda>_. []) framing be_uuid (\<lambda>_. []) (0, 7) demo_value (Text (lit ''users''))) 0
     = (Inr (projr (fst demo_sealed)), snd demo_sealed)"
    using demo_sealed_ok by (cases demo_sealed; cases "fst demo_sealed") (simp_all add: demo_sealed_def)
  from native_round_trip [OF src framing_laws this] show ?thesis by blast
qed

end
