(* ===== verification/Sealed_Place.thy ===== *)
theory Sealed_Place
  imports Sealed_Tree
begin

text \<open>
  What the additional data of a stored tree protects: \<open>leaf_aad\<close> binds a leaf to its position, its
  keyset and its key tag, so a tree whose labels were changed (a renamed map key, a sequence turned
  into a map, a value turned into an absence, a leaf re-pointed at another keyset) does not open.
  The ideal behaviour relied on is \<open>binds\<close>: a ciphertext opens under one additional data only, and
  the derivations of \<open>Context\<close> (vitaminc's) are injective and disjoint.
\<close>

section \<open>Positions\<close>

datatype position = Element | Entry rstr | EmptySeqAt | EmptyMapAt | AbsentAt

fun derive_at :: "aead \<Rightarrow> position \<Rightarrow> bytes \<Rightarrow> bytes" where
  "derive_at A Element aad = for_sequence_element A aad"
| "derive_at A (Entry key) aad = for_map_entry A aad key"
| "derive_at A EmptySeqAt aad = for_empty_sequence A aad"
| "derive_at A EmptyMapAt aad = for_empty_map A aad"
| "derive_at A AbsentAt aad = for_none A aad"

fun position_ok :: "position \<Rightarrow> bool" where
  "position_ok (Entry key) = is_str key"
| "position_ok _ = True"

definition markers :: "position set" where
  "markers = {EmptySeqAt, EmptyMapAt, AbsentAt}"

definition binds :: "aead \<Rightarrow> uuid_codec \<Rightarrow> bool" where
  "binds A U \<longleftrightarrow>
     (\<forall>key aad aad' c text text'. aes_open A key aad c = Some text \<longrightarrow> aes_open A key aad' c = Some text' \<longrightarrow> aad = aad')
     \<and> inj (pae A) \<and> inj (uuid_bytes U)
     \<and> (\<forall>p q aad aad'. position_ok p \<longrightarrow> position_ok q \<longrightarrow> derive_at A p aad = derive_at A q aad' \<longrightarrow> p = q \<and> aad = aad')"

text \<open>Additional data a value may be at: not that of a marker.\<close>

definition value_aad :: "aead \<Rightarrow> bytes \<Rightarrow> bool" where
  "value_aad A aad \<longleftrightarrow> (\<forall>m \<in> markers. \<forall>aad'. aad \<noteq> derive_at A m aad')"

section \<open>What a stored tree shows and what it claims\<close>

text \<open>The ciphertexts and keys of a tree in their nesting, without any of its labels.\<close>

datatype shape = ShLeaf bytes bytes | ShNode "shape list" | ShPlain "ffi_value option"

fun shape_of :: "keyed_leaf ciphertext \<Rightarrow> shape" where
  "shape_of (Single l) = ShLeaf (dk_key (kl_key l)) (sv_ciphertext (kl_leaf l))"
| "shape_of (NoneCt l) = ShLeaf (dk_key (kl_key l)) (sv_ciphertext (kl_leaf l))"
| "shape_of (EmptySequence l) = ShLeaf (dk_key (kl_key l)) (sv_ciphertext (kl_leaf l))"
| "shape_of (EmptyMap l) = ShLeaf (dk_key (kl_key l)) (sv_ciphertext (kl_leaf l))"
| "shape_of (Sequence items) = ShNode (map shape_of items)"
| "shape_of (MapCt es) = ShNode (map (\<lambda>e. shape_of (snd e)) es)"
| "shape_of (PassthroughCt v) = ShPlain v"

text \<open>The labels: the kind of every node, the keyset and the tag of every leaf, and the key of every map
  entry that holds anything sealed.\<close>

fun claims :: "keyed_leaf ciphertext \<Rightarrow> (uuid \<times> bytes) ciphertext" where
  "claims (Single l) = Single (sv_keyset (kl_leaf l), sv_tag (kl_leaf l))"
| "claims (NoneCt l) = NoneCt (sv_keyset (kl_leaf l), sv_tag (kl_leaf l))"
| "claims (EmptySequence l) = EmptySequence (sv_keyset (kl_leaf l), sv_tag (kl_leaf l))"
| "claims (EmptyMap l) = EmptyMap (sv_keyset (kl_leaf l), sv_tag (kl_leaf l))"
| "claims (Sequence items) = Sequence (map claims items)"
| "claims (MapCt es) = MapCt (map (\<lambda>e. (if is_passthrough (snd e) then [] else fst e, claims (snd e))) es)"
| "claims (PassthroughCt v) = PassthroughCt v"

fun named :: "'l ciphertext \<Rightarrow> bool" where
  "named (Sequence items) = list_all named items"
| "named (MapCt es) = list_all (\<lambda>e. is_str (fst e) \<and> named (snd e)) es"
| "named _ = True"

text \<open>The one view the proofs take of a tree: a leaf at some additional data, or its children at theirs.\<close>

fun leaf_at :: "aead \<Rightarrow> keyed_leaf ciphertext \<Rightarrow> bytes \<Rightarrow> (keyed_leaf \<times> bytes) option" where
  "leaf_at A (Single l) aad = Some (l, aad)"
| "leaf_at A (NoneCt l) aad = Some (l, for_none A aad)"
| "leaf_at A (EmptySequence l) aad = Some (l, for_empty_sequence A aad)"
| "leaf_at A (EmptyMap l) aad = Some (l, for_empty_map A aad)"
| "leaf_at A _ aad = None"

fun children :: "'l ciphertext \<Rightarrow> (position \<times> 'l ciphertext) list" where
  "children (Sequence items) = map (Pair Element) items"
| "children (MapCt es) = map (\<lambda>e. (Entry (fst e), snd e)) es"
| "children _ = []"

fun is_node :: "'l ciphertext \<Rightarrow> bool" where
  "is_node (Sequence _) = True"
| "is_node (MapCt _) = True"
| "is_node _ = False"

lemma collect_each: "collect f xs = Inr ys \<Longrightarrow> x \<in> set xs \<Longrightarrow> \<exists>y. f x = Inr y"
  by (induction xs arbitrary: ys) (auto split: sum.splits)

lemma opened_leaf:
  assumes "decrypt_any A U t aad = Inr v" and "leaf_at A t aad = Some (l, a)"
  shows "\<exists>text. open_leaf A U l a = Inr text"
  using assms by (cases t) (auto simp: map_sum_Inr_iff verify_empty_marker_def and_then_Inr_iff)

lemma opened_node:
  assumes "decrypt_any A U t aad = Inr v" and "is_node t"
  shows "\<exists>c \<in> set (children t). \<not> is_passthrough (snd c)"
    and "c \<in> set (children t) \<Longrightarrow> \<exists>w. decrypt_any A U (snd c) (derive_at A (fst c) aad) = Inr w"
  using assms by (cases t; auto simp: list_all_iff map_sum_Inr_iff split: if_splits dest!: collect_each)+

lemma leaf_opens_once:
  assumes "binds A U" and "open_leaf A U l a = Inr text" and "open_leaf A U l' a' = Inr text'"
    and "dk_key (kl_key l') = dk_key (kl_key l)" and "sv_ciphertext (kl_leaf l') = sv_ciphertext (kl_leaf l)"
  shows "a' = a" and "sv_keyset (kl_leaf l') = sv_keyset (kl_leaf l)" and "sv_tag (kl_leaf l') = sv_tag (kl_leaf l)"
proof -
  have "leaf_aad A U a (sv_keyset (kl_leaf l)) (sv_tag (kl_leaf l)) = leaf_aad A U a' (sv_keyset (kl_leaf l')) (sv_tag (kl_leaf l'))"
    using assms unfolding binds_def open_leaf_def ok_or_Inr_iff by metis
  then show "a' = a" "sv_keyset (kl_leaf l') = sv_keyset (kl_leaf l)" "sv_tag (kl_leaf l') = sv_tag (kl_leaf l)"
    using assms(1) unfolding binds_def leaf_aad_def by (simp_all add: inj_eq)
qed

lemma position_once:
  assumes "binds A U" and "position_ok p" "position_ok q" and "derive_at A p aad = derive_at A q aad'"
  shows "p = q" and "aad = aad'"
  using assms unfolding binds_def by blast+

lemma value_aad_child:
  assumes "binds A U" and "position_ok p" and "p \<notin> markers"
  shows "value_aad A (derive_at A p aad)"
proof -
  have "derive_at A p aad \<noteq> derive_at A m aad'" if "m \<in> markers" for m aad'
    using position_once(1) [OF assms(1,2), of m aad aad'] that assms(3) by (auto simp: markers_def)
  then show ?thesis by (simp add: value_aad_def)
qed


lemma leaf_one_way:
  assumes b: "binds A U" and v: "value_aad A aad" "value_aad A aad'"
    and o: "decrypt_any A U t aad = Inr w" "decrypt_any A U t' aad' = Inr w'"
    and s: "shape_of t = shape_of t'" and l: "leaf_at A t aad = Some (l, a)"
  shows "aad = aad' \<and> claims t = claims t'"
proof -
  obtain l' a' where l': "leaf_at A t' aad' = Some (l', a')" using l s by (cases t; cases t') auto
  obtain x where x: "open_leaf A U l a = Inr x" using opened_leaf [OF o(1) l] by blast
  obtain x' where x': "open_leaf A U l' a' = Inr x'" using opened_leaf [OF o(2) l'] by blast
  have "dk_key (kl_key l') = dk_key (kl_key l)" "sv_ciphertext (kl_leaf l') = sv_ciphertext (kl_leaf l)"
    using s l l' by (cases t; cases t'; auto)+
  note eq = leaf_opens_once [OF b x x' this]
  have no: "aad \<noteq> derive_at A m c" "aad' \<noteq> derive_at A m c" if "m \<in> markers" for m c using v that by (auto simp: value_aad_def)
  have "derive_at A m c = derive_at A n c' \<longleftrightarrow> m = n \<and> c = c'" if "m \<in> markers" "n \<in> markers" for m n c c'
    using that position_once [OF b, of m n c c'] by (auto simp: markers_def)
  from this [of AbsentAt AbsentAt] this [of EmptySeqAt EmptySeqAt] this [of EmptyMapAt EmptyMapAt]
    this [of AbsentAt EmptySeqAt] this [of AbsentAt EmptyMapAt] this [of EmptySeqAt EmptyMapAt]
    this [of EmptySeqAt AbsentAt] this [of EmptyMapAt AbsentAt] this [of EmptyMapAt EmptySeqAt]
    no [of AbsentAt aad] no [of EmptySeqAt aad] no [of EmptyMapAt aad]
    no [of AbsentAt aad'] no [of EmptySeqAt aad'] no [of EmptyMapAt aad']
  show ?thesis using l l' eq by (cases t; cases t') (auto simp: markers_def)
qed

lemma node_children:
  assumes "is_node t" and "shape_of t = shape_of t'"
  shows "is_node t'" and "map (shape_of \<circ> snd) (children t') = map (shape_of \<circ> snd) (children t)"
  using assms by (cases t; cases t'; simp add: comp_def)+

lemma pass_shape: "is_passthrough t \<longleftrightarrow> (\<exists>v. shape_of t = ShPlain v)"
  by (cases t) simp_all

lemma pass_claims: "shape_of t = shape_of t' \<Longrightarrow> is_passthrough t \<Longrightarrow> claims t = claims t'"
  by (cases t; cases t') simp_all

lemma child_ok: "named t \<Longrightarrow> c \<in> set (children t) \<Longrightarrow> position_ok (fst c) \<and> fst c \<notin> markers \<and> named (snd c)"
  by (cases t) (auto simp: list_all_iff markers_def)

lemma same_children:
  assumes "is_node t" "is_node t'" and "length (children t') = length (children t)"
    and "\<And>i. i < length (children t) \<Longrightarrow> claims (snd (children t ! i)) = claims (snd (children t' ! i))
      \<and> is_passthrough (snd (children t ! i)) = is_passthrough (snd (children t' ! i))
      \<and> (is_passthrough (snd (children t ! i)) \<or> fst (children t ! i) = fst (children t' ! i))"
    and "i < length (children t)" and "\<not> is_passthrough (snd (children t ! i))"
  shows "claims t = claims t'"
  using assms(1,2)
proof (cases t; cases t')
  fix xs ys assume t: "t = Sequence xs" "t' = Sequence ys"
  show ?thesis using assms(3) assms(4) t by (auto intro!: nth_equalityI)
next
  fix xs ys assume t: "t = MapCt xs" "t' = MapCt ys"
  have "map (\<lambda>e. (if is_passthrough (snd e) then [] else fst e, claims (snd e))) xs
      = map (\<lambda>e. (if is_passthrough (snd e) then [] else fst e, claims (snd e))) ys"
    using assms(3) assms(4) t by (intro nth_equalityI) auto
  then show ?thesis using t by simp
next
  fix xs ys assume t: "t = Sequence xs" "t' = MapCt ys"
  then show ?thesis using assms(3) assms(4) [OF assms(5)] assms(5,6) by simp
next
  fix xs ys assume t: "t = MapCt xs" "t' = Sequence ys"
  then show ?thesis using assms(3) assms(4) [OF assms(5)] assms(5,6) by simp
qed simp_all

text \<open>A node of which each child can only be where it is.\<close>

lemma node_one_way:
  assumes b: "binds A U" and n: "named t" "named t'" and k: "is_node t" and s: "shape_of t = shape_of t'"
    and o: "decrypt_any A U t aad = Inr w" "decrypt_any A U t' aad' = Inr w'"
    and IH: "\<And>c t' aad aad' w w'. c \<in> set (children t) \<Longrightarrow> named t' \<Longrightarrow> value_aad A aad \<Longrightarrow> value_aad A aad' \<Longrightarrow>
      decrypt_any A U (snd c) aad = Inr w \<Longrightarrow> decrypt_any A U t' aad' = Inr w' \<Longrightarrow> shape_of (snd c) = shape_of t' \<Longrightarrow>
      \<not> is_passthrough (snd c) \<Longrightarrow> aad = aad' \<and> claims (snd c) = claims t'"
  shows "aad = aad' \<and> claims t = claims t'"
proof -
  let ?c = "\<lambda>i. children t ! i" and ?c' = "\<lambda>i. children t' ! i"
  note k' = node_children [OF k s]
  have len: "length (children t') = length (children t)" using arg_cong [OF k'(2), of length] by simp
  have sh: "shape_of (snd (?c i)) = shape_of (snd (?c' i))" if "i < length (children t)" for i
    using arg_cong [OF k'(2), of "\<lambda>xs. xs ! i"] that len by simp
  have one: "fst (?c i) = fst (?c' i) \<and> aad = aad' \<and> claims (snd (?c i)) = claims (snd (?c' i))"
    if i: "i < length (children t)" and np: "\<not> is_passthrough (snd (?c i))" for i
  proof -
    have m: "?c i \<in> set (children t)" "?c' i \<in> set (children t')" using i len by simp_all
    note ok = child_ok [OF n(1) m(1)] child_ok [OF n(2) m(2)]
    obtain x x' where "decrypt_any A U (snd (?c i)) (derive_at A (fst (?c i)) aad) = Inr x"
      "decrypt_any A U (snd (?c' i)) (derive_at A (fst (?c' i)) aad') = Inr x'"
      using opened_node(2) [OF o(1) k m(1)] opened_node(2) [OF o(2) k'(1) m(2)] by blast
    then have "derive_at A (fst (?c i)) aad = derive_at A (fst (?c' i)) aad'" "claims (snd (?c i)) = claims (snd (?c' i))"
      using IH [OF m(1) _ _ _ _ _ sh [OF i] np] ok value_aad_child [OF b] by blast+
    then show ?thesis using position_once [OF b] ok by blast
  qed
  obtain i where i: "i < length (children t)" "\<not> is_passthrough (snd (?c i))"
    using opened_node(1) [OF o(1) k] by (auto simp: in_set_conv_nth)
  have "claims t = claims t'"
  proof (rule same_children [OF k k'(1) len _ i])
    fix j assume j: "j < length (children t)"
    show "claims (snd (?c j)) = claims (snd (?c' j)) \<and> is_passthrough (snd (?c j)) = is_passthrough (snd (?c' j))
      \<and> (is_passthrough (snd (?c j)) \<or> fst (?c j) = fst (?c' j))"
      using one [OF j] pass_claims [OF sh [OF j]] sh [OF j] by (auto simp: pass_shape)
  qed
  then show ?thesis using one [OF i] by blast
qed

lemma opens_one_way:
  assumes b: "binds A U"
  shows "named t \<Longrightarrow> named t' \<Longrightarrow> value_aad A aad \<Longrightarrow> value_aad A aad' \<Longrightarrow>
    decrypt_any A U t aad = Inr w \<Longrightarrow> decrypt_any A U t' aad' = Inr w' \<Longrightarrow> shape_of t = shape_of t' \<Longrightarrow>
    \<not> is_passthrough t \<Longrightarrow> aad = aad' \<and> claims t = claims t'"
proof (induction t arbitrary: t' aad aad' w w')
  case (Sequence items)
  show ?case
  proof (rule node_one_way [OF b Sequence.prems(1,2) _ Sequence.prems(7,5,6)])
  qed (use Sequence.IH Sequence.prems(1) in \<open>auto simp: list_all_iff\<close>)
next
  case (MapCt es)
  show ?case
  proof (rule node_one_way [OF b MapCt.prems(1,2) _ MapCt.prems(7,5,6)])
  qed (use MapCt.IH MapCt.prems(1) in \<open>auto simp: list_all_iff prod_set_simps\<close>)
next
  case (Single l)
  then show ?case using leaf_one_way [OF b Single.prems(3-7)] by simp
next
  case (NoneCt l)
  then show ?case using leaf_one_way [OF b NoneCt.prems(3-7)] by simp
next
  case (EmptySequence l)
  then show ?case using leaf_one_way [OF b EmptySequence.prems(3-7)] by simp
next
  case (EmptyMap l)
  then show ?case using leaf_one_way [OF b EmptyMap.prems(3-7)] by simp
qed simp


section \<open>A cipher that binds\<close>

lemma framed_prefix: "framed a @ x = framed b @ y \<Longrightarrow> a = b \<and> x = y"
proof (induction a arbitrary: b)
  case Nil
  then show ?case by (cases b) (auto simp: framed_def)
next
  case (Cons c a)
  then show ?case by (cases b) (auto simp: framed_def)
qed

lemma framed_pieces: "concat (map framed xs) = concat (map framed ys) \<Longrightarrow> xs = ys"
proof (induction xs arbitrary: ys)
  case Nil
  then show ?case by (cases ys) (auto simp: framed_def)
next
  case (Cons a xs)
  then obtain b zs where "ys = b # zs" by (cases ys) (auto simp: framed_def)
  then show ?case using Cons framed_prefix [of a _ b] by auto
qed

lemma framing_opens: "aes_open framing key aad c = Some text \<Longrightarrow> c = framed aad @ text"
  by (simp add: framing_def split: if_splits) (metis append_take_drop_id)

lemma framing_binds: "binds framing be_uuid"
proof -
  have "derive_at framing p aad = derive_at framing q aad' \<Longrightarrow> p = q \<and> aad = aad'"
    if "position_ok p" "position_ok q" for p q aad aad'
    using that by (cases p; cases q) (auto simp: framing_def dest!: framed_prefix intro: as_bytes_inj)
  moreover have "inj (uuid_bytes be_uuid)" using be_uuid_laws unfolding uuid_laws_def inj_def by (metis option.inject)
  moreover have "inj (pae framing)" using framed_pieces by (auto simp: inj_def framing_def)
  moreover have "aad = aad'" if "aes_open framing key aad c = Some x" "aes_open framing key aad' c = Some y" for key aad aad' c x y
    using framing_opens [OF that(1)] framing_opens [OF that(2)] framed_prefix by metis
  ultimately show ?thesis unfolding binds_def by blast
qed

section \<open>The property\<close>

text \<open>
  C2. A stored tree cannot be relabelled. Take what a value was sealed to, bound to its data keys,
  and any tree over the same ciphertexts and keys in the same nesting. If it is opened under
  another context, or differs anywhere in the kind of a node (a value presented as an absence,
  an empty sequence as an empty map, a sequence as a map), in a leaf's keyset or key tag, or in the
  key of a map entry that holds something sealed, it does not open. Payloads passed through are in
  the clear and make no claim.\<close>

theorem sealed_trees_cannot_be_relabelled:
  assumes "aead_laws A" and "binds A U"
    and "encrypt_with_aad A v aad = Inr tree" and "\<not> is_pd_passthrough tree"
    and "seal_with A U k tree ds = Inr (ct, ds')" and "bind_keys ct (map drawn_key ds) = Inr (kt, rest)"
    and "named kt" "named kt'" and "value_aad A aad" "value_aad A aad'"
    and "shape_of kt' = shape_of kt" and "aad' \<noteq> aad \<or> claims kt' \<noteq> claims kt"
  shows "decrypt_any A U kt' aad' = Inl Unspecified"
proof -
  obtain used kt0 where u: "ds = used @ ds'" "sealed_by k used ct kt0" "decrypt_any A U kt0 aad = Inr v" "\<not> is_passthrough kt0"
    using encrypted_reopens [OF assms(1,3), of U k] assms(4,5) unfolding reopens_def by blast
  then have "kt0 = kt" using assms(6) by (simp add: sealed_by_def)
  then have "decrypt_any A U kt' aad' \<noteq> Inr w" for w
    using opens_one_way [OF assms(2,7-10) u(3) [unfolded \<open>kt0 = kt\<close>] _ assms(11) [symmetric]] u(4) assms(12) by metis
  then show ?thesis by (cases "decrypt_any A U kt' aad'") (auto intro: unspecified.exhaust)
qed

text \<open>A map of a value and an absence, sealed, with its first key renamed.\<close>

definition demo_draw :: "u8 \<Rightarrow> draw" where
  "demo_draw n = (\<lparr>kt_key = \<lparr>dk_iv = [n], dk_key = [n]\<rparr>, kt_tag = [n]\<rparr>, [])"

definition demo_leaf_at :: "u8 \<Rightarrow> bytes \<Rightarrow> bytes \<Rightarrow> sealed_value" where
  "demo_leaf_at n aad text =
     \<lparr>sv_keyset = 7, sv_iv = [n], sv_tag = [n], sv_ciphertext = framed (leaf_aad framing be_uuid aad 7 [n]) @ text\<rparr>"

definition demo_keyed :: "u8 \<Rightarrow> bytes \<Rightarrow> bytes \<Rightarrow> keyed_leaf" where
  "demo_keyed n aad text = \<lparr>kl_leaf = demo_leaf_at n aad text, kl_key = \<lparr>dk_iv = [n], dk_key = [n]\<rparr>\<rparr>"

definition demo_aad :: "string \<Rightarrow> bytes" where
  "demo_aad n = for_map_entry framing [] (lit n)"

definition demo_bound :: "string \<Rightarrow> keyed_leaf ciphertext" where
  "demo_bound n = MapCt [(lit n, Single (demo_keyed 1 (demo_aad ''a'') [9])),
     (lit ''b'', NoneCt (demo_keyed 2 (for_none framing (demo_aad ''b'')) []))]"

lemma demo_seal_leaf: "seal_leaf framing be_uuid x aad 7 (demo_draw n) = Inr (demo_leaf_at n aad x)"
  by (simp add: seal_leaf_def demo_draw_def tag_fits_length_field_def demo_leaf_at_def) (simp add: framing_def)

theorem sealed_trees_cannot_be_relabelled_witness:
  "decrypt_any framing be_uuid (demo_bound ''c'') [] = Inl Unspecified"
proof (rule sealed_trees_cannot_be_relabelled [OF framing_laws framing_binds])
  let ?tree = "PdMap [(lit ''a'', PdSingle [9] (demo_aad ''a'')), (lit ''b'', PdNone (for_none framing (demo_aad ''b'')))]"
  let ?ct = "MapCt [(lit ''a'', Single (demo_leaf_at 1 (demo_aad ''a'') [9])), (lit ''b'', NoneCt (demo_leaf_at 2 (for_none framing (demo_aad ''b'')) []))]"
  show "encrypt_with_aad framing (PlMap [(lit ''a'', PlBytes [9]), (lit ''b'', PlNone)]) [] = Inr ?tree"
    by (simp add: encrypt_map_def encrypt_key_def entry_aad_def encrypt_value_def map_end_def demo_aad_def lit_def)
  show "\<not> is_pd_passthrough ?tree" by simp
  show "seal_with framing be_uuid 7 ?tree [demo_draw 1, demo_draw 2] = Inr (?ct, [])"
    by (simp add: demo_seal_leaf)
  show "bind_keys ?ct (map drawn_key [demo_draw 1, demo_draw 2]) = Inr (demo_bound ''a'', [])"
    by (simp add: demo_bound_def demo_keyed_def drawn_key_def demo_draw_def)
  show "named (demo_bound ''a'')" "named (demo_bound ''c'')" by (simp_all add: demo_bound_def lit_def is_str_def is_scalar_def)
  show "value_aad framing []" "value_aad framing []" by (simp_all add: value_aad_def markers_def framing_def)
  show "shape_of (demo_bound ''c'') = shape_of (demo_bound ''a'')" by (simp add: demo_bound_def)
  show "([] :: bytes) \<noteq> [] \<or> claims (demo_bound ''c'') \<noteq> claims (demo_bound ''a'')" by (simp add: demo_bound_def lit_def)
qed

end
