(* ===== verification/Federation.thy ===== *)
theory Federation
  imports Device_Refresh
begin

text \<open>
  What the strategies of \<open>packages/stack-auth\<close> share and what federation adds: the exchange at
  \<open>/api/authorise\<close> (\<open>authorize_dto.rs\<close>, \<open>access_key_refresher.rs\<close>, \<open>oidc_refresher.rs\<close>), access keys
  (\<open>access_key.rs\<close>), the check of a token's workspace (\<open>service_token.rs\<close>), the digest of a
  provider's JWT, the store bound to one JWT, and the least-recently-used cache of
  \<open>oidc_federation_strategy/cache.rs\<close>. The transport, JSON, SHA-256 and the decoding of a
  token's claims are arguments.
\<close>

section \<open>Access keys\<close>

datatype invalid_access_key = MissingPrefix | MissingDot | EmptyKeyId | EmptySecret

definition ACCESS_KEY_PREFIX :: rstr where
  "ACCESS_KEY_PREFIX = lit ''CSAK''"

text \<open>\<open>strip_prefix\<close> and \<open>split_once\<close> of the standard library.\<close>

definition strip_prefix :: "rstr \<Rightarrow> rstr \<Rightarrow> rstr option" where
  "strip_prefix p s = (if take (length p) s = p then Some (drop (length p) s) else None)"

fun split_once :: "nat \<Rightarrow> rstr \<Rightarrow> (rstr \<times> rstr) option" where
  "split_once c [] = None"
| "split_once c (x # xs) = (if x = c then Some ([], xs) else map_option (map_prod (Cons x) id) (split_once c xs))"

definition parse_access_key :: "rstr \<Rightarrow> (invalid_access_key, rstr) result" where
  "parse_access_key s =
     and_then (ok_or (strip_prefix ACCESS_KEY_PREFIX s) MissingPrefix) (\<lambda>rest.
     and_then (ok_or (split_once 46 rest) MissingDot) (\<lambda>(key_id, secret).
       if key_id = [] then Inl EmptyKeyId
       else if secret = [] then Inl EmptySecret
       else Inr s))"

lemma split_once_Some: "split_once c s = Some (a, b) \<longleftrightarrow> s = a @ c # b \<and> c \<notin> set a"
proof (induction s arbitrary: a)
  case (Cons x s)
  show ?case using Cons by (cases a) auto
qed simp

lemma strip_prefix_Some: "strip_prefix p s = Some r \<longleftrightarrow> s = p @ r"
  by (auto simp: strip_prefix_def) (metis append_take_drop_id)

lemma parse_access_key_ok:
  "parse_access_key s = Inr k \<longleftrightarrow>
     k = s \<and> (\<exists>key_id secret. s = lit ''CSAK'' @ key_id @ lit ''.'' @ secret \<and> key_id \<noteq> [] \<and> 46 \<notin> set key_id \<and> secret \<noteq> [])"
  by (auto simp: parse_access_key_def and_then_Inr_iff ok_or_Inr_iff strip_prefix_Some split_once_Some
      ACCESS_KEY_PREFIX_def lit_def split: if_splits)

section \<open>The exchange\<close>

record authorise_response =
  ar_access_token :: rstr
  ar_expiry :: u64

text \<open>The expiry is absolute.\<close>

definition token_from :: "authorise_response \<Rightarrow> token" where
  "token_from resp =
     \<lparr>access_token = ar_access_token resp, refresh_token = None, token_type = lit ''Bearer'',
      expires_at = ar_expiry resp, t_region = None, t_client_id = None, t_device_instance_id = None,
      t_federated_from = None\<rparr>"

definition server_refused :: "(rstr \<Rightarrow> json option) \<Rightarrow> nat \<Rightarrow> rstr \<Rightarrow> auth_error" where
  "server_refused parse status body =
     (case Option.bind (parse body) (\<lambda>v. text_field v ''error_description'') of
        Some description \<Rightarrow> Server (dec status @ lit '': '' @ description)
      | None \<Rightarrow> Server (dec status))"

text \<open>What both exchanges make of the answer, \<open>None\<close> being a transport that failed.\<close>

definition authorised ::
  "(rstr \<Rightarrow> json option) \<Rightarrow> (rstr \<Rightarrow> authorise_response option) \<Rightarrow> http_response option \<Rightarrow> (auth_error, token) result" where
  "authorised parse decode answer =
     (case answer of
        None \<Rightarrow> Inl (Request False)
      | Some resp \<Rightarrow>
          if \<not> is_success resp
          then (case classify_issuance_failure parse (hr_status resp) (hr_body resp) of
                  Some err \<Rightarrow> Inl err
                | None \<Rightarrow> Inl (server_refused parse (hr_status resp) (hr_body resp)))
          else (case decode (hr_body resp) of
                  None \<Rightarrow> Inl (Request False)
                | Some r \<Rightarrow> Inr (token_from r)))"

record oidc_authorise_request =
  oq_oidc_token :: rstr
  oq_workspace_id :: rstr

record oidc_federation =
  fd_workspace_id :: rstr
  fd_url_error :: "rstr option"
  fd_parse :: "rstr \<Rightarrow> json option"
  fd_decode :: "rstr \<Rightarrow> authorise_response option"

definition federate ::
  "oidc_federation \<Rightarrow> (oidc_authorise_request \<Rightarrow> http_response option) \<Rightarrow> rstr \<Rightarrow> (auth_error, token) result" where
  "federate F post_json jwt =
     (case fd_url_error F of
        Some e \<Rightarrow> Inl (InvalidUrl e)
      | None \<Rightarrow> authorised (fd_parse F) (fd_decode F) (post_json \<lparr>oq_oidc_token = jwt, oq_workspace_id = fd_workspace_id F\<rparr>))"

record authorise_request =
  aq_access_key :: rstr
  aq_audience :: "rstr option"

definition access_key_refresh ::
  "oidc_federation \<Rightarrow> (authorise_request \<Rightarrow> http_response option) \<Rightarrow> rstr \<Rightarrow> rstr option \<Rightarrow> (auth_error, token) result" where
  "access_key_refresh F post_json access_key audience =
     (case fd_url_error F of
        Some e \<Rightarrow> Inl (InvalidUrl e)
      | None \<Rightarrow> authorised (fd_parse F) (fd_decode F) (post_json \<lparr>aq_access_key = access_key, aq_audience = audience\<rparr>))"

lemma authorised_classes:
  assumes "authorised parse decode answer = Inl e"
  shows "is_account_refusal e \<Longrightarrow> \<exists>resp. answer = Some resp \<and> hr_status resp = 402"
  using assms classify_refusal
  by (fastforce simp: authorised_def server_refused_def split: option.splits if_splits)

section \<open>Workspaces\<close>

text \<open>\<open>claim\<close> reads the workspace of a bearer token, or says why it cannot.\<close>

definition verify_workspace ::
  "(rstr \<Rightarrow> (rstr, rstr) result) \<Rightarrow> rstr \<Rightarrow> rstr \<Rightarrow> (auth_error, rstr) result" where
  "verify_workspace claim expected bearer =
     (case claim bearer of
        Inl why \<Rightarrow> Inl (InvalidToken why)
      | Inr workspace \<Rightarrow> if workspace \<noteq> expected then Inl (WorkspaceMismatch expected workspace) else Inr bearer)"

lemma verify_workspace_Inr: "verify_workspace claim expected b = Inr b' \<longleftrightarrow> b' = b \<and> claim b = Inr expected"
  by (auto simp: verify_workspace_def split: sum.splits)

section \<open>Digests\<close>

type_synonym jwt_digest = bytes

definition jwt_digest_of :: "(bytes \<Rightarrow> bytes) \<Rightarrow> rstr \<Rightarrow> jwt_digest" where
  "jwt_digest_of sha256 jwt = sha256 (as_bytes jwt)"

definition hex_digit :: "nat \<Rightarrow> nat" where
  "hex_digit n = (if n < 10 then 48 + n else 87 + n)"

definition to_hex :: "jwt_digest \<Rightarrow> rstr" where
  "to_hex d = concat (map (\<lambda>b. [hex_digit (unat b div 16), hex_digit (unat b mod 16)]) d)"

definition matches_hex :: "jwt_digest \<Rightarrow> rstr \<Rightarrow> bool" where
  "matches_hex d hex \<longleftrightarrow> hex = to_hex d"

lemma hex_digit_inj: "m < 16 \<Longrightarrow> n < 16 \<Longrightarrow> hex_digit m = hex_digit n \<Longrightarrow> m = n"
  by (auto simp: hex_digit_def split: if_splits)

lemma to_hex_inj: "to_hex a = to_hex b \<Longrightarrow> a = b"
proof (induction a arbitrary: b)
  case Nil
  then show ?case by (cases b) (auto simp: to_hex_def)
next
  case (Cons x a)
  then obtain y b' where b: "b = y # b'" by (cases b) (auto simp: to_hex_def)
  have "unat x < 256" "unat y < 256" using unsigned_less [where w = x] unsigned_less [where w = y] by simp_all
  then have "unat x div 16 < 16" "unat y div 16 < 16" by simp_all
  then have "unat x div 16 = unat y div 16" "unat x mod 16 = unat y mod 16"
    using Cons.prems hex_digit_inj by (auto simp: to_hex_def b)
  then have "unat x = unat y" by (metis div_mult_mod_eq)
  then have "x = y" by (simp add: word_unat_eq_iff)
  then show ?case using Cons b by (simp add: to_hex_def)
qed

text \<open>\<open>JwtRefresher::refresh\<close>: the exchange, with the token stamped.\<close>

definition jwt_refresh ::
  "(bytes \<Rightarrow> bytes) \<Rightarrow> oidc_federation \<Rightarrow> (oidc_authorise_request \<Rightarrow> http_response option) \<Rightarrow> rstr \<Rightarrow> (auth_error, token) result" where
  "jwt_refresh sha256 F post_json jwt =
     map_sum id (\<lambda>t. t\<lparr>t_federated_from := Some (to_hex (jwt_digest_of sha256 jwt))\<rparr>) (federate F post_json jwt)"

text \<open>\<open>BoundStore::load\<close>, of what the store below it holds.\<close>

definition bound_load :: "jwt_digest \<Rightarrow> token option \<Rightarrow> token option" where
  "bound_load digest inner =
     (case inner of
        None \<Rightarrow> None
      | Some t \<Rightarrow>
          (case t_federated_from t of
             Some hex \<Rightarrow> if matches_hex digest hex then Some t else None
           | None \<Rightarrow> None))"

lemma bound_load_stamped: "bound_load d inner = Some t \<Longrightarrow> inner = Some t \<and> t_federated_from t = Some (to_hex d)"
  by (auto simp: bound_load_def matches_hex_def split: option.splits if_splits)

lemma jwt_refresh_stamped: "jwt_refresh sha256 F post jwt = Inr t \<Longrightarrow> t_federated_from t = Some (to_hex (jwt_digest_of sha256 jwt))"
  by (auto simp: jwt_refresh_def map_sum_Inr_iff)

section \<open>The cache of engines\<close>

record 'h cache_entry =
  ce_handle :: 'h
  ce_last_used :: nat

record 'h jwt_cache =
  jc_capacity :: nat
  jc_tick :: nat
  jc_entries :: "(jwt_digest \<times> 'h cache_entry) list"

definition jwt_cache_new :: "nat \<Rightarrow> 'h jwt_cache" where
  "jwt_cache_new capacity = \<lparr>jc_capacity = capacity, jc_tick = 0, jc_entries = []\<rparr>"

definition jc_get :: "jwt_digest \<Rightarrow> 'h jwt_cache \<Rightarrow> 'h option \<times> 'h jwt_cache" where
  "jc_get digest c =
     (let c = c\<lparr>jc_tick := jc_tick c + 1\<rparr>
      in case map_of (jc_entries c) digest of
           None \<Rightarrow> (None, c)
         | Some e \<Rightarrow> (Some (ce_handle e), c\<lparr>jc_entries := al_put digest (e\<lparr>ce_last_used := jc_tick c\<rparr>) (jc_entries c)\<rparr>))"

definition jc_evict :: "'h jwt_cache \<Rightarrow> 'h jwt_cache" where
  "jc_evict c =
     (case min_by_key (\<lambda>e. ce_last_used (snd e)) (jc_entries c) of
        None \<Rightarrow> c
      | Some (victim, _) \<Rightarrow> c\<lparr>jc_entries := al_remove victim (jc_entries c)\<rparr>)"

definition jc_insert :: "jwt_digest \<Rightarrow> 'h \<Rightarrow> 'h jwt_cache \<Rightarrow> 'h jwt_cache" where
  "jc_insert digest handle c =
     (if jc_capacity c = 0 then c
      else
        (let c = c\<lparr>jc_tick := jc_tick c + 1\<rparr>;
             c = (if length (jc_entries c) \<ge> jc_capacity c \<and> map_of (jc_entries c) digest = None then jc_evict c else c)
         in c\<lparr>jc_entries := al_put digest \<lparr>ce_handle = handle, ce_last_used = jc_tick c\<rparr> (jc_entries c)\<rparr>))"

definition jc_remove_if :: "jwt_digest \<Rightarrow> ('h \<Rightarrow> bool) \<Rightarrow> 'h jwt_cache \<Rightarrow> 'h jwt_cache" where
  "jc_remove_if digest is_it c =
     (case map_of (jc_entries c) digest of
        Some e \<Rightarrow> if is_it (ce_handle e) then c\<lparr>jc_entries := al_remove digest (jc_entries c)\<rparr> else c
      | None \<Rightarrow> c)"

definition jc_ok :: "'h jwt_cache \<Rightarrow> bool" where
  "jc_ok c \<longleftrightarrow> distinct (map fst (jc_entries c)) \<and> length (jc_entries c) \<le> jc_capacity c"

text \<open>The handles a cache holds, by digest.\<close>

definition jc_handles :: "'h jwt_cache \<Rightarrow> jwt_digest \<rightharpoonup> 'h" where
  "jc_handles c = map_option ce_handle \<circ> map_of (jc_entries c)"

lemma jc_new [simp]: "jc_ok (jwt_cache_new n)" "jc_handles (jwt_cache_new n) = Map.empty"
  by (auto simp: jc_ok_def jwt_cache_new_def jc_handles_def)

lemma jc_get_simps [simp]:
  "fst (jc_get d c) = jc_handles c d"
  "jc_handles (snd (jc_get d c)) = jc_handles c"
  "jc_capacity (snd (jc_get d c)) = jc_capacity c"
  by (auto simp: jc_get_def jc_handles_def Let_def split: option.splits)

lemma jc_get_ok [simp]: "jc_ok c \<Longrightarrow> jc_ok (snd (jc_get d c))"
  by (auto simp: jc_get_def jc_ok_def Let_def length_al_put split: option.splits dest!: map_of_SomeD)
    (metis fst_conv image_eqI)

lemma jc_evict_spec:
  assumes "jc_ok c" and "jc_entries c \<noteq> []"
  obtains victim e where "map_of (jc_entries c) victim = Some e"
    and "\<forall>d f. map_of (jc_entries c) d = Some f \<longrightarrow> ce_last_used e \<le> ce_last_used f"
    and "jc_evict c = c\<lparr>jc_entries := al_remove victim (jc_entries c)\<rparr>"
proof -
  obtain victim e where m: "min_by_key (\<lambda>e. ce_last_used (snd e)) (jc_entries c) = Some (victim, e)"
    using min_by_key_Some [OF assms(2)] by fastforce
  note least = min_by_key_least [OF m]
  show thesis
  proof (rule that)
    show "map_of (jc_entries c) victim = Some e" using least assms(1) by (simp add: jc_ok_def)
    show "\<forall>d f. map_of (jc_entries c) d = Some f \<longrightarrow> ce_last_used e \<le> ce_last_used f"
      using least by (auto dest!: map_of_SomeD)
  qed (simp add: jc_evict_def m)
qed

lemma jc_evict_ok:
  assumes "jc_ok c" and "jc_entries c \<noteq> []"
  shows "jc_ok (jc_evict c)" and "Suc (length (jc_entries (jc_evict c))) = length (jc_entries c)"
    and "jc_handles (jc_evict c) \<subseteq>\<^sub>m jc_handles c" and "jc_capacity (jc_evict c) = jc_capacity c"
proof -
  obtain v e where v: "map_of (jc_entries c) v = Some e" "jc_evict c = c\<lparr>jc_entries := al_remove v (jc_entries c)\<rparr>"
    using jc_evict_spec [OF assms] by metis
  have "v \<in> fst ` set (jc_entries c)" using v(1) map_of_SomeD by force
  then have len: "length (al_remove v (jc_entries c)) = length (jc_entries c) - 1"
    using assms(1) by (simp add: length_al_remove jc_ok_def)
  show "Suc (length (jc_entries (jc_evict c))) = length (jc_entries c)" using len v(2) assms(2) by simp
  show "jc_ok (jc_evict c)" using assms(1) v(2) len by (auto simp: jc_ok_def)
  show "jc_handles (jc_evict c) \<subseteq>\<^sub>m jc_handles c" using v(2) by (auto simp: map_le_def jc_handles_def)
  show "jc_capacity (jc_evict c) = jc_capacity c" using v(2) by simp
qed

lemma jc_put:
  assumes "jc_ok c" and "d \<in> fst ` set (jc_entries c) \<or> length (jc_entries c) < jc_capacity c"
  shows "jc_ok (c\<lparr>jc_entries := al_put d e (jc_entries c)\<rparr>)"
    and "jc_handles (c\<lparr>jc_entries := al_put d e (jc_entries c)\<rparr>) = (jc_handles c)(d \<mapsto> ce_handle e)"
  using assms by (auto simp: jc_ok_def length_al_put jc_handles_def fun_eq_iff)

lemma jc_insert_ok:
  assumes "jc_ok c"
  shows "jc_ok (jc_insert d h c)" and "jc_capacity (jc_insert d h c) = jc_capacity c"
    and "jc_handles (jc_insert d h c) \<subseteq>\<^sub>m (jc_handles c)(d \<mapsto> h)"
    and "jc_capacity c \<noteq> 0 \<Longrightarrow> jc_handles (jc_insert d h c) d = Some h"
proof -
  let ?c = "c\<lparr>jc_tick := jc_tick c + 1\<rparr>"
  let ?full = "length (jc_entries c) \<ge> jc_capacity c \<and> map_of (jc_entries c) d = None"
  let ?e = "if ?full then jc_evict ?c else ?c"
  have ok: "jc_ok ?c" "jc_handles ?c = jc_handles c" using assms by (simp_all add: jc_ok_def jc_handles_def)
  have ne: "jc_entries ?c \<noteq> []" if "jc_capacity c \<noteq> 0" ?full using that by auto
  have e: "jc_ok ?e \<and> jc_capacity ?e = jc_capacity c \<and> jc_handles ?e \<subseteq>\<^sub>m jc_handles c
      \<and> (d \<in> fst ` set (jc_entries ?e) \<or> length (jc_entries ?e) < jc_capacity c)" if "jc_capacity c \<noteq> 0"
  proof (cases ?full)
    case True
    then show ?thesis using jc_evict_ok [OF ok(1) ne [OF that True]] ok assms by (simp add: jc_ok_def)
  next
    case False
    then show ?thesis using ok by (auto simp: weak_map_of_SomeI dest: map_of_SomeD intro: rev_image_eqI)
  qed
  have ins: "jc_insert d h c = ?e\<lparr>jc_entries := al_put d \<lparr>ce_handle = h, ce_last_used = jc_tick ?e\<rparr> (jc_entries ?e)\<rparr>"
    if "jc_capacity c \<noteq> 0" using that by (simp add: jc_insert_def Let_def)
  have "jc_ok (jc_insert d h c) \<and> jc_capacity (jc_insert d h c) = jc_capacity c
      \<and> jc_handles (jc_insert d h c) = (jc_handles ?e)(d \<mapsto> h)" if "jc_capacity c \<noteq> 0"
    unfolding ins [OF that] using jc_put [of ?e d] e [OF that] by simp
  with e show "jc_ok (jc_insert d h c)" "jc_capacity (jc_insert d h c) = jc_capacity c"
    "jc_handles (jc_insert d h c) \<subseteq>\<^sub>m (jc_handles c)(d \<mapsto> h)"
    "jc_capacity c \<noteq> 0 \<Longrightarrow> jc_handles (jc_insert d h c) d = Some h"
    using assms by (cases "jc_capacity c = 0"; auto simp: jc_insert_def map_le_def jc_ok_def jc_handles_def split: if_splits; fail)+
qed

lemma jc_remove_if_handles:
  "jc_handles (jc_remove_if d is_it c) =
     (case jc_handles c d of Some h \<Rightarrow> if is_it h then (jc_handles c)(d := None) else jc_handles c | None \<Rightarrow> jc_handles c)"
  by (auto simp: jc_remove_if_def jc_handles_def fun_eq_iff split: option.split)

end
