(* ===== verification/Oidc_Machine.thy ===== *)
theory Oidc_Machine
  imports Refresh_Machine Federation
begin

text \<open>
  \<open>OidcFederationStrategy\<close> (\<open>packages/stack-auth/src/oidc_federation_strategy.rs\<close>): one refresh engine per
  provider JWT, found by the JWT's digest in a bounded cache or among the pending ones. The
  engines are those of \<open>Refresh_Machine\<close>, with the tokens that enter one restricted to what its
  exchange and its bound store give. The strategy's own operations run under its mutex and are
  one step each; a call is cancelled wherever its engine suspends it.
\<close>

section \<open>Where the tokens of an engine come from\<close>

definition bearer_of :: "(token \<Rightarrow> bool) \<Rightarrow> rstr \<Rightarrow> bool" where
  "bearer_of P b \<longleftrightarrow> (\<exists>tok. P tok \<and> access_token tok = b)"

text \<open>What a caller or a task at one point of its code holds, where \<open>h\<close> is whether the engine has a token.\<close>

fun says :: "(token \<Rightarrow> bool) \<Rightarrow> bool \<Rightarrow> outcome \<Rightarrow> bool" where
  "says P h (Inr b) = (bearer_of P b \<and> h)"
| "says P h (Inl _) = True"

fun caller_holds :: "(token \<Rightarrow> bool) \<Rightarrow> bool \<Rightarrow> caller_pc \<Rightarrow> bool" where
  "caller_holds P h (Relocking (Some tok)) = P tok"
| "caller_holds P h (Done r) = says P h r"
| "caller_holds P h _ = True"

fun task_holds :: "(token \<Rightarrow> bool) \<Rightarrow> bool \<Rightarrow> 'c task_pc \<Rightarrow> bool" where
  "task_holds P h (SavingB tok) = P tok"
| "task_holds P h (SavingNB tok) = P tok"
| "task_holds P h (InstallingNB tok) = P tok"
| "task_holds P h (ExchangingNB _ b _) = (bearer_of P b \<and> h)"
| "task_holds P h (FailingNB _ _ b _) = (bearer_of P b \<and> h)"
| "task_holds P h (Notifying r) = says P h r"
| "task_holds P h (Ended r) = says P h r"
| "task_holds P h _ = True"

abbreviation has_token :: "'c engine \<Rightarrow> bool" where
  "has_token E \<equiv> s_token (st E) \<noteq> None"

definition vouched :: "(token \<Rightarrow> bool) \<Rightarrow> 'c engine \<Rightarrow> bool" where
  "vouched P E \<longleftrightarrow> (\<forall>tok. s_token (st E) = Some tok \<longrightarrow> P tok)
     \<and> (\<forall>i. caller_holds P (has_token E) (callers E i))
     \<and> (\<forall>t. task_holds P (has_token E) (tasks E t))
     \<and> list_all P (saved E)"

text \<open>A step in which every token that enters satisfies \<open>P\<close>.\<close>

definition admits :: "(token \<Rightarrow> bool) \<Rightarrow> (token \<Rightarrow> bool) \<Rightarrow> 'c engine \<Rightarrow> 'c engine \<Rightarrow> bool" where
  "admits load exch E E' \<longleftrightarrow>
     (\<forall>i tok. callers E' i = Relocking (Some tok) \<longrightarrow> callers E i = Relocking (Some tok) \<or> load tok)
     \<and> (\<forall>t tok. tasks E' t = SavingB tok \<or> tasks E' t = SavingNB tok \<longrightarrow> tasks E t = tasks E' t \<or> exch tok)"

lemma admitsD:
  assumes "admits load exch E E'"
  shows "callers E' i = Relocking (Some tok) \<Longrightarrow> callers E i \<noteq> Relocking (Some tok) \<Longrightarrow> load tok"
    and "tasks E' t = SavingB tok \<Longrightarrow> tasks E t \<noteq> SavingB tok \<Longrightarrow> exch tok"
    and "tasks E' t = SavingNB tok \<Longrightarrow> tasks E t \<noteq> SavingNB tok \<Longrightarrow> exch tok"
  using assms unfolding admits_def by metis+

lemma says_mono: "says P h r \<Longrightarrow> (h \<Longrightarrow> h') \<Longrightarrow> says P h' r"
  by (cases r) auto

lemma caller_holds_mono: "caller_holds P h pc \<Longrightarrow> (h \<Longrightarrow> h') \<Longrightarrow> caller_holds P h' pc"
  by (induction P h pc rule: caller_holds.induct) (auto intro: says_mono)

lemma task_holds_mono: "task_holds P h pc \<Longrightarrow> (h \<Longrightarrow> h') \<Longrightarrow> task_holds P h' pc"
  by (cases pc) (auto intro: says_mono)

text \<open>A change of the state, one caller and one task.\<close>

lemma vouched_update:
  assumes "vouched P E" and "\<And>tok. s_token s = Some tok \<Longrightarrow> P tok" and "has_token E \<Longrightarrow> s_token s \<noteq> None"
    and "st E' = s" and "saved E' = saved E \<or> (\<exists>tok. saved E' = saved E @ [tok] \<and> P tok)"
    and "\<And>j. callers E' j = callers E j \<or> caller_holds P (s_token s \<noteq> None) (callers E' j)"
    and "\<And>u. tasks E' u = tasks E u \<or> task_holds P (s_token s \<noteq> None) (tasks E' u)"
  shows "vouched P E'"
  unfolding vouched_def
proof (intro conjI allI impI)
  show "P tok" if "s_token (st E') = Some tok" for tok using assms(2,4) that by simp
  show "caller_holds P (has_token E') (callers E' i)" for i
    using assms(6) [of i] assms(1,3,4) caller_holds_mono unfolding vouched_def by metis
  show "task_holds P (has_token E') (tasks E' t)" for t
    using assms(7) [of t] assms(1,3,4) task_holds_mono unfolding vouched_def by metis
  show "list_all P (saved E')" using assms(1,5) unfolding vouched_def by auto
qed

lemma vouchedD:
  assumes "vouched P E"
  shows "s_token (st E) = Some tok \<Longrightarrow> P tok" and "caller_holds P (has_token E) (callers E i)"
    and "task_holds P (has_token E) (tasks E t)" and "tok \<in> set (saved E) \<Longrightarrow> P tok"
  using assms by (auto simp: vouched_def list_all_iff)

lemma denial_token [simp]: "s_token (snd (fresh_denial now s)) = s_token s"
  by (auto simp: fresh_denial_def split: option.splits)

lemma denial_tokenD: "fresh_denial now s = (x, u) \<Longrightarrow> s_token u = s_token s"
  using denial_token [of now s] by simp

lemma says_service: "(\<And>tok. s_token s = Some tok \<Longrightarrow> P tok) \<Longrightarrow> says P (s_token s \<noteq> None) (service_token s)"
  by (auto simp: service_token_def bearer_of_def split: option.splits)

lemma says_require: "(\<And>tok. s_token s = Some tok \<Longrightarrow> P tok) \<Longrightarrow> says P (s_token s \<noteq> None) (require_usable_token now s)"
  by (auto simp: require_usable_token_def bearer_of_def split: option.splits)

lemma decide_jwt:
  assumes "decide jwt_refresher now f s = (d, s')" and "\<And>tok. s_token s = Some tok \<Longrightarrow> P tok"
  shows "s_token s' = s_token s" and "d = Return r \<Longrightarrow> says P (s_token s \<noteq> None) r"
proof -
  obtain x u where x: "fresh_denial now s = (x, u)" by (cases "fresh_denial now s")
  then have u: "s_token u = s_token s" using denial_token [of now s] by simp
  show "s_token s' = s_token s"
    using assms(1) x u by (auto simp: decide_def jwt_refresher_def split: option.splits if_splits)
  have "says P (s_token s \<noteq> None) (service_token u)" "says P (s_token s \<noteq> None) (service_token s)"
    using says_service [of u P] says_service [of s P] assms(2) u by simp_all
  then show "says P (s_token s \<noteq> None) r" if "d = Return r"
    using assms(1) x u that by (auto simp: decide_def jwt_refresher_def split: option.splits if_splits)
qed

lemma wait_shortcut_service: "wait_shortcut now s = Some r \<Longrightarrow> r = service_token s"
  by (auto simp: wait_shortcut_def split: sum.splits if_splits)

lemma vouched_proceed:
  assumes "vouched P E" and "\<And>tok. s_token s = Some tok \<Longrightarrow> P tok" and "has_token E \<Longrightarrow> s_token s \<noteq> None"
  shows "vouched P (proceed jwt_refresher i s E)"
proof -
  obtain d s' where d: "decide jwt_refresher (clock E) (in_progress E) s = (d, s')" by (cases "decide jwt_refresher (clock E) (in_progress E) s")
  note tok = decide_jwt(1) [OF d, of P, OF assms(2)]
  have r: "says P (s_token s' \<noteq> None) r" if "d = Return r" for r using decide_jwt(2) [OF d, of P, OF assms(2) that] tok by simp
  have w: "says P (s_token s' \<noteq> None) r" if "wait_shortcut (clock E) s' = Some r" for r
    using wait_shortcut_service [OF that] says_service [of s' P] assms(2) tok by simp
  show ?thesis
    by (rule vouched_update [OF assms(1), of s'])
      (use assms tok r w d in \<open>auto simp: proceed_def begin_wait_def start_refresh_def Let_def split: decision.split option.split\<close>)
qed


lemma failed_token [simp]: "s_token (refresh_failed jwt_refresher err c now s) = s_token s"
  by (cases "s_token s") (auto simp: refresh_failed_def record_refusal_def jwt_refresher_def Let_def)

lemma says_failed: "bearer_of P b \<Longrightarrow> h \<Longrightarrow> says P h (failed_answer err now expiry b)"
  by (simp add: failed_answer_def)

lemma after_wait_says:
  assumes "after_wait now s = (r, s')" and "\<And>tok. s_token s = Some tok \<Longrightarrow> P tok"
  shows "says P (s_token s \<noteq> None) r" and "s_token s' = s_token s"
proof -
  obtain x u where x: "fresh_denial now s = (x, u)" by (cases "fresh_denial now s")
  then have u: "s_token u = s_token s" using denial_token [of now s] by simp
  have q: "says P (s_token s \<noteq> None) (require_usable_token now s)" using says_require assms(2) by simp
  have "says P (s_token s \<noteq> None) r \<and> s_token s' = s_token s"
  proof (cases "require_usable_token now s")
    case (Inr b)
    then show ?thesis using assms(1) q by (simp add: after_wait_def)
  next
    case (Inl e)
    then have "isl r \<and> s' = u" using assms(1)
      by (cases x; cases "last_refresh_error u") (auto simp: after_wait_def Inl x split: if_splits)
    then show ?thesis using u by (cases r) auto
  qed
  then show "says P (s_token s \<noteq> None) r" "s_token s' = s_token s" by simp_all
qed

text \<open>Only an installation and an accepted load change the token of an engine.\<close>

lemma proceed_token [simp]: "s_token (st (proceed jwt_refresher i s E)) = s_token s"
proof -
  obtain d s' where d: "decide jwt_refresher (clock E) (in_progress E) s = (d, s')" by (cases "decide jwt_refresher (clock E) (in_progress E) s")
  then show ?thesis using decide_jwt(1) [OF d, of "\<lambda>_. True"]
    by (auto simp: proceed_def begin_wait_def start_refresh_def Let_def split: decision.split option.split)
qed

lemma enter_token [simp]: "s_token (st (get_token_enter jwt_refresher i E)) = s_token (st E)"
  by (auto simp: get_token_enter_def enter_cold_def dest: denial_tokenD split: option.splits prod.splits)

lemma finish_token [simp]: "s_token (st (finish_wait i now E)) = s_token (st E)"
proof -
  obtain r s' where "after_wait now (st E) = (r, s')" by (cases "after_wait now (st E)")
  then show ?thesis using after_wait_says(2) [of now "st E" r s' "\<lambda>_. True"] by (simp add: finish_wait_def)
qed

lemma op_tokens [simp]:
  "s_token (st (run_refresh t c E)) = s_token (st E)"
  "s_token (st (blocking_failed jwt_refresher t u err E)) = s_token (st E)"
  "s_token (st (nonblocking_failed jwt_refresher t err u b x now E)) = s_token (st E)"
  "s_token (st (blocking_installed t tok E)) = Some tok"
  "s_token (st (nonblocking_installed t tok E)) = Some tok"
  "st (recheck_flag i E) = st E" "st (notify_waiters E) = st E" "st (release_task_lock t E) = st E"
  by (auto simp: run_refresh_def blocking_failed_def nonblocking_failed_def blocking_installed_def nonblocking_installed_def
      install_refreshed_token_def recheck_flag_def notify_waiters_def release_task_lock_def split: option.split)

lemma token_kept:
  assumes "step jwt_refresher a E E'" and "has_token E"
  shows "has_token E'"
  using assms
proof (induction rule: step.cases)
qed (auto simp: accept_loaded_def)

lemma vouched_step:
  assumes "step jwt_refresher a E E'" and v: "vouched P E" and ad: "admits P P E E'"
  shows "vouched P E'"
  using assms(1)
proof cases
  case (relock i loaded)
  have "caller_holds P (has_token E) (callers E i)" using vouchedD(2) [OF v] .
  then show ?thesis unfolding relock(2)
    by (intro vouched_proceed [OF v]) (use relock vouchedD(1) [OF v] in \<open>auto simp: accept_loaded_def split: if_splits\<close>)
next
  case (enter i)
  show ?thesis
  proof (cases "s_token (st E) = None")
    case True
    show ?thesis
      by (rule vouched_update [OF v, of "st E'"])
        (use True enter in \<open>auto simp: get_token_enter_def enter_cold_def dest: denial_tokenD split: option.splits prod.splits\<close>)
  next
    case False
    then have "E' = proceed jwt_refresher i (st E) E" using enter(2) by (auto simp: get_token_enter_def)
    then show ?thesis using vouched_proceed [OF v] vouchedD(1) [OF v] False by blast
  qed
next
  case (finish i now)
  obtain r s' where a: "after_wait now (st E) = (r, s')" by (cases "after_wait now (st E)")
  note w = after_wait_says [OF a, of P, OF vouchedD(1) [OF v]]
  show ?thesis
    by (rule vouched_update [OF v, of s']) (use finish vouchedD(1) [OF v] a w in \<open>auto simp: finish_wait_def\<close>)
next
  case (run t c)
  show ?thesis
    by (rule vouched_update [OF v, of "st E'"])
      (use run vouchedD(1) [OF v] in \<open>auto simp: run_refresh_def bearer_of_def split: option.splits if_splits\<close>)
next
  case (joined i t r)
  then show ?thesis using vouchedD(3) [OF v, of t] by (intro vouched_update [OF v, of "st E'"]) (auto simp: vouchedD(1) [OF v])
next
  case (loaded i x)
  have "P tok" if "x = Some tok" for tok using admitsD(1) [OF ad, of i tok] loaded that by simp
  then have "caller_holds P (has_token E) (Relocking x)" by (cases x) auto
  then show ?thesis
    by (intro vouched_update [OF v, of "st E'"]) (use loaded vouchedD(1) [OF v] in auto)
next
  case (exchanged_b t c tok)
  then have "P tok" using admitsD(2) [OF ad, of t tok] by simp
  then show ?thesis using exchanged_b by (intro vouched_update [OF v, of "st E'"]) (auto simp: vouchedD(1) [OF v])
next
  case (exchanged_nb t c b x tok)
  then have "P tok" using admitsD(3) [OF ad, of t tok] by simp
  then show ?thesis using exchanged_nb by (intro vouched_update [OF v, of "st E'"]) (auto simp: vouchedD(1) [OF v])
next
  case (saved_b t tok)
  then show ?thesis using vouchedD(3) [OF v, of t]
    by (intro vouched_update [OF v, of "st E'"]) (auto simp: blocking_installed_def install_refreshed_token_def bearer_of_def)
next
  case (saved_nb t tok)
  then show ?thesis using vouchedD(3) [OF v, of t] by (intro vouched_update [OF v, of "st E'"]) (auto simp: vouchedD(1) [OF v])
next
  case (installed_nb t tok)
  then show ?thesis using vouchedD(3) [OF v, of t]
    by (intro vouched_update [OF v, of "st E'"]) (auto simp: nonblocking_installed_def install_refreshed_token_def bearer_of_def)
next
  case (refused_b t c err)
  then show ?thesis using vouchedD(1) [OF v] by (intro vouched_update [OF v, of "st E'"]) (auto simp: blocking_failed_def)
next
  case (refused_nb t c b x err)
  then show ?thesis using vouchedD(3) [OF v, of t] vouchedD(1) [OF v] by (intro vouched_update [OF v, of "st E'"]) auto
next
  case (failed_nb t err c b x now')
  then show ?thesis using vouchedD(3) [OF v, of t] vouchedD(1) [OF v]
    by (intro vouched_update [OF v, of "st E'"]) (auto simp: nonblocking_failed_def says_failed)
next
  case (notified t r)
  then show ?thesis using vouchedD(3) [OF v, of t] vouchedD(1) [OF v]
    by (intro vouched_update [OF v, of "st E'"]) (auto simp: notify_waiters_def)
qed (use vouchedD(1) [OF v] in \<open>auto intro!: vouched_update [OF v, of "st E'"] simp: notify_waiters_def release_task_lock_def recheck_flag_def\<close>)


section \<open>The strategy\<close>

text \<open>What is outside: the hash, the endpoint and what its server may answer, and the claims of a token.\<close>

record oidc_world =
  w_sha256 :: "bytes \<Rightarrow> bytes"
  w_federation :: oidc_federation
  w_answers :: "oidc_authorise_request \<Rightarrow> http_response option \<Rightarrow> bool"
  w_claim :: "rstr \<Rightarrow> (rstr, rstr) result"
  w_expected_workspace :: rstr

abbreviation digest_of :: "oidc_world \<Rightarrow> rstr \<Rightarrow> jwt_digest" where
  "digest_of W \<equiv> jwt_digest_of (w_sha256 W)"

text \<open>A call: in flight with an engine as one of its callers, answered, or cancelled.\<close>

datatype call_pc = Flying nat nat | Answered "(auth_error, rstr) result" | Abandoned

record strategy =
  o_cache :: "nat jwt_cache"
  o_pending :: "jwt_digest \<rightharpoonup> nat"
  o_denial :: "sticky_denial option"
  o_clock :: u64
  o_n :: nat
  o_jwt :: "nat \<Rightarrow> rstr"
  o_engine :: "nat \<Rightarrow> unit engine"
  o_calls :: "(rstr \<times> call_pc) list"

definition DEFAULT_CACHE_CAPACITY :: nat where
  "DEFAULT_CACHE_CAPACITY = 1024"

definition strategy_new :: "nat \<Rightarrow> u64 \<Rightarrow> strategy" where
  "strategy_new capacity now =
     \<lparr>o_cache = jwt_cache_new capacity, o_pending = Map.empty, o_denial = None, o_clock = now, o_n = 0,
      o_jwt = (\<lambda>_. []), o_engine = (\<lambda>_. engine_new None 0), o_calls = []\<rparr>"

definition strategy_denial :: "strategy \<Rightarrow> auth_error option \<times> strategy" where
  "strategy_denial S =
     (case o_denial S of
        Some recorded \<Rightarrow>
          if \<not> is_stale recorded (o_clock S) then (Some (to_error recorded), S)
          else (None, S\<lparr>o_denial := None\<rparr>)
      | None \<Rightarrow> (None, S))"

definition new_engine :: "oidc_world \<Rightarrow> rstr \<Rightarrow> strategy \<Rightarrow> nat \<times> strategy" where
  "new_engine W jwt S =
     (o_n S, S\<lparr>o_n := Suc (o_n S), o_jwt := (o_jwt S)(o_n S := jwt),
                o_engine := (o_engine S)(o_n S := engine_new None (o_clock S)),
                o_pending := (o_pending S)(digest_of W jwt \<mapsto> o_n S)\<rparr>)"

definition engine_for :: "oidc_world \<Rightarrow> rstr \<Rightarrow> strategy \<Rightarrow> (auth_error, nat) result \<times> strategy" where
  "engine_for W jwt S =
     (let digest = digest_of W jwt;
          (hit, cache) = jc_get digest (o_cache S);
          S = S\<lparr>o_cache := cache\<rparr>
      in case hit of
           Some e \<Rightarrow> (Inr e, S)
         | None \<Rightarrow>
             (case o_pending S digest of
                Some e \<Rightarrow> (Inr e, S)
              | None \<Rightarrow>
                  (case strategy_denial S of
                     (Some err, S) \<Rightarrow> (Inl err, S)
                   | (None, S) \<Rightarrow> map_prod Inr id (new_engine W jwt S))))"

text \<open>What \<open>settle\<close> and the drop of an unsettled call do to the pending entry.\<close>

definition unpend :: "oidc_world \<Rightarrow> nat \<Rightarrow> strategy \<Rightarrow> strategy" where
  "unpend W e S =
     (let digest = digest_of W (o_jwt S e)
      in if o_pending S digest = Some e then S\<lparr>o_pending := (o_pending S)(digest := None)\<rparr> else S)"

definition strategy_settle :: "oidc_world \<Rightarrow> nat \<Rightarrow> (auth_error, unit) result \<Rightarrow> strategy \<Rightarrow> strategy" where
  "strategy_settle W e result S =
     (let digest = digest_of W (o_jwt S e);
          S = unpend W e S
      in case result of
           Inr _ \<Rightarrow> S\<lparr>o_cache := jc_insert digest e (o_cache S)\<rparr>
         | Inl err \<Rightarrow>
             (let S = S\<lparr>o_cache := jc_remove_if digest (\<lambda>cached. cached = e) (o_cache S)\<rparr>
              in if is_account_refusal err then S\<lparr>o_denial := Some (sticky_new err (o_clock S))\<rparr> else S))"

text \<open>\<open>get_token_for_jwt\<close> up to its await, and from the engine's answer on.\<close>

definition begin_call :: "oidc_world \<Rightarrow> rstr \<Rightarrow> strategy \<Rightarrow> strategy" where
  "begin_call W jwt S =
     (case engine_for W jwt S of
        (Inl err, S) \<Rightarrow> S\<lparr>o_calls := o_calls S @ [(jwt, Answered (Inl err))]\<rparr>
      | (Inr e, S) \<Rightarrow>
          (let E = o_engine S e
           in S\<lparr>o_calls := o_calls S @ [(jwt, Flying e (n_callers E))],
                o_engine := (o_engine S)(e := (at_caller (n_callers E) Entering E)\<lparr>n_callers := Suc (n_callers E)\<rparr>)\<rparr>))"

definition end_call :: "oidc_world \<Rightarrow> nat \<Rightarrow> nat \<Rightarrow> outcome \<Rightarrow> strategy \<Rightarrow> strategy" where
  "end_call W i e r S =
     (let answer = (case r of
                      Inr bearer \<Rightarrow> verify_workspace (w_claim W) (w_expected_workspace W) bearer
                    | Inl err \<Rightarrow> Inl (into_auth_error err));
          S = strategy_settle W e (map_sum into_auth_error (\<lambda>_. ()) r) S
      in S\<lparr>o_calls := (o_calls S)[i := (fst (o_calls S ! i), Answered answer)]\<rparr>)"

definition drop_call :: "oidc_world \<Rightarrow> nat \<Rightarrow> nat \<Rightarrow> nat \<Rightarrow> strategy \<Rightarrow> strategy" where
  "drop_call W i e c S =
     (let E = o_engine S e;
          S = unpend W e (S\<lparr>o_engine := (o_engine S)(e := (at_caller c Cancelled E)\<lparr>listed := listed E - {c}\<rparr>)\<rparr>)
      in S\<lparr>o_calls := (o_calls S)[i := (fst (o_calls S ! i), Abandoned)]\<rparr>)"

text \<open>The tokens an engine of a JWT may come by.\<close>

definition exchanged :: "oidc_world \<Rightarrow> rstr \<Rightarrow> token \<Rightarrow> bool" where
  "exchanged W jwt tok \<longleftrightarrow>
     (\<exists>post_json. (\<forall>rq. w_answers W rq (post_json rq)) \<and> jwt_refresh (w_sha256 W) (w_federation W) post_json jwt = Inr tok)"

definition served :: "oidc_world \<Rightarrow> rstr \<Rightarrow> token \<Rightarrow> bool" where
  "served W jwt tok \<longleftrightarrow> (\<exists>inner. bound_load (digest_of W jwt) inner = Some tok)"

inductive ostep :: "oidc_world \<Rightarrow> strategy \<Rightarrow> strategy \<Rightarrow> bool" for W where
  call: "ostep W S (begin_call W jwt S)"
| engine_runs: "ostep W S (S\<lparr>o_engine := (o_engine S)(e := E')\<rparr>)"
    if "e < o_n S" "step jwt_refresher a (o_engine S e) E'" "a \<in> {Tick, Run, Die, Abort}"
      "admits (served W (o_jwt S e)) (exchanged W (o_jwt S e)) (o_engine S e) E'"
| settles: "ostep W S (end_call W i e r S)"
    if "i < length (o_calls S)" "snd (o_calls S ! i) = Flying e c" "callers (o_engine S e) c = Done r"
| drops: "ostep W S (drop_call W i e c S)"
    if "i < length (o_calls S)" "snd (o_calls S ! i) = Flying e c" "suspended (callers (o_engine S e) c)"
| time: "ostep W S (S\<lparr>o_clock := now\<rparr>)"

inductive oreach :: "oidc_world \<Rightarrow> nat \<Rightarrow> strategy \<Rightarrow> bool" for W capacity where
  oinit: "oreach W capacity (strategy_new capacity now)"
| onext: "oreach W capacity S \<Longrightarrow> ostep W S S' \<Longrightarrow> oreach W capacity S'"

section \<open>The invariant\<close>

definition genuine :: "oidc_world \<Rightarrow> jwt_digest \<Rightarrow> token \<Rightarrow> bool" where
  "genuine W d tok \<longleftrightarrow> (\<exists>jwt. digest_of W jwt = d \<and> (exchanged W jwt tok \<or> served W jwt tok))"

definition engines_ok :: "oidc_world \<Rightarrow> strategy \<Rightarrow> bool" where
  "engines_ok W S \<longleftrightarrow> (\<forall>e < o_n S. vouched (genuine W (digest_of W (o_jwt S e))) (o_engine S e))"

definition cache_keyed :: "oidc_world \<Rightarrow> strategy \<Rightarrow> bool" where
  "cache_keyed W S \<longleftrightarrow> (\<forall>d e. jc_handles (o_cache S) d = Some e \<longrightarrow>
     e < o_n S \<and> digest_of W (o_jwt S e) = d \<and> has_token (o_engine S e))"

definition pending_flies :: "oidc_world \<Rightarrow> strategy \<Rightarrow> bool" where
  "pending_flies W S \<longleftrightarrow> (\<forall>d e. o_pending S d = Some e \<longrightarrow>
     e < o_n S \<and> digest_of W (o_jwt S e) = d \<and> (\<exists>jwt c. (jwt, Flying e c) \<in> set (o_calls S)))"

fun call_ok :: "oidc_world \<Rightarrow> strategy \<Rightarrow> rstr \<times> call_pc \<Rightarrow> bool" where
  "call_ok W S (jwt, Flying e c) \<longleftrightarrow> e < o_n S \<and> digest_of W (o_jwt S e) = digest_of W jwt"
| "call_ok W S (jwt, Answered (Inr b)) \<longleftrightarrow> bearer_of (genuine W (digest_of W jwt)) b \<and> w_claim W b = Inr (w_expected_workspace W)"
| "call_ok W S _ \<longleftrightarrow> True"

definition oidc_inv :: "oidc_world \<Rightarrow> nat \<Rightarrow> strategy \<Rightarrow> bool" where
  "oidc_inv W capacity S \<longleftrightarrow> jc_ok (o_cache S) \<and> jc_capacity (o_cache S) = capacity
     \<and> engines_ok W S \<and> cache_keyed W S \<and> pending_flies W S \<and> list_all (call_ok W S) (o_calls S)"


lemma oidc_invD:
  assumes "oidc_inv W n S"
  shows "jc_ok (o_cache S)" "jc_capacity (o_cache S) = n" "engines_ok W S" "cache_keyed W S" "pending_flies W S"
    "list_all (call_ok W S) (o_calls S)"
  using assms by (simp_all add: oidc_inv_def)

text \<open>The parts of the strategy the invariant does not read, and its reading of the others.\<close>

lemma call_ok_mono:
  assumes "call_ok W S x" and "o_n S \<le> o_n S'" and "\<And>e. e < o_n S \<Longrightarrow> o_jwt S' e = o_jwt S e"
  shows "call_ok W S' x"
  using assms by (induction W S x rule: call_ok.induct) auto

lemma calls_ok_mono:
  assumes "list_all (call_ok W S) xs" and "o_n S \<le> o_n S'" and "\<And>e. e < o_n S \<Longrightarrow> o_jwt S' e = o_jwt S e"
  shows "list_all (call_ok W S') xs"
  using assms(1) call_ok_mono [OF _ assms(2,3)] by (simp add: list_all_iff)

lemma inv_frame:
  "oidc_inv W n S \<Longrightarrow> oidc_inv W n (S\<lparr>o_clock := now\<rparr>)"
  "oidc_inv W n S \<Longrightarrow> oidc_inv W n (S\<lparr>o_denial := d\<rparr>)"
  using calls_ok_mono [of W S "o_calls S" "S\<lparr>o_clock := now\<rparr>"] calls_ok_mono [of W S "o_calls S" "S\<lparr>o_denial := d\<rparr>"]
  by (simp_all add: oidc_inv_def engines_ok_def cache_keyed_def pending_flies_def)

lemma inv_cache:
  assumes "oidc_inv W n S" and "jc_ok c" and "jc_capacity c = n" and "cache_keyed W (S\<lparr>o_cache := c\<rparr>)"
  shows "oidc_inv W n (S\<lparr>o_cache := c\<rparr>)"
  using assms calls_ok_mono [of W S "o_calls S" "S\<lparr>o_cache := c\<rparr>"]
  by (simp add: oidc_inv_def engines_ok_def pending_flies_def)

text \<open>An engine that moved, by steps that keep its tokens vouched for and keep a token it has.\<close>

lemma inv_engine:
  assumes "oidc_inv W n S" and "vouched (genuine W (digest_of W (o_jwt S e))) E" and "has_token (o_engine S e) \<Longrightarrow> has_token E"
  shows "oidc_inv W n (S\<lparr>o_engine := (o_engine S)(e := E)\<rparr>)"
  using assms calls_ok_mono [of W S "o_calls S" "S\<lparr>o_engine := (o_engine S)(e := E)\<rparr>"]
  by (auto simp: oidc_inv_def engines_ok_def pending_flies_def cache_keyed_def)

lemma new_engine_vouched: "vouched P (engine_new None now)"
  by (simp add: vouched_def engine_new_def state_new_def)


lemma inv_new_engine:
  assumes "oidc_inv W n S" and "new_engine W jwt S = (e, S')"
  shows "e < o_n S'" and "digest_of W (o_jwt S' e) = digest_of W jwt"
    and "oidc_inv W n (S'\<lparr>o_calls := o_calls S' @ [(jwt, Flying e c)]\<rparr>)"
proof -
  let ?S = "S'\<lparr>o_calls := o_calls S' @ [(jwt, Flying e c)]\<rparr>"
  have S': "S' = S\<lparr>o_n := Suc (o_n S), o_jwt := (o_jwt S)(o_n S := jwt), o_engine := (o_engine S)(o_n S := engine_new None (o_clock S)),
      o_pending := (o_pending S)(digest_of W jwt \<mapsto> o_n S)\<rparr>" and e: "e = o_n S"
    using assms(2) by (auto simp: new_engine_def)
  then show "e < o_n S'" "digest_of W (o_jwt S' e) = digest_of W jwt" by simp_all
  have "list_all (call_ok W ?S) (o_calls S)"
    by (rule calls_ok_mono [OF oidc_invD(6) [OF assms(1)]]) (simp_all add: S')
  moreover have "pending_flies W ?S" using oidc_invD(5) [OF assms(1)] by (force simp: pending_flies_def S' e)
  moreover have "engines_ok W ?S" using oidc_invD(3) [OF assms(1)]
    by (auto simp: engines_ok_def S' less_Suc_eq new_engine_vouched)
  moreover have "cache_keyed W ?S" using oidc_invD(4) [OF assms(1)] by (fastforce simp: cache_keyed_def S')
  ultimately show "oidc_inv W n ?S" using assms(1) by (simp add: oidc_inv_def S' e)
qed

lemma inv_fly:
  assumes "oidc_inv W n S" and "e < o_n S" and "digest_of W (o_jwt S e) = digest_of W jwt"
  shows "oidc_inv W n (S\<lparr>o_calls := o_calls S @ [(jwt, Flying e c)]\<rparr>)"
proof -
  let ?S = "S\<lparr>o_calls := o_calls S @ [(jwt, Flying e c)]\<rparr>"
  have "list_all (call_ok W ?S) (o_calls S)" by (rule calls_ok_mono [OF oidc_invD(6) [OF assms(1)]]) simp_all
  moreover have "pending_flies W ?S" using oidc_invD(5) [OF assms(1)] by (fastforce simp: pending_flies_def)
  ultimately show ?thesis using assms by (simp add: oidc_inv_def engines_ok_def cache_keyed_def)
qed

lemma unpend_gone:
  assumes "pending_flies W S"
  shows "o_pending (unpend W e S) d \<noteq> Some e"
proof
  assume a: "o_pending (unpend W e S) d = Some e"
  then have o: "o_pending S d = Some e" by (auto simp: unpend_def Let_def split: if_splits)
  then have "digest_of W (o_jwt S e) = d" using assms unfolding pending_flies_def by blast
  then show False using a o by (simp add: unpend_def Let_def)
qed

lemma inv_unpend_set:
  assumes "oidc_inv W n S" and "i < length (o_calls S)" and "snd (o_calls S ! i) = Flying e c"
    and "call_ok W S (fst (o_calls S ! i), pc)"
  shows "oidc_inv W n ((unpend W e S)\<lparr>o_calls := (o_calls S)[i := (fst (o_calls S ! i), pc)]\<rparr>)"
proof -
  let ?S = "(unpend W e S)\<lparr>o_calls := (o_calls S)[i := (fst (o_calls S ! i), pc)]\<rparr>"
  have f: "o_cache ?S = o_cache S" "o_n ?S = o_n S" "o_jwt ?S = o_jwt S" "o_engine ?S = o_engine S"
    by (simp_all add: unpend_def Let_def)
  have gone: "o_pending ?S d \<noteq> Some e" for d using unpend_gone [OF oidc_invD(5) [OF assms(1)]] by simp
  have "o_pending S d = Some e'" if "o_pending ?S d = Some e'" for d e'
    using that by (auto simp: unpend_def Let_def split: if_splits)
  with gone have p: "o_pending S d = Some e' \<and> e' \<noteq> e" if "o_pending ?S d = Some e'" for d e'
    using that by blast
  have "pending_flies W ?S" unfolding pending_flies_def
  proof (intro allI impI)
    fix d e' assume "o_pending ?S d = Some e'"
    from p [OF this] have e': "o_pending S d = Some e'" "e' \<noteq> e" by simp_all
    then obtain jwt c' where q: "e' < o_n S" "digest_of W (o_jwt S e') = d" "(jwt, Flying e' c') \<in> set (o_calls S)"
      using oidc_invD(5) [OF assms(1)] unfolding pending_flies_def by blast
    then obtain j where "j < length (o_calls S)" "o_calls S ! j = (jwt, Flying e' c')" by (auto simp: in_set_conv_nth)
    then have "(jwt, Flying e' c') \<in> set ((o_calls S)[i := (fst (o_calls S ! i), pc)])"
      using assms(3) e'(2) by (metis call_pc.inject(1) length_list_update nth_list_update_neq nth_mem snd_conv)
    then show "e' < o_n ?S \<and> digest_of W (o_jwt ?S e') = d \<and> (\<exists>jwt c. (jwt, Flying e' c) \<in> set (o_calls ?S))"
      using q f by auto
  qed
  moreover have "list_all (call_ok W ?S) (o_calls ?S)"
  proof -
    have "list_all (call_ok W S) ((o_calls S)[i := (fst (o_calls S ! i), pc)])"
      using oidc_invD(6) [OF assms(1)] assms(4) by (auto simp: list_all_iff dest!: set_update_subset_insert [THEN subsetD])
    then show ?thesis using calls_ok_mono [of W S _ ?S] f by simp
  qed
  ultimately show ?thesis using assms(1) f by (simp add: oidc_inv_def engines_ok_def cache_keyed_def)
qed


lemma inv_touch:
  assumes "oidc_inv W n S"
  shows "oidc_inv W n (S\<lparr>o_cache := snd (jc_get d (o_cache S))\<rparr>)"
  by (rule inv_cache [OF assms]) (use oidc_invD [OF assms] in \<open>simp_all add: cache_keyed_def\<close>)

lemma inv_denial: "oidc_inv W n S \<Longrightarrow> strategy_denial S = (r, S') \<Longrightarrow> oidc_inv W n S'"
  by (auto simp: strategy_denial_def inv_frame split: option.splits if_splits)

lemma denial_calls: "strategy_denial S = (r, S') \<Longrightarrow> o_calls S' = o_calls S"
  by (auto simp: strategy_denial_def split: option.splits if_splits)

lemma map_prod_Inr: "map_prod Inr id p = (Inr e, s) \<longleftrightarrow> p = (e, s)"
  by (cases p) auto

text \<open>Looking for an engine: none, one that is known under the digest, or a new one.\<close>

lemma engine_for_inv:
  assumes inv: "oidc_inv W n S" and e: "engine_for W jwt S = (r, S')"
  shows "r = Inl err \<Longrightarrow> oidc_inv W n S'"
    and "r = Inr e \<Longrightarrow> e < o_n S' \<and> digest_of W (o_jwt S' e) = digest_of W jwt
      \<and> oidc_inv W n (S'\<lparr>o_calls := o_calls S' @ [(jwt, Flying e c)]\<rparr>)"
proof -
  let ?d = "digest_of W jwt" and ?T = "S\<lparr>o_cache := snd (jc_get (digest_of W jwt) (o_cache S))\<rparr>"
  note T = inv_touch [OF inv, of ?d]
  have get: "jc_get ?d (o_cache S) = (jc_handles (o_cache S) ?d, snd (jc_get ?d (o_cache S)))" by (simp add: prod_eq_iff)
  have known: "e < o_n ?T \<and> digest_of W (o_jwt ?T e) = ?d \<and> oidc_inv W n (?T\<lparr>o_calls := o_calls ?T @ [(jwt, Flying e c)]\<rparr>)"
    if "jc_handles (o_cache S) ?d = Some e \<or> o_pending S ?d = Some e" for e
  proof -
    have "e < o_n S \<and> digest_of W (o_jwt S e) = ?d"
      using oidc_invD(4,5) [OF inv] that unfolding cache_keyed_def pending_flies_def by blast
    then show ?thesis using inv_fly [OF T, of e jwt c] by simp
  qed
  show "oidc_inv W n S'" if "r = Inl err"
    using e that T get by (auto simp: engine_for_def Let_def new_engine_def dest: inv_denial split: option.splits prod.splits)
  show "e < o_n S' \<and> digest_of W (o_jwt S' e) = ?d \<and> oidc_inv W n (S'\<lparr>o_calls := o_calls S' @ [(jwt, Flying e c)]\<rparr>)" if r: "r = Inr e"
  proof (cases "jc_handles (o_cache S) ?d = Some e \<and> S' = ?T \<or> o_pending S ?d = Some e \<and> S' = ?T")
    case True
    then show ?thesis using known [of e] by blast
  next
    case False
    then obtain U where "strategy_denial ?T = (None, U)" "new_engine W jwt U = (e, S')"
      using e r get by (auto simp: engine_for_def Let_def map_prod_Inr split: option.splits prod.splits)
    then show ?thesis using inv_new_engine [OF inv_denial [OF T]] by blast
  qed
qed

lemma arrive_cancel_vouched:
  assumes "vouched P E"
  shows "vouched P ((at_caller i Entering E)\<lparr>n_callers := k\<rparr>)" and "vouched P ((at_caller c Cancelled E)\<lparr>listed := l\<rparr>)"
  by (rule vouched_update [OF assms, of "st E"]; use vouchedD(1) [OF assms] in auto)+

lemma begin_call_inv:
  assumes "oidc_inv W n S"
  shows "oidc_inv W n (begin_call W jwt S)"
proof -
  obtain r S' where e: "engine_for W jwt S = (r, S')" by (cases "engine_for W jwt S")
  show ?thesis
  proof (cases r)
    case (Inl err)
    let ?S = "S'\<lparr>o_calls := o_calls S' @ [(jwt, Answered (Inl err))]\<rparr>"
    have inv: "oidc_inv W n S'" using engine_for_inv(1) [OF assms e Inl] .
    have "list_all (call_ok W ?S) (o_calls S')" by (rule calls_ok_mono [OF oidc_invD(6) [OF inv]]) simp_all
    moreover have "pending_flies W ?S" using oidc_invD(5) [OF inv] by (fastforce simp: pending_flies_def)
    ultimately show ?thesis using inv e Inl by (simp add: begin_call_def oidc_inv_def engines_ok_def cache_keyed_def)
  next
    case (Inr x)
    let ?E = "o_engine S' x" let ?S = "S'\<lparr>o_calls := o_calls S' @ [(jwt, Flying x (n_callers ?E))]\<rparr>"
    have x: "x < o_n S'" "oidc_inv W n ?S" using engine_for_inv(2) [OF assms e Inr, of "n_callers ?E"] by simp_all
    have "vouched (genuine W (digest_of W (o_jwt ?S x))) ?E" using oidc_invD(3) [OF x(2)] x(1) by (simp add: engines_ok_def)
    from inv_engine [OF x(2) arrive_cancel_vouched(1) [OF this]] show ?thesis
      using e Inr by (simp add: begin_call_def Let_def)
  qed
qed


lemma flying_ok:
  assumes "oidc_inv W n S" and "i < length (o_calls S)" and "snd (o_calls S ! i) = Flying e c"
  shows "e < o_n S" and "digest_of W (o_jwt S e) = digest_of W (fst (o_calls S ! i))"
    and "vouched (genuine W (digest_of W (fst (o_calls S ! i)))) (o_engine S e)"
proof -
  have "o_calls S ! i = (fst (o_calls S ! i), Flying e c)" using assms(3) by (simp add: prod_eq_iff)
  then have "call_ok W S (fst (o_calls S ! i), Flying e c)" using oidc_invD(6) [OF assms(1)] assms(2) by (metis list_all_length)
  then show "e < o_n S" "digest_of W (o_jwt S e) = digest_of W (fst (o_calls S ! i))" by simp_all
  then show "vouched (genuine W (digest_of W (fst (o_calls S ! i)))) (o_engine S e)"
    using oidc_invD(3) [OF assms(1)] by (metis engines_ok_def)
qed

lemma inv_keep:
  assumes "oidc_inv W n S" and "e < o_n S" and "has_token (o_engine S e)"
  shows "oidc_inv W n (S\<lparr>o_cache := jc_insert (digest_of W (o_jwt S e)) e (o_cache S)\<rparr>)"
proof (rule inv_cache [OF assms(1)])
  note ok = jc_insert_ok [OF oidc_invD(1) [OF assms(1)]]
  show "jc_ok (jc_insert (digest_of W (o_jwt S e)) e (o_cache S))" using ok(1) .
  show "jc_capacity (jc_insert (digest_of W (o_jwt S e)) e (o_cache S)) = n" using ok(2) oidc_invD(2) [OF assms(1)] by simp
  show "cache_keyed W (S\<lparr>o_cache := jc_insert (digest_of W (o_jwt S e)) e (o_cache S)\<rparr>)"
    unfolding cache_keyed_def
  proof (intro allI impI)
    fix d x assume "jc_handles (o_cache (S\<lparr>o_cache := jc_insert (digest_of W (o_jwt S e)) e (o_cache S)\<rparr>)) d = Some x"
    then have "((jc_handles (o_cache S))(digest_of W (o_jwt S e) \<mapsto> e)) d = Some x"
      using ok(3) [of "digest_of W (o_jwt S e)" e] by (auto simp: map_le_def dom_def)
    then have "x = e \<and> d = digest_of W (o_jwt S e) \<or> jc_handles (o_cache S) d = Some x" by (auto split: if_splits)
    then show "x < o_n (S\<lparr>o_cache := jc_insert (digest_of W (o_jwt S e)) e (o_cache S)\<rparr>)
        \<and> digest_of W (o_jwt (S\<lparr>o_cache := jc_insert (digest_of W (o_jwt S e)) e (o_cache S)\<rparr>) x) = d
        \<and> has_token (o_engine (S\<lparr>o_cache := jc_insert (digest_of W (o_jwt S e)) e (o_cache S)\<rparr>) x)"
      using assms(2,3) oidc_invD(4) [OF assms(1)] unfolding cache_keyed_def by auto
  qed
qed

lemma inv_forget:
  assumes "oidc_inv W n S"
  shows "oidc_inv W n (S\<lparr>o_cache := jc_remove_if d f (o_cache S)\<rparr>)"
proof (rule inv_cache [OF assms])
  show "jc_ok (jc_remove_if d f (o_cache S))"
    using oidc_invD(1) [OF assms] length_al_remove [of "jc_entries (o_cache S)" d] by (auto simp: jc_remove_if_def jc_ok_def split: option.split)
  show "jc_capacity (jc_remove_if d f (o_cache S)) = n" using oidc_invD(2) [OF assms] by (simp add: jc_remove_if_def split: option.split)
  have "jc_handles (jc_remove_if d f (o_cache S)) x = Some e \<Longrightarrow> jc_handles (o_cache S) x = Some e" for x e
    by (auto simp: jc_remove_if_def jc_handles_def split: option.splits if_splits)
  then show "cache_keyed W (S\<lparr>o_cache := jc_remove_if d f (o_cache S)\<rparr>)"
    using oidc_invD(4) [OF assms] by (fastforce simp: cache_keyed_def)
qed

lemma end_call_inv:
  assumes inv: "oidc_inv W n S" and i: "i < length (o_calls S)" "snd (o_calls S ! i) = Flying e c"
    and r: "callers (o_engine S e) c = Done r"
  shows "oidc_inv W n (end_call W i e r S)"
proof -
  note fl = flying_ok [OF inv i]
  let ?jwt = "fst (o_calls S ! i)"
  define answer where "answer = (case r of Inr bearer \<Rightarrow> verify_workspace (w_claim W) (w_expected_workspace W) bearer
    | Inl err \<Rightarrow> Inl (into_auth_error err))"
  have says: "says (genuine W (digest_of W ?jwt)) (has_token (o_engine S e)) r" using vouchedD(2) [OF fl(3), of c] r by simp
  have "call_ok W S (?jwt, Answered answer)"
  proof (cases answer)
    case (Inr b)
    then have "r = Inr b" "w_claim W b = Inr (w_expected_workspace W)"
      by (auto simp: answer_def verify_workspace_Inr split: sum.splits)
    then show ?thesis using says Inr by simp
  qed simp
  note U = inv_unpend_set [OF inv i this]
  let ?U = "(unpend W e S)\<lparr>o_calls := (o_calls S)[i := (?jwt, Answered answer)]\<rparr>"
  have f: "o_n ?U = o_n S" "o_jwt ?U = o_jwt S" "o_engine ?U = o_engine S" by (simp_all add: unpend_def Let_def)
  have calls: "o_calls (unpend W e S) = o_calls S" by (simp add: unpend_def Let_def)
  show ?thesis
  proof (cases r)
    case (Inr b)
    have "oidc_inv W n (?U\<lparr>o_cache := jc_insert (digest_of W (o_jwt ?U e)) e (o_cache ?U)\<rparr>)"
      by (rule inv_keep [OF U]) (use f fl(1) says Inr in auto)
    moreover have "end_call W i e r S = ?U\<lparr>o_cache := jc_insert (digest_of W (o_jwt ?U e)) e (o_cache ?U)\<rparr>"
      using Inr f calls by (intro strategy.equality) (simp_all add: end_call_def strategy_settle_def answer_def Let_def)
    ultimately show ?thesis by simp
  next
    case (Inl err)
    let ?C = "jc_remove_if (digest_of W (o_jwt S e)) (\<lambda>cached. cached = e) (o_cache ?U)"
    let ?d = "if is_account_refusal (into_auth_error err) then Some (sticky_new (into_auth_error err) (o_clock ?U)) else o_denial ?U"
    have "oidc_inv W n (?U\<lparr>o_cache := ?C, o_denial := ?d\<rparr>)" using inv_frame(2) [OF inv_forget [OF U]] .
    moreover have "end_call W i e r S = ?U\<lparr>o_cache := ?C, o_denial := ?d\<rparr>"
      using Inl f calls by (intro strategy.equality) (simp_all add: end_call_def strategy_settle_def answer_def Let_def)
    ultimately show ?thesis by simp
  qed
qed


lemma drop_call_inv:
  assumes inv: "oidc_inv W n S" and i: "i < length (o_calls S)" "snd (o_calls S ! i) = Flying e c"
  shows "oidc_inv W n (drop_call W i e c S)"
proof -
  let ?E = "(at_caller c Cancelled (o_engine S e))\<lparr>listed := listed (o_engine S e) - {c}\<rparr>"
  let ?S = "S\<lparr>o_engine := (o_engine S)(e := ?E)\<rparr>"
  note fl = flying_ok [OF inv i]
  have "oidc_inv W n ?S"
    by (rule inv_engine [OF inv]) (use fl arrive_cancel_vouched(2) [OF fl(3)] in simp_all)
  then have "oidc_inv W n ((unpend W e ?S)\<lparr>o_calls := (o_calls ?S)[i := (fst (o_calls ?S ! i), Abandoned)]\<rparr>)"
    by (rule inv_unpend_set [where c = c]) (use i in simp_all)
  moreover have "o_calls (unpend W e ?S) = o_calls S" by (simp add: unpend_def Let_def)
  ultimately show ?thesis by (simp add: drop_call_def Let_def)
qed

lemma engine_runs_inv:
  assumes inv: "oidc_inv W n S" and "e < o_n S" and st: "step jwt_refresher a (o_engine S e) E'"
    and ad: "admits (served W (o_jwt S e)) (exchanged W (o_jwt S e)) (o_engine S e) E'"
  shows "oidc_inv W n (S\<lparr>o_engine := (o_engine S)(e := E')\<rparr>)"
proof (rule inv_engine [OF inv])
  let ?P = "genuine W (digest_of W (o_jwt S e))"
  have "admits ?P ?P (o_engine S e) E'" using ad unfolding admits_def genuine_def by blast
  moreover have "vouched ?P (o_engine S e)" using oidc_invD(3) [OF inv] assms(2) by (simp add: engines_ok_def)
  ultimately show "vouched ?P E'" using vouched_step [OF st] by blast
qed (rule token_kept [OF st])

lemma oreach_inv: "oreach W n S \<Longrightarrow> oidc_inv W n S"
proof (induction rule: oreach.induct)
  case (oinit now)
  then show ?case
    by (simp add: oidc_inv_def strategy_new_def engines_ok_def cache_keyed_def pending_flies_def) (simp add: jwt_cache_new_def)
next
  case (onext S S')
  from onext.hyps(2) show ?case
    by cases (use onext.IH begin_call_inv engine_runs_inv end_call_inv drop_call_inv inv_frame in \<open>auto\<close>)
qed

section \<open>A run with two users\<close>

definition demo_world :: oidc_world where
  "demo_world = \<lparr>w_sha256 = (\<lambda>b. b),
     w_federation = \<lparr>fd_workspace_id = lit ''ws'', fd_url_error = None, fd_parse = (\<lambda>_. None), fd_decode = (\<lambda>_. None)\<rparr>,
     w_answers = (\<lambda>_ _. True), w_claim = (\<lambda>_. Inr (lit ''ws'')), w_expected_workspace = lit ''ws''\<rparr>"

definition ana_token :: token where
  "ana_token = \<lparr>access_token = lit ''t'', refresh_token = None, token_type = lit ''Bearer'', expires_at = 1000, t_region = None,
     t_client_id = None, t_device_instance_id = None, t_federated_from = Some (to_hex (as_bytes (lit ''ana'')))\<rparr>"

text \<open>An engine that was called once, by what it has done since.\<close>

definition called :: "state \<Rightarrow> caller_pc \<Rightarrow> unit engine" where
  "called s pc = \<lparr>st = s, lock = None, in_progress = False, listed = {}, n_callers = 1, callers = (\<lambda>_. NoCall)(0 := pc), n_tasks = 0,
     tasks = (\<lambda>_. NoTask), clock = 0, saved = []\<rparr>"

definition refreshing :: "bool \<Rightarrow> owner option \<Rightarrow> state \<Rightarrow> caller_pc \<Rightarrow> unit task_pc \<Rightarrow> unit engine" where
  "refreshing f l s pc t = \<lparr>st = s, lock = l, in_progress = f, listed = {}, n_callers = 1, callers = (\<lambda>_. NoCall)(0 := pc), n_tasks = 1,
     tasks = (\<lambda>_. NoTask)(0 := t), clock = 0, saved = []\<rparr>"

text \<open>The strategy after one call for a JWT, with its engine.\<close>

definition one_call :: "rstr \<Rightarrow> unit engine \<Rightarrow> strategy" where
  "one_call jwt E = \<lparr>o_cache = (jwt_cache_new 2)\<lparr>jc_tick := 1\<rparr>, o_pending = [digest_of demo_world jwt \<mapsto> 0], o_denial = None, o_clock = 0, o_n = 1,
     o_jwt = (\<lambda>_. [])(0 := jwt), o_engine = (\<lambda>_. engine_new None 0)(0 := E), o_calls = [(jwt, Flying 0 0)]\<rparr>"

lemma one_call_reached: "oreach demo_world 2 (one_call jwt (called (state_new None) Entering))"
proof -
  have "begin_call demo_world jwt (strategy_new 2 0) = one_call jwt (called (state_new None) Entering)"
    by (simp add: begin_call_def engine_for_def strategy_new_def jc_get_def jwt_cache_new_def strategy_denial_def new_engine_def Let_def
        one_call_def called_def engine_new_def fun_eq_iff)
  then show ?thesis using oreach.onext [OF oreach.oinit [where W = demo_world and capacity = 2 and now = 0] ostep.call [where jwt = jwt]] by simp
qed

lemma one_call_runs:
  assumes "oreach demo_world 2 (one_call jwt E)" and "step jwt_refresher Run E E'"
    and "admits (served demo_world jwt) (exchanged demo_world jwt) E E'"
  shows "oreach demo_world 2 (one_call jwt E')"
proof -
  have "ostep demo_world (one_call jwt E) ((one_call jwt E)\<lparr>o_engine := (o_engine (one_call jwt E))(0 := E')\<rparr>)"
    by (rule ostep.engine_runs [where a = Run]) (use assms(2,3) in \<open>simp_all add: one_call_def\<close>)
  moreover have "(one_call jwt E)\<lparr>o_engine := (o_engine (one_call jwt E))(0 := E')\<rparr> = one_call jwt E'" by (simp add: one_call_def)
  ultimately show ?thesis using oreach.onext [OF assms(1)] by simp
qed

lemma one_call_loads:
  assumes "case inner of None \<Rightarrow> True | Some tok \<Rightarrow> served demo_world jwt tok"
  shows "oreach demo_world 2 (one_call jwt (called (state_new None) (Relocking inner)))"
proof -
  have "step jwt_refresher Run (called (state_new None) Entering) (called (state_new None) Loading)"
    using step.enter [of "called (state_new None) Entering" 0 jwt_refresher]
    by (simp add: called_def get_token_enter_def enter_cold_def fresh_denial_def state_new_def)
  then have l: "oreach demo_world 2 (one_call jwt (called (state_new None) Loading))"
    by (rule one_call_runs [OF one_call_reached]) (simp add: admits_def called_def)
  have "step jwt_refresher Run (called (state_new None) Loading) (called (state_new None) (Relocking inner))"
    using step.loaded [of "called (state_new None) Loading" 0 jwt_refresher inner] by (simp add: called_def)
  then show ?thesis by (rule one_call_runs [OF l]) (use assms in \<open>auto simp: admits_def called_def\<close>)
qed

section \<open>Properties\<close>

text \<open>
  C7. A caller of the federation strategy gets its own token. However the calls of any number of users
  interleave, are cancelled, share engines, hit or miss the cache and the store, a bearer token a
  call is answered with was exchanged for a JWT with the digest of the one that call presented, or
  was in the store under that digest, and names the strategy's workspace; in either case the
  token carries the stamp of that digest, which no other digest has.\<close>

theorem callers_get_their_own_token:
  assumes "oreach W capacity S" and "(jwt, Answered (Inr bearer)) \<in> set (o_calls S)"
  shows "\<exists>tok. access_token tok = bearer \<and> t_federated_from tok = Some (to_hex (digest_of W jwt))
      \<and> (\<exists>jwt'. digest_of W jwt' = digest_of W jwt \<and> (exchanged W jwt' tok \<or> served W jwt' tok))
      \<and> w_claim W bearer = Inr (w_expected_workspace W)
      \<and> (\<forall>other. t_federated_from tok = Some (to_hex (digest_of W other)) \<longrightarrow> digest_of W other = digest_of W jwt)"
proof -
  have "call_ok W S (jwt, Answered (Inr bearer))"
    using oidc_invD(6) [OF oreach_inv [OF assms(1)]] assms(2) unfolding list_all_iff by blast
  then obtain tok jwt' where t: "access_token tok = bearer" "w_claim W bearer = Inr (w_expected_workspace W)"
      "digest_of W jwt' = digest_of W jwt" "exchanged W jwt' tok \<or> served W jwt' tok"
    by (auto simp: bearer_of_def genuine_def)
  then have "t_federated_from tok = Some (to_hex (digest_of W jwt))"
    using jwt_refresh_stamped [where t = tok] bound_load_stamped [where t = tok] by (auto simp: exchanged_def served_def)
  moreover from this have "\<forall>other. t_federated_from tok = Some (to_hex (digest_of W other)) \<longrightarrow> digest_of W other = digest_of W jwt"
    using to_hex_inj by auto
  ultimately show ?thesis using t by blast
qed

definition ana_served :: strategy where
  "ana_served = end_call demo_world 0 0 (Inr (lit ''t'')) (one_call (lit ''ana'') (called (state_new (Some ana_token)) (Done (Inr (lit ''t'')))))"

lemma ana_served_reached: "oreach demo_world 2 ana_served"
proof -
  have "bound_load (digest_of demo_world (lit ''ana'')) (Some ana_token) = Some ana_token"
    by (simp add: bound_load_def ana_token_def matches_hex_def jwt_digest_of_def demo_world_def)
  then have "oreach demo_world 2 (one_call (lit ''ana'') (called (state_new None) (Relocking (Some ana_token))))"
    by (intro one_call_loads) (auto simp: served_def)
  moreover have "step jwt_refresher Run (called (state_new None) (Relocking (Some ana_token)))
      (called (state_new (Some ana_token)) (Done (Inr (lit ''t''))))"
    using step.relock [of "called (state_new None) (Relocking (Some ana_token))" 0 "Some ana_token" jwt_refresher]
    by (simp add: called_def proceed_def accept_loaded_def state_new_def decide_def is_expired_at_def sat_add_def EXPIRY_LEEWAY_SECS_def
        service_token_def ana_token_def)
  ultimately have "oreach demo_world 2 (one_call (lit ''ana'') (called (state_new (Some ana_token)) (Done (Inr (lit ''t'')))))"
    by (rule one_call_runs) (simp add: admits_def called_def)
  then show ?thesis unfolding ana_served_def
    by (rule oreach.onext) (rule ostep.settles [where c = 0], simp_all add: one_call_def called_def)
qed

theorem callers_get_their_own_token_witness:
  "\<exists>tok :: token. access_token tok = lit ''t'' \<and> t_federated_from tok = Some (to_hex (as_bytes (lit ''ana'')))"
proof -
  have "(lit ''ana'', Answered (Inr (lit ''t''))) \<in> set (o_calls ana_served)"
    by (simp add: ana_served_def end_call_def one_call_def strategy_settle_def unpend_def verify_workspace_def demo_world_def Let_def)
  from callers_get_their_own_token [OF ana_served_reached this] obtain tok :: token where
    "access_token tok = lit ''t''" "t_federated_from tok = Some (to_hex (digest_of demo_world (lit ''ana'')))" by blast
  then show ?thesis by (intro exI [of _ tok]) (simp add: jwt_digest_of_def demo_world_def)
qed

text \<open>
  C36. The strategy's two tiers hold what they should. In every reachable state the cache is within
  its capacity and every engine in it belongs to the digest it is found under and holds a token;
  every pending engine belongs to its digest and has a call in flight, so there are never more
  of them than calls in flight.\<close>

theorem engines_in_their_tiers:
  assumes "oreach W capacity S"
  shows "length (jc_entries (o_cache S)) \<le> capacity
    \<and> (\<forall>d e. jc_handles (o_cache S) d = Some e \<longrightarrow> digest_of W (o_jwt S e) = d \<and> s_token (st (o_engine S e)) \<noteq> None)
    \<and> (\<forall>d e. o_pending S d = Some e \<longrightarrow> digest_of W (o_jwt S e) = d \<and> (\<exists>jwt c. (jwt, Flying e c) \<in> set (o_calls S)))
    \<and> card (dom (o_pending S)) \<le> length (filter (\<lambda>call. \<exists>e c. snd call = Flying e c) (o_calls S))"
proof -
  note inv = oidc_invD [OF oreach_inv [OF assms]]
  let ?F = "filter (\<lambda>call. \<exists>e c. snd call = Flying e c) (o_calls S)"
  let ?d = "\<lambda>call. case snd call of Flying e c \<Rightarrow> digest_of W (o_jwt S e) | _ \<Rightarrow> []"
  have "dom (o_pending S) \<subseteq> ?d ` set ?F"
  proof
    fix d assume "d \<in> dom (o_pending S)"
    then obtain e jwt c where "digest_of W (o_jwt S e) = d" "(jwt, Flying e c) \<in> set (o_calls S)"
      using inv(5) unfolding pending_flies_def by blast
    then show "d \<in> ?d ` set ?F" by (intro image_eqI [of _ _ "(jwt, Flying e c)"]) auto
  qed
  then have "card (dom (o_pending S)) \<le> length ?F"
    by (meson card_image_le card_length card_mono dual_order.trans finite_imageI finite_set)
  then show ?thesis using inv by (simp add: jc_ok_def cache_keyed_def pending_flies_def)
qed


theorem engines_in_their_tiers_witness:
  "jc_handles (o_cache ana_served) (as_bytes (lit ''ana'')) = Some 0 \<and> length (jc_entries (o_cache ana_served)) \<le> 2
    \<and> s_token (st (o_engine ana_served 0)) \<noteq> None"
proof -
  have "jc_handles (o_cache ana_served) (digest_of demo_world (lit ''ana'')) = Some 0"
    by (simp add: ana_served_def end_call_def one_call_def strategy_settle_def unpend_def jc_insert_def jwt_cache_new_def jc_handles_def Let_def)
  with engines_in_their_tiers [OF ana_served_reached] show ?thesis by (auto simp: jwt_digest_of_def demo_world_def)
qed

text \<open>
  C37. A refused exchange harms nobody else. When a call's engine answers it with an error, every other
  engine keeps its place in the cache and the refused one has none in either tier; and when
  the refusal is of the account, then for sixty seconds a call for a JWT that has no engine is
  answered with that refusal, without an engine and so without an exchange.\<close>

theorem refusals_stay_contained:
  assumes "oreach W capacity S" and "i < length (o_calls S)" and "snd (o_calls S ! i) = Flying e c"
    and "callers (o_engine S e) c = Done (Inl err)" and S'_def: "S' = end_call W i e (Inl err) S"
  shows "(\<forall>d x. x \<noteq> e \<longrightarrow> (jc_handles (o_cache S') d = Some x \<longleftrightarrow> jc_handles (o_cache S) d = Some x))
    \<and> (\<forall>d. jc_handles (o_cache S') d \<noteq> Some e \<and> o_pending S' d \<noteq> Some e)
    \<and> (\<forall>jwt now. is_account_refusal (into_auth_error err) \<longrightarrow> o_clock S \<le> now \<longrightarrow> now - o_clock S < DENIAL_TTL_SECS \<longrightarrow>
         jc_handles (o_cache S') (digest_of W jwt) = None \<longrightarrow> o_pending S' (digest_of W jwt) = None \<longrightarrow>
         (let T = begin_call W jwt (S'\<lparr>o_clock := now\<rparr>)
          in o_n T = o_n S \<and> o_engine T = o_engine S
             \<and> last (o_calls T) = (jwt, Answered (Inl (to_error (sticky_new (into_auth_error err) (o_clock S)))))))"
proof (intro conjI allI impI)
  note inv = oidc_invD [OF oreach_inv [OF assms(1)]]
  have f: "o_cache S' = jc_remove_if (digest_of W (o_jwt S e)) (\<lambda>cached. cached = e) (o_cache S)" "o_n S' = o_n S"
    "o_engine S' = o_engine S" "o_pending S' = o_pending (unpend W e S)"
    by (simp_all add: S'_def end_call_def strategy_settle_def unpend_def Let_def)
  have h: "jc_handles (o_cache S') d = (if jc_handles (o_cache S) d = Some e then None else jc_handles (o_cache S) d)" for d
  proof (cases "jc_handles (o_cache S) d = Some e")
    case True
    then have "digest_of W (o_jwt S e) = d" using inv(4) unfolding cache_keyed_def by blast
    with True show ?thesis unfolding f(1) by (simp add: jc_remove_if_handles)
  next
    case False
    then show ?thesis unfolding f(1) by (auto simp: jc_remove_if_handles split: option.split)
  qed
  show "(jc_handles (o_cache S') d = Some x) = (jc_handles (o_cache S) d = Some x)" if "x \<noteq> e" for d x using h [of d] that by auto
  show "jc_handles (o_cache S') d \<noteq> Some e" for d using h [of d] by auto
  show "o_pending S' d \<noteq> Some e" for d
    unfolding f(4) by (rule unpend_gone [OF inv(5)])
  fix jwt now
  assume a: "is_account_refusal (into_auth_error err)" "o_clock S \<le> now" "now - o_clock S < DENIAL_TTL_SECS"
    "jc_handles (o_cache S') (digest_of W jwt) = None" "o_pending S' (digest_of W jwt) = None"
  let ?D = "sticky_new (into_auth_error err) (o_clock S)"
  have dn: "o_denial S' = Some ?D" using a(1) by (simp add: S'_def end_call_def strategy_settle_def unpend_def Let_def)
  have fresh: "\<not> is_stale ?D now" using a(2,3) by (auto simp: is_stale_def sticky_new_def not_less not_le)
  obtain h t where g: "jc_get (digest_of W jwt) (o_cache S') = (h, t)" by (cases "jc_get (digest_of W jwt) (o_cache S')")
  then have "h = None" using a(4) jc_get_simps(1) [of "digest_of W jwt" "o_cache S'"] by simp
  then have "engine_for W jwt (S'\<lparr>o_clock := now\<rparr>) = (Inl (to_error ?D), S'\<lparr>o_clock := now, o_cache := t\<rparr>)"
    using a(5) g dn fresh by (simp add: engine_for_def strategy_denial_def)
  then show "let T = begin_call W jwt (S'\<lparr>o_clock := now\<rparr>)
      in o_n T = o_n S \<and> o_engine T = o_engine S \<and> last (o_calls T) = (jwt, Answered (Inl (to_error ?D)))"
    using f(2,3) by (simp add: begin_call_def Let_def)
qed


abbreviation over_limit :: auth_error where
  "over_limit \<equiv> UsageLimitExceeded (lit ''no'')"

definition ana_refused :: "unit engine" where
  "ana_refused = refreshing False None (record_refusal over_limit 0 (state_new None)) (Done (Inl (Auth over_limit))) (Ended (Inl (Auth over_limit)))"

lemma ana_refused_reached: "oreach demo_world 2 (one_call (lit ''ana'') ana_refused)"
proof -
  let ?j = "one_call (lit ''ana'')" and ?s = "record_refusal over_limit 0 (state_new None)"
  have 0: "oreach demo_world 2 (?j (called (state_new None) (Relocking None)))" by (rule one_call_loads) simp
  have "step jwt_refresher Run (called (state_new None) (Relocking None)) (refreshing True (Some (ByTask 0)) (state_new None) (Joining 0) (Spawned ()))"
    using step.relock [of "called (state_new None) (Relocking None)" 0 None jwt_refresher]
    by (simp add: called_def refreshing_def proceed_def accept_loaded_def state_new_def decide_def fresh_denial_def jwt_refresher_def start_refresh_def Let_def)
  then have 1: "oreach demo_world 2 (?j (refreshing True (Some (ByTask 0)) (state_new None) (Joining 0) (Spawned ())))"
    by (rule one_call_runs [OF 0]) (simp add: admits_def called_def refreshing_def)
  have "step jwt_refresher Run (refreshing True (Some (ByTask 0)) (state_new None) (Joining 0) (Spawned ()))
      (refreshing True (Some (ByTask 0)) (state_new None) (Joining 0) (ExchangingB ()))"
    using step.run [of "refreshing True (Some (ByTask 0)) (state_new None) (Joining 0) (Spawned ())" 0 "()" jwt_refresher]
    by (simp add: refreshing_def run_refresh_def state_new_def)
  then have 2: "oreach demo_world 2 (?j (refreshing True (Some (ByTask 0)) (state_new None) (Joining 0) (ExchangingB ())))"
    by (rule one_call_runs [OF 1]) (simp add: admits_def refreshing_def)
  have "step jwt_refresher Run (refreshing True (Some (ByTask 0)) (state_new None) (Joining 0) (ExchangingB ()))
      (refreshing False None ?s (Joining 0) (Ended (Inl (Auth over_limit))))"
    using step.refused_b [of "refreshing True (Some (ByTask 0)) (state_new None) (Joining 0) (ExchangingB ())" 0 "()" jwt_refresher over_limit]
    by (simp add: refreshing_def blocking_failed_def refresh_failed_def state_new_def credential_consumed_def Let_def)
  then have 3: "oreach demo_world 2 (?j (refreshing False None ?s (Joining 0) (Ended (Inl (Auth over_limit)))))"
    by (rule one_call_runs [OF 2]) (simp add: admits_def refreshing_def)
  have "step jwt_refresher Run (refreshing False None ?s (Joining 0) (Ended (Inl (Auth over_limit)))) ana_refused"
    using step.joined [of "refreshing False None ?s (Joining 0) (Ended (Inl (Auth over_limit)))" 0 0 "Inl (Auth over_limit)" jwt_refresher]
    by (simp add: refreshing_def ana_refused_def)
  then show ?thesis by (rule one_call_runs [OF 3]) (simp add: admits_def refreshing_def ana_refused_def)
qed

theorem refusals_stay_contained_witness:
  "let T = begin_call demo_world (lit ''bo'') ((end_call demo_world 0 0 (Inl (Auth over_limit)) (one_call (lit ''ana'') ana_refused))\<lparr>o_clock := 59\<rparr>)
   in o_n T = 1 \<and> last (o_calls T) = (lit ''bo'', Answered (Inl (to_error (sticky_new over_limit 0))))"
proof -
  let ?S = "one_call (lit ''ana'') ana_refused" let ?S' = "end_call demo_world 0 0 (Inl (Auth over_limit)) ?S"
  have c: "0 < length (o_calls ?S)" "snd (o_calls ?S ! 0) = Flying 0 0" "callers (o_engine ?S 0) 0 = Done (Inl (Auth over_limit))"
    "o_n ?S = 1" "o_clock ?S = 0" by (simp_all add: one_call_def ana_refused_def refreshing_def)
  have "jc_handles (o_cache ?S') d = None" "o_pending ?S' d = None" for d
    by (simp_all add: end_call_def strategy_settle_def one_call_def unpend_def jc_remove_if_def jwt_cache_new_def jc_handles_def Let_def)
  with refusals_stay_contained [OF ana_refused_reached c(1-3) refl] c(4,5) show ?thesis
    by (simp add: Let_def DENIAL_TTL_SECS_def)
qed

end
