(* ===== verification/Kms_Response.thy ===== *)
theory Kms_Response
  imports Auth_Error Keyset_Cache
begin

text \<open>
  What the ZeroKMS client makes of a response, from \<open>packages/stack-kms/src\<close>: the errors
  of \<open>errors.rs\<close> with the fields they hand over, the response classifier of
  \<open>connection/classify.rs\<close>, the validated endpoint of \<open>endpoint.rs\<close> and the HTTP
  connection of \<open>connection/http.rs\<close>. JSON decoding, the \<open>url\<close> crate and the HTTP client
  are arguments; an error of such a crate is a value of the type parameter \<open>'x\<close>.
\<close>

section \<open>Text\<close>

text \<open>
  \<open>String::from_utf8_lossy\<close>: every maximal ill-formed piece becomes one replacement
  character. A piece ends before the first byte that cannot continue its lead byte.
\<close>

definition second_fits :: "nat \<Rightarrow> nat \<Rightarrow> bool" where
  "second_fits lead b =
     (if lead = 0xE0 then 0xA0 \<le> b \<and> b \<le> 0xBF
      else if lead = 0xED then 0x80 \<le> b \<and> b \<le> 0x9F
      else if lead = 0xF0 then 0x90 \<le> b \<and> b \<le> 0xBF
      else if lead = 0xF4 then 0x80 \<le> b \<and> b \<le> 0x8F
      else 0x80 \<le> b \<and> b \<le> 0xBF)"

definition ill_formed_len :: "bytes \<Rightarrow> nat" where
  "ill_formed_len bs =
     (let lead = unat (hd bs);
          two = 1 < length bs \<and> second_fits lead (unat (bs ! 1));
          three = 2 < length bs \<and> cont (bs ! 2) \<noteq> None
      in if 0xE0 \<le> lead \<and> lead \<le> 0xEF \<and> two then 2
         else if 0xF0 \<le> lead \<and> lead \<le> 0xF4 \<and> two then (if three then 3 else 2)
         else 1)"

function from_utf8_lossy :: "bytes \<Rightarrow> rstr" where
  "from_utf8_lossy bs =
     (if bs = [] then []
      else case decode_char bs of
             Some (c, rest) \<Rightarrow> c # from_utf8_lossy rest
           | None \<Rightarrow> 0xFFFD # from_utf8_lossy (drop (ill_formed_len bs) bs))"
  by pat_completeness auto

lemma decode_char_shorter: "decode_char bs = Some (c, rest) \<Longrightarrow> length rest < length bs"
  by (auto simp: decode_char_def Let_def Option.bind_eq_Some_conv split: list.splits if_splits)

lemma ill_formed_len_pos: "0 < ill_formed_len bs"
  by (simp add: ill_formed_len_def Let_def)

termination from_utf8_lossy
  by (relation "measure length") (auto simp: decode_char_shorter ill_formed_len_pos)

declare from_utf8_lossy.simps [simp del]

text \<open>\<open>str::eq_ignore_ascii_case\<close>.\<close>

definition ascii_lower :: "nat \<Rightarrow> nat" where
  "ascii_lower c = (if 65 \<le> c \<and> c \<le> 90 then c + 32 else c)"

definition eq_ignore_ascii_case :: "rstr \<Rightarrow> rstr \<Rightarrow> bool" where
  "eq_ignore_ascii_case a b = (map ascii_lower a = map ascii_lower b)"

section \<open>The errors of a request\<close>

type_synonym headers = "rstr \<rightharpoonup> rstr"

datatype 'x error_source =
    UnexpectedContentType "rstr option" string "rstr option" headers
  | FailureResponse u16 "rstr option" headers
  | BaseUrlUnresolved
  | Foreign 'x

datatype request_kind =
    PrepareRequest | SendRequest | NotFound | Conflict | FailureResponseKind | ParseResponse
  | Unauthorized | Forbidden | OtherKind

record 'x vitur_request_error =
  ve_kind :: request_kind
  ve_message :: string
  ve_source :: "'x error_source"

definition vitur_error :: "request_kind \<Rightarrow> string \<Rightarrow> 'x error_source \<Rightarrow> 'x vitur_request_error" where
  "vitur_error k msg src = \<lparr>ve_kind = k, ve_message = msg, ve_source = src\<rparr>"

fun request_kind_name :: "request_kind \<Rightarrow> string" where
  "request_kind_name PrepareRequest = ''PrepareRequest''"
| "request_kind_name SendRequest = ''SendRequest''"
| "request_kind_name NotFound = ''NotFound''"
| "request_kind_name Conflict = ''Conflict''"
| "request_kind_name FailureResponseKind = ''FailureResponse''"
| "request_kind_name ParseResponse = ''ParseResponse''"
| "request_kind_name Unauthorized = ''Unauthorized''"
| "request_kind_name Forbidden = ''Forbidden''"
| "request_kind_name OtherKind = ''Other''"

text \<open>The fields an error hands over: JSON strings and counts.\<close>

datatype payload_value = PText string | PCount nat

type_synonym error_fields = "(string \<times> payload_value) list"

definition request_payload :: "'x vitur_request_error \<Rightarrow> error_fields" where
  "request_payload e = [(''request_kind'', PText (request_kind_name (ve_kind e)))]"

definition count_payload :: "nat \<Rightarrow> nat \<Rightarrow> error_fields" where
  "count_payload expected received = [(''expected'', PCount expected), (''received'', PCount received)]"

datatype 'x retrieve_key_error =
    RetrieveRequestFailed "'x vitur_request_error"
  | RetrievedKeyCount nat nat
  | FailedRetrieval rstr
  | RetrieveKeyMaterial 'x

datatype 'x generate_key_error =
    GenerateUnauthorized
  | GenerateForbidden
  | GenerateIv 'x
  | GeneratedKeyCount nat nat
  | GenerateKeyMaterial 'x
  | GenerateRequestFailed "'x vitur_request_error"

datatype 'x load_keyset_error =
    LoadUnauthorized "'x vitur_request_error"
  | LoadForbidden "'x vitur_request_error"
  | KeysetNotFound "'x vitur_request_error"
  | LoadKeyMaterial 'x
  | LoadRequestFailed "'x vitur_request_error"

fun retrieve_payload :: "'x retrieve_key_error \<Rightarrow> error_fields" where
  "retrieve_payload (RetrieveRequestFailed e) = request_payload e"
| "retrieve_payload (RetrievedKeyCount expected received) = count_payload expected received"
| "retrieve_payload (FailedRetrieval _) = []"
| "retrieve_payload (RetrieveKeyMaterial _) = []"

fun generate_payload :: "'x generate_key_error \<Rightarrow> error_fields" where
  "generate_payload (GenerateRequestFailed e) = request_payload e"
| "generate_payload (GeneratedKeyCount expected received) = count_payload expected received"
| "generate_payload (GenerateKeyMaterial _) = []"
| "generate_payload _ = []"

fun load_payload :: "'x load_keyset_error \<Rightarrow> error_fields" where
  "load_payload (LoadKeyMaterial _) = []"
| "load_payload (LoadUnauthorized e) = request_payload e"
| "load_payload (LoadForbidden e) = request_payload e"
| "load_payload (KeysetNotFound e) = request_payload e"
| "load_payload (LoadRequestFailed e) = request_payload e"

definition generate_error_from :: "'x vitur_request_error \<Rightarrow> 'x generate_key_error" where
  "generate_error_from e =
     (case ve_kind e of
        Forbidden \<Rightarrow> GenerateForbidden
      | Unauthorized \<Rightarrow> GenerateUnauthorized
      | _ \<Rightarrow> GenerateRequestFailed e)"

definition load_error_from :: "'x vitur_request_error \<Rightarrow> 'x load_keyset_error" where
  "load_error_from e =
     (case ve_kind e of
        Forbidden \<Rightarrow> LoadForbidden e
      | Unauthorized \<Rightarrow> LoadUnauthorized e
      | NotFound \<Rightarrow> KeysetNotFound e
      | _ \<Rightarrow> LoadRequestFailed e)"

section \<open>Classifying a response\<close>

definition is_json_content_type :: "rstr \<Rightarrow> bool" where
  "is_json_content_type value =
     (case split_on 59 value of
        [] \<Rightarrow> False
      | media_type # _ \<Rightarrow> eq_ignore_ascii_case (trim media_type) (lit ''application/json''))"

definition success_status :: "u16 \<Rightarrow> bool" where
  "success_status status = (200 \<le> status \<and> status \<le> 299)"

definition classify_response ::
  "(bytes \<Rightarrow> ('x, 'r) result) \<Rightarrow> u16 \<Rightarrow> rstr option \<Rightarrow> bytes option \<Rightarrow> headers
     \<Rightarrow> ('x vitur_request_error, 'r) result" where
  "classify_response from_slice status content_type body headers =
     (let body_text = map_option from_utf8_lossy body
      in if success_status status then
           if \<not> (case content_type of Some ct \<Rightarrow> is_json_content_type ct | None \<Rightarrow> False) then
             Inl (vitur_error ParseResponse ''Invalid content type header''
                    (UnexpectedContentType content_type ''application/json'' body_text headers))
           else (case body of
               None \<Rightarrow> Inl (vitur_error ParseResponse ''Failed to deserialize response body''
                              (FailureResponse status None headers))
             | Some bytes \<Rightarrow>
                 map_sum (\<lambda>e. vitur_error ParseResponse ''Failed to deserialize response body'' (Foreign e))
                   (\<lambda>r. r) (from_slice bytes))
         else
           (let failure = FailureResponse status body_text headers
            in Inl (if status = 404 then vitur_error NotFound ''Resource not found'' failure
                    else if status = 401 then vitur_error Unauthorized ''Request unauthorized'' failure
                    else if status = 403 then vitur_error Forbidden ''Request forbidden'' failure
                    else if status = 409 then vitur_error Conflict ''Resource conflict'' failure
                    else vitur_error OtherKind ''Server returned failure response'' failure)))"

section \<open>The endpoint\<close>

text \<open>What the code reads and writes of a parsed URL.\<close>

record 'u url_api =
  cannot_be_a_base :: "'u \<Rightarrow> bool"
  host_str :: "'u \<Rightarrow> rstr option"
  scheme :: "'u \<Rightarrow> rstr"
  query :: "'u \<Rightarrow> rstr option"
  fragment :: "'u \<Rightarrow> rstr option"
  username :: "'u \<Rightarrow> rstr"
  password :: "'u \<Rightarrow> rstr option"
  url_path :: "'u \<Rightarrow> rstr"
  set_path :: "rstr \<Rightarrow> 'u \<Rightarrow> 'u"
  url_string :: "'u \<Rightarrow> rstr"
  url_parse :: "rstr \<Rightarrow> (rstr, 'u) result"

datatype invalid_endpoint =
    Parse rstr | NoHost rstr | Scheme rstr | QueryOrFragment rstr | Userinfo

definition endpoint_new :: "'u url_api \<Rightarrow> 'u \<Rightarrow> (invalid_endpoint, 'u) result" where
  "endpoint_new api url =
     (if cannot_be_a_base api url \<or> host_str api url = None then Inl (NoHost (url_string api url))
      else if scheme api url \<noteq> lit ''http'' \<and> scheme api url \<noteq> lit ''https''
      then Inl (Scheme (scheme api url))
      else if query api url \<noteq> None \<or> fragment api url \<noteq> None
      then Inl (QueryOrFragment (url_string api url))
      else if username api url \<noteq> [] \<or> password api url \<noteq> None then Inl Userinfo
      else if url_path api url = [] \<or> last (url_path api url) \<noteq> 47
      then Inr (set_path api (url_path api url @ [47]) url)
      else Inr url)"

definition request_url :: "'u url_api \<Rightarrow> 'u \<Rightarrow> rstr \<Rightarrow> 'u" where
  "request_url api base endpoint = set_path api (url_path api base @ endpoint) base"

definition endpoint_from_str :: "'u url_api \<Rightarrow> rstr \<Rightarrow> (invalid_endpoint, 'u) result" where
  "endpoint_from_str api s = and_then (map_sum Parse (\<lambda>u. u) (url_parse api s)) (endpoint_new api)"

section \<open>The HTTP connection\<close>

text \<open>
  A response as the HTTP client hands it over: a header value that is not text, and a body
  that could not be read, are \<open>None\<close> and an error. The endpoint is a \<open>OnceLock\<close>: it is
  set at most once. \<open>'w\<close> is the world beyond the connection.
\<close>

record 'x kms_response =
  hr_status :: u16
  hr_headers :: "(rstr \<times> rstr option) list"
  hr_body :: "('x, bytes) result"

record ('u, 'w) http_connection =
  hc_base_url :: "'u option"
  hc_world :: 'w

definition header_map_to_hash :: "(rstr \<times> rstr option) list \<Rightarrow> headers" where
  "header_map_to_hash hs =
     fold (\<lambda>(k, v) m. case v of Some v \<Rightarrow> m(k \<mapsto> v) | None \<Rightarrow> m) hs Map.empty"

definition ensure_base_url :: "'u \<Rightarrow> ('u, 'w) http_connection \<Rightarrow> ('u, 'w) http_connection" where
  "ensure_base_url url c = (case hc_base_url c of None \<Rightarrow> c\<lparr>hc_base_url := Some url\<rparr> | Some _ \<Rightarrow> c)"

definition has_base_url :: "('u, 'w) http_connection \<Rightarrow> bool" where
  "has_base_url c = (hc_base_url c \<noteq> None)"

text \<open>From the response on.\<close>

definition http_receive ::
  "(bytes \<Rightarrow> ('x, 'r) result) \<Rightarrow> 'x kms_response \<Rightarrow> ('x vitur_request_error, 'r) result" where
  "http_receive from_slice response =
     (let content_type = Option.bind (map_of (hr_headers response) (lit ''content-type'')) (\<lambda>v. v);
          headers = header_map_to_hash (hr_headers response);
          deserializing = success_status (hr_status response)
            \<and> (case content_type of Some ct \<Rightarrow> is_json_content_type ct | None \<Rightarrow> False)
      in case hr_body response of
           Inr bytes \<Rightarrow> classify_response from_slice (hr_status response) content_type (Some bytes) headers
         | Inl e \<Rightarrow>
             if deserializing
             then Inl (vitur_error ParseResponse ''Failed to read response body as bytes'' (Foreign e))
             else classify_response from_slice (hr_status response) content_type None headers)"

definition http_send ::
  "'u url_api \<Rightarrow> ('q \<Rightarrow> ('x, bytes) result) \<Rightarrow> (bytes \<Rightarrow> ('x, 'r) result)
     \<Rightarrow> (rstr \<Rightarrow> bytes \<Rightarrow> rstr \<Rightarrow> 'w \<Rightarrow> ('x, 'x kms_response) result \<times> 'w)
     \<Rightarrow> rstr \<Rightarrow> 'q \<Rightarrow> rstr \<Rightarrow> ('u, 'w) http_connection
     \<Rightarrow> ('x vitur_request_error, 'r) result \<times> ('u, 'w) http_connection" where
  "http_send api to_vec from_slice post endpoint request access_token c =
     (case to_vec request of
        Inl e \<Rightarrow> (Inl (vitur_error PrepareRequest ''Failed to serialize request'' (Foreign e)), c)
      | Inr body \<Rightarrow>
          (case hc_base_url c of
             None \<Rightarrow>
               (Inl (vitur_error PrepareRequest
                  ''ZeroKMS base URL was not resolved from the token's services claim'' BaseUrlUnresolved), c)
           | Some base_url \<Rightarrow>
               (case post (url_string api (request_url api base_url endpoint)) body access_token (hc_world c) of
                  (Inl e, w) \<Rightarrow>
                    (Inl (vitur_error SendRequest ''Failed to send request'' (Foreign e)), c\<lparr>hc_world := w\<rparr>)
                | (Inr response, w) \<Rightarrow> (http_receive from_slice response, c\<lparr>hc_world := w\<rparr>))))"

end
