(* ===== verification/Kms_Client.thy ===== *)
theory Kms_Client
  imports Kms_Response Pending
begin

text \<open>
  The ZeroKMS client of \<open>packages/stack-kms/src\<close>: the limits of \<open>ClientOpts\<close>, the
  bounded concurrent batches of \<open>futures.rs\<close>, the key operations of \<open>client.rs\<close> over an
  arbitrary connection, the derivation of keys in \<open>key.rs\<close>, the endpoint a client ends up
  with (\<open>builder.rs\<close>, \<open>StackKms::get_token\<close>) and where its client key comes from
  (\<open>key_provider.rs\<close>, \<open>secret_key.rs\<close>).

  The requests of one call run concurrently, under \<open>StreamExt::buffered\<close> of the \<open>futures\<close>
  crate, which is an argument: for a limit and a number of futures, the futures it drives to
  their end, in the order in which they get there. Its results are taken in the order of
  its input, as it documents; no other law of it is assumed but where a theorem names one.
\<close>

section \<open>Bounded concurrent batches\<close>

function chunks :: "nat \<Rightarrow> 'a list \<Rightarrow> 'a list list" where
  "chunks per_req xs = (if per_req = 0 \<or> xs = [] then [] else take per_req xs # chunks per_req (drop per_req xs))"
  by pat_completeness auto
termination by (relation "measure (length \<circ> snd)") auto

declare chunks.simps [simp del]

text \<open>
  \<open>buffered\<close>, by its limit and the number of futures. The laws the client relies on: with room
  for at least one, every future is driven to its end; with room for none, no future is polled.
\<close>

type_synonym buffering = "nat \<Rightarrow> nat \<Rightarrow> nat list"

definition drives_every_future :: "buffering \<Rightarrow> bool" where
  "drives_every_future buffered \<longleftrightarrow> (\<forall>n m. 0 < n \<longrightarrow> {..<m} \<subseteq> set (buffered n m))"

definition holds_none_at_zero :: "buffering \<Rightarrow> bool" where
  "holds_none_at_zero buffered \<longleftrightarrow> (\<forall>m. buffered 0 m = [])"

text \<open>What comes of a call: \<open>slice::chunks\<close> panics on a chunk size of zero, and a stream
  whose next future never finishes leaves the call waiting.\<close>

datatype 'r batch_outcome = Panicked | Unfinished | Answered 'r

fun run_order :: "(nat \<Rightarrow> 's \<Rightarrow> 'r \<times> 's) \<Rightarrow> nat list \<Rightarrow> 's \<Rightarrow> (nat \<rightharpoonup> 'r) \<times> 's" where
  "run_order f [] s = (Map.empty, s)"
| "run_order f (i # is) s =
     (let (r, s) = f i s; (landed, s) = run_order f is s in (landed(i \<mapsto> r), s))"

fun drain :: "(nat \<rightharpoonup> ('e, 'u list) result) \<Rightarrow> nat list \<Rightarrow> 'u list \<Rightarrow> ('e, 'u list) result batch_outcome" where
  "drain landed [] out = Answered (Inr out)"
| "drain landed (i # is) out =
     (case landed i of
        None \<Rightarrow> Unfinished
      | Some (Inl e) \<Rightarrow> Answered (Inl e)
      | Some (Inr us) \<Rightarrow> drain landed is (out @ us))"

definition map_async_chunked ::
  "buffering \<Rightarrow> 'a list \<Rightarrow> ('a list \<Rightarrow> 's \<Rightarrow> ('e, 'u list) result \<times> 's) \<Rightarrow> nat \<Rightarrow> nat \<Rightarrow> 's
     \<Rightarrow> ('e, 'u list) result batch_outcome \<times> 's" where
  "map_async_chunked buffered input callback chunk_size concurrent_futs s =
     (if chunk_size = 0 then (Panicked, s)
      else
        (let cs = chunks chunk_size input;
             (landed, s) = run_order (\<lambda>i. callback (cs ! i)) (buffered concurrent_futs (length cs)) s
         in (drain landed [0..<length cs] [], s)))"

section \<open>Limits\<close>

definition DEFAULT_KEYS_PER_REQ :: nat where
  "DEFAULT_KEYS_PER_REQ = 500"

definition DEFAULT_CONCURRENT_REQS :: nat where
  "DEFAULT_CONCURRENT_REQS = 5"

record 'o client_opts =
  max_keys_per_req :: nat
  max_concurrent_reqs :: nat
  connection_opts :: 'o

datatype invalid_client_opts = InvalidClientOpts string

definition client_opts_new :: "'o \<Rightarrow> 'o client_opts" where
  "client_opts_new conn =
     \<lparr>max_keys_per_req = DEFAULT_KEYS_PER_REQ, max_concurrent_reqs = DEFAULT_CONCURRENT_REQS,
      connection_opts = conn\<rparr>"

definition with_max_keys_per_req :: "nat \<Rightarrow> 'o client_opts \<Rightarrow> (invalid_client_opts, 'o client_opts) result" where
  "with_max_keys_per_req max_keys opts =
     (if max_keys = 0 then Inl (InvalidClientOpts ''max_keys_per_req must be at least 1'')
      else Inr (opts\<lparr>max_keys_per_req := max_keys\<rparr>))"

definition with_max_concurrent_reqs ::
  "nat \<Rightarrow> 'o client_opts \<Rightarrow> (invalid_client_opts, 'o client_opts) result" where
  "with_max_concurrent_reqs max_concurrent opts =
     (if max_concurrent = 0 then Inl (InvalidClientOpts ''max_concurrent_reqs must be at least 1'')
      else Inr (opts\<lparr>max_concurrent_reqs := max_concurrent\<rparr>))"

section \<open>Keys and payloads\<close>

record 'k client_key =
  key_id :: uuid
  ck_keyset :: 'k

record 'p tagged_key = data_key_with_tag +
  kt_policy :: "'p option"

record ('c, 'p) generate_key_payload =
  gp_descriptor :: rstr
  gp_context :: "'c list"
  gp_policy :: "'p option"

record ('c, 'p) retrieve_key_payload =
  rp_iv :: iv
  rp_descriptor :: rstr
  rp_tag :: bytes
  rp_context :: "'c list"
  rp_policy :: "'p option"

text \<open>
  What \<open>recipher\<close> and the two hashes do to key material: \<open>reencrypt\<close> refuses material of
  the wrong length.
\<close>

record ('k, 'x) key_derivation =
  reencrypt :: "'k \<Rightarrow> iv \<Rightarrow> bytes \<Rightarrow> ('x, bytes) result"
  sha256 :: "bytes \<Rightarrow> bytes"
  blake3_xof :: "bytes \<Rightarrow> bytes"

definition data_key_from_material ::
  "('k, 'x) key_derivation \<Rightarrow> 'k client_key \<Rightarrow> iv \<Rightarrow> bytes \<Rightarrow> ('x, data_key) result" where
  "data_key_from_material kd key v material =
     map_sum (\<lambda>e. e) (\<lambda>rect. \<lparr>dk_iv = v, dk_key = sha256 kd rect\<rparr>) (reencrypt kd (ck_keyset key) v material)"

definition tagged_key_from_material ::
  "('k, 'x) key_derivation \<Rightarrow> 'k client_key \<Rightarrow> iv \<Rightarrow> bytes \<Rightarrow> bytes \<Rightarrow> 'p option
     \<Rightarrow> ('x, 'p tagged_key) result" where
  "tagged_key_from_material kd key v material tag policy =
     map_sum (\<lambda>e. e) (\<lambda>k. \<lparr>kt_key = k, kt_tag = tag, kt_policy = policy\<rparr>)
       (data_key_from_material kd key v material)"

definition index_key_from_material ::
  "('k, 'x) key_derivation \<Rightarrow> 'k client_key \<Rightarrow> bytes \<Rightarrow> ('x load_keyset_error, bytes) result" where
  "index_key_from_material kd key material =
     map_sum LoadKeyMaterial (\<lambda>rect. blake3_xof kd (as_bytes (lit ''ZEROKMS-INDEXKEY'') @ rect))
       (reencrypt kd (ck_keyset key) (replicate 16 0) material)"

section \<open>Requests\<close>

datatype ('c, 'p) generate_key_spec =
    NewWithPolicy (spec_iv: iv) rstr 'p
  | NewWithContext (spec_iv: iv) rstr "'c list"

text \<open>A \<open>RetrieveKeySpec\<close> has the fields of its payload, one for one.\<close>

type_synonym ('c, 'p) retrieve_key_spec = "('c, 'p) retrieve_key_payload"

record ('spec, 'v) key_request =
  kr_keys :: "'spec list"
  kr_keyset_id :: "uuid option"
  kr_client_id :: uuid
  kr_unverified_context :: 'v

record load_keyset_request =
  lr_client_id :: uuid
  lr_keyset_id :: "identified_by option"

record 'p generated_key =
  gk_material :: bytes
  gk_tag :: bytes
  gk_policy :: "'p option"

record keyset_info =
  ki_id :: uuid
  ki_name :: rstr

text \<open>One connection: a request, a bearer token and the state of the world.\<close>

type_synonym ('q, 'x, 'r, 's) sender = "'q \<Rightarrow> rstr \<Rightarrow> 's \<Rightarrow> ('x vitur_request_error, 'r) result \<times> 's"

record ('c, 'p, 'v, 'x, 's) connection =
  send_generate :: "((('c, 'p) generate_key_spec, 'v) key_request, 'x, 'p generated_key list, 's) sender"
  send_retrieve :: "((('c, 'p) retrieve_key_spec, 'v) key_request, 'x, bytes list, 's) sender"
  send_retrieve_fallible ::
    "((('c, 'p) retrieve_key_spec, 'v) key_request, 'x, (rstr, bytes) result list, 's) sender"
  send_load :: "(load_keyset_request, 'x, keyset_info \<times> bytes, 's) sender"

section \<open>The client\<close>

text \<open>One chunk of \<open>send_chunked\<close>.\<close>

definition send_chunk ::
  "('q, 'x, 'i list, 's) sender \<Rightarrow> ('spec list \<Rightarrow> 'q) \<Rightarrow> ('spec \<Rightarrow> 'i \<Rightarrow> ('e, 'u) result)
     \<Rightarrow> ('x vitur_request_error \<Rightarrow> 'e) \<Rightarrow> (nat \<Rightarrow> nat \<Rightarrow> 'e) \<Rightarrow> rstr \<Rightarrow> 'spec list \<Rightarrow> 's
     \<Rightarrow> ('e, 'u list) result \<times> 's" where
  "send_chunk send make_request map_key from_error count_mismatch access_token chunk s =
     (case send (make_request chunk) access_token s of
        (Inl e, s) \<Rightarrow> (Inl (from_error e), s)
      | (Inr keys, s) \<Rightarrow>
          if length keys \<noteq> length chunk then (Inl (count_mismatch (length chunk) (length keys)), s)
          else (collect (\<lambda>(spec, item). map_key spec item) (zip chunk keys), s))"

definition send_chunked ::
  "nat \<Rightarrow> nat \<Rightarrow> buffering \<Rightarrow> ('q, 'x, 'i list, 's) sender \<Rightarrow> 'spec list \<Rightarrow> rstr \<Rightarrow> ('spec list \<Rightarrow> 'q)
     \<Rightarrow> ('spec \<Rightarrow> 'i \<Rightarrow> ('e, 'u) result) \<Rightarrow> ('x vitur_request_error \<Rightarrow> 'e) \<Rightarrow> (nat \<Rightarrow> nat \<Rightarrow> 'e) \<Rightarrow> 's
     \<Rightarrow> ('e, 'u list) result batch_outcome \<times> 's" where
  "send_chunked chunk_size concurrent_reqs buffered send specs access_token make_request map_key from_error count_mismatch s =
     map_async_chunked buffered specs
       (send_chunk send make_request map_key from_error count_mismatch access_token) chunk_size concurrent_reqs s"

definition client_retrieve_keys ::
  "('k, 'x) key_derivation \<Rightarrow> ('c, 'p, 'v, 'x, 's) connection \<Rightarrow> nat \<Rightarrow> nat \<Rightarrow> buffering
     \<Rightarrow> ('c, 'p) retrieve_key_payload list \<Rightarrow> 'k client_key \<Rightarrow> uuid option \<Rightarrow> rstr \<Rightarrow> 'v \<Rightarrow> 's
     \<Rightarrow> ('x retrieve_key_error, data_key list) result batch_outcome \<times> 's" where
  "client_retrieve_keys kd conn per_req concurrent_reqs buffered payloads key keyset_id access_token context s =
     send_chunked per_req concurrent_reqs buffered (send_retrieve conn) payloads access_token
       (\<lambda>keys. \<lparr>kr_keys = keys, kr_keyset_id = keyset_id, kr_client_id = key_id key,
                kr_unverified_context = context\<rparr>)
       (\<lambda>spec material. map_sum RetrieveKeyMaterial (\<lambda>k. k) (data_key_from_material kd key (rp_iv spec) material))
       RetrieveRequestFailed RetrievedKeyCount s"

definition client_retrieve_keys_fallible ::
  "('k, 'x) key_derivation \<Rightarrow> ('c, 'p, 'v, 'x, 's) connection \<Rightarrow> nat \<Rightarrow> nat \<Rightarrow> buffering
     \<Rightarrow> ('c, 'p) retrieve_key_payload list \<Rightarrow> 'k client_key \<Rightarrow> uuid option \<Rightarrow> rstr \<Rightarrow> 'v \<Rightarrow> 's
     \<Rightarrow> ('x retrieve_key_error, ('x retrieve_key_error, data_key) result list) result batch_outcome \<times> 's" where
  "client_retrieve_keys_fallible kd conn per_req concurrent_reqs buffered payloads key keyset_id access_token context s =
     send_chunked per_req concurrent_reqs buffered (send_retrieve_fallible conn) payloads access_token
       (\<lambda>keys. \<lparr>kr_keys = keys, kr_keyset_id = keyset_id, kr_client_id = key_id key,
                kr_unverified_context = context\<rparr>)
       (\<lambda>spec res. Inr (and_then (map_sum FailedRetrieval (\<lambda>m. m) res) (\<lambda>material.
          map_sum RetrieveKeyMaterial (\<lambda>k. k) (data_key_from_material kd key (rp_iv spec) material))))
       RetrieveRequestFailed RetrievedKeyCount s"

definition client_load_keyset ::
  "('k, 'x) key_derivation \<Rightarrow> ('c, 'p, 'v, 'x, 's) connection \<Rightarrow> 'k client_key \<Rightarrow> identified_by option
     \<Rightarrow> rstr \<Rightarrow> 's \<Rightarrow> ('x load_keyset_error, keyset_info \<times> bytes) result \<times> 's" where
  "client_load_keyset kd conn key keyset_id access_token s =
     (case send_load conn \<lparr>lr_client_id = key_id key, lr_keyset_id = keyset_id\<rparr> access_token s of
        (Inl e, s) \<Rightarrow> (Inl (load_error_from e), s)
      | (Inr (keyset, material), s) \<Rightarrow>
          (map_sum (\<lambda>e. e) (\<lambda>index_key. (keyset, index_key)) (index_key_from_material kd key material), s))"

text \<open>The specs of \<open>generate_keys\<close>: a fresh IV per payload; a policy takes the place of the
  context. The random source may fail to open, and any draw may fail.\<close>

definition generate_spec ::
  "(nat \<Rightarrow> ('x, iv) result) \<Rightarrow> nat \<times> ('c, 'p) generate_key_payload
     \<Rightarrow> ('x generate_key_error, ('c, 'p) generate_key_spec) result" where
  "generate_spec draw p =
     (case p of (i, pl) \<Rightarrow>
        map_sum GenerateIv
          (\<lambda>v. case gp_policy pl of
                 Some policy \<Rightarrow> NewWithPolicy v (gp_descriptor pl) policy
               | None \<Rightarrow> NewWithContext v (gp_descriptor pl) (gp_context pl))
          (draw i))"

definition generate_specs ::
  "('x, nat \<Rightarrow> ('x, iv) result) result \<Rightarrow> ('c, 'p) generate_key_payload list
     \<Rightarrow> ('x generate_key_error, ('c, 'p) generate_key_spec list) result" where
  "generate_specs rng payloads =
     and_then (map_sum GenerateIv (\<lambda>d. d) rng)
       (\<lambda>draw. collect (generate_spec draw) (zip [0..<length payloads] payloads))"

definition client_generate_keys ::
  "('k, 'x) key_derivation \<Rightarrow> ('c, 'p, 'v, 'x, 's) connection \<Rightarrow> nat \<Rightarrow> nat \<Rightarrow> buffering
     \<Rightarrow> ('x, nat \<Rightarrow> ('x, iv) result) result \<Rightarrow> ('c, 'p) generate_key_payload list \<Rightarrow> 'k client_key
     \<Rightarrow> uuid option \<Rightarrow> rstr \<Rightarrow> 'v \<Rightarrow> 's
     \<Rightarrow> ('x generate_key_error, 'p tagged_key list) result batch_outcome \<times> 's" where
  "client_generate_keys kd conn per_req concurrent_reqs buffered rng payloads key keyset_id access_token context s =
     (case generate_specs rng payloads of
        Inl e \<Rightarrow> (Answered (Inl e), s)
      | Inr specs \<Rightarrow>
          send_chunked per_req concurrent_reqs buffered (send_generate conn) specs access_token
            (\<lambda>keys. \<lparr>kr_keys = keys, kr_keyset_id = keyset_id, kr_client_id = key_id key,
                     kr_unverified_context = context\<rparr>)
            (\<lambda>spec item. map_sum GenerateKeyMaterial (\<lambda>k. k)
               (tagged_key_from_material kd key (spec_iv spec) (gk_material item) (gk_tag item) (gk_policy item)))
            generate_error_from GeneratedKeyCount s)"

section \<open>The client with credentials\<close>

datatype 'x stack_kms_error =
    GenerateKey "'x generate_key_error"
  | RetrieveKey "'x retrieve_key_error"
  | LoadKeyset "'x load_keyset_error"
  | AuthFailed auth_error
  | ConnectionInit 'x
  | InvalidEndpoint invalid_endpoint
  | Unexpected rstr

text \<open>An error of \<open>stack-auth\<close> hands over fields of its own, an argument here.\<close>

fun kms_payload :: "(auth_error \<Rightarrow> error_fields) \<Rightarrow> 'x stack_kms_error \<Rightarrow> error_fields" where
  "kms_payload auth_fields (GenerateKey e) = generate_payload e"
| "kms_payload auth_fields (RetrieveKey e) = retrieve_payload e"
| "kms_payload auth_fields (LoadKeyset e) = load_payload e"
| "kms_payload auth_fields (AuthFailed e) = auth_fields e"
| "kms_payload auth_fields _ = []"

text \<open>
  A client over the HTTP connection. The credentials act on the world beyond the
  connection; a token is its bearer text and what its \<open>services\<close> claim says of ZeroKMS.
\<close>

record 'u kms_token =
  st_secret :: rstr
  st_zerokms_url :: "(auth_error, 'u) result"

type_synonym ('u, 'w) credentials = "'w \<Rightarrow> (auth_error, 'u kms_token) result \<times> 'w"

record ('k, 'x, 'c, 'p, 'v, 'u, 'w) stack_kms =
  sk_api :: "'u url_api"
  sk_derivation :: "('k, 'x) key_derivation"
  sk_connection :: "('c, 'p, 'v, 'x, ('u, 'w) http_connection) connection"
  sk_keys_per_req :: nat
  sk_concurrent_reqs :: nat
  sk_credentials :: "('u, 'w) credentials"
  sk_client_key :: "'k client_key"

definition get_token ::
  "'u url_api \<Rightarrow> ('u, 'w) credentials \<Rightarrow> ('u, 'w) http_connection
     \<Rightarrow> ('x stack_kms_error, 'u kms_token) result \<times> ('u, 'w) http_connection" where
  "get_token api creds c =
     (case creds (hc_world c) of
        (Inl e, w) \<Rightarrow> (Inl (AuthFailed e), c\<lparr>hc_world := w\<rparr>)
      | (Inr token, w) \<Rightarrow>
          (let c = c\<lparr>hc_world := w\<rparr>
           in if has_base_url c then (Inr token, c)
              else (case st_zerokms_url token of
                      Inl e \<Rightarrow> (Inl (AuthFailed e), c)
                    | Inr url \<Rightarrow>
                        (case endpoint_new api url of
                           Inl e \<Rightarrow> (Inl (InvalidEndpoint e), c)
                         | Inr endpoint \<Rightarrow> (Inr token, ensure_base_url endpoint c)))))"

definition kms_generate_keys ::
  "('k, 'x, 'c, 'p, 'v, 'u, 'w) stack_kms \<Rightarrow> buffering \<Rightarrow> ('x, nat \<Rightarrow> ('x, iv) result) result
     \<Rightarrow> ('c, 'p) generate_key_payload list \<Rightarrow> uuid option \<Rightarrow> 'v \<Rightarrow> ('u, 'w) http_connection
     \<Rightarrow> ('x stack_kms_error, 'p tagged_key list) result batch_outcome \<times> ('u, 'w) http_connection" where
  "kms_generate_keys kms buffered rng payloads keyset_id context c =
     (case get_token (sk_api kms) (sk_credentials kms) c of
        (Inl e, c) \<Rightarrow> (Answered (Inl e), c)
      | (Inr token, c) \<Rightarrow>
          map_prod (map_batch_outcome (map_sum GenerateKey (\<lambda>ks. ks))) (\<lambda>c. c)
            (client_generate_keys (sk_derivation kms) (sk_connection kms) (sk_keys_per_req kms)
               (sk_concurrent_reqs kms) buffered rng payloads (sk_client_key kms) keyset_id (st_secret token) context c))"

definition kms_retrieve_keys ::
  "('k, 'x, 'c, 'p, 'v, 'u, 'w) stack_kms \<Rightarrow> buffering
     \<Rightarrow> ('c, 'p) retrieve_key_payload list \<Rightarrow> uuid option \<Rightarrow> 'v \<Rightarrow> ('u, 'w) http_connection
     \<Rightarrow> ('x stack_kms_error, data_key list) result batch_outcome \<times> ('u, 'w) http_connection" where
  "kms_retrieve_keys kms buffered payloads keyset_id context c =
     (case get_token (sk_api kms) (sk_credentials kms) c of
        (Inl e, c) \<Rightarrow> (Answered (Inl e), c)
      | (Inr token, c) \<Rightarrow>
          map_prod (map_batch_outcome (map_sum RetrieveKey (\<lambda>ks. ks))) (\<lambda>c. c)
            (client_retrieve_keys (sk_derivation kms) (sk_connection kms) (sk_keys_per_req kms)
               (sk_concurrent_reqs kms) buffered payloads (sk_client_key kms) keyset_id (st_secret token) context c))"

definition kms_retrieve_keys_fallible ::
  "('k, 'x, 'c, 'p, 'v, 'u, 'w) stack_kms \<Rightarrow> buffering
     \<Rightarrow> ('c, 'p) retrieve_key_payload list \<Rightarrow> uuid option \<Rightarrow> 'v \<Rightarrow> ('u, 'w) http_connection
     \<Rightarrow> ('x stack_kms_error, ('x retrieve_key_error, data_key) result list) result batch_outcome \<times> ('u, 'w) http_connection" where
  "kms_retrieve_keys_fallible kms buffered payloads keyset_id context c =
     (case get_token (sk_api kms) (sk_credentials kms) c of
        (Inl e, c) \<Rightarrow> (Answered (Inl e), c)
      | (Inr token, c) \<Rightarrow>
          map_prod (map_batch_outcome (map_sum RetrieveKey (\<lambda>ks. ks))) (\<lambda>c. c)
            (client_retrieve_keys_fallible (sk_derivation kms) (sk_connection kms) (sk_keys_per_req kms)
               (sk_concurrent_reqs kms) buffered payloads (sk_client_key kms) keyset_id (st_secret token) context c))"

definition kms_load_keyset ::
  "('k, 'x, 'c, 'p, 'v, 'u, 'w) stack_kms \<Rightarrow> identified_by option \<Rightarrow> ('u, 'w) http_connection
     \<Rightarrow> ('x stack_kms_error, keyset_info \<times> bytes) result \<times> ('u, 'w) http_connection" where
  "kms_load_keyset kms keyset_id c =
     (case get_token (sk_api kms) (sk_credentials kms) c of
        (Inl e, c) \<Rightarrow> (Inl e, c)
      | (Inr token, c) \<Rightarrow>
          map_prod (map_sum LoadKeyset (\<lambda>k. k)) (\<lambda>c. c)
            (client_load_keyset (sk_derivation kms) (sk_connection kms) (sk_client_key kms) keyset_id
               (st_secret token) c))"

definition kms_load_index_key ::
  "('k, 'x, 'c, 'p, 'v, 'u, 'w) stack_kms \<Rightarrow> identified_by option \<Rightarrow> ('u, 'w) http_connection
     \<Rightarrow> ('x stack_kms_error, uuid \<times> bytes) result \<times> ('u, 'w) http_connection" where
  "kms_load_index_key kms keyset_id c =
     map_prod (map_sum (\<lambda>e. e) (\<lambda>(keyset, index_key). (ki_id keyset, index_key))) (\<lambda>c. c)
       (kms_load_keyset kms keyset_id c)"

text \<open>The connection over HTTP. A request type brings its path and its JSON codec.\<close>

type_synonym ('q, 'x, 'r) wire_codec = "rstr \<times> ('q \<Rightarrow> ('x, bytes) result) \<times> (bytes \<Rightarrow> ('x, 'r) result)"

type_synonym ('x, 'w) poster = "rstr \<Rightarrow> bytes \<Rightarrow> rstr \<Rightarrow> 'w \<Rightarrow> ('x, 'x kms_response) result \<times> 'w"

definition http_sender ::
  "'u url_api \<Rightarrow> ('x, 'w) poster \<Rightarrow> ('q, 'x, 'r) wire_codec \<Rightarrow> ('q, 'x, 'r, ('u, 'w) http_connection) sender" where
  "http_sender api post wire_codec request token c =
     (case wire_codec of (path, to_vec, from_slice) \<Rightarrow> http_send api to_vec from_slice post path request token c)"

definition http_connection_of ::
  "'u url_api \<Rightarrow> ('x, 'w) poster
     \<Rightarrow> ((('c, 'p) generate_key_spec, 'v) key_request, 'x, 'p generated_key list) wire_codec
     \<Rightarrow> ((('c, 'p) retrieve_key_spec, 'v) key_request, 'x, bytes list) wire_codec
     \<Rightarrow> ((('c, 'p) retrieve_key_spec, 'v) key_request, 'x, (rstr, bytes) result list) wire_codec
     \<Rightarrow> (load_keyset_request, 'x, keyset_info \<times> bytes) wire_codec
     \<Rightarrow> ('c, 'p, 'v, 'x, ('u, 'w) http_connection) connection" where
  "http_connection_of api post generate retrieve fallible load =
     \<lparr>send_generate = http_sender api post generate, send_retrieve = http_sender api post retrieve,
      send_retrieve_fallible = http_sender api post fallible, send_load = http_sender api post load\<rparr>"

section \<open>Facts on batches\<close>

lemma chunks_Nil [simp]: "chunks n [] = []"
  by (simp add: chunks.simps)

lemma chunks_step: "0 < n \<Longrightarrow> xs \<noteq> [] \<Longrightarrow> chunks n xs = take n xs # chunks n (drop n xs)"
  by (simp add: chunks.simps)

lemma concat_chunks: "0 < n \<Longrightarrow> concat (chunks n xs) = xs"
proof (induction n xs rule: chunks.induct)
  case (1 n xs)
  then show ?case by (cases "xs = []") (simp_all add: chunks_step)
qed

lemma length_chunks_iff: "0 < n \<Longrightarrow> i < length (chunks n xs) \<longleftrightarrow> i * n < length xs"
proof (induction n xs arbitrary: i rule: chunks.induct)
  case (1 n xs)
  show ?case
  proof (cases "xs = []")
    case False
    with 1 show ?thesis by (cases i) (auto simp: chunks_step less_diff_conv add.commute)
  qed simp
qed

lemma nth_chunks: "0 < n \<Longrightarrow> i * n < length xs \<Longrightarrow> chunks n xs ! i = take n (drop (i * n) xs)"
proof (induction n xs arbitrary: i rule: chunks.induct)
  case (1 n xs)
  then have ne: "xs \<noteq> []" by auto
  show ?case
  proof (cases i)
    case 0
    with 1 ne show ?thesis by (simp add: chunks_step)
  next
    case (Suc k)
    with 1(3) have "k * n < length (drop n xs)" by (simp add: less_diff_conv add.commute)
    with 1(1) [of k] 1(2) ne Suc show ?thesis by (simp add: chunks_step add.commute)
  qed
qed

lemma nth_concat_chunks:
  "0 < n \<Longrightarrow> list_all2 (\<lambda>c r. length r = length c) (chunks n xs) rs \<Longrightarrow> j < length xs
     \<Longrightarrow> j div n < length rs \<and> j mod n < length (rs ! (j div n)) \<and> concat rs ! j = rs ! (j div n) ! (j mod n)"
proof (induction n xs arbitrary: rs j rule: chunks.induct)
  case (1 n xs)
  then have ne: "xs \<noteq> []" by auto
  with 1(2,3) obtain r rs' where rs: "rs = r # rs'" "length r = min n (length xs)"
      "list_all2 (\<lambda>c r. length r = length c) (chunks n (drop n xs)) rs'"
    by (auto simp: chunks_step list_all2_Cons1 min.commute)
  show ?case
  proof (cases "j < n")
    case True
    with rs 1(4) show ?thesis by (simp add: nth_append)
  next
    case False
    then have lr: "length r = n" using rs(2) 1(4) by simp
    have d: "j div n = Suc ((j - n) div n)" "j mod n = (j - n) mod n"
      using False 1(2) by (simp_all add: le_div_geq le_mod_geq)
    have "(j - n) div n < length rs' \<and> (j - n) mod n < length (rs' ! ((j - n) div n))
        \<and> concat rs' ! (j - n) = rs' ! ((j - n) div n) ! ((j - n) mod n)"
      using 1(1) [OF _ 1(2) rs(3)] 1(2,4) ne False by simp
    then show ?thesis using False lr by (simp add: rs(1) d nth_append)
  qed
qed

lemma run_order_landed: "fst (run_order f order s) i = Some r \<Longrightarrow> i \<in> set order \<and> (\<exists>s1 s2. f i s1 = (r, s2))"
proof (induction f order s rule: run_order.induct)
  case (2 f k ks s)
  obtain r1 s1 where k: "f k s = (r1, s1)" by (cases "f k s")
  show ?case
  proof (cases "i = k")
    case True
    with 2(2) k have "r1 = r" by (simp add: case_prod_beta)
    with True k show ?thesis by auto
  next
    case False
    with 2(2) k have "fst (run_order f ks s1) i = Some r" by (simp add: case_prod_beta)
    from 2(1) [OF k [symmetric] refl this] show ?thesis by simp
  qed
qed simp

lemma run_order_all_land: "i \<in> set order \<Longrightarrow> fst (run_order f order s) i \<noteq> None"
  by (induction order arbitrary: s) (auto simp: case_prod_beta)

text \<open>A server whose answers do not depend on its state, and leave it.\<close>

lemma run_order_pure:
  assumes "\<And>i. i \<in> set order \<Longrightarrow> f i s = (g i, s)"
  shows "run_order f order s = (\<lambda>i. if i \<in> set order then Some (g i) else None, s)"
  using assms by (induction order) (auto simp: fun_eq_iff)

lemma drain_Inr:
  "drain landed is out = Answered (Inr us)
     \<longleftrightarrow> (\<exists>rs. list_all2 (\<lambda>i r. landed i = Some (Inr r)) is rs \<and> us = out @ concat rs)"
proof (induction landed "is" out rule: drain.induct)
  case (2 landed i "is" out)
  show ?case
  proof (cases "landed i")
    case (Some r)
    then show ?thesis using 2 by (cases r) (auto simp: list_all2_Cons1)
  qed (simp add: list_all2_Cons1)
qed auto

lemma drain_answers: "\<forall>i \<in> set is. landed i \<noteq> None \<Longrightarrow> \<exists>r. drain landed is out = Answered r"
  by (induction landed "is" out rule: drain.induct) (auto split: option.split sum.split)

text \<open>
  A batch that came back whole: every chunk was answered with one entry per spec, and each
  result comes from its own spec and the entry at the spec's place.
\<close>

lemma send_chunk_Inr:
  assumes "fst (send_chunk send make_request map_key from_error count_mismatch token chunk s) = Inr us"
  shows "\<exists>s' items. send (make_request chunk) token s = (Inr items, s') \<and> length items = length chunk
    \<and> list_all2 (\<lambda>x u. map_key (fst x) (snd x) = Inr u) (zip chunk items) us"
proof -
  obtain r s' where r: "send (make_request chunk) token s = (r, s')" by (cases "send (make_request chunk) token s")
  with assms obtain items where "r = Inr items" "length items = length chunk"
      "collect (\<lambda>(spec, item). map_key spec item) (zip chunk items) = Inr us"
    by (auto simp: send_chunk_def split: sum.splits if_splits)
  with r show ?thesis by (auto simp: collect_Inr_iff case_prod_beta)
qed

lemma send_chunked_places:
  assumes "fst (send_chunked n k buffered send specs token make_request map_key from_error count_mismatch s)
      = Answered (Inr us)"
  shows "length us = length specs \<and> (\<forall>j < length specs.
    let chunk = take n (drop (j div n * n) specs) in
    \<exists>s1 s2 items. send (make_request chunk) token s1 = (Inr items, s2) \<and> length items = length chunk
      \<and> map_key (specs ! j) (items ! (j mod n)) = Inr (us ! j))"
proof -
  let ?f = "send_chunk send make_request map_key from_error count_mismatch token" and ?cs = "chunks n specs"
  have n: "0 < n" using assms by (cases n) (simp_all add: send_chunked_def map_async_chunked_def)
  obtain landed where landed: "landed = fst (run_order (\<lambda>i. ?f (?cs ! i)) (buffered k (length ?cs)) s)" by simp
  have "drain landed [0..<length ?cs] [] = Answered (Inr us)"
    using assms n by (simp add: send_chunked_def map_async_chunked_def landed case_prod_beta Let_def)
  then obtain rs where rs: "list_all2 (\<lambda>i r. landed i = Some (Inr r)) [0..<length ?cs] rs" "us = concat rs"
    by (auto simp: drain_Inr)
  have len: "length rs = length ?cs" using list_all2_lengthD [OF rs(1)] by simp
  have each: "\<exists>s1 s2 items. send (make_request (?cs ! i)) token s1 = (Inr items, s2)
      \<and> length items = length (?cs ! i)
      \<and> list_all2 (\<lambda>x u. map_key (fst x) (snd x) = Inr u) (zip (?cs ! i) items) (rs ! i)"
    if "i < length ?cs" for i
  proof -
    have "landed i = Some (Inr (rs ! i))" using rs(1) that len by (auto simp: list_all2_conv_all_nth)
    then obtain s1 s2 where "?f (?cs ! i) s1 = (Inr (rs ! i), s2)"
      using run_order_landed [of "\<lambda>i. ?f (?cs ! i)"] landed by blast
    then show ?thesis using send_chunk_Inr [of send make_request map_key from_error count_mismatch token "?cs ! i" s1]
      by fastforce
  qed
  have shape: "list_all2 (\<lambda>c r. length r = length c) ?cs rs"
    unfolding list_all2_conv_all_nth using each len by (fastforce dest: list_all2_lengthD)
  have "length (concat rs) = length (concat ?cs)"
    using shape by (induction rule: list_all2_induct) simp_all
  then have 1: "length us = length specs" using rs(2) n by (simp add: concat_chunks)
  have 2: "let chunk = take n (drop (j div n * n) specs) in
    \<exists>s1 s2 items. send (make_request chunk) token s1 = (Inr items, s2) \<and> length items = length chunk
      \<and> map_key (specs ! j) (items ! (j mod n)) = Inr (us ! j)" if j: "j < length specs" for j
  proof -
    note at = nth_concat_chunks [OF n shape j]
    have i: "j div n * n < length specs" using j by (meson div_times_less_eq_dividend order.strict_trans1)
    then have c: "?cs ! (j div n) = take n (drop (j div n * n) specs)" by (rule nth_chunks [OF n])
    have "?cs ! (j div n) ! (j mod n) = specs ! j"
      using n i j at len by (simp add: c nth_take)
    moreover obtain s1 s2 items where it: "send (make_request (?cs ! (j div n))) token s1 = (Inr items, s2)"
        "length items = length (?cs ! (j div n))"
        "list_all2 (\<lambda>x u. map_key (fst x) (snd x) = Inr u) (zip (?cs ! (j div n)) items) (rs ! (j div n))"
      using each [of "j div n"] at len by auto
    ultimately have "map_key (specs ! j) (items ! (j mod n)) = Inr (us ! j)"
      using at rs(2) list_all2_nthD2 [OF it(3)] list_all2_lengthD [OF it(3)] by fastforce
    with it c show ?thesis by (auto simp: Let_def)
  qed
  from 1 2 show ?thesis by blast
qed

text \<open>
  A server that answers every spec on its own, whatever else the request asks for and
  whenever it arrives. Then the batch is the specs' own answers, however it was cut.
\<close>

definition chunk_answer ::
  "('spec \<Rightarrow> ('x vitur_request_error, 'i) result) \<Rightarrow> ('spec \<Rightarrow> 'i \<Rightarrow> ('e, 'u) result)
     \<Rightarrow> ('x vitur_request_error \<Rightarrow> 'e) \<Rightarrow> 'spec list \<Rightarrow> ('e, 'u list) result" where
  "chunk_answer item map_key from_error chunk =
     and_then (map_sum from_error (\<lambda>is. is) (collect item chunk))
       (\<lambda>items. collect (\<lambda>(spec, item). map_key spec item) (zip chunk items))"

lemma send_chunk_pure:
  assumes "send (make_request chunk) token s = (collect item chunk, s)"
  shows "send_chunk send make_request map_key from_error count_mismatch token chunk s
    = (chunk_answer item map_key from_error chunk, s)"
proof (cases "collect item chunk")
  case (Inr items)
  then have "length items = length chunk" by (simp add: collect_Inr_iff list_all2_lengthD)
  with assms Inr show ?thesis by (simp add: send_chunk_def chunk_answer_def)
qed (use assms in \<open>simp add: send_chunk_def chunk_answer_def\<close>)

lemma chunk_answer_Inr:
  "chunk_answer item map_key from_error chunk = Inr us
     \<longleftrightarrow> list_all2 (\<lambda>spec u. \<exists>i. item spec = Inr i \<and> map_key spec i = Inr u) chunk us"
proof -
  have "(\<exists>items. list_all2 (\<lambda>x y. item x = Inr y) chunk items
       \<and> list_all2 (\<lambda>x u. map_key (fst x) (snd x) = Inr u) (zip chunk items) us)
     \<longleftrightarrow> list_all2 (\<lambda>spec u. \<exists>i. item spec = Inr i \<and> map_key spec i = Inr u) chunk us"
  proof (induction chunk arbitrary: us)
    case (Cons spec chunk)
    have "(\<exists>items. list_all2 (\<lambda>x y. item x = Inr y) (spec # chunk) items
         \<and> list_all2 (\<lambda>x u. map_key (fst x) (snd x) = Inr u) (zip (spec # chunk) items) us)
       \<longleftrightarrow> (\<exists>i u us'. item spec = Inr i \<and> map_key spec i = Inr u \<and> us = u # us'
           \<and> (\<exists>items. list_all2 (\<lambda>x y. item x = Inr y) chunk items
               \<and> list_all2 (\<lambda>x u. map_key (fst x) (snd x) = Inr u) (zip chunk items) us'))"
      (is "?L = ?R")
    proof
      show "?L \<Longrightarrow> ?R" by (auto simp: list_all2_Cons1) blast
      assume ?R
      then obtain i u us' items where "item spec = Inr i" "map_key spec i = Inr u" "us = u # us'"
          "list_all2 (\<lambda>x y. item x = Inr y) chunk items"
          "list_all2 (\<lambda>x u. map_key (fst x) (snd x) = Inr u) (zip chunk items) us'"
        by blast
      then show ?L by (intro exI [of _ "i # items"]) simp
    qed
    then show ?case by (simp only: Cons.IH) (auto simp: list_all2_Cons1)
  qed auto
  then show ?thesis
    by (simp add: chunk_answer_def and_then_Inr_iff map_sum_Inr_iff collect_Inr_iff case_prod_beta)
qed

lemma list_all2_concat_iff:
  "list_all2 P (concat cs) us \<longleftrightarrow> (\<exists>rs. list_all2 (list_all2 P) cs rs \<and> us = concat rs)"
proof (induction cs arbitrary: us)
  case (Cons c cs)
  show ?case
  proof
    assume "list_all2 P (concat (c # cs)) us"
    then obtain r us' where "us = r @ us'" "list_all2 P c r" "list_all2 P (concat cs) us'"
      by (auto simp: list_all2_append1)
    moreover from this(3) obtain rs where "list_all2 (list_all2 P) cs rs" "us' = concat rs"
      using Cons.IH by blast
    ultimately show "\<exists>rs. list_all2 (list_all2 P) (c # cs) rs \<and> us = concat rs"
      by (intro exI [of _ "r # rs"]) simp
  next
    assume "\<exists>rs. list_all2 (list_all2 P) (c # cs) rs \<and> us = concat rs"
    then obtain r rs where "us = r @ concat rs" "list_all2 P c r" "list_all2 (list_all2 P) cs rs"
      by (auto simp: list_all2_Cons1)
    moreover from this(3) have "list_all2 P (concat cs) (concat rs)" using Cons.IH by blast
    ultimately show "list_all2 P (concat (c # cs)) us" by (simp add: list_all2_appendI)
  qed
qed simp

lemma send_chunked_pure:
  assumes n: "0 < n" and all: "{..<length (chunks n specs)} \<subseteq> set (buffered k (length (chunks n specs)))"
    and send: "\<And>chunk s. send (make_request chunk) token s = (collect item chunk, s)"
  shows "\<exists>r. send_chunked n k buffered send specs token make_request map_key from_error count_mismatch s = (Answered r, s)
    \<and> (\<forall>us. r = Inr us \<longleftrightarrow> list_all2 (\<lambda>spec u. \<exists>i. item spec = Inr i \<and> map_key spec i = Inr u) specs us)"
proof -
  let ?f = "send_chunk send make_request map_key from_error count_mismatch token" and ?cs = "chunks n specs"
  let ?g = "\<lambda>i. chunk_answer item map_key from_error (?cs ! i)"
  define order where "order = buffered k (length ?cs)"
  let ?P = "\<lambda>spec u. \<exists>i. item spec = Inr i \<and> map_key spec i = Inr u"
  let ?landed = "\<lambda>i. if i \<in> set order then Some (?g i) else None"
  have run: "run_order (\<lambda>i. ?f (?cs ! i)) order s = (?landed, s)"
    by (rule run_order_pure) (simp add: send_chunk_pure send)
  have in_order: "i \<in> set order" if "i < length ?cs" for i using all that by (auto simp: order_def)
  obtain r where r: "drain ?landed [0..<length ?cs] [] = Answered r"
    using drain_answers [of "[0..<length ?cs]" ?landed "[]"] in_order by auto
  have "r = Inr us \<longleftrightarrow> list_all2 ?P specs us" for us
  proof -
    have "r = Inr us \<longleftrightarrow> (\<exists>rs. list_all2 (\<lambda>i r. ?landed i = Some (Inr r)) [0..<length ?cs] rs \<and> us = concat rs)"
      using r drain_Inr [of ?landed "[0..<length ?cs]" "[]" us] by simp
    also have "\<dots> \<longleftrightarrow> (\<exists>rs. list_all2 (list_all2 ?P) ?cs rs \<and> us = concat rs)"
      by (simp add: list_all2_conv_all_nth [of _ "[0..<length ?cs]"] list_all2_conv_all_nth [of "list_all2 ?P"]
          in_order chunk_answer_Inr cong: conj_cong)
    also have "\<dots> \<longleftrightarrow> list_all2 ?P specs us"
      using concat_chunks [OF n, of specs] list_all2_concat_iff [of ?P ?cs us] by simp
    finally show ?thesis .
  qed
  with r show ?thesis
    using n run by (auto simp: send_chunked_def map_async_chunked_def order_def Let_def)
qed

section \<open>Properties\<close>

text \<open>A client whose server hands back the tag as key material, and a key that keeps the
  material, for evaluating the operations.\<close>

definition demo_kms_key :: "unit client_key" where
  "demo_kms_key = \<lparr>key_id = 9, ck_keyset = ()\<rparr>"

definition demo_derivation :: "(unit, nat) key_derivation" where
  "demo_derivation =
     \<lparr>reencrypt = (\<lambda>_ v m. if length m \<noteq> 2 then Inl (length m) else Inr (v @ m)), sha256 = (\<lambda>bs. bs),
      blake3_xof = (\<lambda>bs. bs)\<rparr>"

definition tag_material :: "(unit, unit) retrieve_key_spec \<Rightarrow> (nat vitur_request_error, bytes) result" where
  "tag_material spec =
     (if rp_tag spec = [] then Inl (vitur_error Forbidden ''Request forbidden'' BaseUrlUnresolved)
      else Inr (rp_tag spec))"

definition demo_connection :: "(unit, unit, unit, nat, nat) connection" where
  "demo_connection =
     \<lparr>send_generate = (\<lambda>q t s. (Inr [], s)),
      send_retrieve = (\<lambda>q t s. (collect tag_material (kr_keys q), s)),
      send_retrieve_fallible = (\<lambda>q t s. (Inr (map (\<lambda>k. Inr (rp_tag k)) (kr_keys q)), s)),
      send_load = (\<lambda>q t s. (Inr (\<lparr>ki_id = 4, ki_name = lit ''k''\<rparr>, [1, 2]), s))\<rparr>"

definition demo_payload :: "u8 \<Rightarrow> (unit, unit) retrieve_key_payload" where
  "demo_payload b = \<lparr>rp_iv = [b], rp_descriptor = [], rp_tag = [b, b], rp_context = [], rp_policy = None\<rparr>"

lemmas batch_eval = client_retrieve_keys_def send_chunked_def map_async_chunked_def send_chunk_def chunks.simps
  demo_connection_def demo_derivation_def demo_payload_def demo_kms_key_def tag_material_def
  data_key_from_material_def

text \<open>
  C5. Keys keep their places. Whatever ZeroKMS answers, in whatever order the concurrent
  requests of a call are served, a retrieval that succeeds has one key per payload, in the
  order of the payloads, and the key at a place was derived under that payload's own IV from
  the entry at that payload's place in the answer to the request that carried it.\<close>

theorem batched_keys_keep_their_places:
  assumes "fst (client_retrieve_keys kd conn n k buffered payloads key keyset_id token uctx s) = Answered (Inr keys)"
  shows "length keys = length payloads \<and> (\<forall>j < length payloads.
    let chunk = take n (drop (j div n * n) payloads);
        request = \<lparr>kr_keys = chunk, kr_keyset_id = keyset_id, kr_client_id = key_id key,
                   kr_unverified_context = uctx\<rparr> in
    \<exists>s1 s2 materials. send_retrieve conn request token s1 = (Inr materials, s2)
      \<and> length materials = length chunk
      \<and> data_key_from_material kd key (rp_iv (payloads ! j)) (materials ! (j mod n)) = Inr (keys ! j))"
  using send_chunked_places [OF assms [unfolded client_retrieve_keys_def]]
  by (simp add: Let_def map_sum_Inr_iff)

theorem batched_keys_keep_their_places_witness:
  "length [\<lparr>dk_iv = [1], dk_key = [1, 1, 1]\<rparr>, \<lparr>dk_iv = [2], dk_key = [2, 2, 2]\<rparr>, \<lparr>dk_iv = [3], dk_key = [3, 3, 3]\<rparr>]
     = length (map demo_payload [1, 2, 3])
   \<and> fst (client_retrieve_keys demo_derivation demo_connection 2 2 (\<lambda>_ _. [1, 0]) (map demo_payload [1, 2, 3]) demo_kms_key
        None [] () 0)
     = Answered (Inr [\<lparr>dk_iv = [1], dk_key = [1, 1, 1]\<rparr>, \<lparr>dk_iv = [2], dk_key = [2, 2, 2]\<rparr>,
         \<lparr>dk_iv = [3], dk_key = [3, 3, 3]\<rparr>])"
proof -
  let ?keys = "[\<lparr>dk_iv = [1], dk_key = [1, 1, 1]\<rparr>, \<lparr>dk_iv = [2], dk_key = [2, 2, 2]\<rparr>,
         \<lparr>dk_iv = [3], dk_key = [3, 3, 3]\<rparr>] :: data_key list"
  have a: "fst (client_retrieve_keys demo_derivation demo_connection 2 2 (\<lambda>_ _. [1, 0]) (map demo_payload [1, 2, 3])
      demo_kms_key None [] () 0) = Answered (Inr ?keys)"
    by (simp add: batch_eval)
  from batched_keys_keep_their_places [OF a] a show ?thesis by blast
qed

text \<open>
  Cutting a call into requests changes nothing. Against a server that answers every
  payload on its own, a call is answered whatever the chunk size and whatever order its
  requests are served in, and it succeeds with exactly the keys one request per payload
  would give, each refusal and each unusable material being a failure of the call.\<close>

theorem batching_is_transparent:
  assumes "0 < n" and "{..<length (chunks n payloads)} \<subseteq> set (buffered k (length (chunks n payloads)))"
    and "\<And>q s. send_retrieve conn q token s = (collect (material (kr_keyset_id q)) (kr_keys q), s)"
  shows "\<exists>r. client_retrieve_keys kd conn n k buffered payloads key keyset_id token uctx s = (Answered r, s)
    \<and> (\<forall>keys. r = Inr keys \<longleftrightarrow> list_all2 (\<lambda>p k. \<exists>m. material keyset_id p = Inr m
        \<and> data_key_from_material kd key (rp_iv p) m = Inr k) payloads keys)"
proof -
  let ?map_key = "\<lambda>spec material. map_sum RetrieveKeyMaterial (\<lambda>k. k)
      (data_key_from_material kd key (rp_iv spec) material)"
  show ?thesis
    using send_chunked_pure [OF assms(1), of payloads buffered k "send_retrieve conn"
        "\<lambda>keys. \<lparr>kr_keys = keys, kr_keyset_id = keyset_id, kr_client_id = key_id key, kr_unverified_context = uctx\<rparr>"
        token "material keyset_id" ?map_key RetrieveRequestFailed RetrievedKeyCount s]
    by (simp add: assms(2,3) client_retrieve_keys_def map_sum_Inr_iff)
qed

text \<open>The status ZeroKMS answered a request with, when it was sent and answered.\<close>

definition response_status ::
  "'u url_api \<Rightarrow> ('x, 'w) poster \<Rightarrow> ('q, 'x, 'r) wire_codec \<Rightarrow> 'q \<Rightarrow> rstr \<Rightarrow> ('u, 'w) http_connection \<Rightarrow> u16 option" where
  "response_status api post wire_codec request token c =
     (case wire_codec of (path, to_vec, _) \<Rightarrow>
        (case (to_vec request, hc_base_url c) of
           (Inr body, Some base) \<Rightarrow>
             (case fst (post (url_string api (request_url api base path)) body token (hc_world c)) of
                Inr response \<Rightarrow> Some (hr_status response)
              | Inl _ \<Rightarrow> None)
         | _ \<Rightarrow> None))"

lemma classify_response_kinds:
  assumes "classify_response from_slice status ct body hs = Inl e"
  shows "(ve_kind e = NotFound \<longleftrightarrow> status = 404) \<and> (ve_kind e = Unauthorized \<longleftrightarrow> status = 401)
    \<and> (ve_kind e = Forbidden \<longleftrightarrow> status = 403) \<and> (success_status status \<longrightarrow> ve_kind e = ParseResponse)"
  using assms
  by (auto simp: classify_response_def vitur_error_def success_status_def Let_def map_sum_Inl_iff
      split: if_splits option.splits)

lemma classify_response_ok: "classify_response from_slice status ct body hs = Inr r \<Longrightarrow> success_status status"
  by (auto simp: classify_response_def Let_def split: if_splits)

lemma http_receive_kinds:
  assumes "http_receive from_slice response = Inl e"
  shows "(ve_kind e = NotFound \<longleftrightarrow> hr_status response = 404) \<and> (ve_kind e = Unauthorized \<longleftrightarrow> hr_status response = 401)
    \<and> (ve_kind e = Forbidden \<longleftrightarrow> hr_status response = 403)"
  using assms
  by (auto simp: http_receive_def Let_def vitur_error_def success_status_def dest: classify_response_kinds
      split: sum.splits if_splits)

lemma http_receive_ok: "http_receive from_slice response = Inr r \<Longrightarrow> success_status (hr_status response)"
  by (auto simp: http_receive_def Let_def dest: classify_response_ok split: sum.splits if_splits)

text \<open>The error of a request by the status it was answered with.\<close>

lemma http_sender_kinds:
  assumes "fst (http_sender api post wire_codec request token c) = Inl e"
  shows "(ve_kind e = NotFound \<longleftrightarrow> response_status api post wire_codec request token c = Some 404)
    \<and> (ve_kind e = Unauthorized \<longleftrightarrow> response_status api post wire_codec request token c = Some 401)
    \<and> (ve_kind e = Forbidden \<longleftrightarrow> response_status api post wire_codec request token c = Some 403)
    \<and> (response_status api post wire_codec request token c = None \<longrightarrow> ve_kind e \<in> {PrepareRequest, SendRequest})"
  using assms
  by (auto simp: http_sender_def http_send_def response_status_def vitur_error_def dest: http_receive_kinds
      split: prod.splits sum.splits option.splits)

lemma http_sender_ok:
  assumes "fst (http_sender api post wire_codec request token c) = Inr r"
  shows "\<exists>status. response_status api post wire_codec request token c = Some status \<and> success_status status"
  using assms
  by (auto simp: http_sender_def http_send_def response_status_def dest: http_receive_ok
      split: prod.splits sum.splits option.splits)

lemma load_result:
  "fst (client_load_keyset kd (http_connection_of api post generate retrieve fallible load) key keyset_id token c)
   = and_then (map_sum load_error_from (\<lambda>a. a)
       (fst (http_sender api post load \<lparr>lr_client_id = key_id key, lr_keyset_id = keyset_id\<rparr> token c)))
       (\<lambda>(keyset, material). map_sum (\<lambda>e. e) (\<lambda>index_key. (keyset, index_key)) (index_key_from_material kd key material))"
  by (simp add: client_load_keyset_def http_connection_of_def case_prod_beta split: sum.split)

lemma load_error_from_iff:
  "load_error_from e = KeysetNotFound x \<longleftrightarrow> ve_kind e = NotFound \<and> x = e"
  "load_error_from e = LoadUnauthorized x \<longleftrightarrow> ve_kind e = Unauthorized \<and> x = e"
  "load_error_from e = LoadForbidden x \<longleftrightarrow> ve_kind e = Forbidden \<and> x = e"
  by (auto simp: load_error_from_def split: request_kind.split)

lemma http_sender_not:
  assumes "fst (http_sender api post wire_codec request token c) = Inr r"
  shows "response_status api post wire_codec request token c \<notin> {None, Some 404, Some 401, Some 403}"
  using http_sender_ok [OF assms] by (auto simp: success_status_def)

lemma load_status_iff:
  fixes key :: "'k client_key"
  assumes r: "r = fst (client_load_keyset kd (http_connection_of api post generate retrieve fallible load) key
        keyset_id token c)"
    and status: "status = response_status api post load \<lparr>lr_client_id = key_id key, lr_keyset_id = keyset_id\<rparr> token c"
  shows "(\<exists>e. r = Inl (KeysetNotFound e)) \<longleftrightarrow> status = Some 404"
    and "(\<exists>e. r = Inl (LoadUnauthorized e)) \<longleftrightarrow> status = Some 401"
    and "(\<exists>e. r = Inl (LoadForbidden e)) \<longleftrightarrow> status = Some 403"
proof -
  let ?a = "fst (http_sender api post load \<lparr>lr_client_id = key_id key, lr_keyset_id = keyset_id\<rparr> token c)"
  have "((\<exists>e. r = Inl (KeysetNotFound e)) \<longleftrightarrow> status = Some 404)
      \<and> ((\<exists>e. r = Inl (LoadUnauthorized e)) \<longleftrightarrow> status = Some 401)
      \<and> ((\<exists>e. r = Inl (LoadForbidden e)) \<longleftrightarrow> status = Some 403)"
  proof (cases ?a)
    case (Inl e)
    show ?thesis unfolding r status load_result Inl
      using http_sender_kinds [OF Inl] by (simp add: load_error_from_iff)
  next
    case (Inr x)
    show ?thesis unfolding r status load_result Inr
      using http_sender_not [OF Inr] by (cases x) (auto simp: index_key_from_material_def map_sum_Inl_iff)
  qed
  then show "(\<exists>e. r = Inl (KeysetNotFound e)) \<longleftrightarrow> status = Some 404"
    "(\<exists>e. r = Inl (LoadUnauthorized e)) \<longleftrightarrow> status = Some 401"
    "(\<exists>e. r = Inl (LoadForbidden e)) \<longleftrightarrow> status = Some 403" by blast+
qed

lemmas load_not_found_iff = load_status_iff(1) [OF refl refl]

text \<open>
  A load of a keyset fails the way ZeroKMS answered it. Over HTTP, the keyset is reported
  missing exactly when the answer is a 404, the token refused exactly on a 401 and the
  client exactly on a 403; a request that was never answered fails as one that could not be
  prepared or sent, so a missing endpoint is never taken for a bad token; and only a 2xx
  loads anything.\<close>

theorem load_errors_follow_the_status:
  "let r = fst (client_load_keyset kd (http_connection_of api post generate retrieve fallible load) key keyset_id token c);
       status = response_status api post load \<lparr>lr_client_id = key_id key, lr_keyset_id = keyset_id\<rparr> token c in
   ((\<exists>e. r = Inl (KeysetNotFound e)) \<longleftrightarrow> status = Some 404)
   \<and> ((\<exists>e. r = Inl (LoadUnauthorized e)) \<longleftrightarrow> status = Some 401)
   \<and> ((\<exists>e. r = Inl (LoadForbidden e)) \<longleftrightarrow> status = Some 403)
   \<and> (status = None \<longrightarrow> (\<exists>e. r = Inl (LoadRequestFailed e) \<and> ve_kind e \<in> {PrepareRequest, SendRequest}))
   \<and> (\<forall>k. r = Inr k \<longrightarrow> (\<exists>n. status = Some n \<and> success_status n))"
proof -
  let ?q = "\<lparr>lr_client_id = key_id key, lr_keyset_id = keyset_id\<rparr>"
  let ?a = "fst (http_sender api post load ?q token c)"
  let ?r = "fst (client_load_keyset kd (http_connection_of api post generate retrieve fallible load) key keyset_id token c)"
  have 1: "\<exists>e. ?r = Inl (LoadRequestFailed e) \<and> ve_kind e \<in> {PrepareRequest, SendRequest}"
    if none: "response_status api post load ?q token c = None"
  proof -
    obtain e where e: "?a = Inl e" using http_sender_not [of api post load ?q token c] none by (cases ?a) auto
    then have "ve_kind e \<in> {PrepareRequest, SendRequest}" using http_sender_kinds [OF e] none by blast
    then show ?thesis unfolding load_result e by (auto simp: load_error_from_def)
  qed
  have 2: "\<exists>n. response_status api post load ?q token c = Some n \<and> success_status n" if "?r = Inr k" for k
    using that http_sender_ok [of api post load ?q token c] unfolding load_result and_then_Inr_iff map_sum_Inr_iff by blast
  show ?thesis
    unfolding Let_def using load_status_iff [OF refl refl, of kd api post generate retrieve fallible load key keyset_id token c] 1 2
    by blast
qed

text \<open>A URL that is only its path, and a ZeroKMS that answers every load with a 404.\<close>

definition path_api :: "rstr url_api" where
  "path_api =
     \<lparr>cannot_be_a_base = (\<lambda>_. False), host_str = (\<lambda>_. Some (lit ''h'')), scheme = (\<lambda>_. lit ''https''),
      query = (\<lambda>_. None), fragment = (\<lambda>_. None), username = (\<lambda>_. []), password = (\<lambda>_. None),
      url_path = (\<lambda>u. u), set_path = (\<lambda>p _. p), url_string = (\<lambda>u. u), url_parse = Inr\<rparr>"

definition missing_post :: "(nat, unit) poster" where
  "missing_post url body token w =
     (Inr \<lparr>hr_status = 404, hr_headers = [], hr_body = Inr []\<rparr>, w)"

definition load_codec :: "(load_keyset_request, nat, keyset_info \<times> bytes) wire_codec" where
  "load_codec = (lit ''load-keyset'', (\<lambda>_. Inr [1]), (\<lambda>_. Inl 0))"

definition demo_conn :: "(rstr, unit) http_connection" where
  "demo_conn = \<lparr>hc_base_url = Some [47], hc_world = ()\<rparr>"

definition mute_codec :: "('q, nat, 'r) wire_codec" where
  "mute_codec = ([], (\<lambda>_. Inl 0), (\<lambda>_. Inl 0))"

definition missing_connection :: "(unit, unit, unit, nat, (rstr, unit) http_connection) connection" where
  "missing_connection = http_connection_of path_api missing_post mute_codec mute_codec mute_codec load_codec"

end
