(* ===== verification/Keyset_Select.thy ===== *)
theory Keyset_Select
  imports Kms_Client
begin

text \<open>
  Keyset selection, \<open>StackCipher::keyset\<close> of \<open>packages/stack-encrypt/src/cipher.rs\<close>: the
  cache is asked under its lock, a keyset it cannot answer for is loaded from ZeroKMS
  outside the lock, and the answer lands in the cache. Selections of many callers
  interleave between the two, so they are steps of a machine whose state is the cache, the
  selections under way and a record of what ZeroKMS answered and when.
\<close>

section \<open>Loading a keyset\<close>

definition asked_name :: "identified_by \<Rightarrow> string option" where
  "asked_name keyset = (case keyset of Name name \<Rightarrow> Some name | Uuid _ \<Rightarrow> None)"

fun is_keyset_not_found :: "'x stack_kms_error error \<Rightarrow> bool" where
  "is_keyset_not_found (Kms (LoadKeyset (KeysetNotFound _))) = True"
| "is_keyset_not_found _ = False"

text \<open>From ZeroKMS's answer on; \<open>hmac\<close> is the keyed function built from an index key.\<close>

definition load_keyset ::
  "(bytes \<Rightarrow> nat) \<Rightarrow> identified_by \<Rightarrow> ('x stack_kms_error, uuid \<times> bytes) result
     \<Rightarrow> ('x stack_kms_error error, keyset_state) result" where
  "load_keyset hmac keyset answer =
     map_sum Kms (\<lambda>(i, index_key). \<lparr>ks_id = i, ks_name = asked_name keyset, ks_prf = hmac index_key\<rparr>) answer"

definition load_default_keyset ::
  "(bytes \<Rightarrow> nat) \<Rightarrow> ('x stack_kms_error, uuid \<times> bytes) result \<Rightarrow> ('x stack_kms_error error, keyset_state) result" where
  "load_default_keyset hmac answer =
     map_sum Kms (\<lambda>(i, index_key). \<lparr>ks_id = i, ks_name = None, ks_prf = hmac index_key\<rparr>) answer"

record cipher_builder =
  cb_cache_size :: nat
  cb_name_ttl :: nat

definition cipher_builder_new :: cipher_builder where
  "cipher_builder_new = \<lparr>cb_cache_size = DEFAULT_CAPACITY, cb_name_ttl = DEFAULT_NAME_TTL\<rparr>"

definition keyset_cache_size :: "nat \<Rightarrow> cipher_builder \<Rightarrow> cipher_builder" where
  "keyset_cache_size n b = b\<lparr>cb_cache_size := n\<rparr>"

definition keyset_name_ttl :: "nat \<Rightarrow> cipher_builder \<Rightarrow> cipher_builder" where
  "keyset_name_ttl ttl b = b\<lparr>cb_name_ttl := ttl\<rparr>"

record stack_cipher =
  sc_keysets :: keyset_cache
  sc_default :: keyset_state

definition cipher_init ::
  "(bytes \<Rightarrow> nat) \<Rightarrow> ('x stack_kms_error, uuid \<times> bytes) result \<Rightarrow> nat \<Rightarrow> cipher_builder
     \<Rightarrow> ('x stack_kms_error error, stack_cipher) result" where
  "cipher_init hmac answer now b =
     map_sum (\<lambda>e. e)
       (\<lambda>dflt. \<lparr>sc_keysets = new_cache (cb_cache_size b) (cb_name_ttl b) dflt now, sc_default = dflt\<rparr>)
       (load_default_keyset hmac answer)"

definition default_keyset :: "stack_cipher \<Rightarrow> keyset_state" where
  "default_keyset sc = sc_default sc"

section \<open>One selection\<close>

text \<open>Up to the load: a hit answers at once, anything else takes a ticket.\<close>

definition select_start ::
  "identified_by \<Rightarrow> nat \<Rightarrow> keyset_cache \<Rightarrow> (resolution, keyset_state) result \<times> keyset_cache" where
  "select_start keyset now c =
     (case cache_get keyset now c of
        (Hit st, c) \<Rightarrow> (Inr st, c)
      | (Stale r, c) \<Rightarrow> (Inl r, c)
      | (Miss r, c) \<Rightarrow> (Inl r, c))"

text \<open>From the answer on.\<close>

definition select_land ::
  "(bytes \<Rightarrow> nat) \<Rightarrow> identified_by \<Rightarrow> resolution \<Rightarrow> ('x stack_kms_error, uuid \<times> bytes) result \<Rightarrow> nat \<Rightarrow> keyset_cache
     \<Rightarrow> ('x stack_kms_error error, keyset_state) result \<times> keyset_cache" where
  "select_land hmac keyset r answer now c =
     (case load_keyset hmac keyset answer of
        Inl e \<Rightarrow>
          (Inl e, case asked_name keyset of
                    Some name \<Rightarrow> if is_keyset_not_found e then cache_forget name r c else c
                  | None \<Rightarrow> c)
      | Inr st \<Rightarrow> (let (st, c) = cache_insert now st r c in (Inr st, c)))"

section \<open>Selections under way\<close>

text \<open>
  A selection that waits for ZeroKMS keeps its ticket and when it asked; one that got a
  keyset keeps that and when it began. A waiting selection can be dropped. The record holds
  ZeroKMS's positive answers: what was asked for, the keyset and its keyed function, and
  when the answer landed.
\<close>

datatype 'x selection =
    Idle
  | Loading identified_by nat resolution
  | Selected identified_by nat keyset_state
  | NotSelected identified_by "'x stack_kms_error error"

record 'x selections =
  ss_cache :: keyset_cache
  ss_clock :: nat
  ss_calls :: "nat \<Rightarrow> 'x selection"
  ss_answers :: "(identified_by \<times> uuid \<times> nat \<times> nat) set"

definition do_start :: "nat \<Rightarrow> identified_by \<Rightarrow> nat \<Rightarrow> 'x selections \<Rightarrow> 'x selections" where
  "do_start k keyset now s =
     (case select_start keyset now (ss_cache s) of
        (Inr st, c) \<Rightarrow> s\<lparr>ss_cache := c, ss_clock := now, ss_calls := (ss_calls s)(k := Selected keyset now st)\<rparr>
      | (Inl r, c) \<Rightarrow> s\<lparr>ss_cache := c, ss_clock := now, ss_calls := (ss_calls s)(k := Loading keyset now r)\<rparr>)"

definition do_land ::
  "(bytes \<Rightarrow> nat) \<Rightarrow> nat \<Rightarrow> identified_by \<Rightarrow> nat \<Rightarrow> resolution \<Rightarrow> ('x stack_kms_error, uuid \<times> bytes) result \<Rightarrow> nat
     \<Rightarrow> 'x selections \<Rightarrow> 'x selections" where
  "do_land hmac k keyset began r answer now s =
     (case select_land hmac keyset r answer now (ss_cache s) of
        (Inr st, c) \<Rightarrow>
          s\<lparr>ss_cache := c, ss_clock := now, ss_calls := (ss_calls s)(k := Selected keyset began st),
            ss_answers := (case answer of
               Inr (i, key) \<Rightarrow> insert (keyset, i, hmac key, now) (ss_answers s) | Inl _ \<Rightarrow> ss_answers s)\<rparr>
      | (Inl e, c) \<Rightarrow>
          s\<lparr>ss_cache := c, ss_clock := now, ss_calls := (ss_calls s)(k := NotSelected keyset e)\<rparr>)"

inductive select_step :: "(bytes \<Rightarrow> nat) \<Rightarrow> 'x selections \<Rightarrow> 'x selections \<Rightarrow> bool" for hmac where
  StartSelect: "ss_calls s k = Idle \<Longrightarrow> ss_clock s \<le> now \<Longrightarrow> select_step hmac s (do_start k keyset now s)"
| LandSelect: "ss_calls s k = Loading keyset began r \<Longrightarrow> ss_clock s \<le> now
    \<Longrightarrow> select_step hmac s (do_land hmac k keyset began r answer now s)"
| DropSelect: "ss_calls s k = Loading keyset began r \<Longrightarrow> select_step hmac s (s\<lparr>ss_calls := (ss_calls s)(k := Idle)\<rparr>)"
| AgainSelect: "ss_calls s k = Selected keyset began st \<or> ss_calls s k = NotSelected keyset e
    \<Longrightarrow> select_step hmac s (s\<lparr>ss_calls := (ss_calls s)(k := Idle)\<rparr>)"

definition selections_init :: "stack_cipher \<Rightarrow> nat \<Rightarrow> 'x selections" where
  "selections_init sc now =
     \<lparr>ss_cache = sc_keysets sc, ss_clock = now, ss_calls = (\<lambda>_. Idle), ss_answers = {}\<rparr>"

section \<open>What the cache holds\<close>

lemma get_entry_state:
  assumes "entry_of (snd (cache_get keyset now c)) i = Some e"
  shows "\<exists>f. entry_of c i = Some f \<and> e_state f = e_state e"
proof -
  have "(\<exists>k. entry_of (snd (cache_get keyset now c)) i = entry_of (snd (touch k c)) i)
      \<or> entry_of (snd (cache_get keyset now c)) i = entry_of c i"
    by (auto simp: cache_get_def next_resolution_def case_prod_beta split: option.split)
  then show ?thesis
  proof
    assume "\<exists>k. entry_of (snd (cache_get keyset now c)) i = entry_of (snd (touch k c)) i"
    then obtain k where "entry_of (snd (touch k c)) i = Some e" using assms by auto
    then show ?thesis using entry_of_touch [of k c i] by (cases "entry_of c i") auto
  qed (use assms in \<open>intro exI [of _ e], simp\<close>)
qed

lemma forget_entry_state:
  assumes "entry_of (cache_forget name r c) i = Some e"
  shows "\<exists>f. entry_of c i = Some f \<and> e_state f = e_state e"
  using assms
  by (auto simp: cache_forget_def Let_def split: option.splits if_splits)

lemma insert_entry_state:
  assumes ok: "cache_ok c" and e: "entry_of (snd (cache_insert now st r c)) i = Some e"
  shows "e_state e = st \<or> (\<exists>f. entry_of c i = Some f \<and> e_state f = e_state e)"
proof (cases "\<exists>f. entry_of c (ks_id st) = Some f \<and> r < e_resolution f")
  case True
  with e show ?thesis using cache_insert_dropped [of c st _ r now] by auto
next
  case False
  then have le: "\<forall>e. entry_of c (ks_id st) = Some e \<longrightarrow> e_resolution e \<le> r" by auto
  let ?m = "make_room (ks_id st) c"
  have did: "default_id ?m = default_id c" using make_room_ok [OF ok] by blast
  have applied: "e_state e = st \<or> (\<exists>f. entry_of c i = Some f \<and> e_state f = e_state e)"
    if "entry_of (apply_answer st b r d) i = Some e" "default_id d = default_id c"
      and d: "e_state (default_entry d) = e_state (default_entry c)"
      and en: "\<And>k g. entry_of d k = Some g \<Longrightarrow> \<exists>f. entry_of ?m k = Some f \<and> e_state f = e_state g" for b d
  proof (cases "i = ks_id st")
    case True
    with entry_of_apply_answer_self [of st b r d] that show ?thesis
      by (auto simp: entry_of_def)
  next
    case other: False
    with that have "entry_of d i = Some e" by (simp add: entry_of_apply_answer_other)
    from en [OF this] show ?thesis using entry_of_make_room_Some [OF ok] by blast
  qed
  from le show ?thesis
  proof (cases rule: cache_insert_cases [of c st r now])
    case (bound name)
    let ?d = "snd (bind_name now name (ks_id st) r ?m)"
    have "\<exists>f. entry_of ?m k = Some f \<and> e_state f = e_state g" if "entry_of ?d k = Some g" for k g
      using that unfolding entry_of_bind_name [OF bound(2)] by (auto split: if_splits)
    with applied [of True ?d] e show ?thesis by (simp add: bound(3) did insert_frame)
  next
    case unbound
    with applied [of False ?m] e show ?thesis by (simp add: did insert_frame)
  qed
qed

text \<open>The keyset an insert answers with.\<close>

lemma insert_result:
  "(\<exists>n a e. ks_name st = Some n \<and> by_name c n = Some a \<and> r < a_resolution a \<and> entry_of c (a_id a) = Some e
      \<and> fst (cache_insert now st r c) = e_state e)
   \<or> (\<exists>e. entry_of c (ks_id st) = Some e \<and> fst (cache_insert now st r c) = e_state e)
   \<or> fst (cache_insert now st r c) = st"
proof (cases "later_answer st r c")
  case None
  then show ?thesis by (auto simp: cache_insert_def Let_def case_prod_beta split: option.splits if_splits)
next
  case (Some l)
  then have "fst (cache_insert now st r c) = l"
    by (auto simp: cache_insert_def Let_def case_prod_beta split: option.splits if_splits)
  moreover obtain n a e where "ks_name st = Some n" "by_name c n = Some a" "r < a_resolution a"
      "entry_of c (a_id a) = Some e" "l = e_state e"
    using Some by (auto simp: later_answer_def is_later_than_def bind_eq_Some_conv split: if_splits)
  ultimately show ?thesis by blast
qed

lemma hit_by_name:
  assumes "fst (cache_get (Name n) now c) = Hit st"
  shows "\<exists>a e. by_name c n = Some a \<and> is_fresh_at a now (name_ttl c) \<and> entry_of c (a_id a) = Some e \<and> st = e_state e"
proof -
  obtain a where a: "by_name c n = Some a" using assms by (cases "by_name c n") (auto simp: cache_get_def next_resolution_def)
  show ?thesis
    using assms a touch_result [of "a_id a" c]
    by (cases "touch (a_id a) c"; cases "fst (touch (a_id a) c)")
      (auto simp: cache_get_def next_resolution_def split: if_splits)
qed

lemma hit_by_id:
  assumes "fst (cache_get (Uuid i) now c) = Hit st"
  shows "\<exists>e. entry_of c i = Some e \<and> st = e_state e"
  using assms touch_result [of i c]
  by (cases "touch i c"; cases "fst (touch i c)") (auto simp: cache_get_def next_resolution_def)

lemma get_ticket:
  assumes "fst (cache_get keyset now c) = Stale r \<or> fst (cache_get keyset now c) = Miss r"
  shows "r = resolutions c + 1 \<and> resolutions (snd (cache_get keyset now c)) = r"
proof (cases "case keyset of Uuid i \<Rightarrow> Some (i, True)
      | Name name \<Rightarrow> map_option (\<lambda>a. (a_id a, is_fresh_at a now (name_ttl c))) (by_name c name)")
  case None
  with assms show ?thesis by (auto simp: cache_get_def next_resolution_def)
next
  case (Some t)
  obtain i fresh where t: "t = (i, fresh)" by (cases t)
  show ?thesis
    using assms Some t touch_fields(2) [of i c]
    by (cases "touch i c"; cases "fst (touch i c)"; cases fresh) (auto simp: cache_get_def next_resolution_def)
qed

lemma get_resolutions: "resolutions c \<le> resolutions (snd (cache_get keyset now c))"
proof (cases "fst (cache_get keyset now c)")
  case (Hit st)
  then show ?thesis
    by (cases keyset) (auto simp: cache_get_def next_resolution_def case_prod_beta split: option.splits if_splits)
qed (use get_ticket [of keyset now c] in auto)

lemma resolutions_forget: "resolutions (cache_forget name r c) = resolutions c"
  by (simp add: cache_forget_def Let_def split: option.split)

lemma insert_resolutions:
  assumes "cache_ok c"
  shows "resolutions (snd (cache_insert now st r c)) = resolutions c"
proof (cases "\<exists>e. entry_of c (ks_id st) = Some e \<and> r < e_resolution e")
  case True
  then show ?thesis using cache_insert_dropped by force
next
  case False
  then have "\<forall>e. entry_of c (ks_id st) = Some e \<longrightarrow> e_resolution e \<le> r" by auto
  then show ?thesis
    using make_room_ok [OF assms, of "ks_id st"]
    by (cases rule: cache_insert_cases [of c st r now]) simp_all
qed

section \<open>The invariant\<close>

text \<open>
  A keyset state is known when it is the default's or ZeroKMS answered some load with that
  very id and key. A selection is served what it asked for when ZeroKMS named that keyset
  for it, in an answer that landed since the selection began or, for a name, less than the
  window before.
\<close>

definition known_state :: "keyset_state \<Rightarrow> (identified_by \<times> uuid \<times> nat \<times> nat) set \<Rightarrow> keyset_state \<Rightarrow> bool" where
  "known_state dflt answers st \<longleftrightarrow>
     st = dflt \<or> (\<exists>keyset t. (keyset, ks_id st, ks_prf st, t) \<in> answers)"

definition served_keyset :: "nat \<Rightarrow> (identified_by \<times> uuid \<times> nat \<times> nat) set \<Rightarrow> identified_by \<Rightarrow> nat \<Rightarrow> keyset_state \<Rightarrow> bool" where
  "served_keyset ttl answers keyset began st \<longleftrightarrow>
     (case keyset of
        Name n \<Rightarrow> \<exists>p t. (Name n, ks_id st, p, t) \<in> answers \<and> (began \<le> t \<or> began < t + ttl)
      | Uuid i \<Rightarrow> ks_id st = i \<or> (\<exists>p t. (Uuid i, ks_id st, p, t) \<in> answers \<and> began \<le> t))"

definition bindings_answered :: "(identified_by \<times> uuid \<times> nat \<times> nat) set \<Rightarrow> keyset_cache \<Rightarrow> bool" where
  "bindings_answered answers c \<longleftrightarrow>
     (\<forall>n a. by_name c n = Some a \<longrightarrow> (\<exists>p. (Name n, a_id a, p, a_resolved_at a) \<in> answers))"

definition later_landed :: "nat \<Rightarrow> resolution \<Rightarrow> keyset_cache \<Rightarrow> bool" where
  "later_landed began r c \<longleftrightarrow>
     (\<forall>n a. by_name c n = Some a \<longrightarrow> r < a_resolution a \<longrightarrow> began \<le> a_resolved_at a)"

definition selection_ok :: "keyset_state \<Rightarrow> nat \<Rightarrow> 'x selections \<Rightarrow> 'x selection \<Rightarrow> bool" where
  "selection_ok dflt ttl s call =
     (case call of
        Loading keyset began r \<Rightarrow>
          r \<le> resolutions (ss_cache s) \<and> began \<le> ss_clock s \<and> later_landed began r (ss_cache s)
      | Selected keyset began st \<Rightarrow>
          known_state dflt (ss_answers s) st \<and> served_keyset ttl (ss_answers s) keyset began st
      | _ \<Rightarrow> True)"

definition cache_known :: "keyset_state \<Rightarrow> nat \<Rightarrow> (identified_by \<times> uuid \<times> nat \<times> nat) set \<Rightarrow> keyset_cache \<Rightarrow> bool" where
  "cache_known dflt ttl answers c \<longleftrightarrow>
     cache_ok c \<and> name_ttl c = ttl \<and> bindings_answered answers c
     \<and> (\<forall>i e. entry_of c i = Some e \<longrightarrow> known_state dflt answers (e_state e))"

definition selections_ok :: "keyset_state \<Rightarrow> nat \<Rightarrow> 'x selections \<Rightarrow> bool" where
  "selections_ok dflt ttl s \<longleftrightarrow>
     cache_known dflt ttl (ss_answers s) (ss_cache s) \<and> (\<forall>k. selection_ok dflt ttl s (ss_calls s k))"

lemma selection_ok_simps [simp]:
  "selection_ok dflt ttl s Idle"
  "selection_ok dflt ttl s (NotSelected keyset e)"
  "selection_ok dflt ttl s (Loading keyset began r)
     \<longleftrightarrow> r \<le> resolutions (ss_cache s) \<and> began \<le> ss_clock s \<and> later_landed began r (ss_cache s)"
  "selection_ok dflt ttl s (Selected keyset began st)
     \<longleftrightarrow> known_state dflt (ss_answers s) st \<and> served_keyset ttl (ss_answers s) keyset began st"
  by (simp_all add: selection_ok_def)

lemma known_state_mono: "known_state dflt A st \<Longrightarrow> A \<subseteq> B \<Longrightarrow> known_state dflt B st"
  by (auto simp: known_state_def)

lemma served_keyset_mono: "served_keyset ttl A keyset began st \<Longrightarrow> A \<subseteq> B \<Longrightarrow> served_keyset ttl B keyset began st"
  by (auto simp: served_keyset_def split: identified_by.splits)

lemma selection_ok_mono:
  assumes "selection_ok dflt ttl s call" and "resolutions (ss_cache s) \<le> resolutions (ss_cache s')"
    and "ss_clock s \<le> ss_clock s'" and "ss_answers s \<subseteq> ss_answers s'"
    and "\<And>began r. began \<le> ss_clock s \<Longrightarrow> later_landed began r (ss_cache s) \<Longrightarrow> later_landed began r (ss_cache s')"
  shows "selection_ok dflt ttl s' call"
  using assms known_state_mono [OF _ assms(4)] served_keyset_mono [OF _ assms(4)]
  by (auto simp: selection_ok_def split: selection.splits)

lemma get_cache_known:
  assumes "cache_known dflt ttl A c"
  shows "cache_known dflt ttl A (snd (cache_get keyset now c))"
  using assms cache_get_ok [of c keyset now] cache_step_config [of "OpGet keyset now" c] get_entry_state [of keyset now c]
  unfolding cache_known_def bindings_answered_def by (simp add: cache_get_frame) metis

lemma forget_cache_known:
  assumes "cache_known dflt ttl A c" and "r \<le> resolutions c"
  shows "cache_known dflt ttl A (cache_forget name r c)"
  using assms cache_forget_ok [of c r name] cache_step_config [of "OpForget name r" c] forget_entry_state [of name r c]
    by_name_forget [of name r c]
  unfolding cache_known_def bindings_answered_def by simp metis

lemma insert_cache_known:
  assumes "cache_known dflt ttl A c" and "r \<le> resolutions c"
    and "ks_name st = asked_name keyset"
  shows "cache_known dflt ttl (insert (keyset, ks_id st, ks_prf st, now) A) (snd (cache_insert now st r c))"
proof -
  let ?A = "insert (keyset, ks_id st, ks_prf st, now) A" and ?d = "snd (cache_insert now st r c)"
  have ok: "cache_ok c" using assms(1) by (simp add: cache_known_def)
  have 1: "\<exists>p. (Name n, a_id a, p, a_resolved_at a) \<in> ?A" if "by_name ?d n = Some a" for n a
    using insert_binding [OF ok that]
  proof
    assume "by_name c n = Some a"
    with assms(1) show ?thesis unfolding cache_known_def bindings_answered_def by blast
  next
    assume b: "ks_name st = Some n \<and> a = \<lparr>a_id = ks_id st, a_resolved_at = now, a_resolution = r\<rparr>
      \<and> watermark c \<le> r \<and> (\<forall>b. by_name c n = Some b \<longrightarrow> a_resolution b \<le> r)"
    then have "keyset = Name n" using assms(3) by (cases keyset) (auto simp: asked_name_def)
    with b show ?thesis by auto
  qed
  have 2: "known_state dflt ?A (e_state e)" if "entry_of ?d i = Some e" for i e
    using insert_entry_state [OF ok that]
  proof
    assume "e_state e = st"
    then show ?thesis by (auto simp: known_state_def)
  next
    assume "\<exists>f. entry_of c i = Some f \<and> e_state f = e_state e"
    then obtain f where "entry_of c i = Some f" "e_state f = e_state e" by blast
    with assms(1) have "known_state dflt A (e_state e)" unfolding cache_known_def by metis
    then show ?thesis by (rule known_state_mono) blast
  qed
  have "cache_ok ?d" "name_ttl ?d = ttl"
    using cache_insert_ok [OF ok assms(2)] cache_step_config [of "OpInsert now st r" c] assms(1)
    by (simp_all add: cache_known_def)
  with 1 2 show ?thesis by (simp add: cache_known_def bindings_answered_def)
qed

section \<open>Preservation\<close>

lemma selections_okI:
  assumes "cache_known dflt ttl (ss_answers s') (ss_cache s')" and "ss_calls s' = (ss_calls s)(k := call)"
    and "selection_ok dflt ttl s' call" and "\<And>j. selection_ok dflt ttl s' (ss_calls s j)"
  shows "selections_ok dflt ttl s'"
  using assms by (simp add: selections_ok_def)

lemma start_ok:
  assumes inv: "selections_ok dflt ttl s" and now: "ss_clock s \<le> now"
  shows "selections_ok dflt ttl (do_start k keyset now s)"
proof -
  let ?c = "ss_cache s" and ?A = "ss_answers s"
  obtain x d where g: "cache_get keyset now ?c = (x, d)" by (cases "cache_get keyset now ?c")
  have known: "cache_known dflt ttl ?A ?c" using inv by (simp add: selections_ok_def)
  then have ok: "cache_ok ?c" and ttl: "name_ttl ?c = ttl" by (simp_all add: cache_known_def)
  then have so: "store_ok ?c" and tk: "tickets_ok ?c" by (simp_all add: cache_ok_def)
  have d: "cache_known dflt ttl ?A d" "by_name d = by_name ?c" "resolutions ?c \<le> resolutions d"
    using get_cache_known [OF known, of keyset now] cache_get_frame(1) [of keyset now ?c]
      get_resolutions [of ?c keyset now] g by simp_all
  have frame: "selection_ok dflt ttl s' (ss_calls s j)"
    if "ss_cache s' = d" "ss_clock s' = now" "ss_answers s' = ?A" for j s'
  proof (rule selection_ok_mono [of dflt ttl s])
    show "selection_ok dflt ttl s (ss_calls s j)" using inv by (simp add: selections_ok_def)
    fix b q assume "later_landed b q ?c"
    then show "later_landed b q (ss_cache s')" using that(1) d(2) by (simp add: later_landed_def)
  qed (use that now d(3) in simp_all)
  have waits: "r \<le> resolutions d \<and> later_landed now r d" if "x = Stale r \<or> x = Miss r" for r
  proof -
    have r: "r = resolutions ?c + 1" "resolutions d = r" using get_ticket [of keyset now ?c r] that g by auto
    have "a_resolution a \<le> resolutions ?c" if "by_name ?c n = Some a" for n a
      using tickets_okD [OF tk that] tk unfolding tickets_ok_def by (meson order.trans)
    with r d(2) show ?thesis by (fastforce simp: later_landed_def)
  qed
  have hits: "known_state dflt ?A st \<and> served_keyset ttl ?A keyset now st" if x: "x = Hit st" for st
  proof (cases keyset)
    case (Name n)
    then obtain a e where a: "by_name ?c n = Some a" "is_fresh_at a now ttl" "entry_of ?c (a_id a) = Some e" "st = e_state e"
      using hit_by_name [of n now ?c st] x g ttl by auto
    moreover from a(1) known obtain p where "(Name n, a_id a, p, a_resolved_at a) \<in> ?A"
      unfolding cache_known_def bindings_answered_def by blast
    moreover have "now \<le> a_resolved_at a \<or> now < a_resolved_at a + ttl" using a(2) by (auto simp: is_fresh_at_def)
    moreover have "known_state dflt ?A st" using known a(3,4) unfolding cache_known_def by blast
    ultimately show ?thesis using own_id [OF so a(3)] Name by (auto simp: served_keyset_def)
  next
    case (Uuid i)
    then obtain e where e: "entry_of ?c i = Some e" "st = e_state e" using hit_by_id [of i now ?c st] x g by auto
    then have "known_state dflt ?A st" using known unfolding cache_known_def by blast
    then show ?thesis using own_id [OF so e(1)] e(2) Uuid by (simp add: served_keyset_def)
  qed
  show ?thesis
  proof (cases "\<exists>st. x = Hit st")
    case True
    then obtain st where x: "x = Hit st" by blast
    then have s': "do_start k keyset now s
        = s\<lparr>ss_cache := d, ss_clock := now, ss_calls := (ss_calls s)(k := Selected keyset now st)\<rparr>"
      using g by (simp add: do_start_def select_start_def)
    show ?thesis unfolding s'
      by (rule selections_okI [where s = s and k = k and call = "Selected keyset now st"]) (use hits [OF x] d(1) in \<open>simp_all add: frame\<close>)
  next
    case False
    then obtain r where x: "x = Stale r \<or> x = Miss r" by (cases x) auto
    then have s': "do_start k keyset now s
        = s\<lparr>ss_cache := d, ss_clock := now, ss_calls := (ss_calls s)(k := Loading keyset now r)\<rparr>"
      using g by (auto simp: do_start_def select_start_def)
    show ?thesis unfolding s'
      by (rule selections_okI [where s = s and k = k and call = "Loading keyset now r"]) (simp_all add: d(1) frame waits [OF x])
  qed
qed

lemma land_ok:
  assumes inv: "selections_ok dflt ttl s" and now: "ss_clock s \<le> now"
    and call: "ss_calls s k = Loading keyset began r"
  shows "selections_ok dflt ttl (do_land hmac k keyset began r answer now s)"
proof -
  let ?c = "ss_cache s" and ?A = "ss_answers s"
  have known: "cache_known dflt ttl ?A ?c" using inv by (simp add: selections_ok_def)
  then have ok: "cache_ok ?c" and so: "store_ok ?c" by (simp_all add: cache_known_def cache_ok_def)
  have "selection_ok dflt ttl s (Loading keyset began r)" using inv call unfolding selections_ok_def by metis
  then have r: "r \<le> resolutions ?c" "began \<le> ss_clock s" "later_landed began r ?c" by (simp_all add: selection_ok_def)
  have calls: "selection_ok dflt ttl s' (ss_calls s j)"
    if "ss_clock s' = now" "?A \<subseteq> ss_answers s'" "resolutions (ss_cache s') = resolutions ?c"
      "\<And>n a. by_name (ss_cache s') n = Some a \<Longrightarrow> by_name ?c n = Some a \<or> a_resolved_at a = now" for j s'
  proof (rule selection_ok_mono [of dflt ttl s])
    show "selection_ok dflt ttl s (ss_calls s j)" using inv by (simp add: selections_ok_def)
    fix b q assume "b \<le> ss_clock s" "later_landed b q ?c"
    then show "later_landed b q (ss_cache s')" using that(4) now unfolding later_landed_def by fastforce
  qed (use that now in simp_all)
  show ?thesis
  proof (cases answer)
    case (Inl e)
    let ?d = "case asked_name keyset of
        Some name \<Rightarrow> if is_keyset_not_found (Kms e) then cache_forget name r ?c else ?c | None \<Rightarrow> ?c"
    obtain c' where c': "c' = ?d" by simp
    have "c' = ?c \<or> (\<exists>name. c' = cache_forget name r ?c)" unfolding c' by (auto split: option.split)
    then have d: "cache_known dflt ttl ?A c'" "resolutions c' = resolutions ?c"
        "\<And>n a. by_name c' n = Some a \<Longrightarrow> by_name ?c n = Some a"
      using known forget_cache_known [OF known r(1)] resolutions_forget [of _ r ?c] by_name_forget [of _ r ?c] by auto
    have s': "do_land hmac k keyset began r answer now s
        = s\<lparr>ss_cache := c', ss_clock := now, ss_calls := (ss_calls s)(k := NotSelected keyset (Kms e))\<rparr>"
      by (simp add: do_land_def select_land_def load_keyset_def Inl c')
    show ?thesis unfolding s'
    proof (rule selections_okI [where s = s and k = k and call = "NotSelected keyset (Kms e)"])
      show "selection_ok dflt ttl (s\<lparr>ss_cache := c', ss_clock := now,
          ss_calls := (ss_calls s)(k := NotSelected keyset (Kms e))\<rparr>) (ss_calls s j)" for j
        using d by (intro calls) auto
    qed (use d(1) in simp_all)
  next
    case (Inr x)
    obtain i key where x: "x = (i, key)" by (cases x)
    let ?st = "\<lparr>ks_id = i, ks_name = asked_name keyset, ks_prf = hmac key\<rparr>"
    let ?B = "insert (keyset, i, hmac key, now) ?A"
    obtain st d where ins: "cache_insert now ?st r ?c = (st, d)" by (cases "cache_insert now ?st r ?c")
    have d: "cache_known dflt ttl ?B d"
      using insert_cache_known [OF known r(1), of ?st keyset now] ins by simp
    have names: "by_name ?c n = Some a \<or> a_resolved_at a = now" if "by_name d n = Some a" for n a
      using insert_binding [OF ok, of now ?st r n a] ins that by auto
    have res: "resolutions d = resolutions ?c" using insert_resolutions [OF ok, of now ?st r] ins by simp
    have at_now: "served_keyset ttl ?B keyset began st" if "ks_id st = i"
    proof -
      have "(keyset, ks_id st, hmac key, now) \<in> ?B" "began \<le> now" using that r(2) now by auto
      then show ?thesis by (cases keyset) (force simp only: served_keyset_def identified_by.case)+
    qed
    have sel: "known_state dflt ?B st \<and> served_keyset ttl ?B keyset began st"
      using insert_result [of ?st ?c r now]
    proof (elim disjE exE conjE)
      fix n a e
      assume a: "ks_name ?st = Some n" "by_name ?c n = Some a" "r < a_resolution a" "entry_of ?c (a_id a) = Some e"
        "fst (cache_insert now ?st r ?c) = e_state e"
      then have k: "keyset = Name n" "st = e_state e" using ins by (cases keyset; simp add: asked_name_def)+
      obtain p where "(Name n, a_id a, p, a_resolved_at a) \<in> ?A"
        using known a(2) unfolding cache_known_def bindings_answered_def by blast
      moreover have "began \<le> a_resolved_at a" using r(3) a(2,3) by (simp add: later_landed_def)
      moreover have "known_state dflt ?A st" using known a(4) k(2) unfolding cache_known_def by blast
      ultimately show ?thesis
        using own_id [OF so a(4)] k by (auto simp: served_keyset_def known_state_def)
    next
      fix e assume e: "entry_of ?c (ks_id ?st) = Some e" "fst (cache_insert now ?st r ?c) = e_state e"
      then have "known_state dflt ?A st" "ks_id st = i"
        using known own_id [OF so, of i e] ins unfolding cache_known_def by auto
      with at_now show ?thesis using known_state_mono [of dflt ?A st ?B] by blast
    next
      assume "fst (cache_insert now ?st r ?c) = ?st"
      then have "st = ?st" using ins by simp
      with at_now show ?thesis by (auto simp: known_state_def)
    qed
    let ?s' = "s\<lparr>ss_cache := d, ss_clock := now, ss_calls := (ss_calls s)(k := Selected keyset began st),
        ss_answers := ?B\<rparr>"
    have s': "do_land hmac k keyset began r answer now s = ?s'"
      by (simp add: do_land_def select_land_def load_keyset_def Inr x ins)
    show ?thesis unfolding s'
    proof (rule selections_okI [where s = s and k = k and call = "Selected keyset began st"])
      show "selection_ok dflt ttl ?s' (ss_calls s j)" for j
        using names res by (intro calls) auto
    qed (use d sel in simp_all)
  qed
qed

lemma select_step_ok:
  assumes "select_step hmac s s'" and "selections_ok dflt ttl s"
  shows "selections_ok dflt ttl s'"
  using assms
proof cases
  case (StartSelect k now keyset)
  with assms(2) show ?thesis by (simp add: start_ok)
next
  case (LandSelect k keyset began r now answer)
  with assms(2) show ?thesis by (simp add: land_ok)
qed (auto simp: selections_ok_def selection_ok_def split: selection.splits)

lemma cipher_init_ok:
  assumes "cipher_init hmac answer now b = Inr sc" and "0 < cb_cache_size b"
  shows "selections_ok (sc_default sc) (cb_name_ttl b) (selections_init sc now)"
proof -
  obtain i key where "answer = Inr (i, key)" using assms(1)
    by (auto simp: cipher_init_def load_default_keyset_def map_sum_Inr_iff)
  with assms(1) have sc: "sc = \<lparr>sc_keysets = new_cache (cb_cache_size b) (cb_name_ttl b)
      \<lparr>ks_id = i, ks_name = None, ks_prf = hmac key\<rparr> now, sc_default = \<lparr>ks_id = i, ks_name = None, ks_prf = hmac key\<rparr>\<rparr>"
    by (simp add: cipher_init_def load_default_keyset_def)
  show ?thesis
    using new_cache_ok [OF assms(2), of "cb_name_ttl b" "\<lparr>ks_id = i, ks_name = None, ks_prf = hmac key\<rparr>" now]
    by (auto simp: sc selections_ok_def selections_init_def cache_known_def bindings_answered_def known_state_def
        new_cache_def entry_of_def default_id_def split: if_splits)
qed

lemma reachable_selections_ok:
  assumes "cipher_init hmac answer now b = Inr sc" and "0 < cb_cache_size b"
    and "(select_step hmac)\<^sup>*\<^sup>* (selections_init sc now) s"
  shows "selections_ok (sc_default sc) (cb_name_ttl b) s"
  using assms(3) by (induction rule: rtranclp_induct) (simp_all add: cipher_init_ok [OF assms(1,2)] select_step_ok)

section \<open>Properties\<close>

text \<open>
  C4. Callers get the keyset they asked for. However selections interleave, and whatever
  ZeroKMS answers them, a keyset handed to a selection by name is one ZeroKMS gave for that
  name, in an answer that landed after the selection began or less than the name window
  before; a selection by id gets that id, or what ZeroKMS answered for it; and the key the
  keyset carries is one ZeroKMS served for that keyset, or the default's.\<close>

theorem selections_get_their_keyset:
  assumes "cipher_init hmac answer now b = Inr sc" and "0 < cb_cache_size b"
    and "(select_step hmac)\<^sup>*\<^sup>* (selections_init sc now) s"
    and "ss_calls s k = Selected keyset began st"
  shows "(case keyset of
      Name n \<Rightarrow> \<exists>p t. (Name n, ks_id st, p, t) \<in> ss_answers s \<and> (began \<le> t \<or> began < t + cb_name_ttl b)
    | Uuid i \<Rightarrow> ks_id st = i \<or> (\<exists>p t. (Uuid i, ks_id st, p, t) \<in> ss_answers s \<and> began \<le> t))
    \<and> (st = default_keyset sc \<or> (\<exists>asked t. (asked, ks_id st, ks_prf st, t) \<in> ss_answers s))"
proof -
  have "selection_ok (sc_default sc) (cb_name_ttl b) s (ss_calls s k)"
    using reachable_selections_ok [OF assms(1-3)] by (simp add: selections_ok_def)
  then show ?thesis
    by (simp add: assms(4) served_keyset_def known_state_def default_keyset_def)
qed

text \<open>A cipher, and a selection by name that ZeroKMS answers with keyset 7.\<close>

definition demo_cipher_builder :: cipher_builder where
  "demo_cipher_builder = keyset_name_ttl 100 (keyset_cache_size 4 cipher_builder_new)"

definition demo_cipher :: stack_cipher where
  "demo_cipher = \<lparr>sc_keysets = new_cache 4 100 \<lparr>ks_id = 1, ks_name = None, ks_prf = 0\<rparr> 0,
      sc_default = \<lparr>ks_id = 1, ks_name = None, ks_prf = 0\<rparr>\<rparr>"

theorem selections_get_their_keyset_witness:
  "\<exists>s :: nat selections. ss_calls s 0 = Selected (Name ''n'') 0 \<lparr>ks_id = 7, ks_name = Some ''n'', ks_prf = 2\<rparr>
     \<and> (\<exists>p t. (Name ''n'', 7, p, t) \<in> ss_answers s)"
proof -
  let ?s0 = "selections_init demo_cipher 0 :: nat selections"
  let ?s1 = "do_start 0 (Name ''n'') 0 ?s0" and ?st = "\<lparr>ks_id = 7, ks_name = Some ''n'', ks_prf = 2\<rparr>"
  let ?s2 = "do_land length 0 (Name ''n'') 0 1 (Inr (7, [1, 1])) 5 ?s1"
  have i: "cipher_init length (Inr (1, []) :: (nat stack_kms_error, uuid \<times> bytes) result) 0 demo_cipher_builder = Inr demo_cipher"
    by (simp add: cipher_init_def load_default_keyset_def demo_cipher_builder_def demo_cipher_def cipher_builder_new_def
        keyset_cache_size_def keyset_name_ttl_def)
  have c1: "ss_calls ?s1 0 = Loading (Name ''n'') 0 1" "ss_clock ?s1 = 0"
    by (simp_all add: do_start_def select_start_def selections_init_def demo_cipher_def cache_eval)
  have c2: "ss_calls ?s2 0 = Selected (Name ''n'') 0 ?st"
    by (simp add: do_land_def select_land_def load_keyset_def asked_name_def do_start_def select_start_def
        selections_init_def demo_cipher_def cache_eval)
  have "select_step length ?s0 ?s1" by (rule StartSelect) (simp_all add: selections_init_def)
  moreover have "select_step length ?s1 ?s2" by (rule LandSelect [OF c1(1)]) (simp add: c1(2))
  ultimately have "(select_step length)\<^sup>*\<^sup>* ?s0 ?s2" by simp
  from selections_get_their_keyset [OF i _ this c2] c2 show ?thesis
    by (intro exI [of _ ?s2] conjI) (auto simp: demo_cipher_builder_def keyset_name_ttl_def keyset_cache_size_def)
qed

text \<open>
  C38. Only ZeroKMS can take a name away. A load that fails, over HTTP, fails the selection
  with its error and leaves the cache as it was, unless the selection was by name and
  ZeroKMS answered it with a 404, which forgets the name as of that selection's ticket: a
  refused token, a refused client, an endpoint that is not known or a transport that
  failed says nothing about the name.\<close>

theorem only_a_404_forgets_a_name:
  fixes kms :: "('k, 'x, 'c, 'p, 'v, 'u, 'w) stack_kms"
  assumes "sk_connection kms = http_connection_of (sk_api kms) post generate retrieve fallible load"
    and "fst (kms_load_index_key kms (Some keyset) conn) = Inl e"
  shows "let (granted, conn) = get_token (sk_api kms) (sk_credentials kms) conn;
      request = \<lparr>lr_client_id = key_id (sk_client_key kms), lr_keyset_id = Some keyset\<rparr>;
      missing = (case granted of
          Inr token \<Rightarrow> response_status (sk_api kms) post load request (st_secret token) conn = Some 404
        | Inl (_ :: 'x stack_kms_error) \<Rightarrow> False) in
    select_land hmac keyset r (Inl e :: ('x stack_kms_error, uuid \<times> bytes) result) now c
      = (Inl (Kms e), case keyset of
           Name name \<Rightarrow> if missing then cache_forget name r c else c
         | Uuid _ \<Rightarrow> c)"
proof -
  obtain granted :: "('x stack_kms_error, 'u kms_token) result" and conn1
    where g: "get_token (sk_api kms) (sk_credentials kms) conn = (granted, conn1)" by (rule prod.exhaust)
  let ?request = "\<lparr>lr_client_id = key_id (sk_client_key kms), lr_keyset_id = Some keyset\<rparr>"
  have "is_keyset_not_found (Kms e) \<longleftrightarrow> (case granted of
      Inr token \<Rightarrow> response_status (sk_api kms) post load ?request (st_secret token) conn1 = Some 404 | Inl _ \<Rightarrow> False)"
  proof (cases granted)
    case (Inl x)
    then have "e = x" using assms(2) g by (simp add: kms_load_index_key_def kms_load_keyset_def)
    moreover have "\<not> is_keyset_not_found (Kms x)"
      using g Inl by (auto simp: get_token_def Let_def split: prod.splits sum.splits if_splits)
    ultimately show ?thesis using Inl by simp
  next
    case (Inr token)
    let ?l = "client_load_keyset (sk_derivation kms) (sk_connection kms) (sk_client_key kms) (Some keyset) (st_secret token) conn1"
    from assms(2) g Inr obtain y where y: "fst ?l = Inl y" "e = LoadKeyset y"
      by (cases "?l") (auto simp: kms_load_index_key_def kms_load_keyset_def map_sum_Inl_iff)
    have "is_keyset_not_found (Kms e) \<longleftrightarrow> (\<exists>z. y = KeysetNotFound z)" unfolding y(2) by (cases y) simp_all
    then show ?thesis
      using load_not_found_iff [of "sk_derivation kms" "sk_api kms" post generate retrieve fallible load "sk_client_key kms"
          "Some keyset" "st_secret token" conn1] y(1) Inr assms(1) by auto
  qed
  moreover have "select_land hmac keyset r (Inl e :: ('x stack_kms_error, uuid \<times> bytes) result) now c
      = (Inl (Kms e), case keyset of
           Name name \<Rightarrow> if is_keyset_not_found (Kms e) then cache_forget name r c else c
         | Uuid _ \<Rightarrow> c)"
    by (cases keyset) (simp_all add: select_land_def load_keyset_def asked_name_def)
  ultimately show ?thesis by (simp only: g Let_def split_conv)
qed

text \<open>A client whose every load is answered with a 404.\<close>

definition missing_kms :: "(unit, nat, unit, unit, unit, rstr, unit) stack_kms" where
  "missing_kms =
     \<lparr>sk_api = path_api, sk_derivation = demo_derivation, sk_connection = missing_connection, sk_keys_per_req = 2,
      sk_concurrent_reqs = 2,
      sk_credentials = (\<lambda>w. (Inr \<lparr>st_secret = lit ''t'', st_zerokms_url = Inr [47]\<rparr>, w)), sk_client_key = demo_kms_key\<rparr>"

definition demo_missing :: "nat stack_kms_error" where
  "demo_missing = LoadKeyset (KeysetNotFound
     (vitur_error NotFound ''Resource not found'' (FailureResponse 404 (Some []) Map.empty)))"

theorem only_a_404_forgets_a_name_witness:
  "select_land length (Name ''n'') 1 (Inl demo_missing) 0 (demo_cache 4)
     = (Inl (Kms demo_missing), cache_forget ''n'' 1 (demo_cache 4))"
proof -
  have c: "sk_connection missing_kms
      = http_connection_of (sk_api missing_kms) missing_post mute_codec mute_codec mute_codec load_codec"
    by (simp add: missing_kms_def missing_connection_def)
  have t: "get_token (sk_api missing_kms) (sk_credentials missing_kms) demo_conn
      = (Inr \<lparr>st_secret = lit ''t'', st_zerokms_url = Inr [47]\<rparr> :: (nat stack_kms_error, rstr kms_token) result, demo_conn)"
    by (simp add: get_token_def missing_kms_def demo_conn_def has_base_url_def)
  have e: "fst (kms_load_index_key missing_kms (Some (Name ''n'')) demo_conn) = Inl demo_missing"
    by (simp add: kms_load_index_key_def kms_load_keyset_def t client_load_keyset_def)
      (simp add: missing_kms_def missing_connection_def http_connection_of_def http_sender_def http_send_def load_codec_def
        demo_conn_def missing_post_def http_receive_def classify_response_def success_status_def header_map_to_hash_def
        load_error_from_def vitur_error_def demo_missing_def from_utf8_lossy.simps)
  have m: "response_status (sk_api missing_kms) missing_post load_codec
      \<lparr>lr_client_id = key_id (sk_client_key missing_kms), lr_keyset_id = Some (Name ''n'')\<rparr> (lit ''t'') demo_conn = Some 404"
    by (simp add: response_status_def load_codec_def demo_conn_def missing_post_def)
  show ?thesis using only_a_404_forgets_a_name [OF c e, of length 1 0 "demo_cache 4"] by (simp add: t m)
qed

end
