(* ===== verification/Kms_Setup.thy ===== *)
theory Kms_Setup
  imports Kms_Client
begin

text \<open>
  Setting a ZeroKMS client up: the key providers of \<open>key_provider.rs\<close> and
  \<open>secret_key.rs\<close>, and the builder of \<open>builder.rs\<close>, which picks the endpoint, checks the
  limits and loads the client key, in that order. The decoders of the \<open>base16ct\<close>,
  \<open>base64ct\<close>, \<open>uuid\<close> and \<open>recipher\<close> crates and the environment are arguments, their errors
  the texts they display.
\<close>

section \<open>Key providers\<close>

datatype key_provider_error = NotConfigured rstr | InvalidKey rstr | LoadError rstr

record 'k key_codec =
  hex_decode :: "rstr \<Rightarrow> bytes option"
  base64_decode :: "rstr \<Rightarrow> (rstr, bytes) result"
  uuid_parse :: "rstr \<Rightarrow> (rstr, uuid) result"
  keyset_from_bytes :: "bytes \<Rightarrow> (rstr, 'k) result"

text \<open>The environment of the process, whose values are bytes, and \<open>std::env::var\<close>.\<close>

type_synonym env_vars = "string \<Rightarrow> bytes option"

datatype var_error = NotPresent | NotUnicode

definition env_var :: "env_vars \<Rightarrow> string \<Rightarrow> (var_error, rstr) result" where
  "env_var env name =
     (case env name of
        None \<Rightarrow> Inl NotPresent
      | Some bs \<Rightarrow> ok_or (from_utf8 bs) NotUnicode)"

definition CS_CLIENT_ID :: string where
  "CS_CLIENT_ID = ''CS_CLIENT_ID''"

definition CS_CLIENT_KEY :: string where
  "CS_CLIENT_KEY = ''CS_CLIENT_KEY''"

definition CS_ZEROKMS_HOST :: "string list" where
  "CS_ZEROKMS_HOST = [''CS_ZEROKMS_HOST'', ''CS_VITUR_HOST'']"

definition decode_client_key_material :: "'k key_codec \<Rightarrow> rstr \<Rightarrow> (rstr, bytes) result" where
  "decode_client_key_material kc s =
     (case hex_decode kc s of
        Some bytes \<Rightarrow> Inr bytes
      | None \<Rightarrow> map_sum (\<lambda>e. lit ''invalid encoding (expected hex or base64): '' @ e) (\<lambda>bs. bs) (base64_decode kc s))"

definition client_key_from_bytes :: "'k key_codec \<Rightarrow> uuid \<Rightarrow> bytes \<Rightarrow> (rstr, 'k client_key) result" where
  "client_key_from_bytes kc i bytes =
     map_sum (\<lambda>e. e) (\<lambda>k. \<lparr>key_id = i, ck_keyset = k\<rparr>) (keyset_from_bytes kc bytes)"

definition client_key_from_encoded :: "'k key_codec \<Rightarrow> uuid \<Rightarrow> rstr \<Rightarrow> (rstr, 'k client_key) result" where
  "client_key_from_encoded kc i encoded =
     and_then (map_sum (\<lambda>e. lit ''invalid encoding: '' @ e) (\<lambda>bs. bs) (decode_client_key_material kc encoded))
       (client_key_from_bytes kc i)"

record secret_key =
  sk_client_id :: uuid
  sk_material :: bytes

definition secret_key_from_hex :: "'k key_codec \<Rightarrow> rstr \<Rightarrow> rstr \<Rightarrow> (key_provider_error, secret_key) result" where
  "secret_key_from_hex kc client_id encoded =
     and_then (map_sum (\<lambda>e. InvalidKey (lit ''invalid client_key: '' @ e)) (\<lambda>bs. bs)
         (decode_client_key_material kc encoded))
       (\<lambda>bytes. map_sum (\<lambda>e. InvalidKey (lit ''invalid client_id: '' @ e))
          (\<lambda>i. \<lparr>sk_client_id = i, sk_material = bytes\<rparr>) (uuid_parse kc client_id))"

definition secret_key_from_env :: "'k key_codec \<Rightarrow> env_vars \<Rightarrow> (key_provider_error, secret_key option) result" where
  "secret_key_from_env kc env =
     (case env_var env CS_CLIENT_ID of
        Inl _ \<Rightarrow> Inr None
      | Inr i \<Rightarrow>
          (case env_var env CS_CLIENT_KEY of
             Inl _ \<Rightarrow> Inr None
           | Inr key \<Rightarrow> map_sum (\<lambda>e. e) Some (secret_key_from_hex kc i key)))"

definition secret_client_key :: "'k key_codec \<Rightarrow> secret_key \<Rightarrow> (key_provider_error, 'k client_key) result" where
  "secret_client_key kc sk =
     map_sum InvalidKey (\<lambda>k. k) (client_key_from_bytes kc (sk_client_id sk) (sk_material sk))"

definition env_parse :: "'k key_codec \<Rightarrow> rstr \<Rightarrow> rstr \<Rightarrow> (key_provider_error, 'k client_key) result" where
  "env_parse kc client_id client_key =
     and_then (map_sum (\<lambda>e. InvalidKey (lit ''invalid '' @ lit CS_CLIENT_ID @ lit '': '' @ e)) (\<lambda>i. i)
         (uuid_parse kc client_id)) (\<lambda>i.
     and_then (map_sum (\<lambda>e. InvalidKey (lit ''invalid '' @ lit CS_CLIENT_KEY @ lit '': '' @ e)) (\<lambda>bs. bs)
         (decode_client_key_material kc client_key)) (\<lambda>bytes.
     map_sum (\<lambda>e. InvalidKey (lit ''invalid '' @ lit CS_CLIENT_KEY @ lit '': '' @ e)) (\<lambda>k. k)
       (client_key_from_bytes kc i bytes)))"

definition env_client_key :: "'k key_codec \<Rightarrow> env_vars \<Rightarrow> (key_provider_error, 'k client_key) result" where
  "env_client_key kc env =
     and_then (map_sum (\<lambda>_. NotConfigured (lit CS_CLIENT_ID @ lit '' environment variable not set'')) (\<lambda>i. i)
         (env_var env CS_CLIENT_ID)) (\<lambda>i.
     and_then (map_sum (\<lambda>_. NotConfigured (lit CS_CLIENT_KEY @ lit '' environment variable not set'')) (\<lambda>key. key)
         (env_var env CS_CLIENT_KEY))
       (env_parse kc i))"

text \<open>A provider is what its \<open>client_key\<close> returns, given the world it looks at.\<close>

type_synonym ('k, 'w) provider = "'w \<Rightarrow> (key_provider_error, 'k client_key) result"

definition static_client_key :: "'k client_key \<Rightarrow> ('k, 'w) provider" where
  "static_client_key key w = Inr key"

definition option_client_key :: "('k, 'w) provider option \<Rightarrow> ('k, 'w) provider" where
  "option_client_key p w =
     (case p of
        Some provider \<Rightarrow> provider w
      | None \<Rightarrow> Inl (NotConfigured (lit ''no explicit key provided'')))"

definition fallback_client_key :: "('k, 'w) provider \<Rightarrow> ('k, 'w) provider \<Rightarrow> ('k, 'w) provider" where
  "fallback_client_key primary fallback w =
     (case primary w of
        Inr key \<Rightarrow> Inr key
      | Inl (NotConfigured _) \<Rightarrow> fallback w
      | Inl e \<Rightarrow> Inl e)"

text \<open>
  The profile directory as a provider: the store of the current workspace and the key file
  in it, each absent (its text) or failing otherwise.
\<close>

datatype profile_failure = Absent rstr | Broken rstr

definition load_failure :: "profile_failure \<Rightarrow> key_provider_error" where
  "load_failure e = (case e of Absent m \<Rightarrow> NotConfigured m | Broken m \<Rightarrow> LoadError m)"

definition profile_client_key ::
  "'k key_codec \<Rightarrow> ('w \<Rightarrow> (profile_failure, 'ws) result) \<Rightarrow> ('ws \<Rightarrow> (profile_failure, secret_key) result)
     \<Rightarrow> ('k, 'w) provider" where
  "profile_client_key kc current_workspace_store load_profile w =
     and_then (map_sum load_failure (\<lambda>s. s) (current_workspace_store w)) (\<lambda>ws_store.
     and_then (map_sum load_failure (\<lambda>k. k) (load_profile ws_store)) (secret_client_key kc))"

text \<open>\<open>stack-encrypt\<close>'s choice: the environment, then the profile where there is one.\<close>

definition profile_or_not_configured :: "('k, 'w) provider option \<Rightarrow> ('k, 'w) provider" where
  "profile_or_not_configured store w =
     (case store of
        Some provider \<Rightarrow> provider w
      | None \<Rightarrow> Inl (NotConfigured
          (lit ''no client key: set CS_CLIENT_ID / CS_CLIENT_KEY, or run `npx stash auth login`'')))"

definition client_key_provider :: "'k key_codec \<Rightarrow> ('w \<Rightarrow> env_vars) \<Rightarrow> ('k, 'w) provider option \<Rightarrow> ('k, 'w) provider" where
  "client_key_provider kc env_of store =
     fallback_client_key (\<lambda>w. env_client_key kc (env_of w)) (profile_or_not_configured store)"

section \<open>The builder\<close>

record 'u http_connection_opts =
  ho_base_url :: "'u option"
  ho_request_timeout :: "nat option"
  ho_connect_timeout :: "nat option"
  ho_pool_idle_timeout :: "nat option"

definition http_opts_new :: "'u option \<Rightarrow> 'u http_connection_opts" where
  "http_opts_new url =
     \<lparr>ho_base_url = url, ho_request_timeout = None, ho_connect_timeout = None, ho_pool_idle_timeout = None\<rparr>"

definition REQUEST_TIMEOUT_SECS :: nat where
  "REQUEST_TIMEOUT_SECS = 10"

definition request_timeout_of :: "'u http_connection_opts \<Rightarrow> nat" where
  "request_timeout_of opts =
     (case ho_request_timeout opts of Some t \<Rightarrow> t | None \<Rightarrow> REQUEST_TIMEOUT_SECS)"

datatype 'x builder_error =
    ClientInit "'x stack_kms_error"
  | BuilderAuth auth_error
  | BuilderKeyProvider key_provider_error
  | InvalidConfig invalid_client_opts
  | BuilderEndpoint string invalid_endpoint

record 'u kms_builder =
  kb_connection :: "'u http_connection_opts"
  kb_max_keys_per_req :: nat
  kb_max_concurrent_reqs :: nat

definition kms_builder_new :: "'u kms_builder" where
  "kms_builder_new =
     \<lparr>kb_connection = http_opts_new None, kb_max_keys_per_req = DEFAULT_KEYS_PER_REQ,
      kb_max_concurrent_reqs = DEFAULT_CONCURRENT_REQS\<rparr>"

definition builder_with_base_url :: "'u \<Rightarrow> 'u kms_builder \<Rightarrow> 'u kms_builder" where
  "builder_with_base_url url b = b\<lparr>kb_connection := (kb_connection b)\<lparr>ho_base_url := Some url\<rparr>\<rparr>"

definition builder_with_request_timeout :: "nat \<Rightarrow> 'u kms_builder \<Rightarrow> 'u kms_builder" where
  "builder_with_request_timeout secs b = b\<lparr>kb_connection := (kb_connection b)\<lparr>ho_request_timeout := Some secs\<rparr>\<rparr>"

definition builder_with_connect_timeout :: "nat \<Rightarrow> 'u kms_builder \<Rightarrow> 'u kms_builder" where
  "builder_with_connect_timeout secs b = b\<lparr>kb_connection := (kb_connection b)\<lparr>ho_connect_timeout := Some secs\<rparr>\<rparr>"

definition builder_with_pool_idle_timeout :: "nat \<Rightarrow> 'u kms_builder \<Rightarrow> 'u kms_builder" where
  "builder_with_pool_idle_timeout secs b =
     b\<lparr>kb_connection := (kb_connection b)\<lparr>ho_pool_idle_timeout := Some secs\<rparr>\<rparr>"

definition builder_with_max_keys :: "nat \<Rightarrow> 'u kms_builder \<Rightarrow> 'u kms_builder" where
  "builder_with_max_keys n b = b\<lparr>kb_max_keys_per_req := n\<rparr>"

definition builder_with_max_concurrent :: "nat \<Rightarrow> 'u kms_builder \<Rightarrow> 'u kms_builder" where
  "builder_with_max_concurrent n b = b\<lparr>kb_max_concurrent_reqs := n\<rparr>"

fun base_url_from_env :: "'u url_api \<Rightarrow> env_vars \<Rightarrow> string list \<Rightarrow> ('x builder_error, 'u option) result" where
  "base_url_from_env api env [] = Inr None"
| "base_url_from_env api env (v # rest) =
     (case env_var env v of
        Inr value \<Rightarrow> map_sum (BuilderEndpoint v) Some (endpoint_from_str api value)
      | Inl _ \<Rightarrow> base_url_from_env api env rest)"

definition resolve_endpoint ::
  "'u url_api \<Rightarrow> env_vars \<Rightarrow> 'u http_connection_opts \<Rightarrow> ('x builder_error, 'u http_connection_opts) result" where
  "resolve_endpoint api env conn =
     (if ho_base_url conn = None then
        map_sum (\<lambda>e. e) (\<lambda>found. case found of Some endpoint \<Rightarrow> conn\<lparr>ho_base_url := Some endpoint\<rparr> | None \<Rightarrow> conn)
          (base_url_from_env api env CS_ZEROKMS_HOST)
      else Inr conn)"

definition build_opts ::
  "'u url_api \<Rightarrow> env_vars \<Rightarrow> 'u kms_builder \<Rightarrow> ('x builder_error, 'u http_connection_opts client_opts) result" where
  "build_opts api env b =
     and_then (resolve_endpoint api env (kb_connection b)) (\<lambda>conn.
     and_then (map_sum InvalidConfig (\<lambda>o'. o')
         (with_max_keys_per_req (kb_max_keys_per_req b) (client_opts_new conn)))
       (\<lambda>opts. map_sum InvalidConfig (\<lambda>o'. o') (with_max_concurrent_reqs (kb_max_concurrent_reqs b) opts)))"

text \<open>\<open>build_client\<close> is the HTTP client's own builder, given the three timeouts.\<close>

type_synonym 'x client_build = "nat \<Rightarrow> nat option \<Rightarrow> nat option \<Rightarrow> ('x, unit) result"

definition http_init ::
  "'x client_build \<Rightarrow> 'w \<Rightarrow> 'u http_connection_opts \<Rightarrow> ('x, ('u, 'w) http_connection) result" where
  "http_init build_client w opts =
     map_sum (\<lambda>e. e) (\<lambda>_. \<lparr>hc_base_url = ho_base_url opts, hc_world = w\<rparr>)
       (build_client (request_timeout_of opts) (ho_connect_timeout opts) (ho_pool_idle_timeout opts))"

definition kms_connect ::
  "'x client_build \<Rightarrow> 'u url_api \<Rightarrow> ('k, 'x) key_derivation
     \<Rightarrow> ('c, 'p, 'v, 'x, ('u, 'w) http_connection) connection \<Rightarrow> 'w \<Rightarrow> 'u http_connection_opts client_opts
     \<Rightarrow> ('u, 'w) credentials \<Rightarrow> 'k client_key
     \<Rightarrow> ('x stack_kms_error, ('k, 'x, 'c, 'p, 'v, 'u, 'w) stack_kms \<times> ('u, 'w) http_connection) result" where
  "kms_connect build_client api kd wire w opts creds key =
     map_sum ConnectionInit
       (\<lambda>conn. (\<lparr>sk_api = api, sk_derivation = kd, sk_connection = wire, sk_keys_per_req = max_keys_per_req opts,
                 sk_concurrent_reqs = max_concurrent_reqs opts, sk_credentials = creds, sk_client_key = key\<rparr>, conn))
       (http_init build_client w (connection_opts opts))"

text \<open>\<open>build\<close> with a key provider; a client key given directly is \<open>static_client_key\<close>.\<close>

definition kms_build ::
  "'x client_build \<Rightarrow> 'u url_api \<Rightarrow> ('k, 'x) key_derivation
     \<Rightarrow> ('c, 'p, 'v, 'x, ('u, 'w) http_connection) connection \<Rightarrow> env_vars \<Rightarrow> 'w \<Rightarrow> ('u, 'w) credentials
     \<Rightarrow> ('k, 'w) provider \<Rightarrow> 'u kms_builder
     \<Rightarrow> ('x builder_error, ('k, 'x, 'c, 'p, 'v, 'u, 'w) stack_kms \<times> ('u, 'w) http_connection) result" where
  "kms_build build_client api kd wire env w creds provider b =
     and_then (build_opts api env b) (\<lambda>opts.
     and_then (map_sum BuilderKeyProvider (\<lambda>k. k) (provider w)) (\<lambda>key.
     map_sum ClientInit (\<lambda>k. k) (kms_connect build_client api kd wire w opts creds key)))"

section \<open>Facts on the setup\<close>

lemma build_opts_Inr:
  "build_opts api env b = (Inr opts :: ('x builder_error, 'u http_connection_opts client_opts) result) \<longleftrightarrow> 0 < kb_max_keys_per_req b \<and> 0 < kb_max_concurrent_reqs b
     \<and> (\<exists>conn. resolve_endpoint api env (kb_connection b) = (Inr conn :: ('x builder_error, 'u http_connection_opts) result)
         \<and> opts = \<lparr>max_keys_per_req = kb_max_keys_per_req b, max_concurrent_reqs = kb_max_concurrent_reqs b,
                    connection_opts = conn\<rparr>)"
  by (cases "resolve_endpoint api env (kb_connection b) :: ('x builder_error, 'u http_connection_opts) result")
    (auto simp: build_opts_def with_max_keys_per_req_def with_max_concurrent_reqs_def client_opts_new_def)

lemma kms_build_Inr:
  fixes kms :: "('k, 'x, 'c, 'p, 'v, 'u, 'w) stack_kms"
  assumes "kms_build build_client api kd wire env w creds provider b = Inr (kms, conn)"
  shows "0 < sk_keys_per_req kms" and "0 < sk_concurrent_reqs kms" and "sk_api kms = api"
    and "sk_credentials kms = creds" and "sk_connection kms = wire"
    and "\<exists>opts. resolve_endpoint api env (kb_connection b) = (Inr opts :: ('x builder_error, 'u http_connection_opts) result)
      \<and> hc_base_url conn = ho_base_url opts"
  using assms
  by (auto simp: kms_build_def kms_connect_def http_init_def and_then_Inr_iff map_sum_Inr_iff build_opts_Inr)

text \<open>The endpoint a request is sent to, once known, is never another.\<close>

lemma http_sender_keeps_url: "hc_base_url (snd (http_sender api post wire_codec request token c)) = hc_base_url c"
  by (auto simp: http_sender_def http_send_def split: prod.split sum.split option.split)

lemma run_order_keeps:
  assumes "\<And>i s. P (snd (f i s)) = P s"
  shows "P (snd (run_order f order s)) = P s"
  using assms by (induction order arbitrary: s) (simp_all add: case_prod_beta)

lemma send_chunked_keeps:
  assumes "\<And>q t s. P (snd (send q t s)) = P s"
  shows "P (snd (send_chunked n k buffered send specs token make_request map_key from_error count_mismatch s)) = P s"
proof -
  have "P (snd (send_chunk send make_request map_key from_error count_mismatch token chunk s)) = P s" for chunk s
    using assms [of "make_request chunk" token s]
    by (auto simp: send_chunk_def split: prod.split sum.split)
  then show ?thesis
    using run_order_keeps [of P "\<lambda>i. send_chunk send make_request map_key from_error count_mismatch token (chunks n specs ! i)"]
    by (simp add: send_chunked_def map_async_chunked_def Let_def case_prod_beta)
qed

lemma send_chunked_answers:
  assumes "0 < n" and "{..<length (chunks n specs)} \<subseteq> set (buffered k (length (chunks n specs)))"
  shows "\<exists>r. fst (send_chunked n k buffered send specs token make_request map_key from_error count_mismatch s) = Answered r"
proof -
  let ?f = "send_chunk send make_request map_key from_error count_mismatch token" and ?cs = "chunks n specs"
  have "\<forall>i \<in> set [0..<length ?cs]. fst (run_order (\<lambda>i. ?f (?cs ! i)) (buffered k (length ?cs)) s) i \<noteq> None"
    using assms(2) by (intro ballI run_order_all_land) auto
  from drain_answers [OF this, of "[]"] assms(1) show ?thesis
    by (simp add: send_chunked_def map_async_chunked_def Let_def case_prod_beta)
qed

text \<open>Without room for a request a call that needs one never ends, and chunks of no keys panic.\<close>

lemma send_chunked_starves:
  assumes "0 < n" and "specs \<noteq> []" and "\<And>m. buffered k m = []"
  shows "fst (send_chunked n k buffered send specs token make_request map_key from_error count_mismatch s) = Unfinished"
proof -
  have "[0..<length (chunks n specs)] = 0 # [1..<length (chunks n specs)]"
    using assms(1,2) by (simp add: chunks_step upt_conv_Cons del: upt_Suc)
  with assms(1,3) show ?thesis by (simp add: send_chunked_def map_async_chunked_def del: upt_Suc)
qed

lemma send_chunked_panics:
  "fst (send_chunked 0 k buffered send specs token make_request map_key from_error count_mismatch s) = Panicked"
  by (simp add: send_chunked_def map_async_chunked_def)

lemma send_chunked_limit:
  assumes "buffered k = buffered' k"
  shows "send_chunked n k buffered = send_chunked n k buffered'"
  by (simp add: fun_eq_iff send_chunked_def map_async_chunked_def assms)

lemma get_token_url:
  assumes "get_token api creds c = (Inr token, d)"
  shows "case hc_base_url c of
      Some u \<Rightarrow> hc_base_url d = Some u
    | None \<Rightarrow> (\<exists>url u. st_zerokms_url token = Inr url \<and> endpoint_new api url = Inr u \<and> hc_base_url d = Some u)"
  using assms
  by (auto simp: get_token_def Let_def has_base_url_def ensure_base_url_def split: prod.splits sum.splits if_splits option.splits)

lemma get_token_keeps_url: "get_token api creds c = (t, d) \<Longrightarrow> hc_base_url c = Some u \<Longrightarrow> hc_base_url d = Some u"
  by (auto simp: get_token_def Let_def has_base_url_def split: prod.splits sum.splits if_splits)

lemma base_url_from_env_Inr:
  "base_url_from_env api env vars = Inr r \<Longrightarrow>
     (case List.find (\<lambda>v. is_ok (env_var env v)) vars of
        Some v \<Rightarrow> \<exists>u value. r = Some u \<and> env_var env v = Inr value \<and> endpoint_from_str api value = Inr u
      | None \<Rightarrow> r = None)"
  by (induction vars) (auto simp: map_sum_Inr_iff is_ok_def split: sum.splits option.splits)

lemma resolve_endpoint_Inr:
  assumes "resolve_endpoint api env conn = (Inr opts :: ('x builder_error, 'u http_connection_opts) result)"
  shows "case ho_base_url conn of
      Some given \<Rightarrow> ho_base_url opts = Some given
    | None \<Rightarrow>
        (case List.find (\<lambda>v. is_ok (env_var env v)) CS_ZEROKMS_HOST of
           Some v \<Rightarrow> \<exists>u value. ho_base_url opts = Some u \<and> env_var env v = Inr value \<and> endpoint_from_str api value = Inr u
         | None \<Rightarrow> ho_base_url opts = None)"
proof (cases "ho_base_url conn")
  case None
  with assms obtain r where r: "base_url_from_env api env CS_ZEROKMS_HOST = (Inr r :: ('x builder_error, 'u option) result)"
      "opts = (case r of Some u \<Rightarrow> conn\<lparr>ho_base_url := Some u\<rparr> | None \<Rightarrow> conn)"
    by (auto simp: resolve_endpoint_def map_sum_Inr_iff)
  then show ?thesis using None base_url_from_env_Inr [OF r(1)] by (auto split: option.splits)
qed (use assms in \<open>simp add: resolve_endpoint_def\<close>)

lemma client_operations_keep_url:
  fixes c :: "('u, 'w) http_connection"
  shows "hc_base_url (snd (client_retrieve_keys kd (http_connection_of api post generate retrieve fallible load)
      n k buffered payloads key keyset_id token uctx c)) = hc_base_url c"
    and "hc_base_url (snd (client_generate_keys kd (http_connection_of api post generate retrieve fallible load)
      n k buffered rng gps key keyset_id token uctx c)) = hc_base_url c"
    and "hc_base_url (snd (client_load_keyset kd (http_connection_of api post generate retrieve fallible load)
      key asked token c)) = hc_base_url c"
  by (simp_all add: client_retrieve_keys_def client_generate_keys_def client_load_keyset_def http_connection_of_def
      send_chunked_keeps [where P = hc_base_url] http_sender_keeps_url case_prod_beta split: sum.split)

lemma operations_keep_url:
  assumes "sk_connection kms = http_connection_of api post generate retrieve fallible load"
    and "hc_base_url c = Some u"
  shows "hc_base_url (snd (kms_retrieve_keys kms buffered payloads keyset_id uctx c)) = Some u"
    and "hc_base_url (snd (kms_generate_keys kms buffered rng gps keyset_id uctx c)) = Some u"
    and "hc_base_url (snd (kms_load_keyset kms asked c)) = Some u"
  by (auto simp: kms_retrieve_keys_def kms_generate_keys_def kms_load_keyset_def assms(1) client_operations_keep_url
      split: prod.split sum.split dest: get_token_keeps_url [OF _ assms(2)])

text \<open>The operations of a client, by its limits.\<close>

lemma operations_answer:
  fixes kms :: "('k, 'x, 'c, 'p, 'v, 'u, 'w) stack_kms"
  assumes "0 < sk_keys_per_req kms" and "0 < sk_concurrent_reqs kms" and "drives_every_future buffered"
  shows "\<exists>r. fst (kms_retrieve_keys kms buffered payloads keyset_id uctx c) = Answered r"
    and "\<exists>r. fst (kms_retrieve_keys_fallible kms buffered payloads keyset_id uctx c) = Answered r"
    and "\<exists>r. fst (kms_generate_keys kms buffered rng gps keyset_id uctx c) = Answered r"
proof -
  have all: "{..<length (chunks (sk_keys_per_req kms) xs)}
      \<subseteq> set (buffered (sk_concurrent_reqs kms) (length (chunks (sk_keys_per_req kms) xs)))" for xs :: "'s list"
    using assms(2,3) by (simp add: drives_every_future_def)
  obtain t :: "('x stack_kms_error, 'u kms_token) result" and d
    where t: "get_token (sk_api kms) (sk_credentials kms) c = (t, d)" by (rule prod.exhaust)
  show "\<exists>r. fst (kms_retrieve_keys kms buffered payloads keyset_id uctx c) = Answered r"
  proof (cases t)
    case (Inr token)
    obtain r where "fst (client_retrieve_keys (sk_derivation kms) (sk_connection kms) (sk_keys_per_req kms)
        (sk_concurrent_reqs kms) buffered payloads (sk_client_key kms) keyset_id (st_secret token) uctx d) = Answered r"
      unfolding client_retrieve_keys_def by (rule exE [OF send_chunked_answers [where buffered = buffered, OF assms(1) all]])
    with t Inr show ?thesis by (simp add: kms_retrieve_keys_def)
  qed (use t in \<open>simp add: kms_retrieve_keys_def\<close>)
  show "\<exists>r. fst (kms_retrieve_keys_fallible kms buffered payloads keyset_id uctx c) = Answered r"
  proof (cases t)
    case (Inr token)
    obtain r where "fst (client_retrieve_keys_fallible (sk_derivation kms) (sk_connection kms) (sk_keys_per_req kms)
        (sk_concurrent_reqs kms) buffered payloads (sk_client_key kms) keyset_id (st_secret token) uctx d) = Answered r"
      unfolding client_retrieve_keys_fallible_def by (rule exE [OF send_chunked_answers [where buffered = buffered, OF assms(1) all]])
    with t Inr show ?thesis by (simp add: kms_retrieve_keys_fallible_def)
  qed (use t in \<open>simp add: kms_retrieve_keys_fallible_def\<close>)
  show "\<exists>r. fst (kms_generate_keys kms buffered rng gps keyset_id uctx c) = Answered r"
  proof (cases t)
    case (Inr token)
    have "\<exists>r. fst (client_generate_keys (sk_derivation kms) (sk_connection kms) (sk_keys_per_req kms)
        (sk_concurrent_reqs kms) buffered rng gps (sk_client_key kms) keyset_id (st_secret token) uctx d) = Answered r"
    proof (cases "generate_specs rng gps")
      case (Inr specs)
      show ?thesis unfolding client_generate_keys_def Inr sum.case
        by (rule send_chunked_answers [where buffered = buffered, OF assms(1) all])
    qed (simp add: client_generate_keys_def)
    with t Inr show ?thesis by (auto simp: kms_generate_keys_def)
  qed (use t in \<open>simp add: kms_generate_keys_def\<close>)
qed

lemma operations_limit:
  assumes "buffered (sk_concurrent_reqs kms) = buffered' (sk_concurrent_reqs kms)"
  shows "kms_retrieve_keys kms buffered = kms_retrieve_keys kms buffered'"
    and "kms_retrieve_keys_fallible kms buffered = kms_retrieve_keys_fallible kms buffered'"
    and "kms_generate_keys kms buffered = kms_generate_keys kms buffered'"
proof -
  let ?n = "sk_keys_per_req kms" and ?k = "sk_concurrent_reqs kms"
  note limit = send_chunked_limit [where buffered = buffered and buffered' = buffered' and k = ?k, OF assms]
  have r: "client_retrieve_keys (sk_derivation kms) (sk_connection kms) ?n ?k buffered
      = client_retrieve_keys (sk_derivation kms) (sk_connection kms) ?n ?k buffered'"
    by (simp add: fun_eq_iff client_retrieve_keys_def limit)
  show "kms_retrieve_keys kms buffered = kms_retrieve_keys kms buffered'"
    by (intro ext) (simp only: kms_retrieve_keys_def r)
  have f: "client_retrieve_keys_fallible (sk_derivation kms) (sk_connection kms) ?n ?k buffered
      = client_retrieve_keys_fallible (sk_derivation kms) (sk_connection kms) ?n ?k buffered'"
    by (simp add: fun_eq_iff client_retrieve_keys_fallible_def limit)
  show "kms_retrieve_keys_fallible kms buffered = kms_retrieve_keys_fallible kms buffered'"
    by (intro ext) (simp only: kms_retrieve_keys_fallible_def f)
  have g: "client_generate_keys (sk_derivation kms) (sk_connection kms) ?n ?k buffered
      = client_generate_keys (sk_derivation kms) (sk_connection kms) ?n ?k buffered'"
    by (simp add: fun_eq_iff client_generate_keys_def limit split: sum.split)
  show "kms_generate_keys kms buffered = kms_generate_keys kms buffered'"
    by (intro ext) (simp only: kms_generate_keys_def g)
qed

section \<open>Properties\<close>

text \<open>
  C39. A client that was built never panics and never hangs on its own limits. The requests of
  its calls run under exactly the limit the builder was given, and if the adaptor they run
  under drives every future of a stream with a positive limit, every retrieval and generation
  comes to an answer. The limits the builder refuses would not: with no request allowed in
  flight a retrieval waits for ever, and with no key allowed in a request it panics.\<close>

theorem built_clients_make_progress:
  fixes kms :: "('k, 'x, 'c, 'p, 'v, 'u, 'w) stack_kms"
  assumes built: "kms_build build_client api kd wire env w creds provider b = Inr (kms, conn)"
    and drives: "drives_every_future buffered"
  shows "(\<exists>r. fst (kms_retrieve_keys kms buffered payloads keyset_id uctx c) = Answered r)
    \<and> (\<exists>r. fst (kms_retrieve_keys_fallible kms buffered payloads keyset_id uctx c) = Answered r)
    \<and> (\<exists>r. fst (kms_generate_keys kms buffered rng gps keyset_id uctx c) = Answered r)
    \<and> (\<forall>buffered'. buffered' (kb_max_concurrent_reqs b) = buffered (kb_max_concurrent_reqs b) \<longrightarrow>
         kms_retrieve_keys kms buffered' payloads keyset_id uctx c = kms_retrieve_keys kms buffered payloads keyset_id uctx c
         \<and> kms_generate_keys kms buffered' rng gps keyset_id uctx c = kms_generate_keys kms buffered rng gps keyset_id uctx c)
    \<and> (holds_none_at_zero buffered \<and> payloads \<noteq> []
         \<and> is_ok (fst (get_token api creds c) :: ('x stack_kms_error, 'u kms_token) result) \<longrightarrow>
         fst (kms_retrieve_keys (kms\<lparr>sk_concurrent_reqs := 0\<rparr>) buffered payloads keyset_id uctx c) = Unfinished
         \<and> fst (kms_retrieve_keys (kms\<lparr>sk_keys_per_req := 0\<rparr>) buffered payloads keyset_id uctx c) = Panicked)"
proof -
  note k = kms_build_Inr [OF built]
  have lim: "sk_concurrent_reqs kms = kb_max_concurrent_reqs b"
    using built by (auto simp: kms_build_def kms_connect_def and_then_Inr_iff map_sum_Inr_iff build_opts_Inr)
  have "fst (kms_retrieve_keys (kms\<lparr>sk_concurrent_reqs := 0\<rparr>) buffered payloads keyset_id uctx c) = Unfinished
      \<and> fst (kms_retrieve_keys (kms\<lparr>sk_keys_per_req := 0\<rparr>) buffered payloads keyset_id uctx c) = Panicked"
    if "holds_none_at_zero buffered" "payloads \<noteq> []"
      and ok: "is_ok (fst (get_token api creds c) :: ('x stack_kms_error, 'u kms_token) result)"
  proof -
    from ok obtain token d where "get_token api creds c = (Inr token :: ('x stack_kms_error, 'u kms_token) result, d)"
      by (cases "get_token api creds c :: ('x stack_kms_error, 'u kms_token) result \<times> ('u, 'w) http_connection")
        (auto simp: is_ok_def split: sum.splits)
    with that(1,2) k(1,3,4) show ?thesis
      by (simp add: kms_retrieve_keys_def client_retrieve_keys_def send_chunked_starves send_chunked_panics
          holds_none_at_zero_def)
  qed
  moreover have "kms_retrieve_keys kms buffered' payloads keyset_id uctx c = kms_retrieve_keys kms buffered payloads keyset_id uctx c
       \<and> kms_generate_keys kms buffered' rng gps keyset_id uctx c = kms_generate_keys kms buffered rng gps keyset_id uctx c"
    if "buffered' (kb_max_concurrent_reqs b) = buffered (kb_max_concurrent_reqs b)" for buffered'
    using operations_limit [of buffered' kms buffered] that lim by simp
  ultimately show ?thesis
    using operations_answer [where buffered = buffered, OF k(1,2) drives] by blast
qed

text \<open>A client built with the legacy endpoint variable set, and the other one unreadable; and an
  adaptor that runs its futures in windows of its limit, the last of a window first.\<close>

definition windowed :: buffering where
  "windowed n m = concat (map rev (chunks n [0..<m]))"

lemma windowed_laws: "drives_every_future windowed" "holds_none_at_zero windowed"
proof -
  have "set (concat (map rev cs)) = set (concat cs)" for cs :: "nat list list" by (induction cs) auto
  then have same: "set (windowed n m) = set (concat (chunks n [0..<m]))" for n m unfolding windowed_def .
  have "set (windowed n m) = {..<m}" if "0 < n" for n m
    unfolding same concat_chunks [OF that] by auto
  then show "drives_every_future windowed" by (simp add: drives_every_future_def)
  show "holds_none_at_zero windowed" by (simp add: holds_none_at_zero_def windowed_def chunks.simps)
qed

definition legacy_env :: env_vars where
  "legacy_env v = (if v = ''CS_ZEROKMS_HOST'' then Some [255] else if v = ''CS_VITUR_HOST'' then Some [47, 118] else None)"

lemma legacy_env_vars:
  "env_var legacy_env ''CS_ZEROKMS_HOST'' = Inl NotUnicode" "env_var legacy_env ''CS_VITUR_HOST'' = Inr (lit ''/v'')"
  by code_simp+

definition demo_credentials :: "(rstr, unit) credentials" where
  "demo_credentials w = (Inr \<lparr>st_secret = lit ''t'', st_zerokms_url = Inr (lit ''/claim'')\<rparr>, w)"

definition built_kms :: "(unit, nat, unit, unit, unit, rstr, unit) stack_kms" where
  "built_kms =
     \<lparr>sk_api = path_api, sk_derivation = demo_derivation, sk_connection = missing_connection, sk_keys_per_req = 2,
      sk_concurrent_reqs = 5, sk_credentials = demo_credentials, sk_client_key = demo_kms_key\<rparr>"

lemma built_kms_build:
  "kms_build (\<lambda>_ _ _. Inr ()) path_api demo_derivation missing_connection legacy_env () demo_credentials
     (static_client_key demo_kms_key) (builder_with_max_keys 2 kms_builder_new)
   = Inr (built_kms, \<lparr>hc_base_url = Some (lit ''/v/''), hc_world = ()\<rparr>)"
  by (simp add: kms_build_def build_opts_def resolve_endpoint_def kms_builder_new_def builder_with_max_keys_def
      http_opts_new_def CS_ZEROKMS_HOST_def legacy_env_vars endpoint_from_str_def endpoint_new_def path_api_def
      with_max_keys_per_req_def with_max_concurrent_reqs_def client_opts_new_def DEFAULT_CONCURRENT_REQS_def
      static_client_key_def kms_connect_def http_init_def built_kms_def lit_def)

theorem built_clients_make_progress_witness:
  "(\<exists>r. fst (kms_retrieve_keys built_kms windowed (map demo_payload [1, 2, 3]) None () demo_conn) = Answered r)
   \<and> fst (kms_retrieve_keys (built_kms\<lparr>sk_concurrent_reqs := 0\<rparr>) windowed (map demo_payload [1, 2, 3]) None () demo_conn)
       = Unfinished"
proof -
  have "is_ok (fst (get_token path_api demo_credentials demo_conn) :: (nat stack_kms_error, rstr kms_token) result)"
    by (simp add: get_token_def demo_credentials_def demo_conn_def has_base_url_def is_ok_def)
  moreover have "map demo_payload [1, 2, 3] \<noteq> []" by simp
  ultimately show ?thesis
    using built_clients_make_progress [OF built_kms_build windowed_laws(1), of "map demo_payload [1, 2, 3]" None "()" demo_conn]
      windowed_laws(2) by blast
qed

text \<open>
  C40. Requests go where the client was told to send them. The endpoint a client has after
  it got its first token is the one it was given; without one, that of the first endpoint
  variable whose value is a text, which must then be usable; and only without either, the one
  the token names. A variable set to bytes that are not Unicode is passed over like one that
  is not set. Every operation keeps the endpoint.\<close>

theorem requests_go_where_configured:
  fixes kms :: "('k, 'x, 'c, 'p, 'v, 'u, 'w) stack_kms"
  assumes "kms_build build_client api kd (http_connection_of api post generate retrieve fallible load) env w creds provider b
      = Inr (kms, conn)"
    and "get_token (sk_api kms) (sk_credentials kms) conn = (Inr token :: ('x stack_kms_error, 'u kms_token) result, conn1)"
  shows "\<exists>u. hc_base_url conn1 = Some u
    \<and> (case ho_base_url (kb_connection b) of
         Some given \<Rightarrow> u = given
       | None \<Rightarrow>
           (case List.find (\<lambda>v. is_ok (env_var env v)) CS_ZEROKMS_HOST of
              Some v \<Rightarrow> \<exists>value. env_var env v = Inr value \<and> endpoint_from_str api value = Inr u
            | None \<Rightarrow> \<exists>url. st_zerokms_url token = Inr url \<and> endpoint_new api url = Inr u))
    \<and> (\<forall>c. hc_base_url c = Some u \<longrightarrow>
         hc_base_url (snd (kms_retrieve_keys kms buffered payloads keyset_id uctx c)) = Some u
         \<and> hc_base_url (snd (kms_generate_keys kms buffered rng gps keyset_id uctx c)) = Some u
         \<and> hc_base_url (snd (kms_load_keyset kms asked c)) = Some u)"
proof -
  have k: "sk_api kms = api" "sk_connection kms = http_connection_of api post generate retrieve fallible load"
    using kms_build_Inr(3,5) [OF assms(1)] by simp_all
  obtain opts where opts: "resolve_endpoint api env (kb_connection b) = (Inr opts :: ('x builder_error, 'u http_connection_opts) result)"
      "hc_base_url conn = ho_base_url opts"
    using kms_build_Inr(6) [OF assms(1)] by blast
  note first = resolve_endpoint_Inr [OF opts(1)] and granted = get_token_url [OF assms(2)]
  obtain u where u: "hc_base_url conn1 = Some u" using granted by (auto split: option.splits)
  have "case ho_base_url (kb_connection b) of
         Some given \<Rightarrow> u = given
       | None \<Rightarrow>
           (case List.find (\<lambda>v. is_ok (env_var env v)) CS_ZEROKMS_HOST of
              Some v \<Rightarrow> \<exists>value. env_var env v = Inr value \<and> endpoint_from_str api value = Inr u
            | None \<Rightarrow> \<exists>url. st_zerokms_url token = Inr url \<and> endpoint_new api url = Inr u)"
    using first granted u k(1) opts(2) by (auto split: option.splits)
  with u show ?thesis using operations_keep_url [OF k(2)] by blast
qed

theorem requests_go_where_configured_witness:
  "hc_base_url (snd (kms_load_keyset built_kms None \<lparr>hc_base_url = Some (lit ''/v/''), hc_world = ()\<rparr>)) = Some (lit ''/v/'')"
proof -
  let ?conn = "\<lparr>hc_base_url = Some (lit ''/v/''), hc_world = ()\<rparr>"
  have t: "get_token (sk_api built_kms) (sk_credentials built_kms) ?conn
      = (Inr \<lparr>st_secret = lit ''t'', st_zerokms_url = Inr (lit ''/claim'')\<rparr> :: (nat stack_kms_error, rstr kms_token) result, ?conn)"
    by (simp add: get_token_def built_kms_def demo_credentials_def has_base_url_def)
  show ?thesis
    using requests_go_where_configured [OF built_kms_build [unfolded missing_connection_def] t] by auto
qed

text \<open>
  The first endpoint variable that is set does not always decide: bytes that are not Unicode
  are no error, and the choice falls through to the legacy variable or to the token.\<close>

theorem unreadable_endpoint_falls_through:
  assumes "env ''CS_ZEROKMS_HOST'' = Some bs" and "from_utf8 bs = None"
  shows "resolve_endpoint api env conn = resolve_endpoint api (env(''CS_ZEROKMS_HOST'' := None)) conn"
  using assms by (auto simp: resolve_endpoint_def CS_ZEROKMS_HOST_def env_var_def split: sum.split)

end
