(* ===== verification/Kms_Source.thy ===== *)
theory Kms_Source
  imports Kms_Client
begin

text \<open>
  The ZeroKMS client as the data-key source the encryption layers run on
  (\<open>impl DataKeySource for StackKms\<close> in \<open>packages/stack-kms/src/key_source.rs\<close>). Against a
  ZeroKMS that answers every key on its own, the client satisfies the interface
  \<open>data_key_source\<close>, so what is proved of pendings over that interface holds over HTTP
  requests cut, sent and served concurrently.
\<close>

section \<open>The source\<close>

definition new_generate_payload :: "rstr \<Rightarrow> ('c, 'p) generate_key_payload" where
  "new_generate_payload descriptor = \<lparr>gp_descriptor = descriptor, gp_context = [], gp_policy = None\<rparr>"

definition new_retrieve_payload :: "iv \<times> rstr \<times> bytes \<Rightarrow> ('c, 'p) retrieve_key_payload" where
  "new_retrieve_payload p =
     (case p of (v, descriptor, tag) \<Rightarrow>
        \<lparr>rp_iv = v, rp_descriptor = descriptor, rp_tag = tag, rp_context = [], rp_policy = None\<rparr>)"

text \<open>
  A call that came to its end. \<open>buffered\<close> is the adaptor its requests run under, and \<open>rng\<close> the
  random source the call opens.
\<close>

definition settled_call ::
  "('x stack_kms_error, 'r) result batch_outcome \<times> ('u, 'w) http_connection
     \<Rightarrow> ('x stack_kms_error, 'r) result \<times> 'w" where
  "settled_call p = (case fst p of Answered r \<Rightarrow> r | _ \<Rightarrow> Inl (Unexpected []), hc_world (snd p))"

definition kms_source ::
  "('k, 'x, 'c, 'p, 'v, 'u, 'w) stack_kms \<Rightarrow> buffering \<Rightarrow> ('w \<Rightarrow> ('x, nat \<Rightarrow> ('x, iv) result) result)
     \<Rightarrow> 'v \<Rightarrow> 'u \<Rightarrow> ('x stack_kms_error, 'w) key_source" where
  "kms_source kms buffered rng no_context url =
     \<lparr>generate_keys = (\<lambda>ds k w.
        map_prod (map_sum (\<lambda>e. e) (map data_key_with_tag.truncate)) (\<lambda>w. w)
          (settled_call (kms_generate_keys kms buffered (rng w)
             (map new_generate_payload ds) k no_context \<lparr>hc_base_url = Some url, hc_world = w\<rparr>))),
      retrieve_keys = (\<lambda>ps k w.
        settled_call (kms_retrieve_keys kms buffered
          (map new_retrieve_payload ps) k no_context \<lparr>hc_base_url = Some url, hc_world = w\<rparr>))\<rparr>"

text \<open>What ZeroKMS has for one key, and what the client makes of it.\<close>

type_synonym ('c, 'p, 'x, 'w) zerokms =
  "'w \<Rightarrow> uuid option \<Rightarrow> ('c, 'p) retrieve_key_spec \<Rightarrow> ('x vitur_request_error, bytes) result"

definition key_answer ::
  "('k, 'x, 'c, 'p, 'v, 'u, 'w) stack_kms \<Rightarrow> ('c, 'p, 'x, 'w) zerokms \<Rightarrow> 'w \<Rightarrow> uuid option \<Rightarrow> iv \<times> rstr \<times> bytes
     \<Rightarrow> ('x stack_kms_error, data_key) result" where
  "key_answer kms material w k p =
     (let spec = new_retrieve_payload p
      in and_then (map_sum (\<lambda>e. RetrieveKey (RetrieveRequestFailed e)) (\<lambda>m. m) (material w k spec))
           (\<lambda>m. map_sum (\<lambda>e. RetrieveKey (RetrieveKeyMaterial e)) (\<lambda>key. key)
              (data_key_from_material (sk_derivation kms) (sk_client_key kms) (rp_iv spec) m)))"

section \<open>Batches as pointwise answers\<close>

lemma drain_collect:
  assumes "\<forall>i \<in> set is. landed i = Some (collect h (cs ! i))"
  shows "drain landed is out = Answered (map_sum (\<lambda>e. e) (\<lambda>ys. out @ ys) (collect h (concat (map ((!) cs) is))))"
  using assms
proof (induction landed "is" out rule: drain.induct)
  case (2 landed i "is" out)
  show ?case
  proof (cases "collect h (cs ! i)")
    case (Inl e)
    with 2(2) show ?thesis by (simp add: collect_append)
  next
    case (Inr us)
    then have "drain landed (i # is) out = drain landed is (out @ us)" using 2(2) by simp
    also have "\<dots> = Answered (map_sum (\<lambda>e. e) (\<lambda>ys. (out @ us) @ ys) (collect h (concat (map ((!) cs) is))))"
      using 2(1) [of "Inr us" us] 2(2) Inr by simp
    finally show ?thesis using Inr by (cases "collect h (concat (map ((!) cs) is))") (simp_all add: collect_append)
  qed
qed simp

lemma chunk_answer_total:
  assumes "\<And>spec i. item spec = Inr i \<Longrightarrow> \<exists>u. map_key spec i = Inr u"
  shows "chunk_answer item map_key from_error chunk
    = collect (\<lambda>spec. and_then (map_sum from_error (\<lambda>i. i) (item spec)) (map_key spec)) chunk"
proof (induction chunk)
  case Nil
  show ?case by (simp add: chunk_answer_def)
next
  case (Cons spec chunk)
  show ?case
  proof (cases "item spec")
    case (Inl e)
    then show ?thesis by (simp add: chunk_answer_def)
  next
    case (Inr i)
    then obtain u where "map_key spec i = Inr u" using assms by blast
    with Inr Cons show ?thesis
      by (cases "collect item chunk") (auto simp: chunk_answer_def split: sum.splits)
  qed
qed

lemma send_chunked_exact:
  assumes n: "0 < n" and all: "{..<length (chunks n specs)} \<subseteq> set (buffered k (length (chunks n specs)))"
    and send: "\<And>chunk. send (make_request chunk) token s = (collect item chunk, s)"
    and total: "\<And>spec i. item spec = Inr i \<Longrightarrow> \<exists>u. map_key spec i = Inr u"
  shows "send_chunked n k buffered send specs token make_request map_key from_error count_mismatch s
    = (Answered (collect (\<lambda>spec. and_then (map_sum from_error (\<lambda>i. i) (item spec)) (map_key spec)) specs), s)"
proof -
  let ?f = "send_chunk send make_request map_key from_error count_mismatch token" and ?cs = "chunks n specs"
  define order where "order = buffered k (length ?cs)"
  let ?h = "\<lambda>spec. and_then (map_sum from_error (\<lambda>i. i) (item spec)) (map_key spec)"
  let ?landed = "\<lambda>i. if i \<in> set order then Some (collect ?h (?cs ! i)) else None"
  have f: "?f (?cs ! i) s = (collect ?h (?cs ! i), s)" for i
    using send_chunk_pure [of send make_request "?cs ! i" token s item map_key from_error count_mismatch, OF send]
    by (simp add: chunk_answer_total [OF total])
  have run: "run_order (\<lambda>i. ?f (?cs ! i)) order s = (?landed, s)"
    by (rule run_order_pure) (rule f)
  have "drain ?landed [0..<length ?cs] [] = Answered (collect ?h specs)"
  proof -
    have "\<forall>i \<in> set [0..<length ?cs]. ?landed i = Some (collect ?h (?cs ! i))" using all by (auto simp: order_def)
    from drain_collect [OF this, of "[]"] show ?thesis
      using concat_chunks [OF n, of specs] by (cases "collect ?h specs") (simp_all add: map_nth)
  qed
  then show ?thesis using n run by (simp add: send_chunked_def map_async_chunked_def order_def Let_def)
qed

lemma chunks_map: "chunks n (map f xs) = map (map f) (chunks n xs)"
proof (induction n xs rule: chunks.induct)
  case (1 n xs)
  then show ?case by (subst (1 2) chunks.simps) (simp add: take_map drop_map)
qed

section \<open>The interface\<close>

text \<open>What the client relies on: its limits, a token, every request of a call answered, and a
  ZeroKMS that answers each key on its own with material of the right length.\<close>

definition served_by ::
  "('k, 'x, 'c, 'p, 'v, 'u, 'w) stack_kms \<Rightarrow> ('u kms_token) \<Rightarrow> 'u \<Rightarrow> ('c, 'p, 'x, 'w) zerokms \<Rightarrow> bool" where
  "served_by kms token url material \<longleftrightarrow>
     (\<forall>w. sk_credentials kms w = (Inr token, w))
     \<and> (\<forall>q w. send_retrieve (sk_connection kms) q (st_secret token) \<lparr>hc_base_url = Some url, hc_world = w\<rparr>
          = (collect (material w (kr_keyset_id q)) (kr_keys q), \<lparr>hc_base_url = Some url, hc_world = w\<rparr>))
     \<and> (\<forall>w k spec m. material w k spec = Inr m
          \<longrightarrow> is_ok (reencrypt (sk_derivation kms) (ck_keyset (sk_client_key kms)) (rp_iv spec) m))"

lemma generate_specs_length: "generate_specs rng payloads = Inr specs \<Longrightarrow> length specs = length payloads"
  by (auto simp: generate_specs_def and_then_Inr_iff collect_Inr_iff dest!: list_all2_lengthD)

lemma client_generate_count:
  assumes "fst (client_generate_keys kd conn n m buffered rng payloads key keyset_id token uctx s) = Answered (Inr keys)"
  shows "length keys = length payloads"
  using assms send_chunked_places generate_specs_length
  by (fastforce simp: client_generate_keys_def split: sum.splits)

lemma kms_source_retrieves:
  fixes kms :: "('k, 'x, 'c, 'p, 'v, 'u, 'w) stack_kms"
  assumes lim: "0 < sk_keys_per_req kms" and ord: "\<And>m. {..<m} \<subseteq> set (buffered (sk_concurrent_reqs kms) m)"
    and srv: "served_by kms token url material"
  shows "retrieve_keys (kms_source kms buffered rng uctx url) ps k w = (collect (key_answer kms material w k) ps, w)"
proof -
  let ?c = "\<lparr>hc_base_url = Some url, hc_world = w\<rparr>" and ?n = "sk_keys_per_req kms"
  let ?specs = "map new_retrieve_payload ps :: ('c, 'p) retrieve_key_spec list"
  let ?map_key = "\<lambda>(spec :: ('c, 'p) retrieve_key_spec) m. map_sum RetrieveKeyMaterial (\<lambda>k. k)
      (data_key_from_material (sk_derivation kms) (sk_client_key kms) (rp_iv spec) m)"
  have t: "get_token (sk_api kms) (sk_credentials kms) ?c = (Inr token, ?c)"
    using srv by (simp add: get_token_def served_by_def has_base_url_def)
  have total: "\<exists>u. ?map_key spec m = Inr u" if "material w k spec = Inr m" for spec m
    using srv that unfolding served_by_def is_ok_def
    by (fastforce simp: data_key_from_material_def split: sum.splits)
  have "client_retrieve_keys (sk_derivation kms) (sk_connection kms) ?n (sk_concurrent_reqs kms) buffered
      ?specs (sk_client_key kms) k (st_secret token) uctx ?c
    = (Answered (collect (\<lambda>spec. and_then (map_sum RetrieveRequestFailed (\<lambda>i. i) (material w k spec)) (?map_key spec))
        ?specs), ?c)"
    unfolding client_retrieve_keys_def
    by (rule send_chunked_exact [where buffered = buffered, OF lim ord]) (use srv total in \<open>auto simp: served_by_def\<close>)
  moreover have "map_sum RetrieveKey (\<lambda>ks. ks)
      (collect (\<lambda>spec. and_then (map_sum RetrieveRequestFailed (\<lambda>i. i) (material w k spec)) (?map_key spec)) ?specs)
    = collect (key_answer kms material w k) ps"
    unfolding collect_map_error collect_map
  proof (rule arg_cong [where f = "\<lambda>h. collect h ps"], rule ext)
    fix p
    show "map_sum RetrieveKey (\<lambda>y. y) (and_then (map_sum RetrieveRequestFailed (\<lambda>i. i)
          (material w k (new_retrieve_payload p))) (?map_key (new_retrieve_payload p))) = key_answer kms material w k p"
      by (cases "material w k (new_retrieve_payload p)")
        (simp_all add: key_answer_def Let_def sum.map_comp comp_def)
  qed
  ultimately show ?thesis
    by (simp add: kms_source_def settled_call_def kms_retrieve_keys_def t)
qed

lemma map_answered_Inr: "map_batch_outcome (map_sum g (\<lambda>ks. ks)) x = Answered (Inr ks) \<longleftrightarrow> x = Answered (Inr ks)"
  by (cases x) (auto simp: map_sum_Inr_iff)

lemma kms_source_counts:
  fixes kms :: "('k, 'x, 'c, 'p, 'v, 'u, 'w) stack_kms"
  assumes "generate_keys (kms_source kms buffered rng uctx url) ds k w = (Inr keys, w')"
  shows "length keys = length ds"
proof -
  let ?c = "\<lparr>hc_base_url = Some url, hc_world = w\<rparr>" and ?n = "sk_keys_per_req kms"
  let ?g = "kms_generate_keys kms buffered (rng w) (map new_generate_payload ds) k uctx ?c"
  obtain tagged where "fst ?g = Answered (Inr tagged)" and keys: "keys = map data_key_with_tag.truncate tagged"
    using assms by (auto simp: kms_source_def settled_call_def map_sum_Inr_iff split: batch_outcome.splits)
  then have "\<exists>(token :: 'u kms_token) c. fst (client_generate_keys (sk_derivation kms) (sk_connection kms) ?n
      (sk_concurrent_reqs kms) buffered (rng w) (map new_generate_payload ds) (sk_client_key kms) k (st_secret token) uctx c)
      = Answered (Inr tagged)"
    by (auto simp: kms_generate_keys_def map_answered_Inr split: prod.splits sum.splits)
  then show ?thesis using client_generate_count keys by fastforce
qed

section \<open>Properties\<close>

text \<open>
  C6. The ZeroKMS client keeps the contract of a data-key source, so leaves open through it
  exactly as through a source that holds their keys: with ZeroKMS answering each key on its
  own, the calls of \<open>dispatch\<close>, grouped by keyset, cut into requests and served in any order,
  give every retrieval its own key, and fail exactly when ZeroKMS refuses one of them.\<close>

theorem zerokms_client_is_a_data_key_source:
  fixes kms :: "('k, 'x, 'c, 'p, 'v, 'u, 'w) stack_kms"
  assumes "0 < sk_keys_per_req kms" and "\<And>m. {..<m} \<subseteq> set (buffered (sk_concurrent_reqs kms) m)"
    and "served_by kms token url material"
    and "list_all (fits max_len) (map rt_descriptor rs)"
  shows "data_key_source (kms_source kms buffered rng uctx url) (key_answer kms material)
    \<and> (case collect (\<lambda>r. key_answer kms material w (Some (rt_keyset r)) (payload r)) rs of
         Inr keys \<Rightarrow> dispatch max_len (kms_source kms buffered rng uctx url) keyset (map request_of rs) w
           = (Inr \<lparr>generated = [], retrieved = keys\<rparr>, w)
       | Inl _ \<Rightarrow> \<exists>r \<in> set rs. \<exists>e. key_answer kms material w (Some (rt_keyset r)) (payload r) = Inl e
           \<and> dispatch max_len (kms_source kms buffered rng uctx url) keyset (map request_of rs) w = (Inl (Kms e), w))"
proof -
  have src: "data_key_source (kms_source kms buffered rng uctx url) (key_answer kms material)"
  proof
    show "retrieve_keys (kms_source kms buffered rng uctx url) ps k s = (collect (key_answer kms material s k) ps, s)"
      for ps k s by (rule kms_source_retrieves [where buffered = buffered, OF assms(1-3)])
    show "length keys = length gs"
      if "generate_keys (kms_source kms buffered rng uctx url) gs k s = (Inr keys, s')" for gs k s keys s'
      using that by (rule kms_source_counts)
  qed
  with dispatch_retrieves_pointwise_lemma [OF src assms(4)] show ?thesis by blast
qed

text \<open>A ZeroKMS that hands back every tag as material, over a connection that is already
  pointed at it.\<close>

definition tag_kms :: "(unit, nat, unit, unit, unit, rstr, unit) stack_kms" where
  "tag_kms =
     \<lparr>sk_api = path_api, sk_derivation = demo_derivation,
      sk_connection = \<lparr>send_generate = (\<lambda>q t s. (Inr [], s)),
        send_retrieve = (\<lambda>q t s. (collect (\<lambda>spec. Inr (take 2 (rp_tag spec @ [0, 0]))) (kr_keys q), s)),
        send_retrieve_fallible = (\<lambda>q t s. (Inr [], s)), send_load = (\<lambda>q t s. (Inr (\<lparr>ki_id = 4, ki_name = []\<rparr>, []), s))\<rparr>,
      sk_keys_per_req = 1, sk_concurrent_reqs = 2,
      sk_credentials = (\<lambda>w. (Inr \<lparr>st_secret = [], st_zerokms_url = Inr [47]\<rparr>, w)), sk_client_key = demo_kms_key\<rparr>"

theorem zerokms_client_is_a_data_key_source_witness:
  "fst (dispatch 10 (kms_source tag_kms (\<lambda>_ m. rev [0..<m]) (\<lambda>_. Inl 0) () [47]) None (map request_of
     [\<lparr>rt_iv = [1], rt_tag = [7, 8], rt_descriptor = [], rt_keyset = 7\<rparr>,
      \<lparr>rt_iv = [2], rt_tag = [9], rt_descriptor = [], rt_keyset = 7\<rparr>]) ())
   = Inr \<lparr>generated = [], retrieved = [\<lparr>dk_iv = [1], dk_key = [1, 7, 8]\<rparr>, \<lparr>dk_iv = [2], dk_key = [2, 9, 0]\<rparr>]\<rparr>"
proof -
  let ?material = "\<lambda>(w :: unit) (k :: uuid option) (spec :: (unit, unit) retrieve_key_spec).
      Inr (take 2 (rp_tag spec @ [0, 0])) :: (nat vitur_request_error, bytes) result"
  let ?rs = "[\<lparr>rt_iv = [1], rt_tag = [7, 8], rt_descriptor = [], rt_keyset = 7\<rparr>,
      \<lparr>rt_iv = [2], rt_tag = [9], rt_descriptor = [], rt_keyset = 7\<rparr>]"
  have lim: "0 < sk_keys_per_req tag_kms" by (simp add: tag_kms_def)
  have ord: "{..<m} \<subseteq> set ((\<lambda>_ m. rev [0..<m]) (sk_concurrent_reqs tag_kms) m)" for m :: nat by auto
  have srv: "served_by tag_kms \<lparr>st_secret = [], st_zerokms_url = Inr [47]\<rparr> [47] ?material"
    by (auto simp: served_by_def tag_kms_def demo_derivation_def)
  have fit: "list_all (fits 10) (map rt_descriptor ?rs)"
    by (simp add: fits_def descriptor_len_def as_bytes_def)
  show ?thesis
    using zerokms_client_is_a_data_key_source [where buffered = "\<lambda>_ m. rev [0..<m]", OF lim ord srv fit, of "\<lambda>_. Inl 0" "()" "()" None]
    by (simp add: key_answer_def payload_def new_retrieve_payload_def Let_def data_key_from_material_def tag_kms_def
        demo_derivation_def)
qed

end
