(* ===== verification/Spec2Isabelle.thy ===== *)
theory Spec2Isabelle
  imports Guest_Call Keyset_Cache Descriptor Key_Source Refresh_Machine Device_Refresh Surface_Order
    Record_Roundtrip Sealed_Place Oidc_Machine Keyset_Select Kms_Setup Kms_Source
begin

text \<open>
  A verification library for the CipherStash stack, the Rust crates under \<open>src/packages\<close>.

  \<^bold>\<open>The program.\<close> \<open>stack-encrypt\<close> encrypts values under per-value data keys that ZeroKMS
  mints and retrieves; it describes each value by a descriptor the key is bound to, collects
  the requests of a whole record or column into one pending, settles it with batched calls,
  and caches what it knows of keysets. \<open>stack-kms\<close> is the client of ZeroKMS, over HTTP or a host's
  transport, with two in-memory sources of data keys. \<open>stack-auth\<close> gets and refreshes the access
  tokens those calls need. \<open>stack-profile\<close> keeps credentials in files shared by processes.
  \<open>stack-guest-abi\<close> is the WASI boundary over which non-Rust hosts call all this.

  \<^bold>\<open>The theories\<close>, each over the ones it uses:

  \<^item> \<open>Stack_Prelude\<close>: machine integers, results, association lists as hash maps, and the
    interface \<open>component\<close> (a step function, a guard and an invariant) that the cache, the
    guest registry and the processes sharing a profile are instances of.
  \<^item> \<open>Rust_Str\<close>: Rust strings as lists of Unicode scalar values, UTF-8 with its two-sided round
    trip, splitting, trimming and decimal printing.
  \<^item> \<open>Guest_Buffers\<close> (\<open>stack-guest-abi/src/buffers.rs\<close>): the registry of buffers over linear
    memory. It refines what the host may assume (a map from pointers to contents), hands
    registered bytes back unchanged, and wipes what it releases.
  \<^item> \<open>Guest_Status\<close>, \<open>Guest_Errors\<close>, \<open>Guest_Call\<close> (\<open>status.rs\<close>, \<open>last_error.rs\<close>, \<open>abi.rs\<close>, \<open>call.rs\<close>,
    \<open>transport.rs\<close>): status codes, the last-error slot and its encoding, the life cycle of an
    export, inputs, and the host transport.
  \<^item> \<open>Keyset_Cache\<close> (\<open>stack-encrypt/src/keyset.rs\<close>): the bounded cache of keysets by id and name,
    with tickets that order answers by the lookup they belong to. The invariant, the
    order of bindings and what an eviction or a negative answer closes for good, and the way a
    rename loses that order.
  \<^item> \<open>Descriptor\<close> (\<open>stack-encrypt/src/descriptor.rs\<close>): the frozen rendering of a context, and that
    it separates contexts; labels and their printed form.
  \<^item> \<open>Dyn_Value\<close> (\<open>stack-encrypt/src/dynamic/mod.rs\<close>, \<open>context.rs\<close>, \<open>term.rs\<close>, \<open>kind.rs\<close>): the values, errors,
    contexts and indexes of the dynamic path, as a host passes them in; an index survives its
    wire form.
  \<^item> \<open>Plan_Builder\<close> (\<open>plan/build.rs\<close>, \<open>plan/values.rs\<close>): the fields builder, the freezing of a plan, its
    runs and openings over a cipher that is an argument (\<open>engine\<close>), and its queries, which are
    derived under the label of what was stored.
  \<^item> \<open>Record_Plan\<close> (\<open>dynamic/record.rs\<close>, first half): a record plan read from a value, its constructors
    and its lowering to a built plan; every plan in hand holds the rules its operations rely
    on (\<open>plan_ok\<close>).
  \<^item> \<open>Record_Rows\<close> (\<open>dynamic/record.rs\<close>, second half): source rows, the stored shape, and encryption,
    decryption, queries and preflight checks of records and batches.
  \<^item> \<open>Record_Roundtrip\<close>: what is encrypted under a plan decrypts to the fields that come back, no two
    fields share a context, and a forged stored row is refused.
  \<^item> \<open>Pending\<close> (\<open>stack-encrypt/src/target/request.rs\<close>, \<open>pending.rs\<close>): pendings, their merging and
    scoping, and the batched dispatch, over the interface \<open>data_key_source\<close>.
  \<^item> \<open>Key_Source\<close> (\<open>stack-kms/src/key_source.rs\<close>): the fake and the deterministic source, which
    instantiate \<open>sealing_source\<close>; what is sealed in one batch opens in one batch.
  \<^item> \<open>Kms_Response\<close> (\<open>stack-kms/src/errors.rs\<close>, \<open>connection/classify.rs\<close>, \<open>connection/http.rs\<close>,
    \<open>endpoint.rs\<close>): the errors of a request, the classification of a response, the endpoint and the
    HTTP connection.
  \<^item> \<open>Kms_Client\<close> (\<open>client.rs\<close>, \<open>futures.rs\<close>, \<open>key.rs\<close>): the key operations, cut into requests that run
    concurrently under the client's limit and are answered in any order. Keys keep their places whatever the server
    answers, the cutting changes nothing, and a load fails the way it was answered.
  \<^item> \<open>Kms_Source\<close> (\<open>key_source.rs\<close>): the client as a data-key source. Against a ZeroKMS that answers every
    key on its own it satisfies \<open>data_key_source\<close>, so leaves open through it as they do through the
    in-memory sources.
  \<^item> \<open>Kms_Setup\<close> (\<open>builder.rs\<close>, \<open>key_provider.rs\<close>, \<open>secret_key.rs\<close>): where the client key and the endpoint
    come from, and the limits a client is built with; a built client never stalls on its own
    limits, and its requests go where it was told. An endpoint variable that is not Unicode is
    passed over, against its documentation.
  \<^item> \<open>Keyset_Select\<close> (\<open>stack-encrypt/src/cipher.rs\<close>, \<open>StackCipher::keyset\<close> and \<open>init\<close>): selections by
    many callers over the cache and the client; a caller gets the keyset it asked for, and
    only a 404 takes a name away.
  \<^item> \<open>Sealed_Tree\<close> (\<open>stack-encrypt/src/cipher.rs\<close>, \<open>target/core.rs\<close>): the drivers that turn a value into a
    tree of leaves, sealing with one data key per leaf, binding retrieved keys and opening, run
    through the pendings; what is encrypted decrypts under the same context, and the byte
    encoding of a leaf is exact.
  \<^item> \<open>Sealed_Place\<close>: over an ideal cipher, a stored tree whose labels were changed does not open.
  \<^item> \<open>Auth_Error\<close> (\<open>stack-auth/src/error.rs\<close>): the errors, their classes, their wire form and the
    classification of refused issuance.
  \<^item> \<open>Auto_Refresh\<close> (\<open>auto_refresh.rs\<close>, \<open>token.rs\<close>, the refreshers): expiry, and the engine's code
    between two suspension points as functions of its state. The interface \<open>refresher_laws\<close>
    is what the engine relies on; all three refreshers satisfy it.
  \<^item> \<open>Refresh_Machine\<close> (\<open>auto_refresh.rs\<close>): the interleaving of callers and refresh tasks, as an
    inductive step relation over the lock, the flag, the notify list and the clock. Single
    flight, a bound on the steps of a call, that every call is answered while no task is
    killed, and two interleavings in which a killed task strands a waiter.
  \<^item> \<open>Federation\<close> (\<open>access_key.rs\<close>, \<open>authorize_dto.rs\<close>, \<open>oidc_refresher.rs\<close>,
    \<open>oidc_federation_strategy/cache.rs\<close>): access keys, the exchange at \<open>/api/authorise\<close>, the digest of a JWT and
    the store bound to it, the check of a workspace, and the least-recently-used cache.
  \<^item> \<open>Oidc_Machine\<close> (\<open>oidc_federation_strategy.rs\<close>): the federation strategy as an interleaving of calls
    over the engines of \<open>Refresh_Machine\<close>. A caller gets a token of its own JWT and of the
    strategy's workspace, the two tiers of engines hold what they should, and a refusal harms
    nobody else.
  \<^item> \<open>Profile_Store\<close> (\<open>stack-profile/src/profile_store.rs\<close>): the store over a file system whose
    calls can fail, tear and be cut short. Atomic replacement, round trip, migration.
  \<^item> \<open>Device_Refresh\<close> (\<open>token.rs\<close>, \<open>device_session_refresher.rs\<close>): the exchange of a refresh token
    under the shared lock, over the files of \<open>Profile_Store\<close>, and several processes with one
    profile: while \<open>auth.json\<close> can be read and written, none presents a spent refresh token.
  \<^item> \<open>Surface_Order\<close> (\<open>eql/crates/eql-codegen/src/ordering.rs\<close>): the order in which the SQL files of
    EQL are installed; the sort ends, is deterministic, and is right about cycles.

  \<^bold>\<open>Conventions.\<close> A struct is a \<open>record\<close> and an enum a \<open>datatype\<close> with the source's constructors
  (renamed where a name is taken). An error is the left of a sum. A \<open>u32\<close> or \<open>u64\<close> is a word of
  that width, with saturating operations written out; lengths and indices are natural
  numbers. A hash map whose order does not matter is a function into \<open>option\<close>, one that is
  counted or searched for a minimum an association list with distinct keys. An asynchronous
  function is split at its suspension points. Code of other crates (JSON, base64, hashing,
  random bytes, UUIDs, transports, workspace ids) is an argument, and what is used of it is a
  hypothesis of the theorem that needs it.

  \<^bold>\<open>Loops and bounds.\<close> Every function is total: loops are structural recursion, or recursion with
  a measure (\<open>from_utf8\<close>, decimal printing, the cutting of a batch). The cause chain of an error stops at the
  \<open>MAX_CAUSES\<close> of the source, and a rename is tried at most its \<open>MAX_ATTEMPTS\<close> times. Only
  the topological sort has a bound of the model's own, the number of files, which is proved
  enough. A call of \<open>get_token\<close> takes at most nine steps of the machine,
  its refresh included, which \<open>Refresh_Machine\<close> proves.

  \<^bold>\<open>Not modelled.\<close> The derive macros, typed encryption (targets, fields picked by closures,
  one-value plans, the chain of calls), AES, the derivations of additional data and the index
  terms themselves, which are the vitaminc crates' and are arguments (the record path takes the
  sealing of one value as an argument, of which \<open>Sealed_Tree\<close> is the detail), the conversion of
  numbers between kinds, the HTTP client and its TLS, device codes, the builders of the
  authentication strategies and the choice among them, the decoding of a token's claims, EQL's
  domain catalogue and its templates, the guests built on the ABI, and the TypeScript bindings. The
  \<open>buffered\<close> adaptor of the \<open>futures\<close> crate is an argument, given the limit the client passes it;
  that it drives every future at a positive limit and none at zero are hypotheses of the one
  theorem that needs them. The counters of the two caches are natural numbers. The inline
  \<open>wasm32\<close> variant of the refresh engine, Windows path syntax and the help texts of errors are
  left out of the parts that are modelled.
\<close>

end
